(* ===== verification/Prelude.thy ===== *)
theory Prelude
  imports Main "HOL-Library.Word" "HOL-Library.Signed_Division"
begin

text \<open>
  Shared material: names for the types of the model, the lemma collections the component
  theories add to, generic facts about lists, and the \<open>codec\<close> interface that every
  encoder/decoder pair of the program provides.
\<close>

section \<open>Types and collections\<close>

text \<open>
  A C++ \<open>std::string\<close> and a \<open>string_piece\<close> are byte sequences: the type \<open>string\<close>
  (a list of 8-bit characters). A \<open>string_piece\<close> points into a buffer that outlives it, so it is
  modelled by the bytes it denotes. An operation that reports an error through an
  \<open>error\<close> string and \<open>false\<close> returns \<open>Inl\<close> of that string.
\<close>

type_synonym 'a result = "string + 'a"

named_theorems wf_intros \<open>introduction rules of the well-formedness invariants\<close>
named_theorems text_simps \<open>byte-level rewriting of printed and parsed text\<close>

text \<open>The code of a character, as \<open>(unsigned char) c\<close> reads it.\<close>

abbreviation byte_of :: "char \<Rightarrow> nat" where
  "byte_of c \<equiv> of_char c"

lemma byte_of_less: "byte_of c < 256"
proof -
  have "byte_of c = byte_of c mod 256" using of_char_of [of "byte_of c"] by simp
  then show ?thesis by simp
qed

abbreviation tab :: char where "tab \<equiv> CHR 0x09"
abbreviation lf :: char where "lf \<equiv> CHR 0x0A"
abbreviation cr :: char where "cr \<equiv> CHR 0x0D"
abbreviation space :: char where "space \<equiv> CHR 0x20"
abbreviation quote1 :: char where "quote1 \<equiv> CHR 0x27"

text \<open>A value between single quotes, the way the error messages show it.\<close>

definition quoted :: "string \<Rightarrow> string" where
  "quoted s = quote1 # s @ [quote1]"

section \<open>Lists\<close>

lemma takeWhile_neq_append [simp]:
  "x \<notin> set p \<Longrightarrow> takeWhile (\<lambda>c. c \<noteq> x) (p @ x # r) = p"
  by (subst takeWhile_append2) auto

lemma dropWhile_neq_append [simp]:
  "x \<notin> set p \<Longrightarrow> dropWhile (\<lambda>c. c \<noteq> x) (p @ x # r) = x # r"
  by (subst dropWhile_append2) auto

lemma takeWhile_neq_self [simp]: "x \<notin> set p \<Longrightarrow> takeWhile (\<lambda>c. c \<noteq> x) p = p"
  by (simp add: takeWhile_eq_all_conv) auto

lemma dropWhile_neq_self [simp]: "x \<notin> set p \<Longrightarrow> dropWhile (\<lambda>c. c \<noteq> x) p = []"
  by (simp add: dropWhile_eq_Nil_conv) auto

lemma dropWhile_neq_cases:
  obtains "x \<notin> set s" "dropWhile (\<lambda>c. c \<noteq> x) s = []" "takeWhile (\<lambda>c. c \<noteq> x) s = s"
  | p r where "s = p @ x # r" "x \<notin> set p" "dropWhile (\<lambda>c. c \<noteq> x) s = x # r"
      "takeWhile (\<lambda>c. c \<noteq> x) s = p"
proof (cases "x \<in> set s")
  case True
  then obtain p r where "s = p @ x # r" "x \<notin> set p" by (meson split_list_first)
  then show ?thesis using that(2) by simp
next
  case False
  then show ?thesis using that(1) by simp
qed

lemma length_dropWhile_Cons:
  "dropWhile P xs = y # ys \<Longrightarrow> length ys < length xs"
  using length_dropWhile_le [of P xs] by simp

lemma dropWhile_hd_append:
  "(xs = [] \<or> \<not> P (hd xs)) \<Longrightarrow> (\<And>y. y \<in> set ys \<Longrightarrow> P y) \<Longrightarrow> dropWhile P (ys @ xs) = xs"
  by (induction ys) (auto simp: neq_Nil_conv, cases xs, auto)

section \<open>The codec interface\<close>

text \<open>
  An encoder and a decoder that reads one item off the front of the input and returns the
  rest. The contract is the one-item round trip; a client that reads a counted sequence of
  items gets them all back.
\<close>

fun decode_many :: "('b list \<Rightarrow> ('a \<times> 'b list) option) \<Rightarrow> nat \<Rightarrow> 'b list \<Rightarrow> ('a list \<times> 'b list) option" where
  "decode_many dec 0 bs = Some ([], bs)"
| "decode_many dec (Suc n) bs = (case dec bs of None \<Rightarrow> None | Some (x, bs') \<Rightarrow>
     map_option (\<lambda>(xs, r). (x # xs, r)) (decode_many dec n bs'))"

locale codec =
  fixes enc :: "'a \<Rightarrow> 'b list"
    and dec :: "'b list \<Rightarrow> ('a \<times> 'b list) option"
    and valid :: "'a \<Rightarrow> bool"
  assumes dec_enc: "valid x \<Longrightarrow> dec (enc x @ r) = Some (x, r)"
begin

lemma decode_many_enc:
  "\<forall>x \<in> set xs. valid x \<Longrightarrow> decode_many dec (length xs) (concat (map enc xs) @ r) = Some (xs, r)"
  by (induction xs) (auto simp: dec_enc)

lemma enc_inj: "valid x \<Longrightarrow> valid y \<Longrightarrow> enc x @ r = enc y @ r' \<Longrightarrow> x = y \<and> r = r'"
  by (metis dec_enc option.inject prod.inject)

lemma concat_enc_inj:
  "\<forall>x \<in> set xs. valid x \<Longrightarrow> \<forall>y \<in> set ys. valid y \<Longrightarrow> length xs = length ys \<Longrightarrow>
   concat (map enc xs) = concat (map enc ys) \<Longrightarrow> xs = ys"
  using decode_many_enc [of xs "[]"] decode_many_enc [of ys "[]"] by simp

end

end
