(* ===== verification/Utf16.thy ===== *)
theory Utf16
  imports Prelude
begin

text \<open>
  The UTF-16 coder of \<open>src/unilib/utf16.h\<close> and \<open>utf16.cpp\<close>, over lists of 16-bit units
  (\<open>char16_t\<close>, here naturals; a narrowing to a unit is \<open>mod 0x10000\<close>).
\<close>

unbundle bit_operations_syntax

section \<open>Model\<close>

definition utf16_replacement :: nat where "utf16_replacement = 63"

fun utf16_decode :: "nat list \<Rightarrow> nat \<times> nat list" where
  "utf16_decode [] = (0, [])"
| "utf16_decode (w # s) =
     (if w < 0xD800 \<or> w \<ge> 0xE000 then (w, s)
      else if s = [] \<or> w \<ge> 0xDC00 then (utf16_replacement, s)
      else (let res = 0x10000 + push_bit 10 (w - 0xD800) in
            if hd s < 0xDC00 \<or> hd s \<ge> 0xE000 then (utf16_replacement, s)
            else (res + (hd s - 0xDC00), tl s)))"

definition utf16_append :: "nat \<Rightarrow> nat list" where
  "utf16_append chr =
     (if chr \<le> 0xFFFF then [chr mod 0x10000]
      else if chr \<le> 0x10FFFF then
        [(0xD800 + drop_bit 10 (chr - 0x10000)) mod 0x10000,
         (0xDC00 + ((chr - 0x10000) AND 0x3FF)) mod 0x10000]
      else [utf16_replacement])"

fun utf16_valid :: "nat list \<Rightarrow> bool" where
  "utf16_valid [] = True"
| "utf16_valid (w # s) =
     (if w \<ge> 0xD800 \<and> w < 0xDC00 then
        (case s of w1 # s' \<Rightarrow> \<not> (w1 < 0xDC00 \<or> w1 \<ge> 0xE000) \<and> utf16_valid s' | [] \<Rightarrow> False)
      else if w \<ge> 0xDC00 \<and> w < 0xE000 then False
      else utf16_valid s)"

lemma utf16_decode_length: "s \<noteq> [] \<Longrightarrow> length (snd (utf16_decode s)) < length s"
  by (cases s) (auto simp: Let_def)

function utf16_decode_all :: "nat list \<Rightarrow> nat list" where
  "utf16_decode_all s =
     (if s = [] then [] else (case utf16_decode s of (chr, s') \<Rightarrow> chr # utf16_decode_all s'))"
  by pat_completeness auto
termination
  by (relation "measure length") (auto dest!: utf16_decode_length, metis snd_conv)

declare utf16_decode_all.simps [simp del]

definition utf16_encode :: "nat list \<Rightarrow> nat list" where
  "utf16_encode chrs = concat (map utf16_append chrs)"

section \<open>Lemmas\<close>

text \<open>A code point that is not a surrogate: what a 21-bit Unicode scalar value is.\<close>

definition scalar_value :: "nat \<Rightarrow> bool" where
  "scalar_value chr \<longleftrightarrow> chr \<le> 0x10FFFF \<and> (chr < 0xD800 \<or> chr \<ge> 0xE000)"

lemma and_3FF: "(n::nat) AND 0x3FF = n mod 1024"
  using take_bit_eq_mask [of 10 n] by (simp add: take_bit_eq_mod mask_eq_exp_minus_1)

lemma utf16_append_bmp: "chr \<le> 0xFFFF \<Longrightarrow> utf16_append chr = [chr]"
  by (simp add: utf16_append_def)

lemma utf16_append_surrogates:
  assumes "x < 1024 * 1024"
  shows "utf16_append (x + 0x10000) = [0xD800 + x div 1024, 0xDC00 + x mod 1024]"
proof -
  have "x div 1024 < 1024" using assms by (simp add: less_mult_imp_div_less)
  then have "(0xD800 + x div 1024) mod 0x10000 = 0xD800 + x div 1024" by (intro mod_less) simp
  moreover have "(0xDC00 + x mod 1024) mod 0x10000 = 0xDC00 + x mod 1024" by (intro mod_less) simp
  ultimately show ?thesis
    using assms by (simp add: utf16_append_def drop_bit_eq_div and_3FF)
qed

lemma scalar_value_cases:
  assumes "scalar_value chr"
  obtains "chr \<le> 0xFFFF" "chr < 0xD800 \<or> chr \<ge> 0xE000"
  | x where "chr = x + 0x10000" "x < 1024 * 1024" "x div 1024 < 1024" "x mod 1024 < 1024"
proof (cases "chr \<le> 0xFFFF")
  case True
  then show ?thesis using assms that(1) by (simp add: scalar_value_def)
next
  case False
  then show ?thesis
    using assms that(2) [of "chr - 0x10000"] by (simp add: scalar_value_def less_mult_imp_div_less)
qed

lemma utf16_decode_append:
  assumes "scalar_value chr"
  shows "utf16_decode (utf16_append chr @ r) = (chr, r)"
  using assms
proof (cases rule: scalar_value_cases)
  case (2 x)
  have "x mod 1024 + x div 1024 * 1024 = x" by simp
  with 2 show ?thesis by (simp add: utf16_append_surrogates push_bit_eq_mult not_le)
qed (auto simp: utf16_append_bmp)

lemma utf16_append_not_Nil [simp]: "utf16_append chr \<noteq> []"
  by (simp add: utf16_append_def)

interpretation utf16: codec utf16_append
  "\<lambda>s. if s = [] then None else Some (utf16_decode s)" scalar_value
  by unfold_locales (simp add: utf16_decode_append)

lemma utf16_decode_all_Nil [simp]: "utf16_decode_all [] = []"
  by (simp add: utf16_decode_all.simps)

lemma utf16_decode_all_encode:
  "\<forall>chr \<in> set chrs. scalar_value chr \<Longrightarrow> utf16_decode_all (utf16_encode chrs @ r) = chrs @ utf16_decode_all r"
proof (induction chrs)
  case (Cons chr chrs)
  then show ?case
    using utf16_decode_append [of chr "utf16_encode chrs @ r"]
    by (subst utf16_decode_all.simps) (auto simp: utf16_encode_def)
qed (simp add: utf16_encode_def)

lemma utf16_valid_append:
  assumes "scalar_value chr"
  shows "utf16_valid (utf16_append chr @ r) = utf16_valid r"
  using assms
proof (cases rule: scalar_value_cases)
  case (2 x)
  then show ?thesis by (simp add: utf16_append_surrogates not_le)
qed (auto simp: utf16_append_bmp)

text \<open>Unlike UTF-8, valid UTF-16 is canonical: encoding the decoded text gives it back.\<close>

lemma utf16_canonical:
  "utf16_valid s \<Longrightarrow> \<forall>w \<in> set s. w < 0x10000 \<Longrightarrow> utf16_encode (utf16_decode_all s) = s"
proof (induction s rule: utf16_valid.induct)
  case (2 w s)
  show ?case
  proof (cases "w \<ge> 0xD800 \<and> w < 0xDC00")
    case True
    with 2(3) obtain w1 s' where s: "s = w1 # s'" and w1: "0xDC00 \<le> w1" "w1 < 0xE000"
      by (auto split: list.splits)
    define a b where "a = w - 0xD800" and "b = w1 - 0xDC00"
    have ab: "w = 0xD800 + a" "w1 = 0xDC00 + b" "a < 1024" "b < 1024"
      using True w1 by (auto simp: a_def b_def)
    then have "a * 1024 + b < 1024 * 1024" by simp
    moreover have "(a * 1024 + b) div 1024 = a" "(a * 1024 + b) mod 1024 = b"
      using ab by auto
    ultimately have "utf16_append (a * 1024 + b + 0x10000) = [w, w1]"
      by (subst utf16_append_surrogates) (simp_all add: ab)
    then have "utf16_append (fst (utf16_decode (w # s))) = [w, w1]"
      using ab by (simp add: s push_bit_eq_mult add.assoc add.commute)
    then show ?thesis
      using 2 True w1 s by (subst utf16_decode_all.simps) (auto simp: utf16_encode_def Let_def)
  next
    case False
    with 2(3) have "w < 0xD800 \<or> w \<ge> 0xE000" "utf16_valid s" by (auto split: if_splits)
    with 2 False show ?thesis
      by (subst utf16_decode_all.simps) (auto simp: utf16_encode_def utf16_append_bmp)
  qed
qed (simp add: utf16_encode_def)


section \<open>Properties\<close>

text \<open>
  UTF-16 is a bijection between lists of Unicode scalar values and valid lists of 16-bit
  units: encoded scalar values decode to themselves, and valid units re-encode to themselves.
\<close>

theorem utf16_bijection:
  assumes "\<forall>chr \<in> set chrs. scalar_value chr" "utf16_valid s" "\<forall>w \<in> set s. w < 0x10000"
  shows "utf16_decode_all (utf16_encode chrs) = chrs \<and> utf16_encode (utf16_decode_all s) = s"
  using utf16_decode_all_encode [OF assms(1), of "[]"] utf16_canonical [OF assms(2,3)]
  by (simp add: utf16_decode_all.simps)

lemma utf16_bijection_witness:
  "utf16_decode_all (utf16_encode [0x1F600, 65]) = [0x1F600, 65] \<and>
   utf16_encode (utf16_decode_all [0xD83D, 0xDE00]) = [0xD83D, 0xDE00]"
  using utf16_bijection [of "[0x1F600, 65]" "[0xD83D, 0xDE00]"] by (simp add: scalar_value_def)

end
