(* ===== verification/Text_Utils.thy ===== *)
theory Text_Utils
  imports Prelude
begin

text \<open>
  The text helpers of \<open>src/utils\<close>: splitting on a separator (\<open>split.h\<close>), parsing and
  printing of integers (\<open>parse_int.h\<close> and \<open>std::to_string\<close>), reading blocks of lines
  (\<open>getpara.h\<close>, \<open>getwhole.h\<close>) and XML escaping (\<open>xml_encoded.h\<close>).
\<close>

section \<open>Splitting\<close>

text \<open>
  The loop of \<open>split\<close>: every separator found closes a piece, what is left after the last
  one is the final piece.
\<close>

function split_pieces :: "char \<Rightarrow> string \<Rightarrow> string list" where
  "split_pieces sep s = takeWhile (\<lambda>c. c \<noteq> sep) s #
     (case dropWhile (\<lambda>c. c \<noteq> sep) s of [] \<Rightarrow> [] | _ # r \<Rightarrow> split_pieces sep r)"
  by pat_completeness auto
termination
  by (relation "measure (\<lambda>(_, s). length s)") (auto dest: length_dropWhile_Cons)

declare split_pieces.simps [simp del]

definition split :: "string \<Rightarrow> char \<Rightarrow> string list" where
  "split text sep = (if text = [] then [] else split_pieces sep text)"

fun join :: "char \<Rightarrow> string list \<Rightarrow> string" where
  "join sep [] = []"
| "join sep [p] = p"
| "join sep (p # q # ps) = p @ sep # join sep (q # ps)"

lemma join_Cons: "ps \<noteq> [] \<Longrightarrow> join sep (p # ps) = p @ sep # join sep ps"
  by (cases ps) auto

lemma split_pieces_last [simp]: "sep \<notin> set p \<Longrightarrow> split_pieces sep p = [p]"
  by (simp add: split_pieces.simps)

lemma split_pieces_sep [simp]:
  "sep \<notin> set p \<Longrightarrow> split_pieces sep (p @ sep # r) = p # split_pieces sep r"
  by (subst split_pieces.simps) simp

lemma split_pieces_Nil [simp]: "split_pieces sep [] = [[]]"
  by simp

lemma split_pieces_not_Nil [simp]: "split_pieces sep s \<noteq> []"
  by (subst split_pieces.simps) simp

text \<open>Induction along the separators, for facts about \<open>split_pieces\<close>.\<close>

lemma split_induct [case_names last sep]:
  assumes "\<And>p. sep \<notin> set p \<Longrightarrow> P p"
    and "\<And>p r. sep \<notin> set p \<Longrightarrow> P r \<Longrightarrow> P (p @ sep # r)"
  shows "P s"
proof (induction s rule: length_induct)
  case (1 s)
  show ?case
    by (cases s rule: dropWhile_neq_cases [of sep]) (use 1 assms in auto)
qed

lemma join_split_pieces: "join sep (split_pieces sep s) = s"
  by (induction s rule: split_induct [of sep]) (auto simp: join_Cons)

lemma split_pieces_join:
  "ps \<noteq> [] \<Longrightarrow> \<forall>p \<in> set ps. sep \<notin> set p \<Longrightarrow> split_pieces sep (join sep ps) = ps"
  by (induction sep ps rule: join.induct) auto

lemma split_pieces_no_sep: "p \<in> set (split_pieces sep s) \<Longrightarrow> sep \<notin> set p"
  by (induction s rule: split_induct [of sep]) auto

lemma set_split_pieces: "p \<in> set (split_pieces sep s) \<Longrightarrow> set p \<subseteq> set s"
  by (induction s rule: split_induct [of sep]) auto

lemma split_join: "ps \<noteq> [] \<Longrightarrow> ps \<noteq> [[]] \<Longrightarrow> \<forall>p \<in> set ps. sep \<notin> set p \<Longrightarrow> split (join sep ps) sep = ps"
  by (cases ps; cases "tl ps") (auto simp: split_def split_pieces_join join_Cons)

lemma join_split: "join sep (split s sep) = s"
  by (simp add: split_def join_split_pieces)

text \<open>\<open>std::string::find\<close> of a character from a position on; \<open>None\<close> is \<open>npos\<close>.\<close>

definition str_find :: "char \<Rightarrow> string \<Rightarrow> nat \<Rightarrow> nat option" where
  "str_find c s i =
     (if c \<in> set (drop i s) then Some (i + length (takeWhile (\<lambda>d. d \<noteq> c) (drop i s))) else None)"

lemma str_find_append [simp]: "c \<notin> set p \<Longrightarrow> str_find c (q @ p @ c # r) (length q) = Some (length q + length p)"
  by (simp add: str_find_def)

lemma str_find_None [simp]: "c \<notin> set p \<Longrightarrow> str_find c (q @ p) (length q) = None"
  by (simp add: str_find_def)

lemma str_find_bounds: "str_find c s i = Some j \<Longrightarrow> i \<le> j \<and> j < length s \<and> s ! j = c"
proof -
  assume a: "str_find c s i = Some j"
  then obtain p r where s: "drop i s = p @ c # r" "c \<notin> set p" and j: "j = i + length p"
    by (auto simp: str_find_def split: if_splits dest!: split_list_first)
  have "i \<le> length s" using s(1) by (metis Nil_is_append_conv drop_all linorder_le_cases list.distinct(1))
  moreover have "length s - i = length p + Suc (length r)"
    using arg_cong [OF s(1), of length] by simp
  moreover have "drop i s ! length p = c" by (simp add: s(1))
  ultimately show ?thesis using j by (simp add: nth_drop)
qed

section \<open>Printing of integers\<close>

text \<open>\<open>std::to_string\<close> on a non-negative and on a signed number.\<close>

definition digit_char :: "nat \<Rightarrow> char" where
  "digit_char d = char_of (48 + d)"

fun show_nat :: "nat \<Rightarrow> string" where
  "show_nat n = (if n < 10 then [digit_char n] else show_nat (n div 10) @ [digit_char (n mod 10)])"

declare show_nat.simps [simp del]

definition show_int :: "int \<Rightarrow> string" where
  "show_int i = (if i < 0 then CHR ''-'' # show_nat (nat (- i)) else show_nat (nat i))"

definition is_digit :: "char \<Rightarrow> bool" where
  "is_digit c \<longleftrightarrow> 48 \<le> byte_of c \<and> byte_of c \<le> 57"

definition digit_val :: "char \<Rightarrow> nat" where
  "digit_val c = byte_of c - 48"

definition digits_val :: "string \<Rightarrow> nat" where
  "digits_val ds = foldl (\<lambda>v c. 10 * v + digit_val c) 0 ds"

lemma is_digit_digit_char [simp]: "d < 10 \<Longrightarrow> is_digit (digit_char d)"
  by (simp add: is_digit_def digit_char_def)

lemma digit_val_digit_char [simp]: "d < 10 \<Longrightarrow> digit_val (digit_char d) = d"
  by (simp add: digit_val_def digit_char_def)

lemma digits_val_Nil [simp]: "digits_val [] = 0"
  by (simp add: digits_val_def)

lemma digits_val_snoc [simp]: "digits_val (ds @ [d]) = 10 * digits_val ds + digit_val d"
  by (simp add: digits_val_def)

lemma show_nat_digits: "c \<in> set (show_nat n) \<Longrightarrow> is_digit c"
  by (induction n rule: show_nat.induct) (subst (asm) (2) show_nat.simps, auto split: if_splits)

lemma show_nat_not_Nil [simp]: "show_nat n \<noteq> []"
  by (subst show_nat.simps) simp

lemma digits_val_show_nat [simp]: "digits_val (show_nat n) = n"
proof (induction n rule: show_nat.induct)
  case (1 n)
  show ?case
  proof (cases "n < 10")
    case True
    then show ?thesis by (subst show_nat.simps) (simp add: digits_val_def)
  next
    case False
    with 1 show ?thesis by (subst show_nat.simps) simp
  qed
qed

lemma show_nat_inj: "show_nat m = show_nat n \<longleftrightarrow> m = n"
  by (metis digits_val_show_nat)

lemma not_digit_in_show_nat [simp]: "\<not> is_digit c \<Longrightarrow> c \<notin> set (show_nat n)"
  using show_nat_digits by blast

section \<open>Parsing of integers\<close>

definition int_max :: int where "int_max = 2147483647"
definition int_min :: int where "int_min = -2147483648"

definition is_space :: "char \<Rightarrow> bool" where
  "is_space c \<longleftrightarrow> c \<in> {space, CHR 0x0C, lf, cr, tab, CHR 0x0B}"

definition parse_int_error :: "string \<Rightarrow> string \<Rightarrow> string \<Rightarrow> string" where
  "parse_int_error value_name original what =
     ''Cannot parse '' @ value_name @ '' int value '' @ quoted original @ '': '' @ what"

text \<open>
  The digit loop, with its overflow test before each step. The C++ division truncates towards
  zero (\<open>sdiv\<close>). \<open>Inl\<close> carries the end of the error message, \<open>Inr\<close> the value and the text
  where the loop stopped.
\<close>

fun parse_digits :: "bool \<Rightarrow> int \<Rightarrow> string \<Rightarrow> (int \<times> string) result" where
  "parse_digits positive v [] = Inr (v, [])"
| "parse_digits positive v (c # s) =
     (if is_digit c then
        (let d = int (digit_val c) in
         if positive then
           (if v > (int_max - d) sdiv 10 then Inl ''overflow occured.''
            else parse_digits positive (10 * v + d) s)
         else
           (if v < (int_min + d) sdiv 10 then Inl ''underflow occured.''
            else parse_digits positive (10 * v - d) s))
      else Inr (v, c # s))"

definition parse_int :: "string \<Rightarrow> string \<Rightarrow> int result" where
  "parse_int str value_name =
     (let s = dropWhile is_space str;
          signed = s \<noteq> [] \<and> (hd s = CHR ''+'' \<or> hd s = CHR ''-'');
          positive = (signed \<longrightarrow> hd s = CHR ''+'');
          s = (if signed then tl s else s)
      in if s = [] then Inl (parse_int_error value_name str ''empty string.'')
         else case parse_digits positive 0 s of
           Inl what \<Rightarrow> Inl (parse_int_error value_name str what)
         | Inr (v, s) \<Rightarrow>
             if dropWhile is_space s \<noteq> [] then Inl (parse_int_error value_name str ''non-digit character found.'')
             else Inr v)"

lemma digit_val_less: "is_digit c \<Longrightarrow> digit_val c < 10"
  by (auto simp: is_digit_def digit_val_def)

lemma is_space_not_digit: "is_space c \<Longrightarrow> \<not> is_digit c"
  by (auto simp: is_space_def is_digit_def)

lemma digit_not_space [simp]: "is_digit c \<Longrightarrow> \<not> is_space c"
  using is_space_not_digit by blast

lemma signs_not_digit [simp]: "\<not> is_digit (CHR ''-'')" "\<not> is_digit (CHR ''+'')"
  by (auto simp: is_digit_def)

lemma not_over: "d < 10 \<Longrightarrow> \<not> v > (int_max - int d) sdiv 10 \<longleftrightarrow> 10 * v + int d \<le> int_max"
  by (auto simp: int_max_def signed_divide_int_def)

lemma not_under: "d < 10 \<Longrightarrow> \<not> v < (int_min + int d) sdiv 10 \<longleftrightarrow> int_min \<le> 10 * v - int d"
  by (auto simp: int_min_def signed_divide_int_def)

text \<open>The value of a digit sequence that follows a value already read.\<close>

definition signed_val :: "bool \<Rightarrow> int \<Rightarrow> string \<Rightarrow> int" where
  "signed_val positive v ds = foldl (\<lambda>v c. if positive then 10 * v + int (digit_val c) else 10 * v - int (digit_val c)) v ds"

lemma signed_val_digits:
  "signed_val positive 0 ds = (if positive then int (digits_val ds) else - int (digits_val ds))"
  by (induction ds rule: rev_induct) (auto simp: signed_val_def)

lemma signed_val_Nil [simp]: "signed_val positive v [] = v"
  by (simp add: signed_val_def)

lemma signed_val_Cons: "signed_val positive v (c # ds) =
    signed_val positive (if positive then 10 * v + int (digit_val c) else 10 * v - int (digit_val c)) ds"
  by (simp add: signed_val_def)

lemma signed_val_ge: "positive \<Longrightarrow> 0 \<le> v \<Longrightarrow> v \<le> signed_val positive v ds"
proof (induction ds arbitrary: v)
  case (Cons c ds)
  have "v \<le> 10 * v + int (digit_val c)" using Cons.prems by simp
  also have "\<dots> \<le> signed_val positive (10 * v + int (digit_val c)) ds"
    using Cons.prems by (intro Cons.IH) auto
  finally show ?case using Cons.prems by (simp add: signed_val_Cons)
qed simp

lemma signed_val_le: "\<not> positive \<Longrightarrow> v \<le> 0 \<Longrightarrow> signed_val positive v ds \<le> v"
proof (induction ds arbitrary: v)
  case (Cons c ds)
  have "signed_val positive (10 * v - int (digit_val c)) ds \<le> 10 * v - int (digit_val c)"
    using Cons.prems by (intro Cons.IH) auto
  also have "\<dots> \<le> v" using Cons.prems by simp
  finally show ?case using Cons.prems by (simp add: signed_val_Cons)
qed simp

definition in_int_range :: "int \<Rightarrow> bool" where
  "in_int_range v \<longleftrightarrow> int_min \<le> v \<and> v \<le> int_max"

lemma parse_digits_Inr:
  assumes "\<forall>c \<in> set ds. is_digit c" "r = [] \<or> \<not> is_digit (hd r)"
    and "if positive then 0 \<le> v \<and> signed_val positive v ds \<le> int_max
         else v \<le> 0 \<and> int_min \<le> signed_val positive v ds"
  shows "parse_digits positive v (ds @ r) = Inr (signed_val positive v ds, r)"
  using assms
proof (induction ds arbitrary: v)
  case Nil
  then show ?case by (cases r) (auto simp: signed_val_def)
next
  case (Cons c ds)
  let ?v = "if positive then 10 * v + int (digit_val c) else 10 * v - int (digit_val c)"
  have c: "is_digit c" and lt: "digit_val c < 10"
    using Cons.prems digit_val_less by auto
  have next_val: "signed_val positive v (c # ds) = signed_val positive ?v ds"
    by (rule signed_val_Cons)
  have "if positive then 0 \<le> ?v \<and> ?v \<le> int_max else ?v \<le> 0 \<and> int_min \<le> ?v"
    using Cons.prems(3) signed_val_ge [of positive ?v ds] signed_val_le [of positive ?v ds]
    unfolding next_val by (auto split: if_splits)
  then show ?case
    using Cons.IH [of ?v] Cons.prems not_over [OF lt, of v] not_under [OF lt, of v] c
    unfolding next_val by (auto simp: Let_def split: if_splits)
qed

lemma parse_digits_Inr_D:
  assumes "parse_digits positive v s = Inr (w, r)"
    and "if positive then 0 \<le> v \<and> v \<le> int_max else v \<le> 0 \<and> int_min \<le> v"
  shows "\<exists>ds. s = ds @ r \<and> (\<forall>c \<in> set ds. is_digit c) \<and> w = signed_val positive v ds \<and> in_int_range w"
  using assms
proof (induction positive v s rule: parse_digits.induct)
  case (1 positive v)
  then show ?case by (auto simp: signed_val_def in_int_range_def int_max_def int_min_def split: if_splits)
next
  case (2 positive v c s)
  show ?case
  proof (cases "is_digit c")
    case False
    with 2(3,4) show ?thesis
      by (intro exI [of _ "[]"]) (auto simp: signed_val_def in_int_range_def int_max_def int_min_def split: if_splits)
  next
    case True
    let ?v = "if positive then 10 * v + int (digit_val c) else 10 * v - int (digit_val c)"
    have lt: "digit_val c < 10" using True by (rule digit_val_less)
    have rec: "parse_digits positive ?v s = Inr (w, r)"
      and bnd: "if positive then 0 \<le> ?v \<and> ?v \<le> int_max else ?v \<le> 0 \<and> int_min \<le> ?v"
      using 2(3,4) True not_over [OF lt, of v] not_under [OF lt, of v]
      by (auto simp: Let_def split: if_splits)
    obtain ds where "s = ds @ r" "\<forall>c \<in> set ds. is_digit c" "w = signed_val positive ?v ds" "in_int_range w"
      using 2(1,2) True rec bnd 2(3) by (auto simp: Let_def split: if_splits)
    then show ?thesis
      using True by (intro exI [of _ "c # ds"]) (auto simp: signed_val_Cons)
  qed
qed

text \<open>The texts that \<open>parse_int\<close> accepts, and the value they denote.\<close>

definition int_text :: "string \<Rightarrow> int \<Rightarrow> bool" where
  "int_text str v \<longleftrightarrow> (\<exists>sp sg ds sp'. str = sp @ sg @ ds @ sp' \<and>
     (\<forall>c \<in> set (sp @ sp'). is_space c) \<and> (\<forall>c \<in> set ds. is_digit c) \<and>
     sg \<in> {[], ''+'', ''-''} \<and> ds @ sp' \<noteq> [] \<and> (sg = [] \<longrightarrow> ds \<noteq> []) \<and>
     v = (if sg = ''-'' then - int (digits_val ds) else int (digits_val ds)))"

lemma spaces_signs [simp]: "\<not> is_space (CHR ''-'')" "\<not> is_space (CHR ''+'')"
  by (auto simp: is_space_def)

lemma parse_int_complete:
  assumes "int_text str v" "in_int_range v"
  shows "parse_int str value_name = Inr v"
proof -
  obtain sp sg ds sp' where str: "str = sp @ sg @ ds @ sp'"
    and spaces: "\<forall>c \<in> set (sp @ sp'). is_space c" and ds: "\<forall>c \<in> set ds. is_digit c"
    and sg: "sg \<in> {[], ''+'', ''-''}" and ne: "ds @ sp' \<noteq> []" "sg = [] \<longrightarrow> ds \<noteq> []"
    and v: "v = (if sg = ''-'' then - int (digits_val ds) else int (digits_val ds))"
    using assms(1) unfolding int_text_def by blast
  have sps: "\<forall>c \<in> set sp. is_space c" "\<forall>c \<in> set sp'. is_space c"
    using spaces by auto
  have hd: "sg @ ds @ sp' = [] \<or> \<not> is_space (hd (sg @ ds @ sp'))"
    using sg ne ds by (cases ds) auto
  have dw: "dropWhile is_space str = sg @ ds @ sp'"
    unfolding str using hd sps(1) by (intro dropWhile_hd_append) auto
  have stop: "sp' = [] \<or> \<not> is_digit (hd sp')"
    using sps(2) is_space_not_digit by (cases sp') auto
  have digs: "parse_digits (sg \<noteq> ''-'') 0 (ds @ sp') = Inr (v, sp')"
    using parse_digits_Inr [OF ds stop, of "sg \<noteq> ''-''" 0] assms(2) v
    by (auto simp: signed_val_digits in_int_range_def split: if_splits)
  have end_sp: "dropWhile is_space sp' = []"
    using sps(2) by (simp add: dropWhile_eq_Nil_conv)
  have sgn: "ds @ sp' \<noteq> [] \<Longrightarrow> sg = [] \<Longrightarrow> hd (ds @ sp') \<noteq> CHR ''+'' \<and> hd (ds @ sp') \<noteq> CHR ''-''"
    using ne ds signs_not_digit by (cases ds) auto
  show ?thesis
    using sg ne digs end_sp sgn unfolding parse_int_def dw by (auto simp: Let_def)
qed

lemma parse_int_sound:
  assumes "parse_int str value_name = Inr v"
  shows "int_text str v \<and> in_int_range v"
proof -
  let ?s = "dropWhile is_space str"
  define sg where "sg = (if ?s \<noteq> [] \<and> (hd ?s = CHR ''+'' \<or> hd ?s = CHR ''-'') then [hd ?s] else [])"
  define s where "s = (if sg = [] then ?s else tl ?s)"
  have s: "?s = sg @ s" and sg: "sg \<in> {[], ''+'', ''-''}"
    by (auto simp: sg_def s_def)
  have "s \<noteq> []" and "\<exists>sp'. parse_digits (sg \<noteq> ''-'') 0 s = Inr (v, sp') \<and> dropWhile is_space sp' = []"
    using assms unfolding parse_int_def s_def sg_def
    by (auto simp: Let_def split: if_splits sum.splits)
  then obtain sp' where pd: "parse_digits (sg \<noteq> ''-'') 0 s = Inr (v, sp')" and sp': "\<forall>c \<in> set sp'. is_space c"
    by (auto simp: dropWhile_eq_Nil_conv)
  obtain ds where ds: "s = ds @ sp'" "\<forall>c \<in> set ds. is_digit c" "v = signed_val (sg \<noteq> ''-'') 0 ds" "in_int_range v"
  proof -
    have "if sg \<noteq> ''-'' then 0 \<le> (0::int) \<and> 0 \<le> int_max else (0::int) \<le> 0 \<and> int_min \<le> 0"
      by (simp add: int_max_def int_min_def)
    from parse_digits_Inr_D [OF pd this] show ?thesis using that by blast
  qed
  have "sg = [] \<longrightarrow> ds \<noteq> []"
  proof
    assume "sg = []"
    then have "\<not> is_space (hd s)" using s \<open>s \<noteq> []\<close> by (metis append_Nil hd_dropWhile)
    then show "ds \<noteq> []" using ds(1) sp' \<open>s \<noteq> []\<close> by (cases ds) auto
  qed
  moreover have "str = takeWhile is_space str @ sg @ ds @ sp'"
    using takeWhile_dropWhile_id [of is_space str] unfolding s ds(1) by (rule sym)
  moreover have "\<forall>c \<in> set (takeWhile is_space str @ sp'). is_space c"
    using sp' by (auto dest: set_takeWhileD)
  moreover have "v = (if sg = ''-'' then - int (digits_val ds) else int (digits_val ds))"
    unfolding ds(3) by (simp add: signed_val_digits)
  ultimately have "int_text str v"
    unfolding int_text_def using ds(1,2) sg \<open>s \<noteq> []\<close> by blast
  then show ?thesis using ds(4) by simp
qed

lemma int_text_show_int: "int_text (show_int i) i"
  unfolding int_text_def show_int_def
  by (intro exI [of _ "[]"] exI [of _ "if i < 0 then ''-'' else []"] exI [of _ "show_nat (nat \<bar>i\<bar>)"])
     (auto dest: show_nat_digits)

lemma parse_show_int [simp]: "in_int_range i \<Longrightarrow> parse_int (show_int i) nm = Inr i"
  by (rule parse_int_complete [OF int_text_show_int])

section \<open>Reading blocks of lines\<close>

text \<open>
  The input stream is the list of bytes not read yet. \<open>std::getline\<close> fails at the end of
  the stream and otherwise takes the bytes up to a newline, which it drops.
\<close>

definition getline :: "string \<Rightarrow> (string \<times> string) option" where
  "getline is = (if is = [] then None
     else Some (takeWhile (\<lambda>c. c \<noteq> lf) is, tl (dropWhile (\<lambda>c. c \<noteq> lf) is)))"

lemma getline_length: "getline is = Some (l, is') \<Longrightarrow> length is' < length is"
  using length_dropWhile_le [of "\<lambda>c. c \<noteq> lf" "is"] by (cases "is") (auto simp: getline_def split: if_splits)

text \<open>
  \<open>getpara\<close> takes lines up to and including an empty one; \<open>getwhole\<close> all of them. The
  stream tests as good exactly when something was read.
\<close>

function getpara_loop :: "string \<Rightarrow> string \<Rightarrow> string \<times> string" where
  "getpara_loop para is = (case getline is of
     None \<Rightarrow> (para, is)
   | Some (line, is') \<Rightarrow>
       (let para = para @ line @ [lf] in if line = [] then (para, is') else getpara_loop para is'))"
  by pat_completeness auto
termination by (relation "measure (\<lambda>(_, is). length is)") (auto dest: getline_length)

function getwhole_loop :: "string \<Rightarrow> string \<Rightarrow> string \<times> string" where
  "getwhole_loop whole is = (case getline is of
     None \<Rightarrow> (whole, is)
   | Some (line, is') \<Rightarrow> getwhole_loop (whole @ line @ [lf]) is')"
  by pat_completeness auto
termination by (relation "measure (\<lambda>(_, is). length is)") (auto dest: getline_length)

declare getpara_loop.simps [simp del] getwhole_loop.simps [simp del]

definition getpara :: "string \<Rightarrow> (string \<times> string) option" where
  "getpara is = (let (para, is') = getpara_loop [] is in if para = [] then None else Some (para, is'))"

definition getwhole :: "string \<Rightarrow> (string \<times> string) option" where
  "getwhole is = (let (whole, is') = getwhole_loop [] is in if whole = [] then None else Some (whole, is'))"

text \<open>No byte is lost: a text that ends in a newline is read back as it is.\<close>

lemma getline_append: "getline is = Some (l, is') \<Longrightarrow> last is = lf \<Longrightarrow>
    is = l @ lf # is' \<and> (is' \<noteq> [] \<longrightarrow> last is' = lf)"
  by (cases "is" rule: dropWhile_neq_cases [of lf])
     (auto simp: getline_def split: if_splits dest: last_in_set)

lemma getwhole_loop_append: "is = [] \<or> last is = lf \<Longrightarrow> getwhole_loop w is = (w @ is, [])"
proof (induction w "is" rule: getwhole_loop.induct)
  case (1 w "is")
  show ?case
  proof (cases "getline is")
    case None
    then show ?thesis by (subst getwhole_loop.simps) (auto simp: getline_def split: if_splits)
  next
    case (Some p)
    then obtain l is' where p: "getline is = Some (l, is')" by (cases p) auto
    then have "last is = lf" using 1(2) by (auto simp: getline_def)
    then have "is = l @ lf # is'" "is' = [] \<or> last is' = lf" using getline_append [OF p] by auto
    then show ?thesis using 1(1) [OF p] p by (subst getwhole_loop.simps) auto
  qed
qed

lemma getwhole_lines: "is \<noteq> [] \<Longrightarrow> last is = lf \<Longrightarrow> getwhole is = Some (is, [])"
  by (simp add: getwhole_def getwhole_loop_append)

lemma getpara_loop_append: "is = [] \<or> last is = lf \<Longrightarrow> getpara_loop w is = (p, r) \<Longrightarrow> p @ r = w @ is"
proof (induction w "is" rule: getpara_loop.induct)
  case (1 w "is")
  show ?case
  proof (cases "getline is")
    case None
    with 1(3) show ?thesis by (subst (asm) getpara_loop.simps) auto
  next
    case (Some q)
    then obtain l is' where q: "getline is = Some (l, is')" by (cases q) auto
    then have "last is = lf" using 1(2) by (auto simp: getline_def)
    then have "is = l @ lf # is'" "is' = [] \<or> last is' = lf" using getline_append [OF q] by auto
    then show ?thesis using 1(1) [OF q] 1(3) q
      using getpara_loop.simps [of w "is"] by (auto simp: Let_def split: if_splits)
  qed
qed

section \<open>XML escaping\<close>

text \<open>The output of \<open>xml_encoded\<close>: runs of plain bytes are copied, four characters are escaped.\<close>

fun xml_encoded :: "bool \<Rightarrow> string \<Rightarrow> string" where
  "xml_encoded encode_quot [] = []"
| "xml_encoded encode_quot (c # s) =
     (if c = CHR ''<'' then ''&lt;''
      else if c = CHR ''>'' then ''&gt;''
      else if c = CHR ''&'' then ''&amp;''
      else if encode_quot \<and> c = CHR 0x22 then ''&quot;''
      else [c]) @ xml_encoded encode_quot s"

text \<open>The reader's side: replacing the four entities gives the text back.\<close>

fun xml_decode :: "string \<Rightarrow> string" where
  "xml_decode [] = []"
| "xml_decode (c # s) =
     (if c = CHR ''&'' then
        (if take 3 s = ''lt;'' then CHR ''<'' # xml_decode (drop 3 s)
         else if take 3 s = ''gt;'' then CHR ''>'' # xml_decode (drop 3 s)
         else if take 4 s = ''amp;'' then CHR ''&'' # xml_decode (drop 4 s)
         else if take 5 s = ''quot;'' then CHR 0x22 # xml_decode (drop 5 s)
         else c # xml_decode s)
      else c # xml_decode s)"

lemma xml_decode_encoded: "xml_decode (xml_encoded q s) = s"
  by (induction q s rule: xml_encoded.induct) auto

lemma xml_encoded_safe: "CHR ''<'' \<notin> set (xml_encoded q s) \<and> (q \<longrightarrow> CHR 0x22 \<notin> set (xml_encoded q s))"
  by (induction q s rule: xml_encoded.induct) auto


section \<open>Properties\<close>

text \<open>
  C18: \<open>parse_int\<close> accepts exactly the texts that are an optional run of spaces, an optional
  sign, digits and spaces, with a value that fits into an \<open>int\<close>; it returns that value and never
  wraps around. (After a sign the digits may be missing if a space follows.)
\<close>

theorem parse_int_exact: "parse_int str value_name = Inr v \<longleftrightarrow> int_text str v \<and> in_int_range v"
  using parse_int_sound parse_int_complete by blast

text \<open>
  The XML escaping loses nothing and leaves no \<open><\<close> in the text and, in an attribute value,
  no double quote.
\<close>

theorem xml_roundtrip: "xml_decode (xml_encoded q s) = s \<and> CHR ''<'' \<notin> set (xml_encoded q s) \<and>
    CHR 0x22 \<notin> set (xml_encoded True s)"
  using xml_decode_encoded xml_encoded_safe [of q s] xml_encoded_safe [of True s] by blast

end
