(* ===== verification/Token.thy ===== *)
theory Token
  imports Text_Utils
begin

text \<open>
  Tokens and the fields of their MISC column: \<open>src/sentence/token.h\<close> and \<open>token.cpp\<close>, and the
  classes \<open>word\<close>, \<open>multiword_token\<close> and \<open>empty_node\<close> next to it. The C++ inheritance from
  \<open>token\<close> is record extension, so every operation of \<open>token\<close> works on a \<open>word\<close> and on a
  \<open>multiword_token\<close> too.

  The first part is the code, with its index loops over the MISC string. The second part
  views a MISC string as the list of its fields: the loops find, remove and append fields.
\<close>

section \<open>Model\<close>

record token =
  tk_form :: string
  tk_misc :: string

record word_data = token +
  w_id :: int
  w_lemma :: string
  w_upostag :: string
  w_xpostag :: string
  w_feats :: string
  w_head :: int
  w_deprel :: string
  w_deps :: string
  w_children :: "int list"

record multiword_token = token +
  mwt_id_first :: int
  mwt_id_last :: int
  mwt_feats :: string

record empty_node =
  en_id :: int
  en_index :: int
  en_form :: string
  en_lemma :: string
  en_upostag :: string
  en_xpostag :: string
  en_feats :: string
  en_deps :: string
  en_misc :: string

definition mk_token :: "string \<Rightarrow> string \<Rightarrow> token" where
  "mk_token form misc = \<lparr>tk_form = form, tk_misc = misc\<rparr>"

definition mk_word :: "int \<Rightarrow> string \<Rightarrow> word_data" where
  "mk_word wid form = \<lparr>tk_form = form, tk_misc = [], w_id = wid, w_lemma = [], w_upostag = [],
     w_xpostag = [], w_feats = [], w_head = -1, w_deprel = [], w_deps = [], w_children = []\<rparr>"

definition mk_multiword_token :: "int \<Rightarrow> int \<Rightarrow> string \<Rightarrow> string \<Rightarrow> multiword_token" where
  "mk_multiword_token id_first id_last form misc =
     \<lparr>tk_form = form, tk_misc = misc, mwt_id_first = id_first, mwt_id_last = id_last, mwt_feats = []\<rparr>"

definition mk_empty_node :: "int \<Rightarrow> int \<Rightarrow> empty_node" where
  "mk_empty_node wid index = \<lparr>en_id = wid, en_index = index, en_form = [], en_lemma = [], en_upostag = [],
     en_xpostag = [], en_feats = [], en_deps = [], en_misc = []\<rparr>"

text \<open>
  The test \<open>misc.compare(index, name.len, ...) == 0 && misc[index + name.len] == '='\<close>; the
  character at \<open>misc.size()\<close> is the terminating NUL.
\<close>

definition misc_at :: "string \<Rightarrow> string \<Rightarrow> nat \<Rightarrow> bool" where
  "misc_at misc name index \<longleftrightarrow> take (length name) (drop index misc) = name \<and>
     index + length name < length misc \<and> misc ! (index + length name) = CHR ''=''"

function get_misc_loop :: "string \<Rightarrow> string \<Rightarrow> nat \<Rightarrow> string option" where
  "get_misc_loop misc name index =
     (if index < length misc then
        if misc_at misc name index then
          (let index = index + length name + 1;
               stop = (case str_find (CHR ''|'') misc index of None \<Rightarrow> length misc | Some i \<Rightarrow> i)
           in Some (take (stop - index) (drop index misc)))
        else (case str_find (CHR ''|'') misc index of None \<Rightarrow> None
              | Some i \<Rightarrow> get_misc_loop misc name (i + 1))
      else None)"
  by pat_completeness auto
termination
  by (relation "measure (\<lambda>(misc, name, index). length misc - index)") (auto dest: str_find_bounds)

definition get_misc_field :: "string \<Rightarrow> ('a token_scheme) \<Rightarrow> string option" where
  "get_misc_field name t = get_misc_loop (tk_misc t) name 0"

text \<open>Where the field found at \<open>index\<close> ends.\<close>

definition misc_end :: "string \<Rightarrow> string \<Rightarrow> nat \<Rightarrow> nat" where
  "misc_end misc name index =
     (case str_find (CHR ''|'') misc (index + length name + 1) of None \<Rightarrow> length misc | Some i \<Rightarrow> i)"

text \<open>The loop of \<open>remove_misc_field\<close>: an erased field takes at most one neighbouring bar along.\<close>

function remove_misc_loop :: "string \<Rightarrow> string \<Rightarrow> nat \<Rightarrow> string" where
  "remove_misc_loop misc name index =
     (if index < length misc then
        if misc_at misc name index then
          (let end_index = misc_end misc name index in
           if index > 0 then
             remove_misc_loop (take (index - 1) misc @ drop end_index misc) name index
           else
             remove_misc_loop (drop (end_index + (if end_index < length misc then 1 else 0)) misc) name index)
        else (case str_find (CHR ''|'') misc index of None \<Rightarrow> misc
              | Some i \<Rightarrow> remove_misc_loop misc name (i + 1))
      else misc)"
  by pat_completeness auto
termination
proof (relation "measure (\<lambda>(misc, name, index). length misc - index)", goal_cases)
  case (2 misc name index e)
  then have "index < e"
    by (auto simp: misc_end_def misc_at_def split: option.splits dest: str_find_bounds)
  moreover have "e \<le> length misc"
    using 2(3) by (auto simp: misc_end_def split: option.splits dest: str_find_bounds)
  ultimately show ?case using 2 by auto
next
  case (3 misc name index e)
  then have "index < e"
    by (auto simp: misc_end_def misc_at_def split: option.splits dest: str_find_bounds)
  with 3 show ?case by auto
qed (auto dest: str_find_bounds)

definition remove_misc_field :: "string \<Rightarrow> ('a token_scheme) \<Rightarrow> ('a token_scheme)" where
  "remove_misc_field name t = t\<lparr>tk_misc := remove_misc_loop (tk_misc t) name 0\<rparr>"

text \<open>
  \<open>start_misc_field\<close> returns a reference to the MISC string, to which every caller appends the
  value; the model has the value as an argument.
\<close>

definition start_misc_field :: "string \<Rightarrow> string \<Rightarrow> ('a token_scheme) \<Rightarrow> ('a token_scheme)" where
  "start_misc_field name value t =
     (let t = remove_misc_field name t;
          misc = tk_misc t
      in t\<lparr>tk_misc := (if misc \<noteq> [] then misc @ ''|'' else misc) @ name @ ''='' @ value\<rparr>)"

fun escape_spaces :: "string \<Rightarrow> string" where
  "escape_spaces [] = []"
| "escape_spaces (c # s) =
     (if c = CHR '' '' then [CHR 0x5C, CHR ''s'']
      else if c = CHR ''|'' then [CHR 0x5C, CHR ''p'']
      else if c = tab then [CHR 0x5C, CHR ''t'']
      else if c = cr then [CHR 0x5C, CHR ''r'']
      else if c = lf then [CHR 0x5C, CHR ''n'']
      else if c = CHR 0x5C then [CHR 0x5C, CHR 0x5C]
      else [c]) @ escape_spaces s"

fun unescape_spaces :: "string \<Rightarrow> string" where
  "unescape_spaces [] = []"
| "unescape_spaces [c] = [c]"
| "unescape_spaces (c # d # s) =
     (if c \<noteq> CHR 0x5C then c # unescape_spaces (d # s)
      else (if d = CHR ''s'' then '' ''
            else if d = CHR ''p'' then ''|''
            else if d = CHR ''t'' then [tab]
            else if d = CHR ''r'' then [cr]
            else if d = CHR ''n'' then [lf]
            else if d = CHR 0x5C then [CHR 0x5C]
            else [c, d]) @ unescape_spaces s)"

definition get_space_after :: "('a token_scheme) \<Rightarrow> bool" where
  "get_space_after t \<longleftrightarrow> get_misc_field ''SpaceAfter'' t \<noteq> Some ''No''"

definition set_space_after :: "bool \<Rightarrow> ('a token_scheme) \<Rightarrow> ('a token_scheme)" where
  "set_space_after space_after t =
     (if space_after then remove_misc_field ''SpaceAfter'' t
      else start_misc_field ''SpaceAfter'' ''No'' t)"

definition get_spaces_before :: "('a token_scheme) \<Rightarrow> string" where
  "get_spaces_before t =
     (case get_misc_field ''SpacesBefore'' t of Some v \<Rightarrow> unescape_spaces v | None \<Rightarrow> [])"

definition set_spaces_before :: "string \<Rightarrow> ('a token_scheme) \<Rightarrow> ('a token_scheme)" where
  "set_spaces_before s t =
     (if s = [] then remove_misc_field ''SpacesBefore'' t
      else start_misc_field ''SpacesBefore'' (escape_spaces s) t)"

definition get_spaces_after :: "('a token_scheme) \<Rightarrow> string" where
  "get_spaces_after t =
     (case get_misc_field ''SpacesAfter'' t of Some v \<Rightarrow> unescape_spaces v
      | None \<Rightarrow> (if get_space_after t then '' '' else []))"

definition set_spaces_after :: "string \<Rightarrow> ('a token_scheme) \<Rightarrow> ('a token_scheme)" where
  "set_spaces_after s t =
     (if s = [] then remove_misc_field ''SpacesAfter'' (set_space_after False t)
      else if s = '' '' then remove_misc_field ''SpacesAfter'' (set_space_after True t)
      else start_misc_field ''SpacesAfter'' (escape_spaces s) (set_space_after True t))"

definition get_spaces_in_token :: "('a token_scheme) \<Rightarrow> string" where
  "get_spaces_in_token t =
     (case get_misc_field ''SpacesInToken'' t of Some v \<Rightarrow> unescape_spaces v | None \<Rightarrow> [])"

definition set_spaces_in_token :: "string \<Rightarrow> ('a token_scheme) \<Rightarrow> ('a token_scheme)" where
  "set_spaces_in_token s t =
     (if s = [] then remove_misc_field ''SpacesInToken'' t
      else start_misc_field ''SpacesInToken'' (escape_spaces s) t)"

text \<open>
  Offsets are \<open>size_t\<close>, naturals below \<open>2 ^ 64\<close>; the digit loops test for overflow before each
  step. The code leaves partial values in the output arguments when it returns \<open>false\<close>;
  \<open>None\<close> stands for that answer.
\<close>

definition size_max :: nat where "size_max = 18446744073709551615"

fun range_digits :: "nat \<Rightarrow> string \<Rightarrow> (nat \<times> string) option" where
  "range_digits n [] = Some (n, [])"
| "range_digits n (c # s) =
     (if is_digit c then
        if n > (size_max - digit_val c) div 10 then None else range_digits (10 * n + digit_val c) s
      else Some (n, c # s))"

definition get_token_range :: "('a token_scheme) \<Rightarrow> (nat \<times> nat) option" where
  "get_token_range t =
     (case get_misc_field ''TokenRange'' t of None \<Rightarrow> None
      | Some value \<Rightarrow>
     (case range_digits 0 value of None \<Rightarrow> None
      | Some (start, value) \<Rightarrow>
     (case value of [] \<Rightarrow> None
      | c # value \<Rightarrow>
        if c \<noteq> CHR '':'' then None
        else (case range_digits 0 value of None \<Rightarrow> None | Some (end, _) \<Rightarrow> Some (start, end)))))"

definition set_token_range :: "nat \<Rightarrow> nat \<Rightarrow> ('a token_scheme) \<Rightarrow> ('a token_scheme)" where
  "set_token_range start end t =
     (if start = size_max then remove_misc_field ''TokenRange'' t
      else start_misc_field ''TokenRange'' (show_nat start @ '':'' @ show_nat end) t)"

declare get_misc_loop.simps [simp del] remove_misc_loop.simps [simp del]


section \<open>A MISC string as a list of fields\<close>

abbreviation bar :: char where "bar \<equiv> CHR ''|''"

definition misc_fields :: "string \<Rightarrow> string list" where
  "misc_fields misc = split_pieces bar misc"

definition field_is :: "string \<Rightarrow> string \<Rightarrow> bool" where
  "field_is name f \<longleftrightarrow> take (Suc (length name)) f = name @ ''=''"

lemma field_is_iff: "field_is name f \<longleftrightarrow> (\<exists>v. f = name @ CHR ''='' # v)"
proof
  assume "field_is name f"
  then have "f = (name @ ''='') @ drop (Suc (length name)) f"
    unfolding field_is_def by (metis append_take_drop_id)
  then show "\<exists>v. f = name @ CHR ''='' # v" by auto
qed (auto simp: field_is_def)

lemma field_is_Nil [simp]: "\<not> field_is name []"
  by (simp add: field_is_def)

text \<open>A field has one name.\<close>

lemma field_is_unique:
  "CHR ''='' \<notin> set name \<Longrightarrow> CHR ''='' \<notin> set name' \<Longrightarrow> field_is name f \<Longrightarrow> field_is name' f \<Longrightarrow> name = name'"
  by (auto simp: field_is_iff) (metis takeWhile_neq_append)

lemma misc_at_field:
  assumes "bar \<notin> set name" "bar \<notin> set f" "r = [] \<or> hd r = bar"
  shows "misc_at (q @ f @ r) name (length q) \<longleftrightarrow> field_is name f"
proof (cases "length name < length f")
  case True
  then have "field_is name f \<longleftrightarrow> take (length name) f = name \<and> f ! length name = CHR ''=''"
    by (simp add: field_is_def take_Suc_conv_app_nth)
  with True show ?thesis by (simp add: misc_at_def nth_append)
next
  case False
  then have no: "\<not> field_is name f" by (auto simp: field_is_iff)
  have "\<not> misc_at (q @ f @ r) name (length q)"
  proof
    assume at: "misc_at (q @ f @ r) name (length q)"
    then have pre: "take (length name) (f @ r) = name" and long: "length name < length (f @ r)"
      and eq: "(f @ r) ! length name = CHR ''=''"
      by (auto simp: misc_at_def nth_append)
    with False obtain r' where r: "r = bar # r'" using assms(3) by (cases r) auto
    show False
    proof (cases "length name = length f")
      case True
      then show ?thesis using eq r by simp
    next
      case neq: False
      then have "bar \<in> set (take (length name) (f @ r))"
        using False r by (simp add: take_Cons')
      then show ?thesis using pre assms(1) by metis
    qed
  qed
  with no show ?thesis by simp
qed

lemmas misc_at_last = misc_at_field [of _ _ "[]", simplified]
lemmas misc_at_sep = misc_at_field [of _ _ "bar # r" for r, simplified]

text \<open>The value that ends where the field does.\<close>

lemma str_find_value:
  "bar \<notin> set v \<Longrightarrow> str_find bar (q @ n @ e # v) (length q + length n + 1) = None"
  "bar \<notin> set v \<Longrightarrow> str_find bar (q @ n @ e # v @ bar # r) (length q + length n + 1)
     = Some (length q + length n + 1 + length v)"
  using str_find_None [of bar v "q @ n @ [e]"] str_find_append [of bar v "q @ n @ [e]" r] by simp_all

lemma split_pieces_value [simp]: "bar \<notin> set n \<Longrightarrow> bar \<notin> set v \<Longrightarrow>
    split_pieces bar (n @ CHR ''='' # v @ bar # r) = (n @ CHR ''='' # v) # split_pieces bar r"
  using split_pieces_sep [of bar "n @ CHR ''='' # v" r] by simp

lemma get_misc_loop_fields:
  assumes name: "bar \<notin> set name"
  shows "get_misc_loop (q @ s) name (length q) =
    map_option (drop (Suc (length name))) (List.find (field_is name) (split_pieces bar s))"
proof (induction s arbitrary: q rule: split_induct [of bar])
  case (last f)
  show ?case
  proof (cases "field_is name f")
    case True
    then obtain v where f: "f = name @ CHR ''='' # v" by (auto simp: field_is_iff)
    show ?thesis
      using last True misc_at_last [OF name, of f q] str_find_value(1) [of v q name "CHR ''=''"]
      by (subst get_misc_loop.simps) (simp add: f)
  next
    case False
    then show ?thesis
      using last misc_at_last [OF name, of f q]
      by (subst get_misc_loop.simps) (simp add: get_misc_loop.simps)
  qed
next
  case (sep f r)
  show ?case
  proof (cases "field_is name f")
    case True
    then obtain v where f: "f = name @ CHR ''='' # v" by (auto simp: field_is_iff)
    show ?thesis
      using sep(1) True misc_at_sep [OF name, of f q r] str_find_value(2) [of v q name "CHR ''=''" r]
      by (subst get_misc_loop.simps) (simp add: f)
  next
    case False
    then show ?thesis
      using sep(1) misc_at_sep [OF name, of f q r] sep(2) [of "q @ f @ [bar]"]
      by (subst get_misc_loop.simps) simp
  qed
qed

lemma get_misc_field_fields:
  "bar \<notin> set name \<Longrightarrow> get_misc_field name t =
     map_option (drop (Suc (length name))) (List.find (field_is name) (misc_fields (tk_misc t)))"
  using get_misc_loop_fields [of name "[]"] by (simp add: get_misc_field_def misc_fields_def)

lemma misc_end_value:
  "bar \<notin> set v \<Longrightarrow> misc_end (q @ n @ CHR ''='' # v) n (length q) = length q + length n + 1 + length v"
  "bar \<notin> set v \<Longrightarrow> misc_end (q @ n @ CHR ''='' # v @ bar # r) n (length q) = length q + length n + 1 + length v"
  using str_find_value [of v q n "CHR ''=''"] by (simp_all add: misc_end_def)

lemma join_merge: "join sep ((q @ sep # f) # fs) = join sep (q # f # fs)"
  by (cases fs) auto

lemma remove_misc_loop_fields:
  assumes name: "bar \<notin> set name"
  shows "remove_misc_loop (q @ bar # s) name (Suc (length q)) =
    join bar (q # filter (\<lambda>f. \<not> field_is name f) (split_pieces bar s))"
proof (induction s arbitrary: q rule: split_induct [of bar])
  case (last f)
  show ?case
  proof (cases "field_is name f")
    case True
    then obtain v where f: "f = name @ CHR ''='' # v" by (auto simp: field_is_iff)
    show ?thesis
      using last True misc_at_last [OF name, of f "q @ [bar]"] misc_end_value(1) [of v "q @ [bar]" name]
      by (subst remove_misc_loop.simps) (simp add: f remove_misc_loop.simps)
  next
    case False
    then show ?thesis
      using last misc_at_last [OF name, of f "q @ [bar]"] str_find_None [of bar f "q @ [bar]"]
      by (subst remove_misc_loop.simps) simp
  qed
next
  case (sep f r)
  show ?case
  proof (cases "field_is name f")
    case True
    then obtain v where f: "f = name @ CHR ''='' # v" by (auto simp: field_is_iff)
    show ?thesis
      using sep True misc_at_sep [OF name, of f "q @ [bar]" r] misc_end_value(2) [of v "q @ [bar]" name r]
      by (subst remove_misc_loop.simps) (simp add: f)
  next
    case False
    then show ?thesis
      using sep(1) misc_at_sep [OF name, of f "q @ [bar]" r] str_find_append [of bar f "q @ [bar]" r]
        sep(2) [of "q @ bar # f"]
      by (subst remove_misc_loop.simps) (simp add: join_merge)
  qed
qed

lemma remove_misc_loop_fields0:
  assumes name: "bar \<notin> set name"
  shows "remove_misc_loop s name 0 = join bar (filter (\<lambda>f. \<not> field_is name f) (split_pieces bar s))"
proof (induction s rule: split_induct [of bar])
  case (last f)
  show ?case
  proof (cases "field_is name f")
    case True
    then obtain v where f: "f = name @ CHR ''='' # v" by (auto simp: field_is_iff)
    show ?thesis
      using last True misc_at_last [OF name, of f "[]"] misc_end_value(1) [of v "[]" name]
      by (subst remove_misc_loop.simps) (simp add: f remove_misc_loop.simps)
  next
    case False
    then show ?thesis
      using last misc_at_last [OF name, of f "[]"] str_find_None [of bar f "[]"]
      by (subst remove_misc_loop.simps) simp
  qed
next
  case (sep f r)
  show ?case
  proof (cases "field_is name f")
    case True
    then obtain v where f: "f = name @ CHR ''='' # v" by (auto simp: field_is_iff)
    show ?thesis
      using sep True misc_at_sep [OF name, of f "[]" r] misc_end_value(2) [of v "[]" name r]
      by (subst remove_misc_loop.simps) (simp add: f)
  next
    case False
    then show ?thesis
      using sep(1) misc_at_sep [OF name, of f "[]" r] str_find_append [of bar f "[]" r]
        remove_misc_loop_fields [OF name, of f r]
      by (subst remove_misc_loop.simps) simp
  qed
qed


text \<open>Removing and starting a field, on the list of fields.\<close>

lemma misc_fields_no_bar: "f \<in> set (misc_fields misc) \<Longrightarrow> bar \<notin> set f"
  unfolding misc_fields_def by (rule split_pieces_no_sep)

lemma join_eq_Nil: "join sep fs = [] \<longleftrightarrow> fs = [] \<or> fs = [[]]"
  by (induction sep fs rule: join.induct) auto

lemma misc_fields_join: "\<forall>f \<in> set fs. bar \<notin> set f \<Longrightarrow> misc_fields (join bar fs) = (if fs = [] then [[]] else fs)"
  by (auto simp: misc_fields_def split_pieces_join)

lemma join_snoc: "fs \<noteq> [] \<Longrightarrow> join sep (fs @ [f]) = join sep fs @ sep # f"
  by (induction sep fs rule: join.induct) auto

abbreviation fields_without :: "string \<Rightarrow> string \<Rightarrow> string list" where
  "fields_without name misc \<equiv> filter (\<lambda>f. \<not> field_is name f) (misc_fields misc)"

lemma misc_remove: "bar \<notin> set name \<Longrightarrow> tk_misc (remove_misc_field name t) = join bar (fields_without name (tk_misc t))"
  by (simp add: remove_misc_field_def remove_misc_loop_fields0 misc_fields_def)

lemma misc_start: "bar \<notin> set name \<Longrightarrow> tk_misc (start_misc_field name v t) =
    join bar ((if join bar (fields_without name (tk_misc t)) = [] then [] else fields_without name (tk_misc t))
      @ [name @ CHR ''='' # v])"
  by (simp add: start_misc_field_def Let_def misc_remove join_snoc join_eq_Nil)

lemma find_filter_other:
  "(\<And>f. P f \<Longrightarrow> Q f) \<Longrightarrow> List.find P (filter Q fs) = List.find P fs"
  by (induction fs) auto

lemma find_filter_not [simp]: "List.find P (filter (\<lambda>f. \<not> P f) fs) = None"
  by (simp add: find_None_iff)

lemma find_append: "List.find P (xs @ ys) = (case List.find P xs of None \<Rightarrow> List.find P ys | Some x \<Rightarrow> Some x)"
  by (induction xs) auto

definition misc_name :: "string \<Rightarrow> bool" where
  "misc_name name \<longleftrightarrow> bar \<notin> set name \<and> CHR ''='' \<notin> set name"

lemma fields_without_no_bar: "\<forall>f \<in> set (fields_without name misc). bar \<notin> set f"
  by (auto dest: misc_fields_no_bar)

lemma find_fields_remove:
  assumes "bar \<notin> set name"
  shows "List.find P (misc_fields (tk_misc (remove_misc_field name t))) =
    (if P [] \<and> fields_without name (tk_misc t) = [] then Some [] else List.find P (fields_without name (tk_misc t)))"
  using fields_without_no_bar [of name "tk_misc t"] by (simp add: misc_remove assms misc_fields_join)

lemma find_fields_start:
  assumes "bar \<notin> set name" "bar \<notin> set v" "\<not> P []"
  shows "List.find P (misc_fields (tk_misc (start_misc_field name v t))) =
    List.find P (fields_without name (tk_misc t) @ [name @ CHR ''='' # v])"
proof -
  let ?o = "fields_without name (tk_misc t)"
  have bars: "\<forall>f \<in> set ((if join bar ?o = [] then [] else ?o) @ [name @ CHR ''='' # v]). bar \<notin> set f"
    using assms(1,2) fields_without_no_bar [of name "tk_misc t"] by simp
  have "misc_fields (tk_misc (start_misc_field name v t)) = (if join bar ?o = [] then [] else ?o) @ [name @ CHR ''='' # v]"
    using misc_fields_join [OF bars] by (simp add: misc_start assms(1))
  then show ?thesis
    using assms(3) by (auto simp: join_eq_Nil find_append)
qed

section \<open>The contract of a store of named fields\<close>

text \<open>
  What the accessors of \<open>token\<close> rely on: a field reads back as it was put, no other field
  changes, and a deleted field is absent.
\<close>

locale field_store =
  fixes get :: "string \<Rightarrow> 's \<Rightarrow> string option"
    and put :: "string \<Rightarrow> string \<Rightarrow> 's \<Rightarrow> 's"
    and del :: "string \<Rightarrow> 's \<Rightarrow> 's"
    and ok_name :: "string \<Rightarrow> bool"
    and ok_value :: "string \<Rightarrow> bool"
  assumes get_put: "ok_name n \<Longrightarrow> ok_value v \<Longrightarrow> get n (put n v s) = Some v"
    and get_put_other: "ok_name n \<Longrightarrow> ok_name n' \<Longrightarrow> n' \<noteq> n \<Longrightarrow> ok_value v \<Longrightarrow> get n' (put n v s) = get n' s"
    and get_del: "ok_name n \<Longrightarrow> get n (del n s) = None"
    and get_del_other: "ok_name n \<Longrightarrow> ok_name n' \<Longrightarrow> n' \<noteq> n \<Longrightarrow> get n' (del n s) = get n' s"
begin

definition update :: "string \<Rightarrow> string option \<Rightarrow> 's \<Rightarrow> 's" where
  "update n v s = (case v of None \<Rightarrow> del n s | Some v \<Rightarrow> put n v s)"

lemma get_update: "ok_name n \<Longrightarrow> (\<And>w. v = Some w \<Longrightarrow> ok_value w) \<Longrightarrow> get n (update n v s) = v"
  by (cases v) (auto simp: update_def get_put get_del)

lemma get_update_other:
  "ok_name n \<Longrightarrow> ok_name n' \<Longrightarrow> n' \<noteq> n \<Longrightarrow> (\<And>w. v = Some w \<Longrightarrow> ok_value w) \<Longrightarrow> get n' (update n v s) = get n' s"
  by (cases v) (auto simp: update_def get_put_other get_del_other)

text \<open>A sequence of updates of different fields: every field reads back as it was written last.\<close>

lemma get_updates:
  "\<forall>(n, v) \<in> set us. ok_name n \<and> (\<forall>w. v = Some w \<longrightarrow> ok_value w) \<Longrightarrow> ok_name n \<Longrightarrow>
   get n (fold (\<lambda>(n, v). update n v) us s) = (case map_of (rev us) n of None \<Rightarrow> get n s | Some v \<Rightarrow> v)"
proof (induction us arbitrary: s)
  case (Cons u us)
  obtain m v where u: "u = (m, v)" by (cases u)
  have "get n (update m v s) = (if n = m then v else get n s)"
    using Cons.prems get_update [of m v s] get_update_other [of m n v s] by (auto simp: u)
  then show ?case using Cons by (auto simp: u map_add_def split: option.split)
qed simp

end

lemma get_start:
  assumes "misc_name n" "bar \<notin> set v"
  shows "get_misc_field n (start_misc_field n v t) = Some v"
proof -
  have "field_is n (n @ CHR ''='' # v)" by (simp add: field_is_iff)
  then show ?thesis
    using assms by (simp add: get_misc_field_fields misc_name_def find_fields_start find_append)
qed

lemma get_start_other:
  assumes "misc_name n" "misc_name n'" "n' \<noteq> n" "bar \<notin> set v"
  shows "get_misc_field n' (start_misc_field n v t) = get_misc_field n' t"
proof -
  have no: "\<not> field_is n f" if "field_is n' f" for f
    using assms that field_is_unique [of n n' f] by (auto simp: misc_name_def)
  have "\<not> field_is n' (n @ CHR ''='' # v)"
    using no [of "n @ CHR ''='' # v"] by (auto simp: field_is_iff)
  then show ?thesis
    using assms no
    by (simp add: get_misc_field_fields misc_name_def find_fields_start find_append find_filter_other
        split: option.splits)
qed

lemma get_remove: "misc_name n \<Longrightarrow> get_misc_field n (remove_misc_field n t) = None"
  by (simp add: get_misc_field_fields misc_name_def find_fields_remove)

lemma get_remove_other:
  assumes "misc_name n" "misc_name n'" "n' \<noteq> n"
  shows "get_misc_field n' (remove_misc_field n t) = get_misc_field n' t"
proof -
  have no: "\<not> field_is n f" if "field_is n' f" for f
    using assms that field_is_unique [of n n' f] by (auto simp: misc_name_def)
  then show ?thesis
    using assms by (simp add: get_misc_field_fields misc_name_def find_fields_remove find_filter_other)
qed

interpretation misc: field_store get_misc_field start_misc_field remove_misc_field misc_name "\<lambda>v. bar \<notin> set v"
  by unfold_locales (simp_all add: get_start get_start_other get_remove get_remove_other)

section \<open>The accessors\<close>

lemma unescape_spaces_Cons: "c \<noteq> CHR 0x5C \<Longrightarrow> unescape_spaces (c # s) = c # unescape_spaces s"
  by (cases s) auto

lemma unescape_escape: "unescape_spaces (escape_spaces s) = s"
  by (induction s) (auto simp: unescape_spaces_Cons)

lemma escape_no_bar [simp]: "bar \<notin> set (escape_spaces s)"
  by (induction s) auto

lemma misc_names [simp]:
  "misc_name ''SpaceAfter''" "misc_name ''SpacesBefore''" "misc_name ''SpacesAfter''"
  "misc_name ''SpacesInToken''" "misc_name ''TokenRange''"
  by (simp_all add: misc_name_def)

text \<open>Each setter is a sequence of updates of the store.\<close>

lemmas setter_defs = set_space_after_def set_spaces_before_def set_spaces_after_def
  set_spaces_in_token_def set_token_range_def
lemmas getter_defs = get_space_after_def get_spaces_before_def get_spaces_after_def
  get_spaces_in_token_def get_token_range_def
lemmas store_laws = misc.get_put misc.get_put_other misc.get_del misc.get_del_other

text \<open>C31: a space string reads back exactly as it was set, whatever the MISC column held.\<close>

theorem spaces_roundtrip:
  "get_spaces_before (set_spaces_before s t) = s \<and>
   get_spaces_after (set_spaces_after s t) = s \<and>
   get_spaces_in_token (set_spaces_in_token s t) = s \<and>
   get_space_after (set_space_after b t) = b"
  by (simp add: getter_defs setter_defs store_laws unescape_escape)

text \<open>
  Setting the spaces on one side of a token, or the space inside it, changes what no other
  accessor returns.
\<close>

theorem spaces_independent:
  "get_spaces_after (set_spaces_before s t) = get_spaces_after t \<and>
   get_spaces_in_token (set_spaces_before s t) = get_spaces_in_token t \<and>
   get_token_range (set_spaces_before s t) = get_token_range t \<and>
   get_spaces_before (set_spaces_after s t) = get_spaces_before t \<and>
   get_spaces_in_token (set_spaces_after s t) = get_spaces_in_token t \<and>
   get_token_range (set_spaces_after s t) = get_token_range t \<and>
   get_spaces_before (set_spaces_in_token s t) = get_spaces_before t \<and>
   get_spaces_after (set_spaces_in_token s t) = get_spaces_after t \<and>
   get_token_range (set_spaces_in_token s t) = get_token_range t"
  by (simp add: getter_defs setter_defs store_laws)

lemma digits_mono: "m \<le> foldl (\<lambda>v c. 10 * v + digit_val c) m ds"
proof (induction ds arbitrary: m)
  case (Cons d ds)
  have "m \<le> 10 * m + digit_val d" by simp
  also have "\<dots> \<le> foldl (\<lambda>v c. 10 * v + digit_val c) (10 * m + digit_val d) ds" by (rule Cons)
  finally show ?case by simp
qed simp

lemma range_digits_append:
  assumes "\<forall>c \<in> set ds. is_digit c" "r = [] \<or> \<not> is_digit (hd r)"
    and "foldl (\<lambda>v c. 10 * v + digit_val c) n ds \<le> size_max"
  shows "range_digits n (ds @ r) = Some (foldl (\<lambda>v c. 10 * v + digit_val c) n ds, r)"
  using assms
proof (induction ds arbitrary: n)
  case Nil
  then show ?case by (cases r) auto
next
  case (Cons c ds)
  have "10 * n + digit_val c \<le> size_max"
    using Cons.prems(3) digits_mono [of "10 * n + digit_val c" ds] by simp
  then have "n \<le> (size_max - digit_val c) div 10" by simp
  with Cons show ?case by simp
qed

lemma range_digits_show_nat:
  assumes "n \<le> size_max" "r = [] \<or> \<not> is_digit (hd r)"
  shows "range_digits 0 (show_nat n @ r) = Some (n, r)"
  using assms digits_val_show_nat [of n] range_digits_append [of "show_nat n" r 0] show_nat_digits
  by (auto simp: digits_val_def)


text \<open>
  C32: a token range reads back as it was set, for every start but the reserved \<open>npos\<close>, which
  removes the range.
\<close>

theorem token_range_roundtrip:
  assumes "start \<le> size_max" "end \<le> size_max"
  shows "get_token_range (set_token_range start end t) = (if start = size_max then None else Some (start, end))"
proof -
  have no_bar: "bar \<notin> set (show_nat start @ CHR '':'' # show_nat end)"
    by (simp add: is_digit_def)
  have "range_digits 0 (show_nat start @ CHR '':'' # show_nat end) = Some (start, CHR '':'' # show_nat end)"
    using assms(1) by (intro range_digits_show_nat) (simp_all add: is_digit_def)
  moreover have "range_digits 0 (show_nat end) = Some (end, [])"
    using range_digits_show_nat [of "end" "[]"] assms(2) by simp
  ultimately show ?thesis
    using no_bar by (simp add: get_token_range_def set_token_range_def store_laws)
qed

lemma token_range_roundtrip_witness:
  "get_token_range (set_token_range 12 17 (mk_token ''dogs'' ''SpaceAfter=No|TokenRange=1:2'')) = Some (12, 17)"
  using token_range_roundtrip [of 12 17] by (simp add: size_max_def)

end
