(* ===== verification/Links.thy ===== *)
theory Links
  imports Prelude
begin

text \<open>
  Heads and children. \<open>sentence::set_head\<close> (\<open>src/sentence/sentence.cpp\<close>) and \<open>tree::set_head\<close>
  (\<open>src/parsito/tree/tree.cpp\<close>) are the same code over two node types: the loops over a
  \<open>children\<close> vector stand here, once. The theory states what they do to the links alone (a head
  and a children list per node), proves that the two views of the tree, by heads and by
  children, never disagree, and puts the result into a locale that both containers interpret.
\<close>

section \<open>The loops over the children\<close>

text \<open>Removal: from the back, as long as the child is not smaller than the one to be removed.\<close>

fun remove_child_loop :: "int \<Rightarrow> int list \<Rightarrow> nat \<Rightarrow> int list" where
  "remove_child_loop child cs 0 = cs"
| "remove_child_loop child cs (Suc i) =
     (if cs ! i \<ge> child then
        if cs ! i = child then take i cs @ drop (Suc i) cs else remove_child_loop child cs i
      else cs)"

definition remove_child :: "int \<Rightarrow> int list \<Rightarrow> int list" where
  "remove_child child cs = remove_child_loop child cs (length cs)"

text \<open>Insertion: the place is found from the back, and an existing child is not repeated.\<close>

fun insert_child_pos :: "int \<Rightarrow> int list \<Rightarrow> nat \<Rightarrow> nat" where
  "insert_child_pos child cs 0 = 0"
| "insert_child_pos child cs (Suc i) = (if cs ! i > child then insert_child_pos child cs i else Suc i)"

definition insert_child :: "int \<Rightarrow> int list \<Rightarrow> int list" where
  "insert_child child cs =
     (let i = insert_child_pos child cs (length cs) in
      if i = 0 \<or> cs ! (i - 1) < child then take i cs @ child # drop i cs else cs)"

lemma filter_neq [simp]: "x \<notin> set xs \<Longrightarrow> filter (\<lambda>c. c \<noteq> x) xs = xs"
  by (induction xs) auto

lemma remove_child_loop_spec:
  "sorted_wrt (<) cs \<Longrightarrow> i \<le> length cs \<Longrightarrow> (\<And>j. i \<le> j \<Longrightarrow> j < length cs \<Longrightarrow> cs ! j > child) \<Longrightarrow>
   remove_child_loop child cs i = filter (\<lambda>c. c \<noteq> child) cs"
proof (induction i)
  case 0
  then have "child \<notin> set cs" by (metis in_set_conv_nth less_irrefl zero_le)
  then have "filter (\<lambda>c. c \<noteq> child) cs = cs" by (auto simp: filter_id_conv)
  then show ?case by simp
next
  case (Suc i)
  have before: "cs ! j < cs ! i" if "j < i" for j
    using Suc.prems(1,2) that by (simp add: sorted_wrt_iff_nth_less)
  consider "cs ! i > child" | "cs ! i = child" | "cs ! i < child" by linarith
  then show ?case
  proof cases
    case 1
    have "cs ! j > child" if "i \<le> j" "j < length cs" for j
      using 1 Suc.prems(3) [of j] that by (cases "j = i") auto
    then have "remove_child_loop child cs i = filter (\<lambda>c. c \<noteq> child) cs" using Suc by simp
    moreover have "cs ! i \<ge> child" "cs ! i \<noteq> child" using 1 by auto
    ultimately show ?thesis by simp
  next
    case 2
    have cs: "cs = take i cs @ child # drop (Suc i) cs"
      using 2 Suc.prems(2) by (metis Suc_le_lessD id_take_nth_drop)
    have "child \<notin> set (take i cs)" using before 2 by (fastforce simp: in_set_conv_nth)
    moreover have "child \<notin> set (drop (Suc i) cs)"
    proof
      assume "child \<in> set (drop (Suc i) cs)"
      then obtain k where "k < length (drop (Suc i) cs)" "drop (Suc i) cs ! k = child"
        unfolding in_set_conv_nth by blast
      moreover have "Suc i + k < length cs" using calculation(1) Suc.prems(2) by simp
      ultimately show False using Suc.prems(2) Suc.prems(3) [of "Suc i + k"] by simp
    qed
    ultimately have "filter (\<lambda>c. c \<noteq> child) cs = take i cs @ drop (Suc i) cs"
      by (subst cs) (auto simp: filter_id_conv)
    with 2 show ?thesis by simp
  next
    case 3
    have "child \<notin> set cs"
    proof
      assume "child \<in> set cs"
      then obtain j where j: "j < length cs" "cs ! j = child" by (auto simp: in_set_conv_nth)
      then show False using before [of j] Suc.prems(3) [of j] 3 by (cases "j < i"; cases "j = i") auto
    qed
    then have "filter (\<lambda>c. c \<noteq> child) cs = cs" by (auto simp: filter_id_conv)
    with 3 show ?thesis by simp
  qed
qed

lemma remove_child_filter: "sorted_wrt (<) cs \<Longrightarrow> remove_child child cs = filter (\<lambda>c. c \<noteq> child) cs"
  by (simp add: remove_child_def remove_child_loop_spec)

lemma insert_child_pos_spec:
  "i \<le> length cs \<Longrightarrow> insert_child_pos child cs i \<le> i \<and>
   (\<forall>j. insert_child_pos child cs i \<le> j \<and> j < i \<longrightarrow> cs ! j > child) \<and>
   (insert_child_pos child cs i > 0 \<longrightarrow> cs ! (insert_child_pos child cs i - 1) \<le> child)"
  by (induction i) (auto simp: less_Suc_eq)

lemma insert_child_spec:
  assumes sorted: "sorted_wrt (<) cs"
  shows "sorted_wrt (<) (insert_child child cs) \<and> set (insert_child child cs) = insert child (set cs)"
proof -
  define i where "i = insert_child_pos child cs (length cs)"
  have i: "i \<le> length cs" "\<And>j. i \<le> j \<Longrightarrow> j < length cs \<Longrightarrow> cs ! j > child"
    "i > 0 \<Longrightarrow> cs ! (i - 1) \<le> child"
    using insert_child_pos_spec [of "length cs" cs child] by (auto simp: i_def)
  show ?thesis
  proof (cases "i = 0 \<or> cs ! (i - 1) < child")
    case True
    have lo: "c < child" if c: "c \<in> set (take i cs)" for c
    proof -
      from c obtain j where j: "j < i" "c = cs ! j" using i(1) by (auto simp: in_set_conv_nth)
      have "cs ! j \<le> cs ! (i - 1)"
        using sorted j(1) i(1) by (cases "j = i - 1") (auto simp: sorted_wrt_iff_nth_less intro!: less_imp_le)
      then show ?thesis using True j by auto
    qed
    have hi: "child < c" if c: "c \<in> set (drop i cs)" for c
      using c i(1) i(2) [of "i + k" for k] by (fastforce simp: in_set_conv_nth)
    have parts: "sorted_wrt (<) (take i cs @ drop i cs)" using sorted by simp
    have "sorted_wrt (<) (take i cs @ child # drop i cs)"
      using parts lo hi unfolding sorted_wrt_append by auto
    moreover have "set (take i cs @ child # drop i cs) = insert child (set cs)"
      by (metis Un_insert_right append_take_drop_id list.simps(15) set_append)
    ultimately show ?thesis using True by (simp add: insert_child_def i_def [symmetric] Let_def)
  next
    case False
    then have "cs ! (i - 1) = child" "i - 1 < length cs" using i by (auto intro: antisym)
    then have "child \<in> set cs" by (metis nth_mem)
    with False sorted show ?thesis by (simp add: insert_child_def i_def [symmetric] Let_def insert_absorb)
  qed
qed

section \<open>Links\<close>

type_synonym link = "int \<times> int list"

abbreviation lhead :: "link list \<Rightarrow> int \<Rightarrow> int" where "lhead L i \<equiv> fst (L ! nat i)"
abbreviation lchildren :: "link list \<Rightarrow> int \<Rightarrow> int list" where "lchildren L i \<equiv> snd (L ! nat i)"

text \<open>An update of the node with a given (non-negative) id.\<close>

definition upd :: "int \<Rightarrow> ('n \<Rightarrow> 'n) \<Rightarrow> 'n list \<Rightarrow> 'n list" where
  "upd i f ns = ns[nat i := f (ns ! nat i)]"

text \<open>The index set of a node list, and \<open>set_head\<close>, \<open>unlink_all\<close> and \<open>add\<close> seen on the links.\<close>

definition ids :: "'n list \<Rightarrow> int set" where
  "ids ns = {i. 0 \<le> i \<and> i < int (length ns)}"

definition link_set_head :: "int \<Rightarrow> int \<Rightarrow> link list \<Rightarrow> link list" where
  "link_set_head i head L =
     (let old = lhead L i;
          L = (if old \<ge> 0 then upd old (\<lambda>(h, cs). (h, remove_child i cs)) L else L);
          L = upd i (\<lambda>(h, cs). (head, cs)) L
      in if head \<ge> 0 then upd head (\<lambda>(h, cs). (h, insert_child i cs)) L else L)"

text \<open>
  The invariant: a head is -1 or a node, and the children of a node are, in increasing order
  and without repetition, the nodes it heads.
\<close>

definition wf_links :: "link list \<Rightarrow> bool" where
  "wf_links L \<longleftrightarrow> (\<forall>i \<in> ids L. -1 \<le> lhead L i \<and> lhead L i < int (length L) \<and>
     sorted_wrt (<) (lchildren L i) \<and> set (lchildren L i) = {j \<in> ids L. lhead L j = i})"

lemma nth_map_ids: "i \<in> ids ns \<Longrightarrow> map f ns ! nat i = f (ns ! nat i)"
  by (simp add: ids_def nat_less_iff)

lemma ids_map [simp]: "ids (map f ns) = ids ns"
  by (simp add: ids_def)

lemma nth_upd: "i \<in> ids L \<Longrightarrow> j \<in> ids L \<Longrightarrow> upd i f L ! nat j = (if i = j then f (L ! nat j) else L ! nat j)"
  by (auto simp: upd_def ids_def nth_list_update)

lemma ids_upd [simp]: "ids (upd i f L) = ids L"
  by (simp add: upd_def ids_def)

lemma map_upd: "i \<in> ids ns \<Longrightarrow> (\<And>n. g (f n) = f' (g n)) \<Longrightarrow> map g (upd i f ns) = upd i f' (map g ns)"
  by (simp add: upd_def map_update nth_map_ids)

lemma map_upd_same: "(\<And>n. g (f n) = g n) \<Longrightarrow> map g (upd i f ns) = map g ns"
  unfolding upd_def map_update
  by (cases "nat i < length ns") (simp_all add: list_update_beyond, metis list_update_id nth_map)

lemma length_upd [simp]: "length (upd i f ns) = length ns"
  by (simp add: upd_def)

lemma length_link_set_head [simp]: "length (link_set_head i head L) = length L"
  by (simp add: link_set_head_def Let_def)

lemma ids_link_set_head [simp]: "ids (link_set_head i head L) = ids L"
  by (simp add: ids_def)

text \<open>One node of the result, for a node and a head in range.\<close>

lemma nth_link_set_head_gen:
  assumes "i \<in> ids L" "j \<in> ids L" "head < int (length L)"
    and old: "lhead L i \<ge> 0 \<Longrightarrow> lhead L i \<in> ids L" and sorted: "sorted_wrt (<) (lchildren L j)"
  shows "link_set_head i head L ! nat j =
    (if j = i then head else lhead L j,
     let cs = (if j = lhead L i then filter (\<lambda>c. c \<noteq> i) (lchildren L j) else lchildren L j)
     in if j = head then insert_child i cs else cs)"
proof -
  have hd: "head \<ge> 0 \<Longrightarrow> head \<in> ids L" and j0: "0 \<le> j"
    using assms by (auto simp: ids_def)
  show ?thesis
    using assms old hd sorted j0
    by (auto simp: link_set_head_def Let_def nth_upd remove_child_filter split: prod.split)
qed

lemma nth_link_set_head:
  assumes "wf_links L" "i \<in> ids L" "-1 \<le> head" "head < int (length L)" "j \<in> ids L"
  shows "link_set_head i head L ! nat j =
    (if j = i then head else lhead L j,
     let cs = (if j = lhead L i then filter (\<lambda>c. c \<noteq> i) (lchildren L j) else lchildren L j)
     in if j = head then insert_child i cs else cs)"
  using assms by (intro nth_link_set_head_gen) (auto simp: wf_links_def ids_def)

lemma lhead_link_set_head:
  assumes "wf_links L" "i \<in> ids L" "-1 \<le> head" "head < int (length L)" "j \<in> ids L"
  shows "lhead (link_set_head i head L) j = (if j = i then head else lhead L j)"
  by (simp add: nth_link_set_head [OF assms])

lemma wf_link_set_head:
  assumes "wf_links L" "i \<in> ids L" "-1 \<le> head" "head < int (length L)"
  shows "wf_links (link_set_head i head L)"
proof -
  let ?M = "link_set_head i head L"
  note nth = nth_link_set_head [OF assms]
  have "-1 \<le> lhead ?M j \<and> lhead ?M j < int (length ?M) \<and> sorted_wrt (<) (lchildren ?M j)
      \<and> set (lchildren ?M j) = {k \<in> ids ?M. lhead ?M k = j}" if j: "j \<in> ids L" for j
  proof -
    let ?cs = "if j = lhead L i then filter (\<lambda>c. c \<noteq> i) (lchildren L j) else lchildren L j"
    have wfj: "-1 \<le> lhead L j" "lhead L j < int (length L)" "sorted_wrt (<) (lchildren L j)"
      "set (lchildren L j) = {k \<in> ids L. lhead L k = j}"
      using assms(1) j by (auto simp: wf_links_def)
    have cs: "sorted_wrt (<) ?cs" "set ?cs = {k \<in> ids L. lhead L k = j \<and> k \<noteq> i}"
      using wfj by (auto simp: sorted_wrt_filter)
    have heads: "{k \<in> ids ?M. lhead ?M k = j} = {k \<in> ids L. (if k = i then head else lhead L k) = j}"
      using lhead_link_set_head [OF assms] by auto
    have children: "lchildren ?M j = (if j = head then insert_child i ?cs else ?cs)"
      by (simp only: nth [OF j] snd_conv Let_def)
    have "sorted_wrt (<) (lchildren ?M j) \<and> set (lchildren ?M j) = {k \<in> ids ?M. lhead ?M k = j}"
    proof (cases "j = head")
      case True
      have "lchildren ?M j = insert_child i ?cs" using children [unfolded if_P [OF True]] .
      moreover have "insert i (set ?cs) = {k \<in> ids ?M. lhead ?M k = j}"
        unfolding heads cs(2) using True assms(2) by auto
      ultimately show ?thesis using insert_child_spec [OF cs(1), of i] by (simp only:)
    next
      case False
      have "lchildren ?M j = ?cs" using children [unfolded if_not_P [OF False]] .
      moreover have "set ?cs = {k \<in> ids ?M. lhead ?M k = j}"
        unfolding heads cs(2) using False by auto
      ultimately show ?thesis using cs(1) by (simp only:)
    qed
    then show ?thesis using nth [OF j] wfj assms(3,4) by simp
  qed
  then show ?thesis by (simp add: wf_links_def)
qed

text \<open>So the children of a node are the filtered list of all ids.\<close>

lemma wf_links_children:
  assumes "wf_links L" "i \<in> ids L"
  shows "lchildren L i = filter (\<lambda>j. lhead L j = i) (map int [0..<length L])"
proof (rule strict_sorted_equal)
  show "sorted_wrt (<) (lchildren L i)" using assms by (simp add: wf_links_def)
  have "sorted_wrt (<) (map int [0..<length L])" by (simp add: sorted_wrt_map)
  then show "sorted_wrt (<) (filter (\<lambda>j. lhead L j = i) (map int [0..<length L]))" by (rule sorted_wrt_filter)
  have "set (map int [0..<length L]) = ids L"
    by (auto simp: ids_def image_iff intro!: bexI [of _ "nat x" for x])
  then show "set (lchildren L i) = set (filter (\<lambda>j. lhead L j = i) (map int [0..<length L]))"
    using assms by (auto simp: wf_links_def)
qed

text \<open>
  Links that already carry their heads and get their children node by node, the way a reader
  does it: before step \<open>k\<close> the children lists hold the nodes below \<open>k\<close>.
\<close>

abbreviation id_list :: "'n list \<Rightarrow> int list" where
  "id_list ns \<equiv> map int [0..<length ns]"

definition part_links :: "nat \<Rightarrow> link list \<Rightarrow> bool" where
  "part_links k L \<longleftrightarrow> (\<forall>i \<in> ids L. lchildren L i = filter (\<lambda>j. j < int k \<and> lhead L j = i) (id_list L))"

lemma sorted_id_list: "sorted_wrt (<) (filter P (id_list ns))"
  by (rule sorted_wrt_filter) (simp add: sorted_wrt_map)

lemma set_id_list: "set (id_list ns) = ids ns"
  by (auto simp: ids_def image_iff intro!: bexI [of _ "nat x" for x])

lemma part_links_0: "(\<forall>l \<in> set L. snd l = []) \<Longrightarrow> part_links 0 L"
  by (auto simp: part_links_def ids_def nat_less_iff)

lemma part_links_skip: "part_links k L \<Longrightarrow> lhead L (int k) < 0 \<Longrightarrow> part_links (Suc k) L"
proof -
  assume part: "part_links k L" and hd: "lhead L (int k) < 0"
  have "filter (\<lambda>j. j < int (Suc k) \<and> lhead L j = i) (id_list L) =
        filter (\<lambda>j. j < int k \<and> lhead L j = i) (id_list L)" if "0 \<le> i" for i
  proof (rule filter_cong [OF refl])
    fix j assume "j \<in> set (id_list L)"
    show "(j < int (Suc k) \<and> lhead L j = i) = (j < int k \<and> lhead L j = i)"
      using hd that by (cases "j = int k") auto
  qed
  with part show ?thesis by (simp add: part_links_def ids_def)
qed

lemma part_links_step:
  assumes part: "part_links k L" and k: "k < length L" and h: "lhead L (int k) = h" "0 \<le> h" "h < int (length L)"
  shows "part_links (Suc k) (link_set_head (int k) h L) \<and> map fst (link_set_head (int k) h L) = map fst L"
proof -
  let ?M = "link_set_head (int k) h L"
  have kin: "int k \<in> ids L" using k by (simp add: ids_def)
  have hin: "h \<in> ids L" using h by (simp add: ids_def)
  have nth: "?M ! nat j = (lhead L j, if j = h then insert_child (int k) (lchildren L j) else lchildren L j)"
    if j: "j \<in> ids L" for j
  proof -
    have cs: "lchildren L j = filter (\<lambda>m. m < int k \<and> lhead L m = j) (id_list L)"
      using part j by (simp add: part_links_def)
    then have "int k \<notin> set (lchildren L j)" by simp
    moreover have "sorted_wrt (<) (lchildren L j)" unfolding cs by (rule sorted_id_list)
    moreover have hd: "(if j = int k then h else lhead L j) = lhead L j" by (cases "j = int k") (use h(1) in auto)
    moreover have "lhead L (int k) \<ge> 0 \<Longrightarrow> lhead L (int k) \<in> ids L" using h(1) hin by simp
    moreover have "filter (\<lambda>c. c \<noteq> int k) (lchildren L j) = lchildren L j" using calculation(1) by (rule filter_neq)
    ultimately show ?thesis
      using nth_link_set_head_gen [OF kin j h(3)] unfolding hd by (simp only: Let_def if_cancel)
  qed
  have heads: "lhead ?M j = lhead L j" if "j \<in> ids L" for j using nth [OF that] by simp
  have "lchildren ?M i = filter (\<lambda>j. j < int (Suc k) \<and> lhead ?M j = i) (id_list ?M)" if i: "i \<in> ids L" for i
  proof (rule strict_sorted_equal)
    have cs: "lchildren L i = filter (\<lambda>m. m < int k \<and> lhead L m = i) (id_list L)"
      using part i by (simp add: part_links_def)
    have sorted: "sorted_wrt (<) (lchildren L i)" unfolding cs by (rule sorted_id_list)
    show "sorted_wrt (<) (lchildren ?M i)"
      using nth [OF i] sorted insert_child_spec [OF sorted, of "int k"] by (cases "i = h") simp_all
    show "sorted_wrt (<) (filter (\<lambda>j. j < int (Suc k) \<and> lhead ?M j = i) (id_list ?M))" by (rule sorted_id_list)
    have "set (lchildren ?M i) = {j \<in> ids L. j < int (Suc k) \<and> lhead L j = i}"
    proof (cases "i = h")
      case True
      have "set (lchildren ?M i) = insert (int k) (set (lchildren L i))"
        using nth [OF i] True insert_child_spec [OF sorted, of "int k"] by simp
      moreover have "insert (int k) {j \<in> ids L. j < int k \<and> lhead L j = i} = {j \<in> ids L. j < int (Suc k) \<and> lhead L j = i}"
      proof (rule set_eqI)
        fix j show "j \<in> insert (int k) {j \<in> ids L. j < int k \<and> lhead L j = i} \<longleftrightarrow>
            j \<in> {j \<in> ids L. j < int (Suc k) \<and> lhead L j = i}"
          using kin h(1) True by (cases "j = int k") auto
      qed
      ultimately show ?thesis unfolding cs set_filter set_id_list by simp
    next
      case False
      then have "j \<noteq> int k" if "lhead L j = i" for j using that h(1) by auto
      then have "j < int (Suc k) \<and> lhead L j = i \<longleftrightarrow> j < int k \<and> lhead L j = i" for j by fastforce
      then show ?thesis using nth [OF i] False cs set_id_list [of L] by simp
    qed
    moreover have "lhead ?M j = i \<longleftrightarrow> lhead L j = i" if "j \<in> ids L" for j using heads [OF that] by simp
    ultimately show "set (lchildren ?M i) = set (filter (\<lambda>j. j < int (Suc k) \<and> lhead ?M j = i) (id_list ?M))"
      unfolding set_filter set_id_list by auto
  qed
  moreover have "map fst ?M = map fst L"
  proof (rule nth_equalityI)
    fix n assume "n < length (map fst ?M)"
    then show "map fst ?M ! n = map fst L ! n" using heads [of "int n"] by (simp add: ids_def)
  qed simp
  ultimately show ?thesis by (simp add: part_links_def)
qed

lemma part_links_all:
  assumes "part_links (length L) L" "\<forall>i \<in> ids L. -1 \<le> lhead L i \<and> lhead L i < int (length L)"
  shows "wf_links L"
proof -
  have "lchildren L i = filter (\<lambda>j. lhead L j = i) (id_list L)" if "i \<in> ids L" for i
  proof -
    have "lchildren L i = filter (\<lambda>j. j < int (length L) \<and> lhead L j = i) (id_list L)"
      using assms(1) that by (simp add: part_links_def)
    also have "\<dots> = filter (\<lambda>j. lhead L j = i) (id_list L)" by (rule filter_cong) auto
    finally show ?thesis .
  qed
  then have "sorted_wrt (<) (lchildren L i) \<and> set (lchildren L i) = {j \<in> ids L. lhead L j = i}" if "i \<in> ids L" for i
    using that sorted_id_list [of _ L] set_id_list [of L] by simp
  then show ?thesis using assms(2) unfolding wf_links_def by blast
qed

lemma wf_unlinked: "wf_links (map (\<lambda>_. (-1, [])) ns)"
proof -
  have "map (\<lambda>_. (-1, [])) ns ! nat i = (-1 :: int, [] :: int list)" if "i \<in> ids ns" for i :: int
    using that by (simp add: nth_map_ids)
  moreover have "-1 \<notin> ids ns" by (simp add: ids_def)
  ultimately show ?thesis by (auto simp: wf_links_def)
qed

lemma wf_add: "wf_links L \<Longrightarrow> wf_links (L @ [(-1, [])])"
  unfolding wf_links_def
proof (intro ballI)
  fix i assume wf: "\<forall>i\<in>ids L. -1 \<le> lhead L i \<and> lhead L i < int (length L) \<and> sorted_wrt (<) (lchildren L i)
      \<and> set (lchildren L i) = {j \<in> ids L. lhead L j = i}"
    and i: "i \<in> ids (L @ [(-1, [])])"
  have ids: "ids (L @ [(-1, [])]) = insert (int (length L)) (ids L)" by (auto simp: ids_def)
  have old: "(L @ [(-1, [])]) ! nat j = L ! nat j" if "j \<in> ids L" for j
    using that by (simp add: ids_def nth_append nat_less_iff)
  have notin: "int (length L) \<notin> ids L" by (simp add: ids_def)
  have pos: "j \<ge> 0" if "j \<in> ids L" for j using that by (simp add: ids_def)
  show "-1 \<le> lhead (L @ [(-1, [])]) i \<and> lhead (L @ [(-1, [])]) i < int (length (L @ [(-1, [])])) \<and>
      sorted_wrt (<) (lchildren (L @ [(-1, [])]) i) \<and>
      set (lchildren (L @ [(-1, [])]) i) = {j \<in> ids (L @ [(-1, [])]). lhead (L @ [(-1, [])]) j = i}"
  proof (cases "i \<in> ids L")
    case True
    have "{j \<in> ids (L @ [(-1, [])]). lhead (L @ [(-1, [])]) j = i} = {j \<in> ids L. lhead L j = i}"
    proof -
      have "lhead (L @ [(-1, [])]) (int (length L)) \<noteq> i" using pos [OF True] by simp
      then show ?thesis using old unfolding ids by auto
    qed
    moreover have "-1 \<le> lhead L i" "lhead L i < int (length L)" "sorted_wrt (<) (lchildren L i)"
        "set (lchildren L i) = {j \<in> ids L. lhead L j = i}" using wf True by auto
    ultimately show ?thesis using old [OF True] by simp
  next
    case False
    then have i: "i = int (length L)" using i ids by simp
    have "{j \<in> ids (L @ [(-1, [])]). lhead (L @ [(-1, [])]) j = i} = {}"
    proof -
      have "lhead (L @ [(-1, [])]) j \<noteq> i" if "j \<in> ids L" for j
        using wf that old [OF that] i by fastforce
      moreover have "lhead (L @ [(-1, [])]) (int (length L)) \<noteq> i" using i by simp
      ultimately show ?thesis unfolding ids by auto
    qed
    then show ?thesis by (simp add: i)
  qed
qed

section \<open>The contract of a container of linked nodes\<close>

text \<open>
  A container gives the links of a node and promises that its \<open>set_head\<close> acts on them as
  \<open>link_set_head\<close>, that unlinking clears them and that an added node has none.
\<close>

locale linked_nodes =
  fixes link :: "'n \<Rightarrow> link"
    and sh :: "int \<Rightarrow> int \<Rightarrow> string \<Rightarrow> 'n list \<Rightarrow> 'n list"
    and unlink :: "'n list \<Rightarrow> 'n list"
    and add :: "string \<Rightarrow> 'n list \<Rightarrow> 'n list"
  assumes links_set_head: "i \<in> ids ns \<Longrightarrow> (0 \<le> fst (link (ns ! nat i)) \<longrightarrow> fst (link (ns ! nat i)) \<in> ids ns) \<Longrightarrow>
      h < int (length ns) \<Longrightarrow> map link (sh i h d ns) = link_set_head i h (map link ns)"
    and links_unlink: "map link (unlink ns) = map (\<lambda>_. (-1, [])) ns"
    and links_add: "map link (add f ns) = map link ns @ [(-1, [])]"
begin

definition wf :: "'n list \<Rightarrow> bool" where
  "wf ns \<longleftrightarrow> wf_links (map link ns)"

abbreviation head :: "'n list \<Rightarrow> int \<Rightarrow> int" where
  "head ns i \<equiv> fst (link (ns ! nat i))"

abbreviation children :: "'n list \<Rightarrow> int \<Rightarrow> int list" where
  "children ns i \<equiv> snd (link (ns ! nat i))"

lemma head_links: "i \<in> ids ns \<Longrightarrow> lhead (map link ns) i = head ns i"
  by (simp add: nth_map_ids)

lemma wf_head: "wf ns \<Longrightarrow> i \<in> ids ns \<Longrightarrow> -1 \<le> head ns i \<and> head ns i < int (length ns)"
  by (auto simp: wf_def wf_links_def head_links dest: bspec)

lemma wf_head_ids: "wf ns \<Longrightarrow> i \<in> ids ns \<Longrightarrow> 0 \<le> head ns i \<Longrightarrow> head ns i \<in> ids ns"
  using wf_head [of ns i] by (simp add: ids_def)

lemma wf_children: "wf ns \<Longrightarrow> i \<in> ids ns \<Longrightarrow>
    sorted_wrt (<) (children ns i) \<and> set (children ns i) = {j \<in> ids ns. head ns j = i}"
  unfolding wf_def wf_links_def ids_map
  by (drule bspec, assumption) (simp add: nth_map_ids cong: conj_cong)

lemma wf_children_filter: "wf ns \<Longrightarrow> i \<in> ids ns \<Longrightarrow>
    children ns i = filter (\<lambda>j. head ns j = i) (map int [0..<length ns])"
  using wf_links_children [of "map link ns" i]
  by (auto simp: wf_def nth_map_ids ids_def nat_less_iff intro!: filter_cong)

lemma links_sh: "wf ns \<Longrightarrow> i \<in> ids ns \<Longrightarrow> -1 \<le> h \<Longrightarrow> h < int (length ns) \<Longrightarrow>
    map link (sh i h d ns) = link_set_head i h (map link ns)"
  using wf_head_ids by (intro links_set_head) auto

lemma length_sh: "wf ns \<Longrightarrow> i \<in> ids ns \<Longrightarrow> -1 \<le> h \<Longrightarrow> h < int (length ns) \<Longrightarrow> length (sh i h d ns) = length ns"
  using arg_cong [OF links_sh, of ns i h length d] by simp

lemma wf_sh: "wf ns \<Longrightarrow> i \<in> ids ns \<Longrightarrow> -1 \<le> h \<Longrightarrow> h < int (length ns) \<Longrightarrow> wf (sh i h d ns)"
  using links_sh [of ns i h d] wf_link_set_head [of "map link ns" i h] by (simp add: wf_def)

lemma head_sh:
  assumes "wf ns" "i \<in> ids ns" "-1 \<le> h" "h < int (length ns)" "j \<in> ids ns"
  shows "head (sh i h d ns) j = (if j = i then h else head ns j)"
proof -
  have "j \<in> ids (sh i h d ns)" using assms length_sh by (simp add: ids_def)
  then show ?thesis
    using lhead_link_set_head [of "map link ns" i h j] assms links_sh [of ns i h d]
    by (simp add: head_links [symmetric] wf_def)
qed

text \<open>A whole sequence of links, the one for \<open>i\<close> last: the last one counts.\<close>

lemma wf_sh_seq:
  assumes "wf ns" "\<forall>(i, h, d) \<in> set us. i \<in> ids ns \<and> -1 \<le> h \<and> h < int (length ns)"
  shows "wf (fold (\<lambda>(i, h, d). sh i h d) us ns) \<and>
    length (fold (\<lambda>(i, h, d). sh i h d) us ns) = length ns"
  using assms
proof (induction us arbitrary: ns)
  case (Cons u us)
  obtain i h d where u: "u = (i, h, d)" by (cases u)
  have len: "length (sh i h d ns) = length ns" and wf': "wf (sh i h d ns)"
    using Cons.prems length_sh [of ns i h d] wf_sh [of ns i h d] by (auto simp: u)
  have "ids (sh i h d ns) = ids ns" by (simp add: ids_def len)
  then show ?case using Cons.IH [OF wf'] Cons.prems(2) len by (simp add: u)
qed simp

lemma wf_unlink: "wf (unlink ns)"
  by (simp add: wf_def links_unlink wf_unlinked)

lemma length_unlink: "length (unlink ns) = length ns"
  using arg_cong [OF links_unlink, of length ns] by simp

lemma head_unlink: "i \<in> ids ns \<Longrightarrow> head (unlink ns) i = -1"
proof -
  assume i: "i \<in> ids ns"
  then have "i \<in> ids (unlink ns)" by (simp add: ids_def length_unlink)
  then have "head (unlink ns) i = lhead (map link (unlink ns)) i" by (simp add: nth_map_ids)
  also have "\<dots> = -1" using i unfolding links_unlink by (simp add: nth_map_ids)
  finally show ?thesis .
qed

lemma wf_add_node: "wf ns \<Longrightarrow> wf (add f ns)"
  by (simp add: wf_def links_add wf_add)

lemma wf_Nil: "wf []"
  by (auto simp: wf_def wf_links_def ids_def)

end

end
