(* ===== verification/Sentence.thy ===== *)
theory Sentence
  imports Token Links
begin

text \<open>
  Sentences: \<open>src/sentence/sentence.h\<close> and \<open>sentence.cpp\<close>. A sentence is a vector of words with
  the technical root at index 0, the multiword tokens, the empty nodes and the comment lines.
\<close>

section \<open>Model\<close>

record sentence =
  s_words :: "word_data list"
  s_multiword_tokens :: "multiword_token list"
  s_empty_nodes :: "empty_node list"
  s_comments :: "string list"

definition root_form :: string where
  "root_form = ''<root>''"

definition add_word :: "string \<Rightarrow> word_data list \<Rightarrow> word_data list" where
  "add_word form ws = ws @ [mk_word (int (length ws)) form]"

definition root_word :: word_data where
  "root_word = (mk_word 0 root_form)\<lparr>w_lemma := root_form, w_upostag := root_form,
     w_xpostag := root_form, w_feats := root_form\<rparr>"

definition clear_sentence :: sentence where
  "clear_sentence = \<lparr>s_words = [root_word], s_multiword_tokens = [], s_empty_nodes = [], s_comments = []\<rparr>"

definition sentence_empty :: "sentence \<Rightarrow> bool" where
  "sentence_empty s \<longleftrightarrow> length (s_words s) = 1"

text \<open>
  The assertions of \<open>set_head\<close> (\<open>0 <= id < words.size()\<close>, \<open>head < words.size()\<close>) are
  hypotheses of the lemmas.
\<close>

definition set_head :: "int \<Rightarrow> int \<Rightarrow> string \<Rightarrow> word_data list \<Rightarrow> word_data list" where
  "set_head i head deprel ws =
     (let old = w_head (ws ! nat i);
          ws = (if old \<ge> 0 then upd old (\<lambda>w. w\<lparr>w_children := remove_child i (w_children w)\<rparr>) ws else ws);
          ws = upd i (\<lambda>w. w\<lparr>w_head := head, w_deprel := deprel\<rparr>) ws
      in if head \<ge> 0 then upd head (\<lambda>w. w\<lparr>w_children := insert_child i (w_children w)\<rparr>) ws else ws)"

definition unlink_all_words :: "word_data list \<Rightarrow> word_data list" where
  "unlink_all_words ws = map (\<lambda>w. w\<lparr>w_head := -1, w_deprel := [], w_children := []\<rparr>) ws"

text \<open>Comments. A name matches where it stands first after \<open>#\<close> and blanks; the rest follows it.\<close>

definition blank :: "char \<Rightarrow> bool" where
  "blank c \<longleftrightarrow> c = CHR '' '' \<or> c = tab"

definition comment_rest :: "string \<Rightarrow> string \<Rightarrow> string option" where
  "comment_rest name comment =
     (case comment of [] \<Rightarrow> None
      | c # s \<Rightarrow>
        if c = CHR ''#'' then
          (let s = dropWhile blank s in
           if take (length name) s = name then Some (drop (length name) s) else None)
        else None)"

text \<open>The answer \<open>Some v\<close> is \<open>true\<close> with the value \<open>v\<close>.\<close>

fun get_comment :: "string \<Rightarrow> string list \<Rightarrow> string option" where
  "get_comment name [] = None"
| "get_comment name (comment # comments) =
     (case comment_rest name comment of None \<Rightarrow> get_comment name comments
      | Some s \<Rightarrow>
        (let s = dropWhile blank s in
         case s of [] \<Rightarrow> Some []
         | c # s \<Rightarrow> if c = CHR ''='' then Some (dropWhile blank s) else Some []))"

text \<open>The loop runs from the back and erases in place; the order of what is kept does not change.\<close>

definition remove_comment :: "string \<Rightarrow> string list \<Rightarrow> string list" where
  "remove_comment name comments = filter (\<lambda>comment. comment_rest name comment = None) comments"

definition one_line :: "string \<Rightarrow> string" where
  "one_line v = map (\<lambda>c. if c = cr \<or> c = lf then CHR '' '' else c) v"

definition set_comment :: "string \<Rightarrow> string \<Rightarrow> string list \<Rightarrow> string list" where
  "set_comment name v comments =
     remove_comment name comments @ [''# '' @ name @ (if v \<noteq> [] then '' = '' @ one_line v else [])]"

definition get_new_doc :: "sentence \<Rightarrow> string option" where
  "get_new_doc s = (case get_comment ''newdoc id'' (s_comments s) of Some v \<Rightarrow> Some v
     | None \<Rightarrow> get_comment ''newdoc'' (s_comments s))"

definition set_new_doc :: "bool \<Rightarrow> string \<Rightarrow> sentence \<Rightarrow> sentence" where
  "set_new_doc new_doc v s =
     (let cs = remove_comment ''newdoc id'' (remove_comment ''newdoc'' (s_comments s))
      in s\<lparr>s_comments := (if new_doc \<and> v \<noteq> [] then set_comment ''newdoc id'' v cs
            else if new_doc then set_comment ''newdoc'' [] cs else cs)\<rparr>)"

definition get_new_par :: "sentence \<Rightarrow> string option" where
  "get_new_par s = (case get_comment ''newpar id'' (s_comments s) of Some v \<Rightarrow> Some v
     | None \<Rightarrow> get_comment ''newpar'' (s_comments s))"

definition set_new_par :: "bool \<Rightarrow> string \<Rightarrow> sentence \<Rightarrow> sentence" where
  "set_new_par new_par v s =
     (let cs = remove_comment ''newpar id'' (remove_comment ''newpar'' (s_comments s))
      in s\<lparr>s_comments := (if new_par \<and> v \<noteq> [] then set_comment ''newpar id'' v cs
            else if new_par then set_comment ''newpar'' [] cs else cs)\<rparr>)"

definition get_sent_id :: "sentence \<Rightarrow> string option" where
  "get_sent_id s = get_comment ''sent_id'' (s_comments s)"

definition set_sent_id :: "string \<Rightarrow> sentence \<Rightarrow> sentence" where
  "set_sent_id v s = s\<lparr>s_comments := (let cs = remove_comment ''sent_id'' (s_comments s)
     in if v \<noteq> [] then set_comment ''sent_id'' v cs else cs)\<rparr>"

definition get_text :: "sentence \<Rightarrow> string option" where
  "get_text s = get_comment ''text'' (s_comments s)"

definition set_text :: "string \<Rightarrow> sentence \<Rightarrow> sentence" where
  "set_text v s = s\<lparr>s_comments := (let cs = remove_comment ''text'' (s_comments s)
     in if v \<noteq> [] then set_comment ''text'' v cs else cs)\<rparr>"

section \<open>Heads and children of words\<close>

definition word_link :: "word_data \<Rightarrow> link" where
  "word_link w = (w_head w, w_children w)"

text \<open>The three updates that \<open>set_head\<close> makes, on the links.\<close>

lemma word_link_upds:
  "i \<in> ids ws \<Longrightarrow> map word_link (upd i (\<lambda>w. w\<lparr>w_children := remove_child c (w_children w)\<rparr>) ws)
     = upd i (\<lambda>(h, cs). (h, remove_child c cs)) (map word_link ws)"
  "i \<in> ids ws \<Longrightarrow> map word_link (upd i (\<lambda>w. w\<lparr>w_children := insert_child c (w_children w)\<rparr>) ws)
     = upd i (\<lambda>(h, cs). (h, insert_child c cs)) (map word_link ws)"
  "i \<in> ids ws \<Longrightarrow> map word_link (upd i (\<lambda>w. w\<lparr>w_head := h, w_deprel := d\<rparr>) ws)
     = upd i (\<lambda>(_, cs). (h, cs)) (map word_link ws)"
  by (simp_all add: map_upd word_link_def)

lemma map_set_head:
  assumes "i \<in> ids ws" "0 \<le> w_head (ws ! nat i) \<longrightarrow> w_head (ws ! nat i) \<in> ids ws" "h < int (length ws)"
  shows "map word_link (set_head i h d ws) = link_set_head i h (map word_link ws)"
proof -
  have old: "lhead (map word_link ws) i = w_head (ws ! nat i)"
    using assms(1) by (simp add: nth_map_ids word_link_def)
  have "h \<ge> 0 \<Longrightarrow> h \<in> ids ws" using assms(3) by (simp add: ids_def)
  then show ?thesis
    using assms(1,2) by (simp add: set_head_def link_set_head_def Let_def old word_link_upds)
qed

interpretation words: linked_nodes word_link set_head unlink_all_words add_word
proof unfold_locales
  fix i h d and ns :: "word_data list"
  assume "i \<in> ids ns" "0 \<le> fst (word_link (ns ! nat i)) \<longrightarrow> fst (word_link (ns ! nat i)) \<in> ids ns" "h < int (length ns)"
  then show "map word_link (set_head i h d ns) = link_set_head i h (map word_link ns)"
    by (intro map_set_head) (simp_all add: word_link_def)
qed (simp_all add: unlink_all_words_def add_word_def word_link_def mk_word_def)

text \<open>
  The invariant of a sentence: the technical root is there, without head, the ids are the
  positions, and heads and children agree.
\<close>

definition wf_words :: "word_data list \<Rightarrow> bool" where
  "wf_words ws \<longleftrightarrow> ws \<noteq> [] \<and> map w_id ws = map int [0..<length ws] \<and> words.wf ws"

lemma wf_words_clear: "wf_words (s_words clear_sentence)"
  using words.wf_add_node [OF words.wf_Nil, of root_form]
  by (simp add: wf_words_def clear_sentence_def add_word_def words.wf_def word_link_def root_word_def mk_word_def)

lemma wf_words_add: "wf_words ws \<Longrightarrow> wf_words (add_word form ws)"
  using words.wf_add_node [of ws form] by (simp add: wf_words_def add_word_def mk_word_def)

lemma w_id_set_head: "map w_id (set_head i h d ws) = map w_id ws"
  by (simp add: set_head_def Let_def map_upd_same)

lemma wf_words_set_head:
  assumes "wf_words ws" "i \<in> ids ws" "-1 \<le> h" "h < int (length ws)"
  shows "wf_words (set_head i h d ws)"
proof -
  have wf: "words.wf ws" and ne: "ws \<noteq> []" and wid: "map w_id ws = map int [0..<length ws]"
    using assms(1) by (auto simp: wf_words_def)
  have len: "length (set_head i h d ws) = length ws" using words.length_sh [OF wf assms(2-4)] .
  then have "set_head i h d ws \<noteq> []" using ne by (metis length_0_conv)
  then show ?thesis
    unfolding wf_words_def w_id_set_head len wid using words.wf_sh [OF wf assms(2-4)] by simp
qed

lemma wf_words_unlink: "wf_words ws \<Longrightarrow> wf_words (unlink_all_words ws)"
  using words.wf_unlink [of ws] by (simp add: wf_words_def unlink_all_words_def comp_def)


section \<open>Comments as a store of fields\<close>

text \<open>
  The names that \<open>sentence\<close> uses, none a prefix of another. A value is read back without the
  blanks in front of it, and it is written on one line.
\<close>

definition comment_name :: "string \<Rightarrow> bool" where
  "comment_name n \<longleftrightarrow> n = ''newdoc'' \<or> n = ''newpar'' \<or> n = ''sent_id'' \<or> n = ''text''"

definition comment_value :: "string \<Rightarrow> bool" where
  "comment_value v \<longleftrightarrow> dropWhile blank v = v \<and> one_line v = v"

lemma not_blank [simp]: "\<not> blank (CHR ''='')" "blank (CHR '' '')"
  "\<not> blank (CHR ''n'')" "\<not> blank (CHR ''s'')" "\<not> blank (CHR ''t'')"
  by (auto simp: blank_def)

lemma comment_rest_unique:
  "comment_name n \<Longrightarrow> comment_name n' \<Longrightarrow> n' \<noteq> n \<Longrightarrow> comment_rest n c = Some r \<Longrightarrow> comment_rest n' c = None"
proof -
  assume n: "comment_name n" "comment_name n'" "n' \<noteq> n" and c: "comment_rest n c = Some r"
  then obtain s where s: "c = CHR ''#'' # s" "take (length n) (dropWhile blank s) = n"
    by (auto simp: comment_rest_def Let_def split: list.splits if_splits)
  define t where "t = dropWhile blank s"
  have "t = n @ drop (length n) t"
    using s(2) unfolding t_def [symmetric] by (metis append_take_drop_id)
  then have "take (length n') t \<noteq> n'"
    using n unfolding comment_name_def by (elim disjE) (simp_all, (erule ssubst, simp)+)
  then show ?thesis by (simp add: comment_rest_def s(1) t_def)
qed

lemma get_comment_append: "get_comment n (cs @ ds) = (case get_comment n cs of None \<Rightarrow> get_comment n ds | Some v \<Rightarrow> Some v)"
  by (induction cs) (auto simp: Let_def split: option.split list.split)

lemma get_remove_comment [simp]: "get_comment n (remove_comment n cs) = None"
  by (induction cs) (auto simp: remove_comment_def)

lemma get_remove_comment_other:
  "comment_name n \<Longrightarrow> comment_name n' \<Longrightarrow> n' \<noteq> n \<Longrightarrow> get_comment n' (remove_comment n cs) = get_comment n' cs"
  by (induction cs) (auto simp: remove_comment_def dest: comment_rest_unique split: option.split)

lemma comment_rest_name: "comment_name n \<Longrightarrow> comment_rest n (''# '' @ n @ r) = Some r"
  by (auto simp: comment_name_def comment_rest_def)

lemma dropWhile_one_line: "dropWhile blank (one_line v) = [] \<or> hd (dropWhile blank (one_line v)) \<noteq> CHR '' ''"
  using hd_dropWhile [of blank "one_line v"] by (auto simp: blank_def)

lemma get_set_comment:
  assumes "comment_name n"
  shows "get_comment n (set_comment n v cs) = Some (dropWhile blank (one_line v))"
  using comment_rest_name [OF assms]
  by (simp add: set_comment_def get_comment_append one_line_def)

lemma get_set_comment_other:
  assumes "comment_name n" "comment_name n'" "n' \<noteq> n"
  shows "get_comment n' (set_comment n v cs) = get_comment n' cs"
proof -
  have "comment_rest n' (''# '' @ n @ r) = None" for r
    using comment_rest_unique [OF assms comment_rest_name [OF assms(1)]] .
  from this this [of "[]"] show ?thesis
    by (simp add: set_comment_def get_comment_append get_remove_comment_other [OF assms] split: option.split)
qed

interpretation comments: field_store get_comment set_comment remove_comment comment_name comment_value
  by unfold_locales
    (simp_all add: get_set_comment get_set_comment_other get_remove_comment_other comment_value_def)

lemma comment_names [simp]:
  "comment_name ''newdoc''" "comment_name ''newpar''" "comment_name ''sent_id''" "comment_name ''text''"
  by (simp_all add: comment_name_def)


text \<open>A name with an id behind it: what matches it matches the bare name too.\<close>

lemma comment_rest_prefix: "comment_rest (n @ m) c = Some r \<Longrightarrow> comment_rest n c \<noteq> None"
proof -
  assume a: "comment_rest (n @ m) c = Some r"
  then obtain s where s: "c = CHR ''#'' # s" "take (length (n @ m)) (dropWhile blank s) = n @ m"
    by (auto simp: comment_rest_def Let_def split: list.splits if_splits)
  have "take (length n) (take (length (n @ m)) (dropWhile blank s)) = n" unfolding s(2) by simp
  then have "take (length n) (dropWhile blank s) = n" by (simp add: min_absorb1)
  then show ?thesis by (simp add: comment_rest_def s(1) Let_def)
qed

lemma get_remove_comment_longer: "get_comment (n @ m) (remove_comment n cs) = None"
  by (induction cs) (auto simp: remove_comment_def split: option.split dest: comment_rest_prefix)

lemma get_comment_None_remove: "get_comment n cs = None \<Longrightarrow> get_comment n (remove_comment m cs) = None"
  by (induction cs) (auto simp: remove_comment_def Let_def split: option.splits list.splits if_splits)

lemma remove_comment_id: "get_comment n cs = None \<Longrightarrow> remove_comment n cs = cs"
  by (induction cs) (auto simp: remove_comment_def Let_def split: option.splits list.splits if_splits)

lemma removed_twice [simp]: "remove_comment (n @ m) (remove_comment n cs) = remove_comment n cs"
  by (simp add: remove_comment_id get_remove_comment_longer)

lemma removed_newdoc [simp]: "remove_comment ''newdoc id'' (remove_comment ''newdoc'' cs) = remove_comment ''newdoc'' cs"
    "remove_comment ''newpar id'' (remove_comment ''newpar'' cs) = remove_comment ''newpar'' cs"
  using removed_twice [of "''newdoc''" "'' id''" cs] removed_twice [of "''newpar''" "'' id''" cs] by simp_all

lemma no_newdoc_id [simp]: "get_comment ''newdoc id'' (remove_comment ''newdoc'' cs) = None"
    "get_comment ''newpar id'' (remove_comment ''newpar'' cs) = None"
  using get_remove_comment_longer [of "''newdoc''" "'' id''" cs] get_remove_comment_longer [of "''newpar''" "'' id''" cs]
  by simp_all

lemma removed_again [simp]: "remove_comment n (remove_comment n cs) = remove_comment n cs"
  by (simp add: remove_comment_id)

lemmas comment_ops = get_text_def set_text_def get_sent_id_def set_sent_id_def get_new_doc_def set_new_doc_def
  get_new_par_def set_new_par_def Let_def

lemma get_newdoc_id:
  "get_comment ''newdoc id'' (remove_comment ''newdoc'' cs @ [''# newdoc id = '' @ v]) = Some (dropWhile blank v)"
  "get_comment ''newdoc'' (remove_comment ''newdoc'' cs @ [''# newdoc'']) = Some []"
  "get_comment ''newdoc id'' (remove_comment ''newdoc'' cs @ [''# newdoc'']) = None"
  "get_comment ''newpar id'' (remove_comment ''newpar'' cs @ [''# newpar id = '' @ v]) = Some (dropWhile blank v)"
  "get_comment ''newpar'' (remove_comment ''newpar'' cs @ [''# newpar'']) = Some []"
  "get_comment ''newpar id'' (remove_comment ''newpar'' cs @ [''# newpar'']) = None"
  by (simp_all add: get_comment_append comment_rest_def)

text \<open>
  The text and the id of a sentence read back as they were set, with line breaks turned into
  spaces and leading blanks dropped, and the document and paragraph marks with their ids too;
  an empty text or id and a cleared mark read back as absent.
\<close>

theorem comments_roundtrip:
  "get_text (set_text v s) = (if v = [] then None else Some (dropWhile blank (one_line v))) \<and>
   get_sent_id (set_sent_id v s) = (if v = [] then None else Some (dropWhile blank (one_line v))) \<and>
   get_new_doc (set_new_doc b v s) = (if b then Some (dropWhile blank (one_line v)) else None) \<and>
   get_new_par (set_new_par b v s) = (if b then Some (dropWhile blank (one_line v)) else None)"
proof (intro conjI)
  have one_line_Nil: "one_line [] = []" by (simp add: one_line_def)
  show "get_text (set_text v s) = (if v = [] then None else Some (dropWhile blank (one_line v)))"
    by (simp add: comment_ops get_set_comment)
  show "get_sent_id (set_sent_id v s) = (if v = [] then None else Some (dropWhile blank (one_line v)))"
    by (simp add: comment_ops get_set_comment)
  show "get_new_doc (set_new_doc b v s) = (if b then Some (dropWhile blank (one_line v)) else None)"
    by (simp add: comment_ops set_comment_def get_newdoc_id [simplified] one_line_Nil split: option.split)
  show "get_new_par (set_new_par b v s) = (if b then Some (dropWhile blank (one_line v)) else None)"
    by (simp add: comment_ops set_comment_def get_newdoc_id [simplified] one_line_Nil split: option.split)
qed

text \<open>
  Setting the text of a sentence deletes every comment whose name merely starts with
  \<open>text\<close>, so a translation in the line \<open># text_en = ...\<close> is lost, and before that
  \<open>get_text\<close> answers with an empty text where only such a line exists.
\<close>

theorem text_prefix_comments:
  "get_text (clear_sentence\<lparr>s_comments := [''# text_en = Hi'']\<rparr>) = Some [] \<and>
   s_comments (set_text v (s\<lparr>s_comments := [''# text_'' @ n]\<rparr>)) =
     (if v = [] then [] else [''# text = '' @ one_line v])"
  by (simp add: get_text_def set_text_def set_comment_def remove_comment_def comment_rest_def)

section \<open>Heads\<close>

text \<open>
  C24: \<open>set_head\<close> keeps the invariant of a sentence. It changes the head of one word and of no
  other, and afterwards the children of every word are exactly the words it heads, in order.
\<close>

theorem set_head_correct:
  assumes "wf_words ws" "i \<in> ids ws" "-1 \<le> h" "h < int (length ws)" "j \<in> ids ws"
  shows "wf_words (set_head i h d ws) \<and>
    w_head (set_head i h d ws ! nat j) = (if j = i then h else w_head (ws ! nat j)) \<and>
    w_children (set_head i h d ws ! nat j) =
      filter (\<lambda>k. w_head (set_head i h d ws ! nat k) = j) (map int [0..<length ws])"
proof -
  have wf: "words.wf ws" using assms(1) by (simp add: wf_words_def)
  have len: "length (set_head i h d ws) = length ws" using words.length_sh [OF wf assms(2-4)] .
  have "j \<in> ids (set_head i h d ws)" using assms(5) by (simp add: ids_def len)
  then show ?thesis
    using wf_words_set_head [OF assms(1-4)] words.head_sh [OF wf assms(2-5)]
      words.wf_children_filter [OF words.wf_sh [OF wf assms(2-4)]] len
    by (simp add: word_link_def)
qed

lemma set_head_correct_witness:
  "let ws = add_word ''b'' (add_word ''a'' (s_words clear_sentence)) in
   wf_words (set_head 2 1 ''obj'' ws) \<and> w_children (set_head 2 1 ''obj'' ws ! 1) = [2]"
  using set_head_correct [OF wf_words_add [OF wf_words_add [OF wf_words_clear, of "''a''"], of "''b''"], of 2 1 1 "''obj''"]
  by (simp add: Let_def ids_def add_word_def clear_sentence_def upt_rec set_head_def upd_def
      root_word_def mk_word_def insert_child_def insert_child_pos.simps)

text \<open>A sentence built by the operations satisfies the invariant, whatever their order.\<close>

inductive built_words :: "word_data list \<Rightarrow> bool" where
  cleared: "built_words (s_words clear_sentence)"
| added: "built_words ws \<Longrightarrow> built_words (add_word form ws)"
| linked: "built_words ws \<Longrightarrow> i \<in> ids ws \<Longrightarrow> -1 \<le> h \<Longrightarrow> h < int (length ws) \<Longrightarrow> built_words (set_head i h d ws)"
| unlinked: "built_words ws \<Longrightarrow> built_words (unlink_all_words ws)"

lemma built_words_wf: "built_words ws \<Longrightarrow> wf_words ws"
  by (induction rule: built_words.induct) (auto intro: wf_words_clear wf_words_add wf_words_set_head wf_words_unlink)

end
