(* ===== verification/Conllu.thy ===== *)
theory Conllu
  imports Sentence
begin

text \<open>
  The CoNLL-U reader and writer: \<open>input_format_conllu\<close> (\<open>src/sentence/input_format.cpp\<close>) and
  \<open>output_format_conllu\<close> (\<open>src/sentence/output_format.cpp\<close>), with the branches and messages of
  the code. \<open>int(s.words.size())\<close> is the length of the word list: a sentence has fewer than
  \<open>2 ^ 31\<close> words. The reading loop is a partial function: \<open>None\<close> is a run that never ends.
\<close>

section \<open>Reader\<close>

definition conllu_columns :: "string list" where
  "conllu_columns = [''ID'', ''FORM'', ''LEMMA'', ''UPOS'', ''XPOS'', ''FEATS'', ''HEAD'', ''DEPREL'', ''DEPS'', ''MISC'']"

text \<open>The first line of the text, and the text behind it and behind the line end.\<close>

definition no_eol :: "char \<Rightarrow> bool" where
  "no_eol c \<longleftrightarrow> c \<noteq> cr \<and> c \<noteq> lf"

definition skip_eol :: "string \<Rightarrow> string" where
  "skip_eol text =
     (if length text \<ge> 2 \<and> text ! 0 = cr \<and> text ! 1 = lf then drop 2 text
      else if text \<noteq> [] \<and> hd text = lf then tl text
      else text)"

definition read_line :: "string \<Rightarrow> string \<times> string" where
  "read_line text = (takeWhile no_eol text, skip_eol (dropWhile no_eol text))"

definition is_underscore :: "string \<Rightarrow> bool" where
  "is_underscore column \<longleftrightarrow> column = ''_''"

definition from_underscore :: "string \<Rightarrow> string" where
  "from_underscore column = (if is_underscore column then [] else column)"

fun check_columns :: "nat \<Rightarrow> string \<Rightarrow> nat \<Rightarrow> string list \<Rightarrow> unit result" where
  "check_columns version line i [] = Inr ()"
| "check_columns version line i (token # tokens) =
     (if token = [] then
        Inl (''The CoNLL-U line '' @ quoted line @ '' contains empty column '' @ conllu_columns ! i @ ''!'')
      else if (version < 2 \<or> (i \<noteq> 1 \<and> i \<noteq> 2 \<and> i \<noteq> 9)) \<and> CHR '' '' \<in> set token then
        Inl (''The CoNLL-U line '' @ quoted line @ '' contains spaces in column '' @ conllu_columns ! i @ ''!'')
      else check_columns version line (i + 1) tokens)"

text \<open>The columns that a multiword token leaves empty, from index \<open>i\<close> on.\<close>

fun check_mwt_columns :: "nat \<Rightarrow> string \<Rightarrow> nat \<Rightarrow> string list \<Rightarrow> unit result" where
  "check_mwt_columns version line i [] = Inr ()"
| "check_mwt_columns version line i (token # tokens) =
     (if version \<ge> 2 \<and> i = 5 then
        if \<not> is_underscore token \<and> token \<noteq> ''Typo=Yes'' then
          Inl (''Column '' @ conllu_columns ! i @ '' of an multi-word token '' @ quoted line @ '' is not empty or Typo=Yes!'')
        else check_mwt_columns version line (i + 1) tokens
      else if \<not> is_underscore token then
        Inl (''Column '' @ conllu_columns ! i @ '' of an multi-word token '' @ quoted line @ '' is not empty!'')
      else check_mwt_columns version line (i + 1) tokens)"

text \<open>The state of the loop: the sentence and \<open>last_multiword_token\<close>.\<close>

type_synonym reader = "sentence \<times> int"

definition read_mwt :: "nat \<Rightarrow> string \<Rightarrow> string list \<Rightarrow> reader \<Rightarrow> reader result" where
  "read_mwt version line tokens = (\<lambda>(s, last).
     (let parts = split (tokens ! 0) (CHR ''-'') in
      if length parts \<noteq> 2 then Inl (''Cannot parse ID of multiword token '' @ quoted line @ ''!'')
      else case parse_int (parts ! 0) ''CoNLL-U id'' of Inl e \<Rightarrow> Inl e
      | Inr from_id \<Rightarrow>
      (case parse_int (parts ! 1) ''CoNLL-U id'' of Inl e \<Rightarrow> Inl e
      | Inr to_id \<Rightarrow>
        if from_id \<noteq> int (length (s_words s)) then
          Inl (''Incorrect ID '' @ quoted (parts ! 0) @ '' of multiword token '' @ quoted line @ ''!'')
        else if to_id < from_id then
          Inl (''Incorrect range '' @ quoted (tokens ! 0) @ '' of multiword token '' @ quoted line @ ''!'')
        else if from_id \<le> last then
          Inl (''Multiword token '' @ quoted line @ '' overlaps with the previous one!'')
        else case check_mwt_columns version line 2 (take 7 (drop 2 tokens)) of Inl e \<Rightarrow> Inl e
        | Inr _ \<Rightarrow>
          Inr (s\<lparr>s_multiword_tokens := s_multiword_tokens s @
                 [(mk_multiword_token from_id to_id (tokens ! 1) (from_underscore (tokens ! 9)))
                    \<lparr>mwt_feats := from_underscore (tokens ! 5)\<rparr>]\<rparr>, to_id))))"

definition empty_index_ok :: "empty_node list \<Rightarrow> int \<Rightarrow> int \<Rightarrow> bool" where
  "empty_index_ok ens i index \<longleftrightarrow>
     (ens = [] \<and> index = 1) \<or> (ens \<noteq> [] \<and> en_id (last ens) < i \<and> index = 1) \<or>
     (ens \<noteq> [] \<and> en_id (last ens) = i \<and> index = en_index (last ens) + 1)"

definition read_empty_node :: "string \<Rightarrow> string list \<Rightarrow> sentence \<Rightarrow> sentence result" where
  "read_empty_node line tokens s =
     (let parts = split (tokens ! 0) (CHR ''.'') in
      if length parts \<noteq> 2 then Inl (''Cannot parse ID of empty node '' @ quoted line @ ''!'')
      else case parse_int (parts ! 0) ''CoNLL-U empty node id'' of Inl e \<Rightarrow> Inl e
      | Inr i \<Rightarrow>
      (case parse_int (parts ! 1) ''CoNLL-U empty node index'' of Inl e \<Rightarrow> Inl e
      | Inr index \<Rightarrow>
        if i \<noteq> int (length (s_words s)) - 1 then
          Inl (''Incorrect ID '' @ quoted (parts ! 0) @ '' of empty node token '' @ quoted line @ ''!'')
        else if \<not> empty_index_ok (s_empty_nodes s) i index then
          Inl (''Incorrect ID index '' @ quoted (parts ! 1) @ '' of empty node token '' @ quoted line @ ''!'')
        else if \<not> is_underscore (tokens ! 6) then
          Inl (''Column '' @ conllu_columns ! 6 @ '' of an empty node token '' @ quoted line @ '' is not an empty!'')
        else if \<not> is_underscore (tokens ! 7) then
          Inl (''Column '' @ conllu_columns ! 7 @ '' of an empty node token '' @ quoted line @ '' is not an empty!'')
        else
          Inr (s\<lparr>s_empty_nodes := s_empty_nodes s @
                 [(mk_empty_node i index)\<lparr>en_form := tokens ! 1, en_lemma := tokens ! 2,
                    en_upostag := from_underscore (tokens ! 3), en_xpostag := from_underscore (tokens ! 4),
                    en_feats := from_underscore (tokens ! 5), en_deps := from_underscore (tokens ! 8),
                    en_misc := from_underscore (tokens ! 9)\<rparr>]\<rparr>)))"

definition read_head :: "string list \<Rightarrow> int result" where
  "read_head tokens =
     (if is_underscore (tokens ! 6) then Inr (-1)
      else case parse_int (tokens ! 6) ''CoNLL-U head'' of Inl e \<Rightarrow> Inl e
      | Inr head \<Rightarrow>
        if head < 0 then Inl (''Numeric head value '' @ quoted (tokens ! 0) @ '' cannot be negative!'')
        else Inr head)"

definition columns_word :: "string list \<Rightarrow> int \<Rightarrow> int \<Rightarrow> word_data" where
  "columns_word tokens i head =
     (mk_word i (tokens ! 1))\<lparr>w_lemma := tokens ! 2,
        w_upostag := from_underscore (tokens ! 3), w_xpostag := from_underscore (tokens ! 4),
        w_feats := from_underscore (tokens ! 5), w_head := head,
        w_deprel := from_underscore (tokens ! 7), w_deps := from_underscore (tokens ! 8),
        tk_misc := from_underscore (tokens ! 9)\<rparr>"

definition read_word :: "string \<Rightarrow> string list \<Rightarrow> sentence \<Rightarrow> sentence result" where
  "read_word line tokens s =
     (case parse_int (tokens ! 0) ''CoNLL-U id'' of Inl e \<Rightarrow> Inl e
      | Inr i \<Rightarrow>
        if i \<noteq> int (length (s_words s)) then
          Inl (''Incorrect ID '' @ quoted (tokens ! 0) @ '' of CoNLL-U line '' @ quoted line @ ''!'')
        else case read_head tokens of Inl e \<Rightarrow> Inl e
        | Inr head \<Rightarrow>
          Inr (s\<lparr>s_words := s_words s @ [columns_word tokens (int (length (s_words s))) head]\<rparr>))"

text \<open>One line that is not empty.\<close>

definition read_conllu_line :: "nat \<Rightarrow> string \<Rightarrow> reader \<Rightarrow> reader result" where
  "read_conllu_line version line = (\<lambda>(s, last).
     (if hd line = CHR ''#'' then
        Inr (if sentence_empty s then s\<lparr>s_comments := s_comments s @ [line]\<rparr> else s, last)
      else
        (let tokens = split line tab in
         if length tokens \<noteq> 10 then Inl (''The CoNLL-U line '' @ quoted line @ '' does not contain 10 columns!'')
         else case check_columns version line 0 tokens of Inl e \<Rightarrow> Inl e
         | Inr _ \<Rightarrow>
           if CHR ''-'' \<in> set (tokens ! 0) then read_mwt version line tokens (s, last)
           else if version \<ge> 2 \<and> CHR ''.'' \<in> set (tokens ! 0) then
             (case read_empty_node line tokens s of Inl e \<Rightarrow> Inl e | Inr s \<Rightarrow> Inr (s, last))
           else (case read_word line tokens s of Inl e \<Rightarrow> Inl e | Inr s \<Rightarrow> Inr (s, last)))))"

text \<open>The loop; the second component of the outcome is the text not yet read.\<close>

partial_function (option) read_conllu_loop ::
  "nat \<Rightarrow> string \<Rightarrow> reader \<Rightarrow> (reader result \<times> string) option" where
  "read_conllu_loop version text st =
     (if text = [] then Some (Inr st, text)
      else let line = fst (read_line text); text = snd (read_line text) in
        if line = [] then
          if sentence_empty (fst st) then read_conllu_loop version text st else Some (Inr st, text)
        else if isl (read_conllu_line version line st) then Some (read_conllu_line version line st, text)
        else read_conllu_loop version text (projr (read_conllu_line version line st)))"

declare read_conllu_loop.simps [code]

text \<open>The last loop of \<open>next_sentence\<close>, over the words with the given indices.\<close>

fun link_words :: "nat list \<Rightarrow> word_data list \<Rightarrow> word_data list result" where
  "link_words [] ws = Inr ws"
| "link_words (k # ks) ws =
     (let w = ws ! k in
      if w_id w \<noteq> 0 \<and> w_head w \<ge> 0 then
        if w_head w \<ge> int (length ws) then
          Inl (''Node ID '' @ quoted (show_int (w_id w)) @ '' form '' @ quoted (tk_form w) @
               '' has too large head: '' @ quoted (show_int (w_head w)) @ ''!'')
        else link_words ks (set_head (w_id w) (w_head w) (w_deprel w) ws)
      else link_words ks ws)"

text \<open>\<open>Inr None\<close> is the answer \<open>false\<close> without an error: there is no further sentence.\<close>

definition finish_sentence :: "reader \<Rightarrow> sentence option result" where
  "finish_sentence = (\<lambda>(s, last_mwt).
     (if last_mwt \<ge> int (length (s_words s)) then
        Inl (''There are words missing for multiword token '' @ quoted (tk_form (last (s_multiword_tokens s))) @ ''!'')
      else case link_words [0..<length (s_words s)] (s_words s) of Inl e \<Rightarrow> Inl e
      | Inr ws \<Rightarrow> Inr (if sentence_empty (s\<lparr>s_words := ws\<rparr>) then None else Some (s\<lparr>s_words := ws\<rparr>))))"

definition conllu_next_sentence :: "nat \<Rightarrow> string \<Rightarrow> (sentence option result \<times> string) option" where
  "conllu_next_sentence version text =
     (case read_conllu_loop version text (clear_sentence, 0) of None \<Rightarrow> None
      | Some (outcome, text) \<Rightarrow>
        Some (case outcome of Inl e \<Rightarrow> Inl e | Inr st \<Rightarrow> finish_sentence st, text))"

section \<open>Writer\<close>

definition underscore_on_empty :: "string \<Rightarrow> string" where
  "underscore_on_empty str = (if str = [] then ''_'' else str)"

definition write_with_spaces :: "nat \<Rightarrow> string \<Rightarrow> string" where
  "write_with_spaces version str =
     (if version \<ge> 2 \<or> CHR '' '' \<notin> set str then str
      else map (\<lambda>c. if c = CHR '' '' then CHR ''_'' else c) str)"

definition write_mwt :: "nat \<Rightarrow> multiword_token \<Rightarrow> string" where
  "write_mwt version m =
     join tab [show_int (mwt_id_first m) @ ''-'' @ show_int (mwt_id_last m),
       write_with_spaces version (tk_form m), ''_'', ''_'', ''_'', underscore_on_empty (mwt_feats m),
       ''_'', ''_'', ''_'', underscore_on_empty (tk_misc m)] @ [lf]"

definition write_word :: "nat \<Rightarrow> int \<Rightarrow> word_data \<Rightarrow> string" where
  "write_word version i w =
     join tab [show_int i, write_with_spaces version (tk_form w),
       write_with_spaces version (underscore_on_empty (w_lemma w)),
       underscore_on_empty (w_upostag w), underscore_on_empty (w_xpostag w), underscore_on_empty (w_feats w),
       if w_head w < 0 then ''_'' else show_int (w_head w), underscore_on_empty (w_deprel w),
       underscore_on_empty (w_deps w), underscore_on_empty (tk_misc w)] @ [lf]"

definition write_empty_node :: "int \<Rightarrow> empty_node \<Rightarrow> string" where
  "write_empty_node i e =
     join tab [show_int i @ ''.'' @ show_int (en_index e), en_form e, underscore_on_empty (en_lemma e),
       underscore_on_empty (en_upostag e), underscore_on_empty (en_xpostag e), underscore_on_empty (en_feats e),
       ''_'', ''_'', underscore_on_empty (en_deps e), underscore_on_empty (en_misc e)] @ [lf]"

text \<open>
  The loop over the words, from word \<open>i\<close> on, with the multiword tokens and empty nodes not yet
  written (the two indices of the code).
\<close>

fun write_nodes :: "nat \<Rightarrow> int \<Rightarrow> word_data list \<Rightarrow> multiword_token list \<Rightarrow> empty_node list \<Rightarrow> string" where
  "write_nodes version i [] ms es = []"
| "write_nodes version i (w # ws) ms es =
     (let here = i > 0 \<and> ms \<noteq> [] \<and> i = mwt_id_first (hd ms);
          es' = (if version \<ge> 2 then dropWhile (\<lambda>e. i = en_id e) es else es)
      in (if here then write_mwt version (hd ms) else []) @
         (if i > 0 then write_word version i w else []) @
         (if version \<ge> 2 then concat (map (write_empty_node i) (takeWhile (\<lambda>e. i = en_id e) es)) else []) @
         write_nodes version (i + 1) ws (if here then tl ms else ms) es')"

definition write_conllu :: "nat \<Rightarrow> sentence \<Rightarrow> string" where
  "write_conllu version s =
     concat (map (\<lambda>comment. comment @ [lf]) (s_comments s)) @
     write_nodes version 0 (s_words s) (s_multiword_tokens s) (s_empty_nodes s) @ [lf]"


section \<open>The sentences the reader builds\<close>

text \<open>Words before their children are set, and words up to their children.\<close>

definition without_children :: "word_data \<Rightarrow> word_data" where
  "without_children w = w\<lparr>w_children := []\<rparr>"

definition raw_words :: "word_data list \<Rightarrow> bool" where
  "raw_words ws \<longleftrightarrow> ws \<noteq> [] \<and> hd ws = root_word \<and> map w_id ws = map int [0..<length ws] \<and>
     (\<forall>w \<in> set ws. w_head w \<ge> -1 \<and> w_children w = [])"

lemma without_children_fields:
  "without_children v = without_children w \<Longrightarrow> w_head v = w_head w \<and> w_id v = w_id w \<and> w_deprel v = w_deprel w"
  by (cases v, cases w) (simp add: without_children_def)

lemma map_upd_at: "g (f (ns ! nat i)) = g (ns ! nat i) \<Longrightarrow> map g (upd i f ns) = map g ns"
  by (cases "nat i < length ns") (simp_all add: upd_def map_update list_update_beyond list_update_same_conv)

lemma set_head_same_word:
  assumes "k < length ws"
  shows "map without_children (set_head (int k) (w_head (ws ! k)) (w_deprel (ws ! k)) ws) = map without_children ws"
proof -
  let ?old = "w_head (ws ! k)" and ?dep = "w_deprel (ws ! k)"
  define vs where "vs = (if ?old \<ge> 0 then upd ?old (\<lambda>w. w\<lparr>w_children := remove_child (int k) (w_children w)\<rparr>) ws else ws)"
  have vs: "map without_children vs = map without_children ws"
    by (simp add: vs_def map_upd_same without_children_def)
  have "length vs = length ws" using arg_cong [OF vs, of length] by simp
  then have "without_children (vs ! k) = without_children (ws ! k)"
    using arg_cong [OF vs, of "\<lambda>l. l ! k"] assms by simp
  then have "w_head (vs ! k) = ?old \<and> w_deprel (vs ! k) = ?dep"
    by (auto dest: without_children_fields)
  then have "(vs ! k)\<lparr>w_head := ?old, w_deprel := ?dep\<rparr> = vs ! k"
    by (cases "vs ! k") simp
  then have "map without_children (upd (int k) (\<lambda>w. w\<lparr>w_head := ?old, w_deprel := ?dep\<rparr>) vs) = map without_children vs"
    by (intro map_upd_at) simp
  moreover have "map without_children (upd h (\<lambda>w. w\<lparr>w_children := insert_child (int k) (w_children w)\<rparr>) us)
      = map without_children us" for h us
    by (rule map_upd_same) (simp add: without_children_def)
  ultimately show ?thesis
    using vs unfolding set_head_def Let_def nat_int vs_def [symmetric] by simp
qed

lemma same_without_children:
  assumes "map without_children vs = map without_children ws"
  shows "length vs = length ws" "map w_id vs = map w_id ws" "map w_head vs = map w_head ws"
proof -
  show "length vs = length ws" using arg_cong [OF assms, of length] by simp
  then show "map w_id vs = map w_id ws" "map w_head vs = map w_head ws"
    using assms by (auto simp: list_eq_iff_nth_eq dest: without_children_fields)
qed

lemma nth_map_eq: "map f xs = map f ys \<Longrightarrow> n < length xs \<Longrightarrow> f (xs ! n) = f (ys ! n)"
  by (metis length_map nth_map)

lemma link_words_spec:
  assumes "map w_id ws = map int [0..<length ws]" "part_links k (map word_link ws)"
    "w_head (ws ! 0) < 0" "k \<le> length ws"
  shows "case link_words [k..<length ws] ws of
      Inl _ \<Rightarrow> \<exists>j. k \<le> j \<and> j < length ws \<and> int (length ws) \<le> w_head (ws ! j)
    | Inr vs \<Rightarrow> part_links (length ws) (map word_link vs) \<and> map without_children vs = map without_children ws \<and>
        (\<forall>j. k \<le> j \<and> j < length ws \<longrightarrow> w_head (ws ! j) < int (length ws))"
  using assms
proof (induction "length ws - k" arbitrary: k ws)
  case 0
  then show ?case by simp
next
  case (Suc n)
  then have k: "k < length ws" by simp
  then have upt: "[k..<length ws] = k # [Suc k..<length ws]" by (rule upt_conv_Cons)
  have kid: "w_id (ws ! k) = int k" using arg_cong [OF Suc.prems(1), of "\<lambda>l. l ! k"] k by simp
  have lh: "lhead (map word_link ws) (int k) = w_head (ws ! k)" using k by (simp add: word_link_def)
  have later: "k \<le> j \<longleftrightarrow> j = k \<or> Suc k \<le> j" for j by auto
  show ?case
  proof (cases "w_id (ws ! k) \<noteq> 0 \<and> 0 \<le> w_head (ws ! k)")
    case False
    then have neg: "w_head (ws ! k) < 0" using Suc.prems(3) kid by auto
    then have "part_links (Suc k) (map word_link ws)" using part_links_skip [OF Suc.prems(2)] lh by simp
    moreover have "n = length ws - Suc k" using Suc.hyps(2) by simp
    ultimately have ih: "case link_words [Suc k..<length ws] ws of
        Inl _ \<Rightarrow> \<exists>j. Suc k \<le> j \<and> j < length ws \<and> int (length ws) \<le> w_head (ws ! j)
      | Inr vs \<Rightarrow> part_links (length ws) (map word_link vs) \<and> map without_children vs = map without_children ws \<and>
        (\<forall>j. Suc k \<le> j \<and> j < length ws \<longrightarrow> w_head (ws ! j) < int (length ws))"
      using Suc.prems k by (intro Suc.hyps(1)) auto
    have "link_words [k..<length ws] ws = link_words [Suc k..<length ws] ws"
      using if_not_P [OF False] by (simp only: upt link_words.simps Let_def)
    with ih neg show ?thesis by (auto simp: later split: sum.splits)
  next
    case True
    show ?thesis
    proof (cases "int (length ws) \<le> w_head (ws ! k)")
      case True
      with \<open>w_id (ws ! k) \<noteq> 0 \<and> _\<close> k show ?thesis by (auto simp: upt Let_def)
    next
      case False
      let ?vs = "set_head (int k) (w_head (ws ! k)) (w_deprel (ws ! k)) ws"
      have same: "map without_children ?vs = map without_children ws" using set_head_same_word [OF k] .
      note len = same_without_children(1) [OF same] and heads = same_without_children(3) [OF same]
      have links: "map word_link ?vs = link_set_head (int k) (w_head (ws ! k)) (map word_link ws)"
        using k False by (intro map_set_head) (auto simp: ids_def)
      have step: "part_links (Suc k) (map word_link ?vs)"
        using part_links_step [OF Suc.prems(2), of "w_head (ws ! k)"] lh True False k by (simp add: links)
      have head: "w_head (?vs ! j) = w_head (ws ! j)" if "j < length ws" for j
        using nth_map_eq [OF heads, of j] that len by simp
      have "case link_words [Suc k..<length ?vs] ?vs of
          Inl _ \<Rightarrow> \<exists>j. Suc k \<le> j \<and> j < length ?vs \<and> int (length ?vs) \<le> w_head (?vs ! j)
        | Inr us \<Rightarrow> part_links (length ?vs) (map word_link us) \<and> map without_children us = map without_children ?vs \<and>
          (\<forall>j. Suc k \<le> j \<and> j < length ?vs \<longrightarrow> w_head (?vs ! j) < int (length ?vs))"
        using Suc.prems Suc.hyps(2) k step head [OF le_less_trans [OF le0 k]] same_without_children(2) [OF same] len
        by (intro Suc.hyps(1)) auto
      moreover have "link_words [k..<length ws] ws = link_words [Suc k..<length ws] ?vs"
        using True False kid by (simp add: upt Let_def)
      ultimately show ?thesis
        using False head unfolding len same by (auto simp: later split: sum.splits)
    qed
  qed
qed


text \<open>
  Multiword tokens in order and without overlap, behind the word \<open>before\<close>; empty nodes in order,
  behind the node \<open>i.ix\<close>, with indices counted from 1 at every word.
\<close>

fun mwts_from :: "int \<Rightarrow> multiword_token list \<Rightarrow> bool" where
  "mwts_from before [] \<longleftrightarrow> True"
| "mwts_from before (m # ms) \<longleftrightarrow>
     before < mwt_id_first m \<and> mwt_id_first m \<le> mwt_id_last m \<and> mwts_from (mwt_id_last m) ms"

definition mwts_end :: "int \<Rightarrow> multiword_token list \<Rightarrow> int" where
  "mwts_end before ms = (if ms = [] then before else mwt_id_last (last ms))"

fun empty_nodes_from :: "int \<Rightarrow> int \<Rightarrow> empty_node list \<Rightarrow> bool" where
  "empty_nodes_from i ix [] \<longleftrightarrow> True"
| "empty_nodes_from i ix (e # es) \<longleftrightarrow>
     (en_id e = i \<and> en_index e = ix + 1 \<or> i < en_id e \<and> en_index e = 1) \<and> empty_nodes_from (en_id e) (en_index e) es"

lemma mwts_end_simps [simp]: "mwts_end b [] = b" "mwts_end b (m # ms) = mwts_end (mwt_id_last m) ms"
  "mwts_end b (ms @ [m]) = mwt_id_last m"
  by (auto simp: mwts_end_def)

lemma mwts_from_snoc: "mwts_from b (ms @ [m]) \<longleftrightarrow>
    mwts_from b ms \<and> mwts_end b ms < mwt_id_first m \<and> mwt_id_first m \<le> mwt_id_last m"
  by (induction b ms rule: mwts_from.induct) auto

lemma mwts_end_ge: "mwts_from b ms \<Longrightarrow> b \<le> mwts_end b ms"
  by (induction b ms rule: mwts_from.induct) auto

lemma empty_nodes_from_snoc: "empty_nodes_from i ix (es @ [e]) \<longleftrightarrow> empty_nodes_from i ix es \<and>
    (let j = (if es = [] then i else en_id (last es)); jx = (if es = [] then ix else en_index (last es))
     in en_id e = j \<and> en_index e = jx + 1 \<or> j < en_id e \<and> en_index e = 1)"
  by (induction i ix es rule: empty_nodes_from.induct) (auto simp: Let_def)

definition reader_ok :: "reader \<Rightarrow> bool" where
  "reader_ok st \<longleftrightarrow> raw_words (s_words (fst st)) \<and>
     mwts_from 0 (s_multiword_tokens (fst st)) \<and> snd st = mwts_end 0 (s_multiword_tokens (fst st)) \<and>
     empty_nodes_from (-1) 0 (s_empty_nodes (fst st)) \<and>
     (\<forall>e \<in> set (s_empty_nodes (fst st)). 0 \<le> en_id e \<and> en_id e < int (length (s_words (fst st))))"

definition wf_sentence :: "sentence \<Rightarrow> bool" where
  "wf_sentence s \<longleftrightarrow> wf_words (s_words s) \<and> without_children (hd (s_words s)) = root_word \<and>
     mwts_from 0 (s_multiword_tokens s) \<and> mwts_end 0 (s_multiword_tokens s) < int (length (s_words s)) \<and>
     empty_nodes_from (-1) 0 (s_empty_nodes s) \<and>
     (\<forall>e \<in> set (s_empty_nodes s). 0 \<le> en_id e \<and> en_id e < int (length (s_words s)))"

lemma reader_ok_start: "reader_ok (clear_sentence, 0)"
  by (simp add: reader_ok_def clear_sentence_def raw_words_def root_word_def mk_word_def)

lemma read_mwt_ok: "read_mwt version line tokens (s, l) = Inr st \<Longrightarrow> reader_ok (s, l) \<Longrightarrow> reader_ok st"
  by (auto simp: read_mwt_def Let_def reader_ok_def mwts_from_snoc mk_multiword_token_def split: if_splits sum.splits)

lemma raw_words_Nil [simp]: "\<not> raw_words []"
  by (simp add: raw_words_def)

lemma read_empty_node_ok: "read_empty_node line tokens s = Inr s' \<Longrightarrow> reader_ok (s, l) \<Longrightarrow> reader_ok (s', l)"
  by (auto simp: read_empty_node_def Let_def reader_ok_def empty_nodes_from_snoc mk_empty_node_def empty_index_ok_def
      split: if_splits sum.splits)

lemma read_head_ge: "read_head tokens = Inr head \<Longrightarrow> -1 \<le> head"
  by (auto simp: read_head_def split: if_splits sum.splits)

lemma read_word_ok: "read_word line tokens s = Inr s' \<Longrightarrow> reader_ok (s, l) \<Longrightarrow> reader_ok (s', l)"
proof -
  assume read: "read_word line tokens s = Inr s'" and ok: "reader_ok (s, l)"
  then obtain head where head: "read_head tokens = Inr head"
      and s': "s' = s\<lparr>s_words := s_words s @ [columns_word tokens (int (length (s_words s))) head]\<rparr>"
    by (auto simp: read_word_def split: if_splits sum.splits)
  show ?thesis
    using ok read_head_ge [OF head]
    by (fastforce simp: s' reader_ok_def raw_words_def columns_word_def mk_word_def)
qed

lemma read_conllu_line_ok:
  assumes "read_conllu_line version line st = Inr st'" "reader_ok st"
  shows "reader_ok st'"
proof -
  obtain s l where st: "st = (s, l)" by (cases st)
  show ?thesis
    using assms
    by (auto simp: st read_conllu_line_def Let_def intro: read_mwt_ok read_empty_node_ok read_word_ok
        split: if_splits sum.splits) (auto simp: reader_ok_def)
qed

lemma read_conllu_loop_inv:
  assumes "read_conllu_loop version text st = Some (Inr st', rest)" "P st"
    and step: "\<And>v line st st'. read_conllu_line v line st = Inr st' \<Longrightarrow> P st \<Longrightarrow> P st'"
  shows "P st'"
proof -
  have "\<forall>st'. fst r = Inr st' \<longrightarrow> P st \<longrightarrow> P st'" if loop: "read_conllu_loop v t st = Some r" for v t st r
  proof (rule read_conllu_loop.raw_induct [OF _ loop, where P = "\<lambda>v t st r. \<forall>st'. fst r = Inr st' \<longrightarrow> P st \<longrightarrow> P st'"],
      goal_cases)
    case (1 f v t st r)
    show ?case
    proof (cases "t = [] \<or> fst (read_line t) = []")
      case True
      with 1(1) [of v "snd (read_line t)" st r] 1(2) show ?thesis
        by (auto simp: Let_def simp del: split_paired_All split: if_splits)
    next
      case False
      then show ?thesis
        using 1(1) [of v "snd (read_line t)" "projr (read_conllu_line v (fst (read_line t)) st)" r]
          1(2) step [of v "fst (read_line t)" st "projr (read_conllu_line v (fst (read_line t)) st)"]
        by (cases "read_conllu_line v (fst (read_line t)) st") (auto simp: Let_def)
    qed
  qed
  from this [OF assms(1)] show ?thesis using assms(2) by simp
qed


lemma raw_part_links: "raw_words ws \<Longrightarrow> part_links 0 (map word_link ws)"
  by (rule part_links_0) (auto simp: raw_words_def word_link_def)

lemma raw_root_head: "raw_words ws \<Longrightarrow> w_head (ws ! 0) = -1"
  by (cases ws) (auto simp: raw_words_def root_word_def mk_word_def)

lemma raw_without_children: "raw_words ws \<Longrightarrow> map without_children ws = ws"
  by (rule map_idI) (auto simp: raw_words_def without_children_def)

text \<open>The children are set exactly when every head is a word of the sentence.\<close>

lemma link_words_raw:
  assumes "raw_words ws"
  shows "case link_words [0..<length ws] ws of
      Inl _ \<Rightarrow> \<exists>w \<in> set ws. int (length ws) \<le> w_head w
    | Inr vs \<Rightarrow> wf_words vs \<and> map without_children vs = ws \<and> (\<forall>w \<in> set ws. w_head w < int (length ws))"
proof -
  have wid: "map w_id ws = id_list ws" using assms by (simp add: raw_words_def)
  have spec: "case link_words [0..<length ws] ws of
      Inl _ \<Rightarrow> \<exists>j. 0 \<le> j \<and> j < length ws \<and> int (length ws) \<le> w_head (ws ! j)
    | Inr vs \<Rightarrow> part_links (length ws) (map word_link vs) \<and> map without_children vs = map without_children ws \<and>
        (\<forall>j. 0 \<le> j \<and> j < length ws \<longrightarrow> w_head (ws ! j) < int (length ws))"
    using raw_part_links [OF assms] raw_root_head [OF assms] wid by (intro link_words_spec) auto
  show ?thesis
  proof (cases "link_words [0..<length ws] ws")
    case (Inl e)
    with spec show ?thesis by auto
  next
    case (Inr vs)
    with spec have part: "part_links (length ws) (map word_link vs)"
      and same: "map without_children vs = map without_children ws"
      and heads: "\<forall>j < length ws. w_head (ws ! j) < int (length ws)" by auto
    note len = same_without_children(1) [OF same] and vheads = same_without_children(3) [OF same]
    have "w_head (vs ! j) = w_head (ws ! j)" if "j < length ws" for j
      using nth_map_eq [OF vheads, of j] that len by simp
    then have "\<forall>i \<in> ids (map word_link vs). -1 \<le> lhead (map word_link vs) i \<and> lhead (map word_link vs) i < int (length ws)"
      using heads assms by (auto simp: ids_def word_link_def len raw_words_def nat_less_iff)
    then have "wf_links (map word_link vs)" using part_links_all [of "map word_link vs"] part len by simp
    then have "wf_words vs"
      using same_without_children [OF same] wid assms unfolding wf_words_def words.wf_def
      by (auto simp: raw_words_def)
    with same heads Inr raw_without_children [OF assms] show ?thesis by (auto simp: in_set_conv_nth)
  qed
qed

lemma finish_sentence_ok:
  assumes "reader_ok st" "finish_sentence st = Inr (Some s)"
  shows "wf_sentence s \<and> length (s_words s) > 1 \<and> (\<exists>ws. s = (fst st)\<lparr>s_words := ws\<rparr> \<and> map without_children ws = s_words (fst st))"
proof -
  obtain s0 l where st: "st = (s0, l)" by (cases st)
  from assms have raw: "raw_words (s_words s0)" and lt: "mwts_end 0 (s_multiword_tokens s0) < int (length (s_words s0))"
    by (auto simp: st reader_ok_def finish_sentence_def split: if_splits sum.splits)
  obtain ws where ws: "link_words [0..<length (s_words s0)] (s_words s0) = Inr ws" "s = s0\<lparr>s_words := ws\<rparr>"
      "length ws \<noteq> 1"
    using assms by (auto simp: st finish_sentence_def sentence_empty_def split: if_splits sum.splits)
  from link_words_raw [OF raw] ws(1) have wf: "wf_words ws" "map without_children ws = s_words s0" by auto
  then have len: "length ws = length (s_words s0)" by (metis length_map)
  have "ws \<noteq> []" using wf(1) by (simp add: wf_words_def)
  moreover from this have "without_children (hd ws) = root_word"
    using raw wf(2) by (metis hd_map raw_words_def)
  ultimately have "wf_sentence s"
    using assms(1) wf(1) lt by (simp add: wf_sentence_def st reader_ok_def ws(2) len)
  moreover have "length ws > 1" using ws(3) \<open>ws \<noteq> []\<close> by (cases ws) auto
  ultimately show ?thesis using ws(2) wf(2) by (auto simp: st)
qed

text \<open>
  C23: whatever text the CoNLL-U reader is given, a sentence it returns without an error is well
  formed: the words are numbered from 1 behind an untouched root, every head is a word or the
  root, children and heads agree, multiword tokens lie inside the sentence in order and do not
  overlap, and empty nodes are in order with consecutive indices.
\<close>

theorem conllu_reads_wf:
  assumes "conllu_next_sentence version text = Some (Inr (Some s), rest)"
  shows "wf_sentence s \<and> length (s_words s) > 1"
proof -
  from assms obtain st where loop: "read_conllu_loop version text (clear_sentence, 0) = Some (Inr st, rest)"
    and fin: "finish_sentence st = Inr (Some s)"
    by (auto simp: conllu_next_sentence_def split: option.splits sum.splits)
  have "reader_ok st"
    by (rule read_conllu_loop_inv [where P = reader_ok, OF loop reader_ok_start]) (rule read_conllu_line_ok)
  from finish_sentence_ok [OF this fin] show ?thesis by blast
qed


section \<open>Termination of the reader\<close>

text \<open>Every carriage return is followed by a line feed.\<close>

fun eols_ok :: "string \<Rightarrow> bool" where
  "eols_ok [] \<longleftrightarrow> True"
| "eols_ok [c] \<longleftrightarrow> c \<noteq> cr"
| "eols_ok (c # d # s) \<longleftrightarrow> (c = cr \<longrightarrow> d = lf) \<and> eols_ok (d # s)"

lemma eols_ok_tl: "eols_ok (c # s) \<Longrightarrow> eols_ok s"
  by (cases s) auto

lemma eols_ok_dropWhile: "eols_ok s \<Longrightarrow> eols_ok (dropWhile P s)"
  by (induction s) (auto dest: eols_ok_tl)

lemma read_line_shorter: "eols_ok t \<Longrightarrow> t \<noteq> [] \<Longrightarrow> length (snd (read_line t)) < length t \<and> eols_ok (snd (read_line t))"
proof -
  assume t: "eols_ok t" "t \<noteq> []"
  let ?d = "dropWhile no_eol t"
  have d: "eols_ok ?d" "length ?d \<le> length t" using t(1) by (auto intro: eols_ok_dropWhile length_dropWhile_le)
  show ?thesis
  proof (cases ?d)
    case Nil
    then show ?thesis using t(2) unfolding read_line_def snd_conv Nil by (simp add: skip_eol_def)
  next
    case (Cons c r)
    then have "c = cr \<or> c = lf" using hd_dropWhile [of no_eol t] by (auto simp: no_eol_def)
    then have "skip_eol ?d = (if c = cr then tl r else r) \<and> (c = cr \<longrightarrow> r \<noteq> [])"
      using d(1) unfolding Cons skip_eol_def by (cases r) auto
    moreover have "eols_ok r" "eols_ok (tl r)" using d(1) Cons by (auto dest: eols_ok_tl) (cases r, auto dest: eols_ok_tl)
    ultimately show ?thesis using d(2) Cons by (auto simp: read_line_def)
  qed
qed

lemma read_conllu_loop_returns:
  "eols_ok t \<Longrightarrow> \<exists>r. read_conllu_loop v t st = Some r \<and> eols_ok (snd r) \<and> (t \<noteq> [] \<longrightarrow> length (snd r) < length t)"
proof (induction "length t" arbitrary: t st rule: less_induct)
  case less
  let ?line = "fst (read_line t)" and ?rest = "snd (read_line t)"
  show ?case
  proof (cases "t = []")
    case True
    then show ?thesis by (simp add: read_conllu_loop.simps)
  next
    case False
    then have shorter: "length ?rest < length t" "eols_ok ?rest" using read_line_shorter [of t] less.prems by auto
    have rec: "\<exists>r. read_conllu_loop v ?rest st' = Some r \<and> eols_ok (snd r) \<and> length (snd r) < length t" for st'
    proof -
      obtain r where r: "read_conllu_loop v ?rest st' = Some r" "eols_ok (snd r)" "?rest \<noteq> [] \<longrightarrow> length (snd r) < length ?rest"
        using less.hyps [OF shorter, of st'] by blast
      have "length (snd r) < length t"
      proof (cases "?rest = []")
        case True
        then have "snd r = []" using r(1) by (simp add: read_conllu_loop.simps) (metis snd_conv)
        with False show ?thesis by simp
      qed (use r(3) shorter(1) in simp)
      with r show ?thesis by blast
    qed
    show ?thesis
      using False shorter rec [of st] rec [of "projr (read_conllu_line v ?line st)"]
      by (subst read_conllu_loop.simps) (auto simp: Let_def)
  qed
qed

text \<open>
  On a text in which every carriage return is followed by a line feed, reading a sentence
  ends, with a sentence, an error or the end of the text, and it consumes some of the text, so
  a document is read in finitely many calls.
\<close>

theorem conllu_reader_ends:
  assumes "eols_ok text"
  shows "\<exists>outcome rest. conllu_next_sentence version text = Some (outcome, rest) \<and> eols_ok rest \<and>
    (text \<noteq> [] \<longrightarrow> length rest < length text)"
  using read_conllu_loop_returns [OF assms, of version "(clear_sentence, 0)"]
  by (force simp: conllu_next_sentence_def)

lemma conllu_reader_ends_witness:
  "\<exists>outcome rest. conllu_next_sentence 2 (''# c'' @ [cr, lf, lf]) = Some (outcome, rest) \<and> length rest < 6"
  using conllu_reader_ends [of "''# c'' @ [cr, lf, lf]" 2] by (auto simp: eval_nat_numeral)

text \<open>
  C38: on a carriage return that another character than a line feed follows the reader makes no
  progress: called at such a place, it never returns.
\<close>

theorem conllu_reader_hangs: "c \<noteq> lf \<Longrightarrow> conllu_next_sentence version (cr # c # text) = None"
proof -
  assume c: "c \<noteq> lf"
  have stuck: "read_line (cr # c # text) = ([], cr # c # text)"
    using c by (simp add: read_line_def no_eol_def skip_eol_def)
  have "\<not> (t = cr # c # text \<and> sentence_empty (fst st))" if loop: "read_conllu_loop v t st = Some r" for v t st r
  proof (rule read_conllu_loop.raw_induct [OF _ loop,
        where P = "\<lambda>v t st r. \<not> (t = cr # c # text \<and> sentence_empty (fst st))"], goal_cases)
    case (1 f v t st r)
    show ?case
    proof
      assume t: "t = cr # c # text \<and> sentence_empty (fst st)"
      then have "f v t st = Some r" using 1(2) by (simp add: stuck)
      from 1(1) [OF this] t show False by blast
    qed
  qed
  from this [of version "cr # c # text" "(clear_sentence, 0)"]
  have "read_conllu_loop version (cr # c # text) (clear_sentence, 0) = None"
    by (cases "read_conllu_loop version (cr # c # text) (clear_sentence, 0)")
      (simp_all add: clear_sentence_def sentence_empty_def)
  then show ?thesis by (simp add: conllu_next_sentence_def)
qed

lemma conllu_reader_hangs_witness: "conllu_next_sentence 2 (cr # ''1'') = None"
  using conllu_reader_hangs [of "CHR ''1''" 2 "[]"] by simp


section \<open>Writing and reading\<close>

text \<open>
  What a sentence must be like to survive: no tabs and line ends in any field, no spaces except
  in forms, lemmas and MISC, no empty form or lemma, no field that is a single underscore
  (which stands for the empty field), comments that are comments, and numbers that fit an \<open>int\<close>.
\<close>

definition text_ok :: "bool \<Rightarrow> string \<Rightarrow> bool" where
  "text_ok spaces v \<longleftrightarrow> tab \<notin> set v \<and> cr \<notin> set v \<and> lf \<notin> set v \<and> (spaces \<or> CHR '' '' \<notin> set v)"

definition opt_ok :: "bool \<Rightarrow> string \<Rightarrow> bool" where
  "opt_ok spaces v \<longleftrightarrow> text_ok spaces v \<and> v \<noteq> ''_''"

definition comment_ok :: "string \<Rightarrow> bool" where
  "comment_ok c \<longleftrightarrow> c \<noteq> [] \<and> hd c = CHR ''#'' \<and> cr \<notin> set c \<and> lf \<notin> set c"

definition word_ok :: "word_data \<Rightarrow> bool" where
  "word_ok w \<longleftrightarrow> tk_form w \<noteq> [] \<and> text_ok True (tk_form w) \<and> w_lemma w \<noteq> [] \<and> text_ok True (w_lemma w) \<and>
     opt_ok False (w_upostag w) \<and> opt_ok False (w_xpostag w) \<and> opt_ok False (w_feats w) \<and>
     opt_ok False (w_deprel w) \<and> opt_ok False (w_deps w) \<and> opt_ok True (tk_misc w)"

definition mwt_ok :: "multiword_token \<Rightarrow> bool" where
  "mwt_ok m \<longleftrightarrow> tk_form m \<noteq> [] \<and> text_ok True (tk_form m) \<and> opt_ok True (tk_misc m) \<and>
     (mwt_feats m = [] \<or> mwt_feats m = ''Typo=Yes'')"

definition empty_node_ok :: "empty_node \<Rightarrow> bool" where
  "empty_node_ok e \<longleftrightarrow> en_form e \<noteq> [] \<and> text_ok True (en_form e) \<and> en_lemma e \<noteq> [] \<and> text_ok True (en_lemma e) \<and>
     opt_ok False (en_upostag e) \<and> opt_ok False (en_xpostag e) \<and> opt_ok False (en_feats e) \<and>
     opt_ok False (en_deps e) \<and> opt_ok True (en_misc e) \<and> en_index e \<le> int_max"

definition conllu_ok :: "sentence \<Rightarrow> bool" where
  "conllu_ok s \<longleftrightarrow> wf_sentence s \<and> 1 < length (s_words s) \<and> int (length (s_words s)) \<le> int_max \<and>
     (\<forall>c \<in> set (s_comments s). comment_ok c) \<and> (\<forall>w \<in> set (tl (s_words s)). word_ok w) \<and>
     (\<forall>m \<in> set (s_multiword_tokens s). mwt_ok m) \<and> (\<forall>e \<in> set (s_empty_nodes s). empty_node_ok e)"

lemma from_on_empty [simp]: "v \<noteq> ''_'' \<Longrightarrow> from_underscore (underscore_on_empty v) = v"
  by (simp add: from_underscore_def underscore_on_empty_def is_underscore_def)

lemma from_on_empty_opt [simp]: "opt_ok True v \<Longrightarrow> from_underscore (underscore_on_empty v) = v"
  "opt_ok False v \<Longrightarrow> from_underscore (underscore_on_empty v) = v"
  by (simp_all add: opt_ok_def)

lemma underscore_on_empty_id [simp]: "v \<noteq> [] \<Longrightarrow> underscore_on_empty v = v"
  by (simp add: underscore_on_empty_def)

lemma write_with_spaces_2 [simp]: "write_with_spaces 2 v = v"
  by (simp add: write_with_spaces_def)

text \<open>A column as it is written: not empty, and without separators.\<close>

definition column_ok :: "bool \<Rightarrow> string \<Rightarrow> bool" where
  "column_ok spaces v \<longleftrightarrow> v \<noteq> [] \<and> text_ok spaces v"

lemma column_ok_opt [simp]: "opt_ok sp v \<Longrightarrow> column_ok sp (underscore_on_empty v)"
  by (simp add: column_ok_def opt_ok_def underscore_on_empty_def text_ok_def)

lemma column_ok_underscore [simp]: "column_ok sp ''_''"
  by (simp add: column_ok_def text_ok_def)

lemma column_ok_show_nat: "column_ok sp (show_nat n)"
  by (simp add: column_ok_def text_ok_def is_digit_def)

lemma show_int_nat: "0 \<le> i \<Longrightarrow> show_int i = show_nat (nat i)"
  by (simp add: show_int_def)

text \<open>Ten columns on a line come back as ten columns.\<close>

lemma no_eol_join: "\<forall>c \<in> set cols. column_ok True c \<Longrightarrow> x \<in> set (join tab cols) \<Longrightarrow> no_eol x"
  by (induction tab cols rule: join.induct) (auto simp: column_ok_def text_ok_def no_eol_def)

lemma column_ok_spaces: "column_ok sp c \<Longrightarrow> column_ok True c"
  by (simp add: column_ok_def text_ok_def)

lemma read_line_line: "(\<And>x. x \<in> set line \<Longrightarrow> no_eol x) \<Longrightarrow> read_line (line @ lf # rest) = (line, rest)"
  by (auto simp: read_line_def skip_eol_def takeWhile_append dropWhile_append no_eol_def)

lemma check_columns_ok:
  "\<forall>j < length cols. column_ok (i + j \<in> {1, 2, 9}) (cols ! j) \<Longrightarrow> check_columns 2 line i cols = Inr ()"
proof (induction "2 :: nat" line i cols rule: check_columns.induct)
  case (2 line i token tokens)
  have "column_ok (i \<in> {1, 2, 9}) token" using 2(2) by force
  moreover have "check_columns 2 line (i + 1) tokens = Inr ()"
    using calculation 2(2) by (intro 2(1)) (auto simp: column_ok_def text_ok_def)
  ultimately show ?case by (auto simp: column_ok_def text_ok_def)
qed simp

lemma split_columns:
  assumes "length cols = 10" "\<forall>c \<in> set cols. column_ok True c"
  shows "split (join tab cols) tab = cols"
proof (rule split_join)
  show "cols \<noteq> []" "cols \<noteq> [[]]" using assms(1) by auto
  show "\<forall>p \<in> set cols. tab \<notin> set p" using assms(2) by (auto simp: column_ok_def text_ok_def)
qed

lemma join_not_Nil: "cols \<noteq> [] \<Longrightarrow> hd cols \<noteq> [] \<Longrightarrow> join sep cols \<noteq> [] \<and> hd (join sep cols) = hd (hd cols)"
  by (induction sep cols rule: join.induct) auto

lemma loop_columns:
  assumes len: "length cols = 10" and ok: "\<forall>j < 10. column_ok (j \<in> {1, 2, 9}) (cols ! j)"
    and id: "hd (cols ! 0) \<noteq> CHR ''#''"
    and step: "(if CHR ''-'' \<in> set (cols ! 0) then read_mwt 2 (join tab cols) cols (s, l)
       else if CHR ''.'' \<in> set (cols ! 0) then map_sum (\<lambda>e. e) (\<lambda>s. (s, l)) (read_empty_node (join tab cols) cols s)
       else map_sum (\<lambda>e. e) (\<lambda>s. (s, l)) (read_word (join tab cols) cols s)) = Inr st'"
  shows "read_conllu_loop 2 (join tab cols @ lf # rest) (s, l) = read_conllu_loop 2 rest st'"
proof -
  have all: "\<forall>c \<in> set cols. column_ok True c"
    using ok len column_ok_spaces by (metis in_set_conv_nth)
  have "cols ! 0 \<noteq> []" using ok by (auto simp: column_ok_def)
  moreover have "cols \<noteq> []" "hd cols = cols ! 0" using len by (cases cols; simp)+
  ultimately have line: "join tab cols \<noteq> []" "hd (join tab cols) \<noteq> CHR ''#''"
    using join_not_Nil [of cols tab] id by auto
  have rl: "read_line (join tab cols @ lf # rest) = (join tab cols, rest)"
    by (rule read_line_line) (rule no_eol_join [OF all])
  have checked: "check_columns 2 (join tab cols) 0 cols = Inr ()"
    by (rule check_columns_ok) (use ok len in simp)
  have "(case x of Inl e \<Rightarrow> Inl e | Inr s \<Rightarrow> Inr (s, l)) = map_sum (\<lambda>e. e) (\<lambda>s. (s, l)) x"
    for x :: "sentence result" by (cases x) simp_all
  then have "read_conllu_line 2 (join tab cols) (s, l) = Inr st'"
    using step line(2) checked
    by (cases "CHR ''-'' \<in> set (cols ! 0)"; cases "CHR ''.'' \<in> set (cols ! 0)")
      (simp_all add: read_conllu_line_def Let_def split_columns [OF len all] len)
  then show ?thesis
    using line(1) rl by (subst read_conllu_loop.simps) simp
qed

lemma less_10_cases: "(\<forall>j < 10. P j) \<longleftrightarrow> P 0 \<and> P 1 \<and> P 2 \<and> P 3 \<and> P 4 \<and> P 5 \<and> P 6 \<and> P 7 \<and> P 8 \<and> P (9 :: nat)"
  by (simp add: numeral_eq_Suc All_less_Suc2)


text \<open>The three kinds of lines, read back.\<close>

lemma hd_show_nat: "is_digit (hd (show_nat n))"
  using show_nat_digits [of "hd (show_nat n)" n] by simp

lemma hd_show_nat_neq [simp]: "\<not> is_digit c \<Longrightarrow> hd (show_nat n) \<noteq> c"
  using hd_show_nat [of n] by auto

lemma not_digits [simp]: "\<not> is_digit (CHR ''#'')" "\<not> is_digit (CHR ''.'')"
    "\<not> is_digit (CHR ''_'')" "\<not> is_digit tab" "\<not> is_digit cr" "\<not> is_digit lf" "\<not> is_digit (CHR '' '')"
  by (simp_all add: is_digit_def)

lemma is_underscore_show [simp]: "0 \<le> i \<Longrightarrow> \<not> is_underscore (show_int i)"
proof
  assume "0 \<le> i" "is_underscore (show_int i)"
  then have "show_nat (nat i) = ''_''" by (simp add: is_underscore_def show_int_def)
  then show False using hd_show_nat [of "nat i"] by simp
qed

definition word_columns :: "int \<Rightarrow> word_data \<Rightarrow> string list" where
  "word_columns i w = [show_int i, tk_form w, underscore_on_empty (w_lemma w),
     underscore_on_empty (w_upostag w), underscore_on_empty (w_xpostag w), underscore_on_empty (w_feats w),
     if w_head w < 0 then ''_'' else show_int (w_head w), underscore_on_empty (w_deprel w),
     underscore_on_empty (w_deps w), underscore_on_empty (tk_misc w)]"

lemma column_ok_text: "v \<noteq> [] \<Longrightarrow> text_ok sp v \<Longrightarrow> column_ok sp v"
  by (simp add: column_ok_def)

lemma columns_word_columns:
  "word_ok w \<Longrightarrow> columns_word (word_columns i w) (w_id w) (w_head w) = without_children w"
  by (cases w) (simp add: word_ok_def columns_word_def word_columns_def mk_word_def without_children_def)

lemma read_head_columns:
  "-1 \<le> w_head w \<Longrightarrow> w_head w \<le> int_max \<Longrightarrow> read_head (word_columns i w) = Inr (w_head w)"
proof (cases "w_head w < 0")
  case True
  moreover assume "-1 \<le> w_head w"
  ultimately have "w_head w = -1" by simp
  then show ?thesis by (simp add: read_head_def word_columns_def is_underscore_def)
next
  case False
  moreover assume "w_head w \<le> int_max"
  ultimately have "in_int_range (w_head w)" by (simp add: in_int_range_def int_min_def)
  with False show ?thesis by (simp add: read_head_def word_columns_def)
qed

lemma word_columns_ok:
  "0 \<le> i \<Longrightarrow> word_ok w \<Longrightarrow> \<forall>j < 10. column_ok (j \<in> {1, 2, 9}) (word_columns i w ! j)"
  unfolding less_10_cases word_columns_def word_ok_def
  by (simp add: column_ok_show_nat show_int_nat column_ok_text)

lemma loop_word:
  assumes "word_ok w" "w_id w = int (length (s_words s))" "w_id w \<le> int_max" "-1 \<le> w_head w" "w_head w \<le> int_max"
  shows "read_conllu_loop 2 (write_word 2 (w_id w) w @ rest) (s, l) =
    read_conllu_loop 2 rest (s\<lparr>s_words := s_words s @ [without_children w]\<rparr>, l)"
proof -
  let ?cols = "word_columns (w_id w) w"
  have i0: "0 \<le> w_id w" using assms(2) by simp
  have line: "write_word 2 (w_id w) w @ rest = join tab ?cols @ lf # rest"
    by (simp add: write_word_def word_columns_def)
  have id: "?cols ! 0 = show_nat (nat (w_id w))" by (simp add: word_columns_def show_int_nat i0)
  have range: "in_int_range (w_id w)" using assms(3) i0 by (simp add: in_int_range_def int_min_def)
  have "parse_int (?cols ! 0) ''CoNLL-U id'' = Inr (w_id w)"
    using parse_show_int [OF range] by (simp add: word_columns_def)
  then have "read_word (join tab ?cols) ?cols s = Inr (s\<lparr>s_words := s_words s @ [without_children w]\<rparr>)"
    using columns_word_columns [OF assms(1), of "w_id w"]
    unfolding read_word_def by (simp add: read_head_columns assms)
  then show ?thesis
    unfolding line
    by (intro loop_columns word_columns_ok [OF i0 assms(1)]) (simp_all add: id, simp add: word_columns_def)
qed

definition mwt_columns :: "multiword_token \<Rightarrow> string list" where
  "mwt_columns m = [show_int (mwt_id_first m) @ ''-'' @ show_int (mwt_id_last m), tk_form m,
     ''_'', ''_'', ''_'', underscore_on_empty (mwt_feats m), ''_'', ''_'', ''_'', underscore_on_empty (tk_misc m)]"

lemma loop_mwt:
  assumes ok: "mwt_ok m" and first: "mwt_id_first m = int (length (s_words s))" and l: "l < mwt_id_first m"
    and range: "mwt_id_first m \<le> mwt_id_last m" "mwt_id_last m \<le> int_max"
  shows "read_conllu_loop 2 (write_mwt 2 m @ rest) (s, l) =
    read_conllu_loop 2 rest (s\<lparr>s_multiword_tokens := s_multiword_tokens s @ [m]\<rparr>, mwt_id_last m)"
proof -
  let ?cols = "mwt_columns m" and ?a = "mwt_id_first m" and ?b = "mwt_id_last m"
  have pos: "0 \<le> ?a" "0 \<le> ?b" using first range by simp_all
  have line: "write_mwt 2 m @ rest = join tab ?cols @ lf # rest"
    by (simp add: write_mwt_def mwt_columns_def)
  have feats: "opt_ok False (mwt_feats m)" "mwt_feats m \<noteq> ''_''"
    using ok by (auto simp: mwt_ok_def opt_ok_def text_ok_def)
  have id_col: "column_ok False (show_int ?a @ ''-'' @ show_int ?b)"
    by (simp add: column_ok_def text_ok_def show_int_nat pos)
  have cols: "\<forall>j < 10. column_ok (j \<in> {1, 2, 9}) (?cols ! j)"
    unfolding less_10_cases mwt_columns_def using ok feats id_col
    by (simp add: mwt_ok_def column_ok_text)
  have parts: "split (?cols ! 0) (CHR ''-'') = [show_int ?a, show_int ?b]"
    using split_join [of "[show_int ?a, show_int ?b]" "CHR ''-''"]
    by (simp add: mwt_columns_def show_int_nat pos)
  have checked: "check_mwt_columns 2 (join tab ?cols) 2 (take 7 (drop 2 ?cols)) = Inr ()"
    using ok by (auto simp: mwt_columns_def mwt_ok_def is_underscore_def underscore_on_empty_def)
  have new: "(mk_multiword_token ?a ?b (?cols ! 1) (from_underscore (?cols ! 9)))\<lparr>mwt_feats := from_underscore (?cols ! 5)\<rparr> = m"
    using ok feats(2) by (cases m) (simp add: mwt_columns_def mk_multiword_token_def mwt_ok_def)
  have "in_int_range ?a" "in_int_range ?b" using pos range by (simp_all add: in_int_range_def int_min_def)
  then have "read_mwt 2 (join tab ?cols) ?cols (s, l) =
      Inr (s\<lparr>s_multiword_tokens := s_multiword_tokens s @ [m]\<rparr>, mwt_id_last m)"
    using first l range checked new by (simp add: read_mwt_def parts)
  moreover have "CHR ''-'' \<in> set (?cols ! 0)" "hd (?cols ! 0) \<noteq> CHR ''#''"
    by (simp_all add: mwt_columns_def show_int_nat pos)
  ultimately show ?thesis
    unfolding line by (intro loop_columns cols) (simp_all add: mwt_columns_def)
qed

definition empty_node_columns :: "empty_node \<Rightarrow> string list" where
  "empty_node_columns e = [show_int (en_id e) @ ''.'' @ show_int (en_index e), en_form e, underscore_on_empty (en_lemma e),
     underscore_on_empty (en_upostag e), underscore_on_empty (en_xpostag e), underscore_on_empty (en_feats e),
     ''_'', ''_'', underscore_on_empty (en_deps e), underscore_on_empty (en_misc e)]"

lemma loop_empty_node:
  assumes ok: "empty_node_ok e" and id: "en_id e = int (length (s_words s)) - 1" "0 \<le> en_id e" "en_id e \<le> int_max"
    and index: "empty_index_ok (s_empty_nodes s) (en_id e) (en_index e)" "0 \<le> en_index e"
  shows "read_conllu_loop 2 (write_empty_node (en_id e) e @ rest) (s, l) =
    read_conllu_loop 2 rest (s\<lparr>s_empty_nodes := s_empty_nodes s @ [e]\<rparr>, l)"
proof -
  let ?cols = "empty_node_columns e" and ?a = "en_id e" and ?b = "en_index e"
  have line: "write_empty_node (en_id e) e @ rest = join tab ?cols @ lf # rest"
    by (simp add: write_empty_node_def empty_node_columns_def)
  have id_col: "column_ok False (show_int ?a @ ''.'' @ show_int ?b)"
    by (simp add: column_ok_def text_ok_def show_int_nat id(2) index(2))
  have cols: "\<forall>j < 10. column_ok (j \<in> {1, 2, 9}) (?cols ! j)"
    unfolding less_10_cases empty_node_columns_def using ok id_col
    by (simp add: empty_node_ok_def column_ok_text)
  have parts: "split (?cols ! 0) (CHR ''.'') = [show_int ?a, show_int ?b]"
    using split_join [of "[show_int ?a, show_int ?b]" "CHR ''.''"]
    by (simp add: empty_node_columns_def show_int_nat id(2) index(2))
  have "in_int_range ?a" "in_int_range ?b"
    using id index ok by (simp_all add: in_int_range_def int_min_def empty_node_ok_def)
  moreover have "is_underscore (?cols ! 6)" "is_underscore (?cols ! 7)" by (simp_all add: empty_node_columns_def is_underscore_def)
  moreover have "(mk_empty_node ?a ?b)\<lparr>en_form := ?cols ! 1, en_lemma := ?cols ! 2,
                    en_upostag := from_underscore (?cols ! 3), en_xpostag := from_underscore (?cols ! 4),
                    en_feats := from_underscore (?cols ! 5), en_deps := from_underscore (?cols ! 8),
                    en_misc := from_underscore (?cols ! 9)\<rparr> = e"
    using ok by (cases e) (simp add: empty_node_columns_def mk_empty_node_def empty_node_ok_def)
  ultimately have "read_empty_node (join tab ?cols) ?cols s = Inr (s\<lparr>s_empty_nodes := s_empty_nodes s @ [e]\<rparr>)"
    using id(1) index(1) by (simp add: read_empty_node_def parts)
  moreover have "CHR ''-'' \<notin> set (?cols ! 0)" "CHR ''.'' \<in> set (?cols ! 0)" "hd (?cols ! 0) \<noteq> CHR ''#''"
    by (simp_all add: empty_node_columns_def show_int_nat id(2) index(2))
  ultimately show ?thesis
    unfolding line by (intro loop_columns cols) (simp_all add: empty_node_columns_def)
qed

lemma loop_comments:
  "\<forall>c \<in> set cs. comment_ok c \<Longrightarrow> sentence_empty s \<Longrightarrow>
   read_conllu_loop 2 (concat (map (\<lambda>c. c @ [lf]) cs) @ rest) (s, l) =
   read_conllu_loop 2 rest (s\<lparr>s_comments := s_comments s @ cs\<rparr>, l)"
proof (induction cs arbitrary: s)
  case (Cons c cs)
  have "read_line (c @ lf # concat (map (\<lambda>c. c @ [lf]) cs) @ rest) = (c, concat (map (\<lambda>c. c @ [lf]) cs) @ rest)"
    using Cons.prems by (intro read_line_line) (auto simp: comment_ok_def no_eol_def)
  then show ?case
    using Cons.prems Cons.IH [of "s\<lparr>s_comments := s_comments s @ [c]\<rparr>"]
    by (subst read_conllu_loop.simps) (simp add: read_conllu_line_def comment_ok_def sentence_empty_def)
qed simp


text \<open>Orders of the two side lists.\<close>

lemma mwts_from_append: "mwts_from b (ms @ ms') \<longleftrightarrow> mwts_from b ms \<and> mwts_from (mwts_end b ms) ms'"
  by (induction b ms rule: mwts_from.induct) auto

lemma mwts_from_bounds: "mwts_from b ms \<Longrightarrow> \<forall>m \<in> set ms. b < mwt_id_first m \<and> mwt_id_first m \<le> mwt_id_last m"
  by (induction b ms rule: mwts_from.induct) auto

lemma empty_nodes_from_prefix: "empty_nodes_from i ix (es @ es') \<Longrightarrow> empty_nodes_from i ix es"
  by (induction i ix es rule: empty_nodes_from.induct) auto

lemma empty_nodes_from_suffix: "empty_nodes_from i ix (es @ es') \<Longrightarrow> \<exists>j jx. empty_nodes_from j jx es'"
  by (induction i ix es rule: empty_nodes_from.induct) auto

lemma empty_nodes_from_ge: "empty_nodes_from i ix es \<Longrightarrow> \<forall>e \<in> set es. i \<le> en_id e"
  by (induction i ix es rule: empty_nodes_from.induct) auto

lemma empty_nodes_from_index: "empty_nodes_from i ix es \<Longrightarrow> 0 \<le> ix \<Longrightarrow> \<forall>e \<in> set es. 1 \<le> en_index e"
  by (induction i ix es rule: empty_nodes_from.induct) auto

lemma empty_nodes_dropWhile:
  "empty_nodes_from j jx es \<Longrightarrow> \<forall>e \<in> set es. i \<le> en_id e \<Longrightarrow> e \<in> set (dropWhile (\<lambda>e. i = en_id e) es) \<Longrightarrow> i + 1 \<le> en_id e"
proof (induction j jx es rule: empty_nodes_from.induct)
  case (2 j jx e' es)
  show ?case
  proof (cases "i = en_id e'")
    case False
    then have "i < en_id e'" using 2(3) by simp
    moreover have "en_id e' \<le> en_id e" if "e \<in> set es"
      using empty_nodes_from_ge [of "en_id e'" "en_index e'" es] 2(2) that by simp
    ultimately show ?thesis using 2(4) False by auto
  qed (use 2 in auto)
qed simp

lemma empty_index_next:
  assumes "empty_nodes_from (-1) 0 (es @ e # es')" "0 \<le> en_id e"
  shows "empty_index_ok es (en_id e) (en_index e) \<and> 1 \<le> en_index e"
proof -
  have "empty_nodes_from (-1) 0 (es @ [e])"
    using assms(1) empty_nodes_from_prefix [of "-1" 0 "es @ [e]" es'] by simp
  then show ?thesis
    using assms(2) empty_nodes_from_index [of "-1" 0 "es @ [e]"]
    by (auto simp: empty_nodes_from_snoc empty_index_ok_def Let_def split: if_splits)
qed

lemma loop_empty_nodes:
  "\<forall>e \<in> set es. empty_node_ok e \<and> en_id e = i \<Longrightarrow> i = int (length (s_words s)) - 1 \<Longrightarrow> 0 \<le> i \<Longrightarrow> i \<le> int_max \<Longrightarrow>
   empty_nodes_from (-1) 0 (s_empty_nodes s @ es @ es') \<Longrightarrow>
   read_conllu_loop 2 (concat (map (write_empty_node i) es) @ rest) (s, l) =
   read_conllu_loop 2 rest (s\<lparr>s_empty_nodes := s_empty_nodes s @ es\<rparr>, l)"
proof (induction es arbitrary: s)
  case (Cons e es)
  have id: "en_id e = i" using Cons.prems(1) by simp
  have "empty_index_ok (s_empty_nodes s) (en_id e) (en_index e) \<and> 1 \<le> en_index e"
    using Cons.prems(3,5) id by (intro empty_index_next) simp_all
  then have "read_conllu_loop 2 (write_empty_node i e @ concat (map (write_empty_node i) es) @ rest) (s, l) =
      read_conllu_loop 2 (concat (map (write_empty_node i) es) @ rest) (s\<lparr>s_empty_nodes := s_empty_nodes s @ [e]\<rparr>, l)"
    using loop_empty_node [of e s "concat (map (write_empty_node i) es) @ rest" l] Cons.prems id by simp
  then show ?case using Cons.IH [of "s\<lparr>s_empty_nodes := s_empty_nodes s @ [e]\<rparr>"] Cons.prems by simp
qed simp

text \<open>What is left to be read: it continues the sentence read so far.\<close>

definition rest_ok :: "sentence \<Rightarrow> word_data list \<Rightarrow> multiword_token list \<Rightarrow> empty_node list \<Rightarrow> bool" where
  "rest_ok s ws ms es \<longleftrightarrow> (let i = length (s_words s) in
     1 \<le> i \<and> int (i + length ws) \<le> int_max \<and> map w_id ws = map int [i..<i + length ws] \<and>
     (\<forall>w \<in> set ws. word_ok w \<and> -1 \<le> w_head w \<and> w_head w \<le> int_max) \<and>
     mwts_from 0 (s_multiword_tokens s @ ms) \<and>
     (\<forall>m \<in> set ms. mwt_ok m \<and> int i \<le> mwt_id_first m \<and> mwt_id_last m < int (i + length ws)) \<and>
     empty_nodes_from (-1) 0 (s_empty_nodes s @ es) \<and>
     (\<forall>e \<in> set es. empty_node_ok e \<and> int i \<le> en_id e \<and> en_id e < int (i + length ws)))"

abbreviation extend :: "sentence \<Rightarrow> word_data list \<Rightarrow> multiword_token list \<Rightarrow> empty_node list \<Rightarrow> sentence" where
  "extend s ws ms es \<equiv> s\<lparr>s_words := s_words s @ map without_children ws,
     s_multiword_tokens := s_multiword_tokens s @ ms, s_empty_nodes := s_empty_nodes s @ es\<rparr>"

abbreviation reader_of :: "sentence \<Rightarrow> reader" where
  "reader_of s \<equiv> (s, mwts_end 0 (s_multiword_tokens s))"

lemma rest_ok_mwt:
  assumes "rest_ok s ws (m # ms) es" "mwt_id_first m = int (length (s_words s))"
  shows "read_conllu_loop 2 (write_mwt 2 m @ rest) (reader_of s) = read_conllu_loop 2 rest (reader_of (extend s [] [m] []))
    \<and> rest_ok (extend s [] [m] []) ws ms es \<and> (\<forall>m' \<in> set ms. int (length (s_words s)) + 1 \<le> mwt_id_first m')"
proof -
  have mwts: "mwts_from 0 (s_multiword_tokens s @ m # ms)" using assms(1) by (simp add: rest_ok_def Let_def)
  have later: "mwts_from (mwt_id_last m) ms" and here: "mwts_end 0 (s_multiword_tokens s) < mwt_id_first m"
    "mwt_id_first m \<le> mwt_id_last m" using mwts by (simp_all add: mwts_from_append)
  have "\<forall>m' \<in> set ms. mwt_id_last m < mwt_id_first m'" using mwts_from_bounds [OF later] by blast
  then have "\<forall>m' \<in> set ms. int (length (s_words s)) + 1 \<le> mwt_id_first m'" using here(2) assms(2) by force
  moreover have "mwt_id_last m \<le> int_max" using assms(1) by (simp add: rest_ok_def Let_def)
  ultimately show ?thesis
    using assms loop_mwt [of m s "mwts_end 0 (s_multiword_tokens s)" rest] here
    by (simp add: rest_ok_def Let_def)
qed

lemma rest_ok_word:
  assumes "rest_ok s (w # ws) ms es" "\<forall>m \<in> set ms. int (length (s_words s)) + 1 \<le> mwt_id_first m"
  defines "i \<equiv> int (length (s_words s))"
  defines "es1 \<equiv> takeWhile (\<lambda>e. i = en_id e) es" and "es2 \<equiv> dropWhile (\<lambda>e. i = en_id e) es"
  shows "read_conllu_loop 2 (write_word 2 i w @ concat (map (write_empty_node i) es1) @ rest) (reader_of s) =
      read_conllu_loop 2 rest (reader_of (extend s [w] [] es1)) \<and> rest_ok (extend s [w] [] es1) ws ms es2"
proof -
  have es: "es = es1 @ es2" by (simp add: es1_def es2_def)
  have ids: "w_id w = i" "map w_id ws = map int [Suc (length (s_words s))..<Suc (length (s_words s)) + length ws]"
    using assms(1) by (simp_all add: rest_ok_def Let_def i_def upt_rec del: upt_Suc)
  have w: "word_ok w" "-1 \<le> w_head w" "w_head w \<le> int_max" and bound: "i + 1 + int (length ws) \<le> int_max"
    using assms(1) by (simp_all add: rest_ok_def Let_def i_def)
  have order: "empty_nodes_from (-1) 0 (s_empty_nodes s @ es1 @ es2)" using assms(1) es by (simp add: rest_ok_def Let_def)
  have es1: "\<forall>e \<in> set es1. empty_node_ok e \<and> en_id e = i"
    using assms(1) set_takeWhileD [of _ "\<lambda>e. i = en_id e" es]
    by (auto simp: rest_ok_def Let_def es1_def dest: set_takeWhileD)
  obtain j jx where "empty_nodes_from j jx es" using order empty_nodes_from_suffix es by metis
  then have es2: "\<forall>e \<in> set es2. i + 1 \<le> en_id e"
    using assms(1) empty_nodes_dropWhile [of j jx es i] by (auto simp: rest_ok_def Let_def es2_def i_def)
  have "read_conllu_loop 2 (write_word 2 i w @ concat (map (write_empty_node i) es1) @ rest) (reader_of s) =
      read_conllu_loop 2 (concat (map (write_empty_node i) es1) @ rest) (reader_of (extend s [w] [] []))"
    using loop_word [of w s "concat (map (write_empty_node i) es1) @ rest"] w ids(1) bound by (simp add: i_def)
  also have "\<dots> = read_conllu_loop 2 rest (reader_of (extend s [w] [] es1))"
    using loop_empty_nodes [of es1 i "extend s [w] [] []" es2 rest] es1 order bound by (simp add: i_def)
  finally have loop: "read_conllu_loop 2 (write_word 2 i w @ concat (map (write_empty_node i) es1) @ rest) (reader_of s) =
      read_conllu_loop 2 rest (reader_of (extend s [w] [] es1))" .
  have "\<forall>e \<in> set es2. empty_node_ok e \<and> en_id e < i + 1 + int (length ws)"
    using assms(1) es by (auto simp: rest_ok_def Let_def i_def algebra_simps)
  moreover have "\<forall>m \<in> set ms. mwt_ok m \<and> i + 1 \<le> mwt_id_first m \<and> mwt_id_last m < i + 1 + int (length ws)"
    using assms(1,2) by (auto simp: rest_ok_def Let_def i_def algebra_simps)
  moreover have "mwts_from 0 (s_multiword_tokens s @ ms)" "\<forall>w \<in> set ws. word_ok w \<and> -1 \<le> w_head w \<and> w_head w \<le> int_max"
    using assms(1) by (simp_all add: rest_ok_def Let_def)
  ultimately have "rest_ok (extend s [w] [] es1) ws ms es2"
    using ids(2) es2 order bound unfolding rest_ok_def Let_def i_def by (simp add: algebra_simps del: upt_Suc)
  with loop show ?thesis by simp
qed

lemma loop_nodes:
  "rest_ok s ws ms es \<Longrightarrow>
   read_conllu_loop 2 (write_nodes 2 (int (length (s_words s))) ws ms es @ rest) (reader_of s) =
   read_conllu_loop 2 rest (reader_of (extend s ws ms es))"
proof (induction ws arbitrary: s ms es)
  case Nil
  let ?n = "int (length (s_words s))"
  have ms: "\<forall>m \<in> set ms. ?n \<le> mwt_id_first m \<and> mwt_id_last m < ?n"
    and "mwts_from (mwts_end 0 (s_multiword_tokens s)) ms"
    using Nil by (simp_all add: rest_ok_def Let_def mwts_from_append)
  then have "\<forall>m \<in> set ms. mwt_id_first m \<le> mwt_id_last m" using mwts_from_bounds by blast
  with ms have "set ms = {}" by (cases ms) auto
  moreover have "\<forall>e \<in> set es. ?n \<le> en_id e \<and> en_id e < ?n"
    using Nil by (simp add: rest_ok_def Let_def)
  then have "set es = {}" by (cases es) auto
  ultimately have "ms = []" "es = []" by simp_all
  then show ?case by simp
next
  case (Cons w ws)
  let ?i = "int (length (s_words s))"
  let ?es1 = "takeWhile (\<lambda>e. ?i = en_id e) es" and ?es2 = "dropWhile (\<lambda>e. ?i = en_id e) es"
  have i: "0 < ?i" using Cons.prems by (cases "s_words s") (simp_all add: rest_ok_def Let_def)
  have word: "read_conllu_loop 2 (write_word 2 ?i w @ concat (map (write_empty_node ?i) ?es1) @ write_nodes 2 (?i + 1) ws ns ?es2 @ rest)
        (reader_of t) = read_conllu_loop 2 rest (reader_of (extend t (w # ws) ns es))"
    if t: "rest_ok t (w # ws) ns es" "\<forall>m \<in> set ns. ?i + 1 \<le> mwt_id_first m" "length (s_words t) = length (s_words s)" for t ns
  proof -
    note step = rest_ok_word [OF t(1), of "write_nodes 2 (?i + 1) ws ns ?es2 @ rest", unfolded t(3)]
    with t(2) have "rest_ok (extend t [w] [] ?es1) ws ns ?es2" by simp
    from Cons.IH [OF this] step t(2) show ?thesis by (simp add: t(3) add.commute)
  qed
  show ?case
  proof (cases "ms \<noteq> [] \<and> ?i = mwt_id_first (hd ms)")
    case True
    then obtain m ms' where ms: "ms = m # ms'" "mwt_id_first m = ?i" by (cases ms) auto
    let ?s = "extend s [] [m] []"
    have mwt: "rest_ok ?s (w # ws) ms' es" "\<forall>m' \<in> set ms'. ?i + 1 \<le> mwt_id_first m'"
        "read_conllu_loop 2 (write_mwt 2 m @ t) (reader_of s) = read_conllu_loop 2 t (reader_of ?s)" for t
      using rest_ok_mwt [of s "w # ws" m ms' es t] Cons.prems ms by simp_all
    show ?thesis using word [OF mwt(1,2)] i ms mwt(3) by (simp add: Let_def)
  next
    case False
    have "\<forall>m \<in> set ms. ?i + 1 \<le> mwt_id_first m"
    proof (cases ms)
      case (Cons m ms')
      then have "mwts_from (mwt_id_last m) ms'" "?i < mwt_id_first m" "mwt_id_first m \<le> mwt_id_last m"
        using Cons.prems False by (auto simp: rest_ok_def Let_def mwts_from_append)
      then show ?thesis using mwts_from_bounds [of "mwt_id_last m" ms'] Cons by force
    qed simp
    from word [OF Cons.prems this] False i show ?thesis by (auto simp: Let_def)
  qed
qed


text \<open>Well-formed words are determined by everything but their children.\<close>

lemma wf_words_eq:
  assumes "wf_words vs" "wf_words ws" "map without_children vs = map without_children ws"
  shows "vs = ws"
proof (rule nth_equalityI)
  note len = same_without_children(1) [OF assms(3)] and heads = same_without_children(3) [OF assms(3)]
  show "length vs = length ws" by (rule len)
  fix k assume k: "k < length vs"
  have head: "w_head (vs ! j) = w_head (ws ! j)" if "j < length ws" for j
    using nth_map_eq [OF heads, of j] that len by simp
  have "int k \<in> ids vs" "int k \<in> ids ws" using k len by (simp_all add: ids_def)
  then have "w_children (vs ! k) = filter (\<lambda>j. w_head (vs ! nat j) = int k) (id_list vs)"
    "w_children (ws ! k) = filter (\<lambda>j. w_head (ws ! nat j) = int k) (id_list ws)"
    using words.wf_children_filter [of vs "int k"] words.wf_children_filter [of ws "int k"] assms(1,2)
    by (simp_all add: wf_words_def word_link_def)
  moreover have "filter (\<lambda>j. w_head (vs ! nat j) = int k) (id_list vs) = filter (\<lambda>j. w_head (ws ! nat j) = int k) (id_list ws)"
    using head unfolding len by (intro filter_cong) auto
  moreover have "without_children (vs ! k) = without_children (ws ! k)"
    using nth_map_eq [OF assms(3) k] .
  ultimately show "vs ! k = ws ! k"
    by (cases "vs ! k", cases "ws ! k") (simp add: without_children_def)
qed

lemma mwts_from_end: "mwts_from b ms \<Longrightarrow> \<forall>m \<in> set ms. mwt_id_last m \<le> mwts_end b ms"
proof (induction b ms rule: mwts_from.induct)
  case (2 b m ms)
  then show ?case using mwts_end_ge [of "mwt_id_last m" ms] by auto
qed simp

lemma conllu_ok_rest:
  assumes ok: "conllu_ok s" and words: "s_words s = root # ws"
  defines "es1 \<equiv> takeWhile (\<lambda>e. 0 = en_id e) (s_empty_nodes s)" and "es2 \<equiv> dropWhile (\<lambda>e. 0 = en_id e) (s_empty_nodes s)"
  shows "rest_ok (clear_sentence\<lparr>s_comments := s_comments s, s_empty_nodes := es1\<rparr>) ws (s_multiword_tokens s) es2"
proof -
  have wf: "words.wf (s_words s)" "map w_id (s_words s) = id_list (s_words s)"
    using ok by (simp_all add: conllu_ok_def wf_sentence_def wf_words_def)
  have heads: "-1 \<le> w_head w \<and> w_head w \<le> int_max" if "w \<in> set ws" for w
  proof -
    from that obtain k where k: "k < length (s_words s)" "s_words s ! k = w"
      unfolding words by (metis in_set_conv_nth list.set_intros(2))
    then have "int k \<in> ids (s_words s)" by (simp add: ids_def)
    from words.wf_head [OF wf(1) this] k have "-1 \<le> w_head w" "w_head w < int (length (s_words s))"
      by (simp_all add: word_link_def)
    then show ?thesis using ok by (simp add: conllu_ok_def)
  qed
  have "map w_id ws = map int [1..<1 + length ws]"
    using wf(2) unfolding words by (simp add: upt_rec del: upt_Suc)
  moreover have mwts: "mwts_from 0 (s_multiword_tokens s)" "mwts_end 0 (s_multiword_tokens s) < int (1 + length ws)"
    using ok words by (simp_all add: conllu_ok_def wf_sentence_def)
  moreover have "\<forall>m \<in> set (s_multiword_tokens s). mwt_ok m \<and> 1 \<le> mwt_id_first m \<and> mwt_id_last m < int (1 + length ws)"
    using mwts_from_bounds [OF mwts(1)] mwts_from_end [OF mwts(1)] mwts(2) ok by (force simp: conllu_ok_def)
  moreover have es: "empty_nodes_from (-1) 0 (s_empty_nodes s)" using ok by (simp add: conllu_ok_def wf_sentence_def)
  moreover have "\<forall>e \<in> set es2. empty_node_ok e \<and> 1 \<le> en_id e \<and> en_id e < int (1 + length ws)"
  proof
    fix e assume e: "e \<in> set es2"
    have "\<forall>e \<in> set (s_empty_nodes s). 0 \<le> en_id e" using ok by (simp add: conllu_ok_def wf_sentence_def)
    then have "1 \<le> en_id e" using empty_nodes_dropWhile [OF es, of 0 e] e by (simp add: es2_def)
    moreover have "e \<in> set (s_empty_nodes s)" using e by (auto simp: es2_def dest: set_dropWhileD)
    ultimately show "empty_node_ok e \<and> 1 \<le> en_id e \<and> en_id e < int (1 + length ws)"
      using ok words by (auto simp: conllu_ok_def wf_sentence_def)
  qed
  ultimately show ?thesis
    using ok heads words unfolding rest_ok_def Let_def
    by (simp add: clear_sentence_def conllu_ok_def es1_def es2_def del: upt_Suc)
qed

lemma finish_written:
  assumes ok: "conllu_ok s"
  shows "finish_sentence (s\<lparr>s_words := map without_children (s_words s)\<rparr>, mwts_end 0 (s_multiword_tokens s)) = Inr (Some s)"
proof -
  let ?ws = "map without_children (s_words s)"
  have wf: "wf_words (s_words s)" "without_children (hd (s_words s)) = root_word"
    "mwts_end 0 (s_multiword_tokens s) < int (length (s_words s))" "1 < length (s_words s)"
    using ok by (simp_all add: conllu_ok_def wf_sentence_def)
  have heads: "-1 \<le> w_head w \<and> w_head w < int (length (s_words s))" if "w \<in> set (s_words s)" for w
  proof -
    from that obtain k where k: "k < length (s_words s)" "s_words s ! k = w" by (metis in_set_conv_nth)
    then have "int k \<in> ids (s_words s)" by (simp add: ids_def)
    from words.wf_head [OF _ this] wf(1) k show ?thesis by (simp add: word_link_def wf_words_def)
  qed
  have raw: "raw_words ?ws"
    using wf heads by (auto simp: raw_words_def wf_words_def hd_map without_children_def comp_def)
  have "\<not> (\<exists>w \<in> set ?ws. int (length ?ws) \<le> w_head w)"
    using heads by (force simp: without_children_def)
  then obtain vs where vs: "link_words [0..<length ?ws] ?ws = Inr vs" "wf_words vs" "map without_children vs = ?ws"
    using link_words_raw [OF raw] by (auto split: sum.splits)
  have "vs = s_words s" using wf_words_eq [OF vs(2) wf(1) vs(3)] .
  then show ?thesis using vs(1) wf(3,4) by (simp add: finish_sentence_def sentence_empty_def)
qed

lemma conllu_reads_written:
  assumes ok: "conllu_ok s"
  shows "conllu_next_sentence 2 (write_conllu 2 s @ rest) = Some (Inr (Some s), rest)"
proof -
  obtain root ws where words: "s_words s = root # ws"
    using ok by (cases "s_words s") (simp_all add: conllu_ok_def)
  let ?es1 = "takeWhile (\<lambda>e. 0 = en_id e) (s_empty_nodes s)" and ?es2 = "dropWhile (\<lambda>e. 0 = en_id e) (s_empty_nodes s)"
  let ?c = "clear_sentence\<lparr>s_comments := s_comments s\<rparr>"
  let ?t = "?c\<lparr>s_empty_nodes := ?es1\<rparr>"
  let ?nodes = "write_nodes 2 1 ws (s_multiword_tokens s) ?es2"
  have rest: "rest_ok ?t ws (s_multiword_tokens s) ?es2" using conllu_ok_rest [OF ok words] by simp
  have "empty_nodes_from (-1) 0 (?es1 @ ?es2)" using ok by (simp add: conllu_ok_def wf_sentence_def)
  moreover have "\<forall>e \<in> set ?es1. empty_node_ok e \<and> en_id e = 0"
    using ok by (auto simp: conllu_ok_def dest: set_takeWhileD)
  ultimately have empty: "read_conllu_loop 2 (concat (map (write_empty_node 0) ?es1) @ t) (reader_of ?c) =
      read_conllu_loop 2 t (reader_of ?t)" for t
    using loop_empty_nodes [of ?es1 0 ?c ?es2 t] by (simp add: clear_sentence_def int_max_def)
  have written: "write_conllu 2 s @ rest = concat (map (\<lambda>c. c @ [lf]) (s_comments s)) @
      concat (map (write_empty_node 0) ?es1) @ ?nodes @ lf # rest"
    by (simp add: write_conllu_def words Let_def)
  have start: "(clear_sentence, 0) = reader_of clear_sentence" by (simp add: clear_sentence_def)
  have "read_conllu_loop 2 (write_conllu 2 s @ rest) (clear_sentence, 0) =
      read_conllu_loop 2 (concat (map (write_empty_node 0) ?es1) @ ?nodes @ lf # rest) (reader_of ?c)"
    unfolding written start using ok
    by (subst loop_comments) (simp_all add: conllu_ok_def sentence_empty_def clear_sentence_def)
  also have "\<dots> = read_conllu_loop 2 (?nodes @ lf # rest) (reader_of ?t)" by (rule empty)
  also have "\<dots> = read_conllu_loop 2 (lf # rest) (reader_of (extend ?t ws (s_multiword_tokens s) ?es2))"
    using loop_nodes [OF rest] by (simp add: clear_sentence_def)
  also have "extend ?t ws (s_multiword_tokens s) ?es2 = s\<lparr>s_words := map without_children (s_words s)\<rparr>"
    using ok words by (cases s) (simp add: clear_sentence_def conllu_ok_def wf_sentence_def)
  also have "read_conllu_loop 2 (lf # rest) (reader_of (s\<lparr>s_words := map without_children (s_words s)\<rparr>)) =
      Some (Inr (reader_of (s\<lparr>s_words := map without_children (s_words s)\<rparr>)), rest)"
    using ok by (subst read_conllu_loop.simps)
      (simp add: read_line_def no_eol_def skip_eol_def sentence_empty_def conllu_ok_def)
  finally show ?thesis
    using finish_written [OF ok] by (simp add: conllu_next_sentence_def)
qed


text \<open>The reader as a decoder of one sentence; the contract \<open>codec\<close> extends it to documents.\<close>

definition conllu_sentence :: "string \<Rightarrow> (sentence \<times> string) option" where
  "conllu_sentence text = (case conllu_next_sentence 2 text of
     Some (Inr (Some s), rest) \<Rightarrow> Some (s, rest) | _ \<Rightarrow> None)"

interpretation conllu: codec "write_conllu 2" conllu_sentence conllu_ok
  by unfold_locales (simp add: conllu_sentence_def conllu_reads_written)

text \<open>A sentence with a multiword token and an empty node.\<close>

definition sample_sentence :: sentence where
  "sample_sentence = \<lparr>s_words = [root_word\<lparr>w_children := [1]\<rparr>,
       (mk_word 1 ''I m'')\<lparr>w_lemma := ''I'', w_upostag := ''PRON'', w_head := 0, w_deprel := ''root'', w_children := [2]\<rparr>,
       (mk_word 2 ''_'')\<lparr>w_lemma := ''be'', w_feats := ''A=B|C=D'', w_head := 1, tk_misc := ''X Y''\<rparr>],
     s_multiword_tokens = [(mk_multiword_token 1 2 ''Im'' ''SpaceAfter=No'')\<lparr>mwt_feats := ''Typo=Yes''\<rparr>],
     s_empty_nodes = [(mk_empty_node 2 1)\<lparr>en_form := ''e'', en_lemma := ''e''\<rparr>],
     s_comments = [''# text = Im'']\<rparr>"

lemma sample_wf_words: "wf_words (s_words sample_sentence)"
proof -
  have ids: "ids [a, b, c] = {0, 1, 2}" for a b c :: 'a
    by (auto simp: ids_def)
  have three: "{j \<in> {0, 1, 2}. P j} = (if P 0 then {0} else {}) \<union> (if P 1 then {1} else {}) \<union> (if P 2 then {2 :: int} else {})" for P
    by auto
  have "wf_links [(-1, [1]), (0, [2]), (1, [])]"
    unfolding wf_links_def ids three by (simp add: numeral_2_eq_2)
  then show ?thesis
    by (simp add: sample_sentence_def wf_words_def words.wf_def word_link_def root_word_def mk_word_def upt_rec)
qed

lemma sample_ok: "conllu_ok sample_sentence"
  using sample_wf_words
  by (simp add: conllu_ok_def wf_sentence_def)
    (simp add: sample_sentence_def root_word_def mk_word_def without_children_def mk_multiword_token_def
      mk_empty_node_def int_max_def comment_ok_def word_ok_def mwt_ok_def empty_node_ok_def text_ok_def opt_ok_def)

text \<open>
  C4: CoNLL-U version 2 loses nothing: a document of sentences that meet the constraints of the
  format is read back sentence by sentence as it was written, with heads, children, multiword
  tokens, empty nodes and comments, and what follows it in the text is left untouched.
\<close>

theorem conllu_roundtrip:
  assumes "\<forall>s \<in> set ss. conllu_ok s"
  shows "decode_many conllu_sentence (length ss) (concat (map (write_conllu 2) ss) @ rest) = Some (ss, rest)"
  by (rule conllu.decode_many_enc [OF assms])

lemma conllu_roundtrip_witness:
  "decode_many conllu_sentence 2 (write_conllu 2 sample_sentence @ write_conllu 2 sample_sentence) =
     Some ([sample_sentence, sample_sentence], [])"
  using conllu_roundtrip [of "[sample_sentence, sample_sentence]" "[]"] sample_ok by (simp add: numeral_2_eq_2)

lemma conllu_reads_wf_witness: "wf_sentence sample_sentence \<and> length (s_words sample_sentence) > 1"
  using conllu_reads_wf [OF conllu_reads_written [OF sample_ok, of "''x''"]] .

end
