(* ===== verification/Line_Formats.thy ===== *)
theory Line_Formats
  imports Conllu
begin

text \<open>
  The line-based formats: \<open>input_format_horizontal\<close> and \<open>input_format_vertical\<close>
  (\<open>src/sentence/input_format.cpp\<close>), \<open>output_format_horizontal\<close>, \<open>output_format_plaintext\<close> and
  \<open>output_format_vertical\<close> (\<open>src/sentence/output_format.cpp\<close>). A reader keeps the text not yet
  read, the counters of newlines and sentences (\<open>unsigned\<close>, reduced modulo \<open>2 ^ 32\<close>) and the
  document mark; a writer keeps only whether it has written a sentence. The theory also holds
  the contract that all readers of sentences share: every sentence consumes input, so the loop
  that reads a document ends.
\<close>

section \<open>Readers\<close>

record line_reader =
  lr_text :: string
  lr_new_document :: bool
  lr_document_id :: string
  lr_newlines :: nat
  lr_sentence_id :: nat

definition u32_plus :: "nat \<Rightarrow> nat \<Rightarrow> nat" where
  "u32_plus a b = (a + b) mod 2 ^ 32"

definition reset_document :: "string \<Rightarrow> line_reader" where
  "reset_document i = \<lparr>lr_text = [], lr_new_document = True, lr_document_id = i, lr_newlines = 2, lr_sentence_id = 1\<rparr>"

definition reader_set_text :: "string \<Rightarrow> line_reader \<Rightarrow> line_reader" where
  "reader_set_text t r = r\<lparr>lr_text := t\<rparr>"

definition count_newlines :: "string \<Rightarrow> nat" where
  "count_newlines t = length (filter (\<lambda>c. c = lf) t)"

text \<open>
  The end of \<open>next_sentence\<close>, the same in both readers: marks and counters, when there are words.
\<close>

definition mark_sentence :: "word_data list \<Rightarrow> line_reader \<Rightarrow> sentence option result \<times> line_reader" where
  "mark_sentence ws r =
     (let s = clear_sentence\<lparr>s_words := ws\<rparr> in
      if sentence_empty s then (Inr None, r)
      else
        (let s = (if lr_new_document r then set_new_doc True (lr_document_id r) s else s);
             s = (if lr_newlines r \<ge> 2 then set_new_par True [] s else s);
             s = set_sent_id (show_nat (lr_sentence_id r)) s
         in (Inr (Some s), r\<lparr>lr_new_document := False, lr_newlines := 0,
               lr_sentence_id := u32_plus (lr_sentence_id r) 1\<rparr>)))"

definition horizontal_space :: "char \<Rightarrow> bool" where
  "horizontal_space c \<longleftrightarrow> c = CHR '' '' \<or> c = tab \<or> c = cr \<or> c = lf"

text \<open>
  The replacement of a no-break space (two bytes) by a space runs in place; its state here is the
  part of the form already written, last byte first.
\<close>

fun has_nbsp :: "string \<Rightarrow> bool" where
  "has_nbsp (c # d # s) \<longleftrightarrow> c = CHR 0xC2 \<and> d = CHR 0xA0 \<or> has_nbsp (d # s)"
| "has_nbsp _ \<longleftrightarrow> False"

fun nbsp_loop :: "string \<Rightarrow> string \<Rightarrow> string" where
  "nbsp_loop out [] = rev out"
| "nbsp_loop out (c # s) =
     (if out \<noteq> [] \<and> hd out = CHR 0xC2 \<and> c = CHR 0xA0 then nbsp_loop (CHR '' '' # tl out) s
      else nbsp_loop (c # out) s)"

definition from_nbsp :: "string \<Rightarrow> string" where
  "from_nbsp form = (if has_nbsp form then nbsp_loop [] form else form)"

function horizontal_words :: "string \<Rightarrow> word_data list \<Rightarrow> word_data list \<times> string" where
  "horizontal_words t ws =
     (if t \<noteq> [] \<and> no_eol (hd t) then
        horizontal_words (dropWhile blank (dropWhile (\<lambda>c. \<not> horizontal_space c) t))
          (add_word (from_nbsp (takeWhile (\<lambda>c. \<not> horizontal_space c) t)) ws)
      else (ws, t))"
  by pat_completeness auto
termination
proof (relation "measure (\<lambda>(t, _). length t)", goal_cases)
  case (2 t ws)
  then obtain c s where t: "t = c # s" "no_eol c" by (cases t) auto
  show ?case
  proof (cases "blank c")
    case True
    then have "horizontal_space c" by (auto simp: horizontal_space_def blank_def)
    with True show ?thesis using length_dropWhile_le [of blank s] by (simp add: t)
  next
    case False
    then have "\<not> horizontal_space c" using t(2) by (auto simp: horizontal_space_def blank_def no_eol_def)
    moreover have "length (dropWhile blank (dropWhile (\<lambda>c. \<not> horizontal_space c) s)) \<le> length s"
      using length_dropWhile_le le_trans by blast
    ultimately show ?thesis by (simp add: t)
  qed
qed simp

declare horizontal_words.simps [simp del]

definition horizontal_next :: "line_reader \<Rightarrow> sentence option result \<times> line_reader" where
  "horizontal_next r =
     (let skipped = takeWhile horizontal_space (lr_text r);
          (ws, t) = horizontal_words (dropWhile horizontal_space (lr_text r)) [root_word]
      in mark_sentence ws (r\<lparr>lr_text := t, lr_newlines := u32_plus (lr_newlines r) (count_newlines skipped)\<rparr>))"

definition vertical_space :: "char \<Rightarrow> bool" where
  "vertical_space c \<longleftrightarrow> c = tab \<or> c = cr \<or> c = lf"

text \<open>One line: its first column, and the text behind the line end and the tabs after it.\<close>

definition vertical_line :: "string \<Rightarrow> string \<times> string" where
  "vertical_line t = (takeWhile (\<lambda>c. \<not> vertical_space c) t,
     dropWhile (\<lambda>c. c = tab) (skip_eol (dropWhile no_eol (dropWhile (\<lambda>c. \<not> vertical_space c) t))))"

lemma length_skip_eol: "length (skip_eol t) \<le> length t"
  by (simp add: skip_eol_def)

lemma vertical_line_shorter: "t \<noteq> [] \<Longrightarrow> no_eol (hd t) \<Longrightarrow> length (snd (vertical_line t)) < length t"
proof -
  assume "t \<noteq> []" "no_eol (hd t)"
  then obtain c s where t: "t = c # s" "no_eol c" by (cases t) auto
  have "length (dropWhile no_eol (dropWhile (\<lambda>c. \<not> vertical_space c) t)) \<le> length s"
  proof (cases "vertical_space c")
    case True
    then show ?thesis using t length_dropWhile_le [of no_eol s] by simp
  next
    case False
    then show ?thesis
      using t le_trans [OF length_dropWhile_le [of no_eol "dropWhile (\<lambda>c. \<not> vertical_space c) s"]] length_dropWhile_le
      by auto
  qed
  then have "length (snd (vertical_line t)) \<le> length s"
    using length_skip_eol length_dropWhile_le le_trans unfolding vertical_line_def snd_conv by blast
  then show ?thesis by (simp add: t)
qed

function vertical_words :: "string \<Rightarrow> word_data list \<Rightarrow> word_data list \<times> string" where
  "vertical_words t ws =
     (if t \<noteq> [] \<and> no_eol (hd t) then vertical_words (snd (vertical_line t)) (add_word (fst (vertical_line t)) ws)
      else (ws, t))"
  by pat_completeness auto
termination
  by (relation "measure (\<lambda>(t, _). length t)") (auto dest: vertical_line_shorter)

declare vertical_words.simps [simp del]

definition vertical_next :: "line_reader \<Rightarrow> sentence option result \<times> line_reader" where
  "vertical_next r =
     (let skipped = takeWhile vertical_space (lr_text r);
          (ws, t) = vertical_words (dropWhile vertical_space (lr_text r)) [root_word]
      in mark_sentence ws (r\<lparr>lr_text := t, lr_newlines := u32_plus (lr_newlines r) (count_newlines skipped)\<rparr>))"

section \<open>Writers\<close>

text \<open>
  The tokens that the text of a sentence consists of: a multiword token stands for its words.
  With each token goes the index of its first word and the index (a \<open>size_t\<close>) that the loop is at
  behind it.
\<close>

definition u64 :: "int \<Rightarrow> nat" where
  "u64 i = nat (i mod 2 ^ 64)"

lemma u64_small: "0 \<le> i \<Longrightarrow> i < 2 ^ 64 \<Longrightarrow> u64 i = nat i"
  by (simp add: u64_def)

function surface_tokens :: "word_data list \<Rightarrow> nat \<Rightarrow> multiword_token list \<Rightarrow> (token \<times> nat \<times> nat) list" where
  "surface_tokens ws i ms =
     (if i < length ws then
        if ms \<noteq> [] \<and> mwt_id_first (hd ms) = int i then
          (token.truncate (hd ms), i, u64 (mwt_id_last (hd ms))) #
            surface_tokens ws ((u64 (mwt_id_last (hd ms)) + 1) mod 2 ^ 64) (tl ms)
        else (token.truncate (ws ! i), i, i) # surface_tokens ws (i + 1) ms
      else [])"
  by pat_completeness auto
termination
  by (relation "measures [\<lambda>(ws, i, ms). length ms, \<lambda>(ws, i, ms). length ws - i]") auto

declare surface_tokens.simps [simp del]

definition sentence_tokens :: "sentence \<Rightarrow> (token \<times> nat \<times> nat) list" where
  "sentence_tokens s = surface_tokens (s_words s) 1 (s_multiword_tokens s)"

definition marks_paragraph :: "sentence \<Rightarrow> bool" where
  "marks_paragraph s \<longleftrightarrow> get_new_doc s \<noteq> None \<or> get_new_par s \<noteq> None"

definition to_nbsp :: "string \<Rightarrow> string" where
  "to_nbsp form = concat (map (\<lambda>c. if c = CHR '' '' then [CHR 0xC2, CHR 0xA0] else [c]) form)"

text \<open>The argument \<open>start\<close> (\<open>empty\<close> in the code) is the state of the writer, which is \<open>False\<close> after every sentence.\<close>

definition write_horizontal :: "bool \<Rightarrow> bool \<Rightarrow> sentence \<Rightarrow> string" where
  "write_horizontal paragraphs start s =
     (if paragraphs \<and> \<not> start \<and> marks_paragraph s then [lf] else []) @
     join (CHR '' '') (map (to_nbsp \<circ> tk_form) (tl (s_words s))) @ [lf]"

definition write_vertical :: "bool \<Rightarrow> bool \<Rightarrow> sentence \<Rightarrow> string" where
  "write_vertical paragraphs start s =
     (if paragraphs \<and> \<not> start \<and> marks_paragraph s then [lf] else []) @
     concat (map (\<lambda>w. tk_form w @ [lf]) (tl (s_words s))) @ [lf]"

definition write_plaintext :: "bool \<Rightarrow> bool \<Rightarrow> sentence \<Rightarrow> string" where
  "write_plaintext normalized start s =
     (if normalized then
        (if \<not> start \<and> marks_paragraph s then [lf] else []) @
        concat (map (\<lambda>(tok, i, _). tk_form tok @ (if i + 1 < length (s_words s) \<and> get_space_after tok then '' '' else []))
          (sentence_tokens s)) @ [lf]
      else
        concat (map (\<lambda>(tok, _). get_spaces_before tok @
          (if get_spaces_in_token tok \<noteq> [] then get_spaces_in_token tok else tk_form tok) @ get_spaces_after tok)
          (sentence_tokens s)))"


section \<open>The contract of a sentence reader\<close>

text \<open>
  The loop that reads a document: sentences until the end of the text or an error. It is
  partial, for a reader may loop for ever.
\<close>

partial_function (option) drain ::
  "('s \<Rightarrow> (sentence option result \<times> 's) option) \<Rightarrow> 's \<Rightarrow> (sentence list \<times> string option) option" where
  "drain next r = Option.bind (next r) (\<lambda>(outcome, r').
     (case outcome of Inl e \<Rightarrow> Some ([], Some e)
      | Inr found \<Rightarrow>
     (case found of None \<Rightarrow> Some ([], None)
      | Some s \<Rightarrow> Option.bind (drain next r') (\<lambda>(ss, e). Some (s # ss, e)))))"

declare drain.simps [code]

text \<open>
  What a reader promises: from a state it can be in, a call returns, and a sentence makes the
  remaining input smaller. Then the loop ends, with at most as many sentences as input.
\<close>

locale sentence_reader =
  fixes step :: "'s \<Rightarrow> (sentence option result \<times> 's) option"
    and ok :: "'s \<Rightarrow> bool"
    and size :: "'s \<Rightarrow> nat"
  assumes returns: "ok r \<Longrightarrow> \<exists>outcome r'. step r = Some (outcome, r') \<and> ok r' \<and>
      (\<forall>s. outcome = Inr (Some s) \<longrightarrow> size r' < size r)"
begin

lemma drain_returns: "ok r \<Longrightarrow> \<exists>ss e. drain step r = Some (ss, e) \<and> length ss \<le> size r"
proof (induction "size r" arbitrary: r rule: less_induct)
  case less
  obtain outcome r' where step: "step r = Some (outcome, r')" "ok r'"
    and smaller: "\<And>s. outcome = Inr (Some s) \<Longrightarrow> size r' < size r"
    using returns [OF less.prems] by blast
  consider e where "outcome = Inl e" | "outcome = Inr None" | s where "outcome = Inr (Some s)"
    by (cases outcome) (auto intro: option.exhaust)
  then show ?case
  proof cases
    case 3
    then obtain ss e where "drain step r' = Some (ss, e)" "length ss \<le> size r'"
      using less.hyps [OF smaller step(2)] by blast
    then show ?thesis using step(1) 3 smaller [OF 3] by (subst drain.simps) simp
  qed (use step(1) in \<open>subst drain.simps, simp\<close>)+
qed

lemma drain_sentences: "step r = Some (Inr (Some s), r') \<Longrightarrow> drain step r' = Some (ss, e) \<Longrightarrow> drain step r = Some (s # ss, e)"
  by (subst drain.simps) simp

end

lemma mark_sentence_simps:
  "fst (mark_sentence ws r) = Inr (Some s) \<Longrightarrow> length ws \<noteq> 1"
  "lr_text (snd (mark_sentence ws r)) = lr_text r"
  by (auto simp: mark_sentence_def Let_def sentence_empty_def split: if_splits)

lemma length_horizontal_words: "length (snd (horizontal_words t ws)) \<le> length t"
proof (induction t ws rule: horizontal_words.induct)
  case (1 t ws)
  show ?case
  proof (cases "t \<noteq> [] \<and> no_eol (hd t)")
    case True
    have "length (dropWhile blank (dropWhile (\<lambda>c. \<not> horizontal_space c) t)) \<le> length t"
      using length_dropWhile_le le_trans by blast
    with 1 [OF True] True show ?thesis by (subst horizontal_words.simps) simp
  next
    case False
    have "horizontal_words t ws = (ws, t)" by (subst horizontal_words.simps) (rule if_not_P [OF False])
    then show ?thesis by simp
  qed
qed

lemma horizontal_words_progress: "t \<noteq> [] \<Longrightarrow> no_eol (hd t) \<Longrightarrow> length (snd (horizontal_words t ws)) < length t"
proof -
  assume t: "t \<noteq> []" "no_eol (hd t)"
  then obtain c s where cs: "t = c # s" by (cases t) auto
  let ?rest = "dropWhile blank (dropWhile (\<lambda>c. \<not> horizontal_space c) t)"
  have "horizontal_space c \<Longrightarrow> blank c" using t by (auto simp: cs horizontal_space_def blank_def no_eol_def)
  then have "?rest = dropWhile blank (dropWhile (\<lambda>c. \<not> horizontal_space c) s) \<or> ?rest = dropWhile blank s"
    by (auto simp: cs)
  then have "length ?rest \<le> length s" using length_dropWhile_le le_trans by metis
  moreover have "snd (horizontal_words t ws) = snd (horizontal_words ?rest (add_word (from_nbsp (takeWhile (\<lambda>c. \<not> horizontal_space c) t)) ws))"
    using t by (subst horizontal_words.simps) simp
  ultimately have "length (snd (horizontal_words t ws)) \<le> length s"
    using length_horizontal_words le_trans by metis
  then show ?thesis unfolding cs by simp
qed

lemma length_vertical_words: "length (snd (vertical_words t ws)) \<le> length t"
proof (induction t ws rule: vertical_words.induct)
  case (1 t ws)
  then show ?case
    using vertical_line_shorter [of t] by (subst vertical_words.simps) (auto intro: less_imp_le le_less_trans)
qed

lemma vertical_words_progress: "t \<noteq> [] \<Longrightarrow> no_eol (hd t) \<Longrightarrow> length (snd (vertical_words t ws)) < length t"
  using vertical_line_shorter [of t] le_less_trans [OF length_vertical_words]
  by (subst vertical_words.simps) simp

lemma words_none: "\<not> (t \<noteq> [] \<and> no_eol (hd t)) \<Longrightarrow> fst (horizontal_words t ws) = ws \<and> fst (vertical_words t ws) = ws"
  by (subst horizontal_words.simps, subst vertical_words.simps) auto

lemma horizontal_next_progress:
  assumes "horizontal_next r = (Inr (Some s), r')"
  shows "length (lr_text r') < length (lr_text r)"
proof -
  let ?t = "dropWhile horizontal_space (lr_text r)"
  let ?r = "r\<lparr>lr_text := snd (horizontal_words ?t [root_word]),
      lr_newlines := u32_plus (lr_newlines r) (count_newlines (takeWhile horizontal_space (lr_text r)))\<rparr>"
  have eq: "mark_sentence (fst (horizontal_words ?t [root_word])) ?r = (Inr (Some s), r')"
    using assms by (simp add: horizontal_next_def Let_def case_prod_unfold)
  have "length (fst (horizontal_words ?t [root_word])) \<noteq> 1"
    by (rule mark_sentence_simps(1) [of _ ?r s]) (simp add: eq)
  then have "length (snd (horizontal_words ?t [root_word])) < length ?t"
    using words_none [of ?t "[root_word]"] horizontal_words_progress [of ?t "[root_word]"] by force
  moreover have "lr_text r' = snd (horizontal_words ?t [root_word])"
    using mark_sentence_simps(2) [of "fst (horizontal_words ?t [root_word])" ?r] by (simp add: eq)
  ultimately show ?thesis using length_dropWhile_le [of horizontal_space "lr_text r"] by simp
qed

lemma vertical_next_progress:
  assumes "vertical_next r = (Inr (Some s), r')"
  shows "length (lr_text r') < length (lr_text r)"
proof -
  let ?t = "dropWhile vertical_space (lr_text r)"
  let ?r = "r\<lparr>lr_text := snd (vertical_words ?t [root_word]),
      lr_newlines := u32_plus (lr_newlines r) (count_newlines (takeWhile vertical_space (lr_text r)))\<rparr>"
  have eq: "mark_sentence (fst (vertical_words ?t [root_word])) ?r = (Inr (Some s), r')"
    using assms by (simp add: vertical_next_def Let_def case_prod_unfold)
  have "length (fst (vertical_words ?t [root_word])) \<noteq> 1"
    by (rule mark_sentence_simps(1) [of _ ?r s]) (simp add: eq)
  then have "length (snd (vertical_words ?t [root_word])) < length ?t"
    using words_none [of ?t "[root_word]"] vertical_words_progress [of ?t "[root_word]"] by force
  moreover have "lr_text r' = snd (vertical_words ?t [root_word])"
    using mark_sentence_simps(2) [of "fst (vertical_words ?t [root_word])" ?r] by (simp add: eq)
  ultimately show ?thesis using length_dropWhile_le [of vertical_space "lr_text r"] by simp
qed

interpretation horizontal: sentence_reader "\<lambda>r. Some (horizontal_next r)" "\<lambda>_. True" "\<lambda>r. length (lr_text r)"
  by unfold_locales (metis horizontal_next_progress surj_pair)

interpretation vertical: sentence_reader "\<lambda>r. Some (vertical_next r)" "\<lambda>_. True" "\<lambda>r. length (lr_text r)"
  by unfold_locales (metis vertical_next_progress surj_pair)

lemma conllu_next_Nil: "conllu_next_sentence version [] = Some (Inr None, [])"
  by (simp add: conllu_next_sentence_def read_conllu_loop.simps finish_sentence_def clear_sentence_def
      sentence_empty_def root_word_def mk_word_def)

interpretation conllu_reader: sentence_reader "conllu_next_sentence version" eols_ok length
proof
  fix r assume "eols_ok r"
  then show "\<exists>outcome r'. conllu_next_sentence version r = Some (outcome, r') \<and> eols_ok r' \<and>
      (\<forall>s. outcome = Inr (Some s) \<longrightarrow> length r' < length r)"
    using read_conllu_loop_returns [of r version "(clear_sentence, 0)"] conllu_next_Nil [of version]
    by (cases "r = []") (force simp: conllu_next_sentence_def)+
qed

text \<open>
  C39: reading a whole document ends in every text format: the horizontal and the vertical
  reader on any text, the CoNLL-U reader on a text whose carriage returns are all followed by
  line feeds; there are at most as many sentences as the text has bytes.
\<close>

theorem reading_ends:
  "(\<exists>ss e. drain (\<lambda>r. Some (horizontal_next r)) r = Some (ss, e) \<and> length ss \<le> length (lr_text r)) \<and>
   (\<exists>ss e. drain (\<lambda>r. Some (vertical_next r)) r = Some (ss, e) \<and> length ss \<le> length (lr_text r)) \<and>
   (eols_ok t \<longrightarrow> (\<exists>ss e. drain (conllu_next_sentence version) t = Some (ss, e) \<and> length ss \<le> length t))"
  using horizontal.drain_returns vertical.drain_returns conllu_reader.drain_returns by blast

lemma reading_ends_witness:
  "\<exists>ss e. drain (conllu_next_sentence 2) (''# a'' @ [cr, lf] @ ''b'') = Some (ss, e) \<and> length ss \<le> 6"
  using reading_ends [of "reset_document []" "''# a'' @ [cr, lf] @ ''b''" 2] by (simp add: eval_nat_numeral)


section \<open>Round trips\<close>

lemma nbsp_loop_id:
  "\<not> has_nbsp s \<Longrightarrow> \<not> (out \<noteq> [] \<and> hd out = CHR 0xC2 \<and> s \<noteq> [] \<and> hd s = CHR 0xA0) \<Longrightarrow> nbsp_loop out s = rev out @ s"
proof (induction s arbitrary: out)
  case (Cons c s)
  then have "nbsp_loop out (c # s) = nbsp_loop (c # out) s" by auto
  also have "\<dots> = rev (c # out) @ s" using Cons.prems by (intro Cons.IH) (cases s; auto)+
  finally show ?case by simp
qed simp

lemma from_nbsp_loop: "from_nbsp s = nbsp_loop [] s"
  by (simp add: from_nbsp_def nbsp_loop_id)

lemma nbsp_loop_to_nbsp:
  "\<not> has_nbsp f \<Longrightarrow> \<not> (out \<noteq> [] \<and> hd out = CHR 0xC2 \<and> f \<noteq> [] \<and> hd f = CHR 0xA0) \<Longrightarrow>
   nbsp_loop out (to_nbsp f) = rev out @ f"
proof (induction f arbitrary: out)
  case (Cons c f)
  then show ?case by (cases f) (auto simp: to_nbsp_def)
qed (simp add: to_nbsp_def)

lemma from_to_nbsp: "\<not> has_nbsp f \<Longrightarrow> from_nbsp (to_nbsp f) = f"
  using nbsp_loop_to_nbsp [of f "[]"] by (simp add: from_nbsp_loop)

definition line_form :: "string \<Rightarrow> bool" where
  "line_form f \<longleftrightarrow> f \<noteq> [] \<and> tab \<notin> set f \<and> cr \<notin> set f \<and> lf \<notin> set f"

definition horizontal_form :: "string \<Rightarrow> bool" where
  "horizontal_form f \<longleftrightarrow> line_form f \<and> \<not> has_nbsp f"

lemma to_nbsp_no_space: "line_form f \<Longrightarrow> c \<in> set (to_nbsp f) \<Longrightarrow> \<not> horizontal_space c"
  by (auto simp: to_nbsp_def line_form_def horizontal_space_def split: if_splits)

lemma to_nbsp_not_Nil: "line_form f \<Longrightarrow> to_nbsp f \<noteq> [] \<and> \<not> horizontal_space (hd (to_nbsp f))"
proof -
  assume f: "line_form f"
  then obtain c g where "f = c # g" by (cases f) (auto simp: line_form_def)
  then have "to_nbsp f \<noteq> []" by (simp add: to_nbsp_def)
  with to_nbsp_no_space [OF f] show ?thesis by simp
qed

abbreviation add_words :: "string list \<Rightarrow> word_data list \<Rightarrow> word_data list" where
  "add_words fs ws \<equiv> fold add_word fs ws"

lemma horizontal_words_join:
  "fs \<noteq> [] \<Longrightarrow> \<forall>f \<in> set fs. horizontal_form f \<Longrightarrow>
   horizontal_words (join (CHR '' '') (map to_nbsp fs) @ lf # rest) ws = (add_words fs ws, lf # rest)"
proof (induction fs arbitrary: ws)
  case (Cons f fs)
  have f: "line_form f" "\<not> has_nbsp f" using Cons.prems by (simp_all add: horizontal_form_def)
  obtain c g where cg: "to_nbsp f = c # g" "\<not> horizontal_space c"
    using to_nbsp_not_Nil [OF f(1)] by (cases "to_nbsp f") auto
  have g: "\<forall>x \<in> set (to_nbsp f). \<not> horizontal_space x" using to_nbsp_no_space [OF f(1)] by blast
  have c: "no_eol c" using cg(2) by (auto simp: horizontal_space_def no_eol_def)
  have sp: "horizontal_space (CHR '' '')" "horizontal_space lf" "\<not> blank lf" "blank (CHR '' '')"
    by (simp_all add: horizontal_space_def blank_def)
  have stop: "horizontal_words (lf # rest) us = (us, lf # rest)" for us
    by (subst horizontal_words.simps) (simp add: no_eol_def)
  have word: "horizontal_words (to_nbsp f @ x # t) us = horizontal_words (dropWhile blank (x # t)) (add_word f us)"
    if "horizontal_space x" for x t us
  proof -
    have "takeWhile (\<lambda>c. \<not> horizontal_space c) (to_nbsp f @ x # t) = to_nbsp f"
      "dropWhile (\<lambda>c. \<not> horizontal_space c) (to_nbsp f @ x # t) = x # t"
      using g that by (simp_all add: takeWhile_append2 dropWhile_append2)
    moreover have "from_nbsp (c # g) = f" using from_to_nbsp [OF f(2)] cg by simp
    ultimately show ?thesis
      using cg c by (subst horizontal_words.simps) simp
  qed
  show ?case
  proof (cases fs)
    case Nil
    then show ?thesis using word [OF sp(2)] sp stop by simp
  next
    case (Cons f' fs')
    then have f': "line_form f'" using Cons.prems \<open>\<forall>f \<in> set (f # fs). horizontal_form f\<close>
      by (simp add: horizontal_form_def)
    let ?t = "join (CHR '' '') (map to_nbsp fs) @ lf # rest"
    have "join (CHR '' '') (map to_nbsp fs) \<noteq> [] \<and> hd (join (CHR '' '') (map to_nbsp fs)) = hd (to_nbsp f')"
      using join_not_Nil [of "map to_nbsp fs" "CHR '' ''"] to_nbsp_not_Nil [OF f'] Cons by simp
    then have "\<not> blank (hd ?t)"
      using to_nbsp_not_Nil [OF f'] by (auto simp: blank_def horizontal_space_def)
    then have "dropWhile blank (CHR '' '' # ?t) = ?t" using sp(4) by (cases ?t) auto
    moreover have "horizontal_words ?t (add_word f ws) = (add_words fs (add_word f ws), lf # rest)"
      using Cons.IH Cons.prems Cons by simp
    ultimately show ?thesis using word [OF sp(1), of ?t ws] Cons by (simp add: join_Cons)
  qed
qed simp

lemma vertical_words_lines:
  "\<forall>f \<in> set fs. line_form f \<Longrightarrow> vertical_words (concat (map (\<lambda>f. f @ [lf]) fs) @ lf # rest) ws = (add_words fs ws, lf # rest)"
proof (induction fs arbitrary: ws)
  case Nil
  show ?case by (subst vertical_words.simps) (simp add: no_eol_def)
next
  case (Cons f fs)
  let ?t = "concat (map (\<lambda>f. f @ [lf]) fs) @ lf # rest"
  have f: "f \<noteq> []" "\<forall>c \<in> set f. \<not> vertical_space c" using Cons.prems by (auto simp: line_form_def vertical_space_def)
  have "?t \<noteq> [] \<and> hd ?t \<noteq> tab"
  proof (cases fs)
    case (Cons f' fs')
    then have "f' \<noteq> []" "tab \<notin> set f'" using \<open>\<forall>f \<in> set (f # fs). line_form f\<close> by (simp_all add: line_form_def)
    then show ?thesis using Cons by (cases f') auto
  qed simp
  then have "dropWhile (\<lambda>c. c = tab) ?t = ?t" by (cases ?t) auto
  then have "vertical_line (f @ lf # ?t) = (f, ?t)"
    using f(2) by (simp add: vertical_line_def takeWhile_append2 dropWhile_append2 vertical_space_def no_eol_def skip_eol_def)
  moreover have "no_eol (hd f)" using f by (cases f) (auto simp: vertical_space_def no_eol_def)
  ultimately show ?case
    using Cons f(1) by (subst vertical_words.simps) (simp add: hd_append)
qed

lemma add_words_forms: "map tk_form (add_words fs ws) = map tk_form ws @ fs"
  by (induction fs arbitrary: ws) (simp_all add: add_word_def mk_word_def)

lemma add_words_length: "length (add_words fs ws) = length ws + length fs"
  using arg_cong [OF add_words_forms, of length fs ws] by simp

lemma mark_sentence_words:
  assumes "length ws \<noteq> 1"
  shows "\<exists>s. fst (mark_sentence ws r) = Inr (Some s) \<and> s_words s = ws \<and> s_multiword_tokens s = [] \<and> s_empty_nodes s = []"
  using assms
  by (simp add: mark_sentence_def Let_def sentence_empty_def clear_sentence_def comment_ops)

abbreviation forms :: "sentence \<Rightarrow> string list" where
  "forms s \<equiv> map tk_form (tl (s_words s))"

lemma forms_add_words: "s_words s = add_words fs [root_word] \<Longrightarrow> forms s = fs"
  using add_words_forms [of fs "[root_word]"] by (simp add: map_tl)

lemma horizontal_next_written:
  assumes "forms s \<noteq> []" "\<forall>f \<in> set (forms s). horizontal_form f" "\<forall>c \<in> set p. horizontal_space c"
    "lr_text r = p @ write_horizontal False start s @ rest"
  shows "\<exists>s' r'. horizontal_next r = (Inr (Some s'), r') \<and> forms s' = forms s \<and> lr_text r' = lf # rest"
proof -
  let ?j = "join (CHR '' '') (map to_nbsp (forms s))"
  obtain f fs where fs: "forms s = f # fs" using assms(1) by (cases "forms s") auto
  have f: "line_form f" using assms(2) fs by (simp add: horizontal_form_def)
  have "?j \<noteq> [] \<and> \<not> horizontal_space (hd ?j)"
    using join_not_Nil [of "map to_nbsp (forms s)" "CHR '' ''"] to_nbsp_not_Nil [OF f] fs by simp
  then have "dropWhile horizontal_space (p @ ?j @ lf # rest) = ?j @ lf # rest"
    using assms(3) by (intro dropWhile_hd_append) auto
  moreover have "lr_text r = p @ ?j @ lf # rest"
    using assms(4) by (simp add: write_horizontal_def comp_def)
  moreover have "horizontal_words (?j @ lf # rest) [root_word] = (add_words (forms s) [root_word], lf # rest)"
    by (rule horizontal_words_join [OF assms(1,2)])
  moreover have "length (add_words (forms s) [root_word]) \<noteq> 1" unfolding fs add_words_length by simp
  ultimately have "horizontal_next r = mark_sentence (add_words (forms s) [root_word]) (r\<lparr>lr_text := lf # rest,
      lr_newlines := u32_plus (lr_newlines r) (count_newlines (takeWhile horizontal_space (lr_text r)))\<rparr>)"
    (is "_ = mark_sentence ?ws ?r") by (simp add: horizontal_next_def)
  moreover obtain s' where s': "fst (mark_sentence ?ws ?r) = Inr (Some s')" "s_words s' = ?ws"
    using mark_sentence_words [OF \<open>length ?ws \<noteq> 1\<close>] by blast
  ultimately have "horizontal_next r = (Inr (Some s'), snd (mark_sentence ?ws ?r))"
    by (metis prod.collapse)
  then show ?thesis
    using mark_sentence_simps(2) [of ?ws ?r] forms_add_words [OF s'(2)] by simp
qed

lemma vertical_next_written:
  assumes "forms s \<noteq> []" "\<forall>f \<in> set (forms s). line_form f" "\<forall>c \<in> set p. vertical_space c"
    "lr_text r = p @ write_vertical False start s @ rest"
  shows "\<exists>s' r'. vertical_next r = (Inr (Some s'), r') \<and> forms s' = forms s \<and> lr_text r' = lf # rest"
proof -
  let ?j = "concat (map (\<lambda>f. f @ [lf]) (forms s))"
  obtain f fs where fs: "forms s = f # fs" using assms(1) by (cases "forms s") auto
  then have "line_form f" using assms(2) by simp
  then have "f \<noteq> []" "\<not> vertical_space (hd f)" by (cases f; auto simp: line_form_def vertical_space_def)+
  then have "?j \<noteq> [] \<and> \<not> vertical_space (hd ?j)" by (simp add: fs)
  then have "dropWhile vertical_space (p @ ?j @ lf # rest) = ?j @ lf # rest"
    using assms(3) by (intro dropWhile_hd_append) auto
  moreover have "lr_text r = p @ ?j @ lf # rest"
    using assms(4) by (simp add: write_vertical_def comp_def)
  moreover have "vertical_words (?j @ lf # rest) [root_word] = (add_words (forms s) [root_word], lf # rest)"
    by (rule vertical_words_lines [OF assms(2)])
  moreover have "length (add_words (forms s) [root_word]) \<noteq> 1" unfolding fs add_words_length by simp
  ultimately have "vertical_next r = mark_sentence (add_words (forms s) [root_word]) (r\<lparr>lr_text := lf # rest,
      lr_newlines := u32_plus (lr_newlines r) (count_newlines (takeWhile vertical_space (lr_text r)))\<rparr>)"
    (is "_ = mark_sentence ?ws ?r") by (simp add: vertical_next_def)
  moreover obtain s' where s': "fst (mark_sentence ?ws ?r) = Inr (Some s')" "s_words s' = ?ws"
    using mark_sentence_words [OF \<open>length ?ws \<noteq> 1\<close>] by blast
  ultimately have "vertical_next r = (Inr (Some s'), snd (mark_sentence ?ws ?r))"
    by (metis prod.collapse)
  then show ?thesis
    using mark_sentence_simps(2) [of ?ws ?r] forms_add_words [OF s'(2)] by simp
qed

lemma drain_end: "lr_text r = [lf] \<or> lr_text r = [] \<Longrightarrow>
    drain (\<lambda>r. Some (horizontal_next r)) r = Some ([], None) \<and> drain (\<lambda>r. Some (vertical_next r)) r = Some ([], None)"
proof -
  assume "lr_text r = [lf] \<or> lr_text r = []"
  moreover have "horizontal_words [] ws = (ws, [])" "vertical_words [] ws = (ws, [])" for ws
    by (subst horizontal_words.simps, simp, subst vertical_words.simps, simp)
  ultimately have "fst (horizontal_next r) = Inr None" "fst (vertical_next r) = Inr None"
    by (auto simp: horizontal_next_def vertical_next_def mark_sentence_def clear_sentence_def sentence_empty_def
        horizontal_space_def vertical_space_def)
  then show ?thesis by (subst (1 2) drain.simps) (simp add: case_prod_unfold)
qed

lemma drain_horizontal_written:
  assumes "\<forall>s \<in> set ss. forms s \<noteq> [] \<and> (\<forall>f \<in> set (forms s). horizontal_form f)" "p = [] \<or> p = [lf]"
    "lr_text r = p @ concat (map (write_horizontal False False) ss)"
  shows "\<exists>ss'. drain (\<lambda>r. Some (horizontal_next r)) r = Some (ss', None) \<and> map forms ss' = map forms ss"
  using assms
proof (induction ss arbitrary: p r)
  case Nil
  then show ?case using drain_end [of r] by auto
next
  case (Cons s ss)
  obtain s' r' where step: "horizontal_next r = (Inr (Some s'), r')" "forms s' = forms s"
      "lr_text r' = [lf] @ concat (map (write_horizontal False False) ss)"
    using horizontal_next_written [of s p r False] Cons.prems by (auto simp: horizontal_space_def)
  obtain ss' where "drain (\<lambda>r. Some (horizontal_next r)) r' = Some (ss', None)" "map forms ss' = map forms ss"
    using Cons.IH [OF _ _ step(3)] Cons.prems(1) by auto
  then show ?case
    using horizontal.drain_sentences [of r s' r'] step by (intro exI [of _ "s' # ss'"]) simp
qed

lemma drain_vertical_written:
  assumes "\<forall>s \<in> set ss. forms s \<noteq> [] \<and> (\<forall>f \<in> set (forms s). line_form f)" "p = [] \<or> p = [lf]"
    "lr_text r = p @ concat (map (write_vertical False False) ss)"
  shows "\<exists>ss'. drain (\<lambda>r. Some (vertical_next r)) r = Some (ss', None) \<and> map forms ss' = map forms ss"
  using assms
proof (induction ss arbitrary: p r)
  case Nil
  then show ?case using drain_end [of r] by auto
next
  case (Cons s ss)
  obtain s' r' where step: "vertical_next r = (Inr (Some s'), r')" "forms s' = forms s"
      "lr_text r' = [lf] @ concat (map (write_vertical False False) ss)"
    using vertical_next_written [of s p r False] Cons.prems by (auto simp: vertical_space_def)
  obtain ss' where "drain (\<lambda>r. Some (vertical_next r)) r' = Some (ss', None)" "map forms ss' = map forms ss"
    using Cons.IH [OF _ _ step(3)] Cons.prems(1) by auto
  then show ?case
    using vertical.drain_sentences [of r s' r'] step by (intro exI [of _ "s' # ss'"]) simp
qed

text \<open>
  C40: a document written in the horizontal or the vertical format is read back with the same
  sentences, word by word: spaces inside a form survive as no-break spaces on the line. Every
  sentence must have a word, and the forms must hold no tab, no line end and no no-break space and must
  not be empty.
\<close>

theorem line_formats_roundtrip:
  assumes "\<forall>s \<in> set ss. forms s \<noteq> [] \<and> (\<forall>f \<in> set (forms s). horizontal_form f)"
    "lr_text r = concat (map (write_horizontal False False) ss)"
    "lr_text r' = concat (map (write_vertical False False) ss)"
  shows "\<exists>hs vs. drain (\<lambda>r. Some (horizontal_next r)) r = Some (hs, None) \<and> map forms hs = map forms ss \<and>
    drain (\<lambda>r. Some (vertical_next r)) r' = Some (vs, None) \<and> map forms vs = map forms ss"
  using drain_horizontal_written [of ss "[]" r] drain_vertical_written [of ss "[]" r'] assms
  by (auto simp: horizontal_form_def)

lemma line_formats_roundtrip_witness:
  "\<exists>hs. drain (\<lambda>r. Some (horizontal_next r)) ((reset_document [])\<lparr>lr_text := write_horizontal False False sample_sentence\<rparr>)
     = Some (hs, None) \<and> map forms hs = [[''I m'', ''_'']]"
proof -
  have forms: "forms sample_sentence = [''I m'', ''_'']" by (simp add: sample_sentence_def mk_word_def)
  have "\<forall>s \<in> set [sample_sentence]. forms s \<noteq> [] \<and> (\<forall>f \<in> set (forms s). horizontal_form f)"
    by (simp add: sample_sentence_def mk_word_def horizontal_form_def line_form_def)
  from line_formats_roundtrip [OF this, of "(reset_document [])\<lparr>lr_text := write_horizontal False False sample_sentence\<rparr>"
      "(reset_document [])\<lparr>lr_text := write_vertical False False sample_sentence\<rparr>"]
  show ?thesis using forms by auto
qed

end
