(* ===== verification/Named_Values.thy ===== *)
theory Named_Values
  imports Text_Utils
begin

text \<open>
  Option strings: \<open>named_values::parse\<close> of \<open>src/utils/named_values.h\<close>. The file system is a
  parameter: the contents of a file, or \<open>None\<close> where it cannot be opened. Positions are
  \<open>size_t\<close> values, so that adding a negative data size wraps around modulo \<open>2 ^ 64\<close>; since the
  next position may then lie in front of the current one, the loop is partial.
\<close>

section \<open>Model\<close>

type_synonym files = "string \<Rightarrow> string option"
type_synonym values_map = "string \<Rightarrow> string option"

text \<open>The file and data values; the result is the new position and the value.\<close>

definition nv_file :: "files \<Rightarrow> string \<Rightarrow> nat \<Rightarrow> (nat \<times> string) result" where
  "nv_file files vs file_name =
     (let file = takeWhile (\<lambda>c. c \<noteq> CHR '';'') (drop file_name vs) in
      case files file of None \<Rightarrow> Inl (''Cannot open file '' @ quoted file @ ''!'')
      | Some contents \<Rightarrow> Inr (file_name + length file + 1, contents))"

definition nv_data :: "string \<Rightarrow> string \<Rightarrow> nat \<Rightarrow> (nat \<times> string) result" where
  "nv_data vs nm size_start =
     (case str_find (CHR '':'') vs size_start of
        None \<Rightarrow> Inl (''Cannot parse named values, data size of value '' @ quoted nm @ '' not terminated!'')
      | Some size_end \<Rightarrow>
     (case parse_int (take (size_end - size_start) (drop size_start vs)) ''data_size'' of Inl e \<Rightarrow> Inl e
      | Inr data_size \<Rightarrow>
        (let data_start = size_end + 1; data_end = nat ((int data_start + data_size) mod 2 ^ 64) in
         if data_end > length vs then
           Inl (''Cannot parse named values, value '' @ quoted nm @ '' shorter than specified length!'')
         else if data_end < length vs \<and> vs ! data_end \<noteq> CHR '';'' then
           Inl (''Cannot parse named values, value '' @ quoted nm @ '' not terminated by semicolon!'')
         else Inr (data_end + 1, if data_start \<le> data_end then take (data_end - data_start) (drop data_start vs)
                                 else drop data_start vs))))"

definition nv_plain :: "string \<Rightarrow> nat \<Rightarrow> nat \<times> string" where
  "nv_plain vs value_start =
     (let v = takeWhile (\<lambda>c. c \<noteq> CHR '';'') (drop value_start vs) in (value_start + length v + 1, v))"

text \<open>One round of the loop: the next position, \<open>None\<close> for \<open>npos\<close> or the end, and the map.\<close>

definition nv_step :: "files \<Rightarrow> string \<Rightarrow> nat \<Rightarrow> values_map \<Rightarrow> (nat option \<times> values_map) result" where
  "nv_step files vs start m =
     (let start = start + length (takeWhile (\<lambda>c. c = CHR '';'') (drop start vs)) in
      if start \<ge> length vs then Inr (None, m)
      else
        (let nm = takeWhile (\<lambda>c. c \<noteq> CHR ''='' \<and> c \<noteq> CHR '';'') (drop start vs);
             name_end = start + length nm;
             m = m(nm \<mapsto> (case m nm of None \<Rightarrow> [] | Some v \<Rightarrow> v))
         in if name_end \<ge> length vs then Inr (None, m)
         else if vs ! name_end = CHR '';'' then Inr (Some (name_end + 1), m)
         else
           (let body = take 5 (drop (name_end + 1) vs) in
            if body = ''file:'' then map_sum (\<lambda>e. e) (\<lambda>(p, v). (Some p, m(nm \<mapsto> v))) (nv_file files vs (name_end + 6))
            else if body = ''data:'' then map_sum (\<lambda>e. e) (\<lambda>(p, v). (Some p, m(nm \<mapsto> v))) (nv_data vs nm (name_end + 6))
            else (let (p, v) = nv_plain vs (name_end + 1) in Inr (Some p, m(nm \<mapsto> v))))))"

partial_function (option) nv_loop :: "files \<Rightarrow> string \<Rightarrow> nat \<Rightarrow> values_map \<Rightarrow> values_map result option" where
  "nv_loop files vs start m =
     (if start < length vs then
        case nv_step files vs start m of Inl e \<Rightarrow> Some (Inl e)
        | Inr (next, m) \<Rightarrow> (case next of None \<Rightarrow> Some (Inr m) | Some start \<Rightarrow> nv_loop files vs start m)
      else Some (Inr m))"

declare nv_loop.simps [code]

definition nv_parse :: "files \<Rightarrow> string \<Rightarrow> values_map result option" where
  "nv_parse files vs = nv_loop files vs 0 Map.empty"

section \<open>Termination\<close>

lemma parse_int_nonneg: "parse_int str nm = Inr n \<Longrightarrow> CHR ''-'' \<notin> set str \<Longrightarrow> 0 \<le> n \<and> n \<le> int_max"
  using parse_int_sound [of str nm n] by (auto simp: int_text_def in_int_range_def split: if_splits)

lemma nv_data_forward:
  assumes "nv_data vs nm p = Inr (q, v)" "CHR ''-'' \<notin> set vs" "length vs < 2 ^ 63"
  shows "p < q"
proof -
  obtain e n where e: "str_find (CHR '':'') vs p = Some e"
    and n: "parse_int (take (e - p) (drop p vs)) ''data_size'' = Inr n"
    and q: "q = nat ((int (e + 1) + n) mod 2 ^ 64) + 1"
    using assms(1) by (auto simp: nv_data_def Let_def split: option.splits sum.splits if_splits)
  have "CHR ''-'' \<notin> set (take (e - p) (drop p vs))"
    using assms(2) by (meson in_set_dropD in_set_takeD)
  then have "0 \<le> n \<and> n \<le> int_max" by (rule parse_int_nonneg [OF n])
  moreover have "p \<le> e" "e < length vs" using str_find_bounds [OF e] by auto
  ultimately have "(int (e + 1) + n) mod 2 ^ 64 = int (e + 1) + n" "0 \<le> n"
    using assms(3) by (auto simp: int_max_def intro!: mod_pos_pos_trivial)
  then show ?thesis using q \<open>p \<le> e\<close> by simp
qed

lemma nv_step_forward:
  assumes "nv_step files vs start m = Inr (Some q, m')" "CHR ''-'' \<notin> set vs" "length vs < 2 ^ 63"
  shows "start < q"
proof -
  have forward: "nv_file files vs p = Inr (q, v) \<Longrightarrow> p < q" "nv_plain vs p = (q, v) \<Longrightarrow> p < q"
      "nv_data vs nm p = Inr (q, v) \<Longrightarrow> p < q" for p v nm
    using nv_data_forward [OF _ assms(2,3)] by (auto simp: nv_file_def nv_plain_def Let_def split: option.splits)
  have sum: "map_sum (\<lambda>e. e) (\<lambda>(p, v). (Some p, M v)) x = Inr (Some q, m') \<Longrightarrow> \<exists>v. x = Inr (q, v)" for x M
    by (cases x) auto
  define start' where "start' = start + length (takeWhile (\<lambda>c. c = CHR '';'') (drop start vs))"
  define name_end where "name_end = start' + length (takeWhile (\<lambda>c. c \<noteq> CHR ''='' \<and> c \<noteq> CHR '';'') (drop start' vs))"
  consider "q = name_end + 1" | v where "nv_file files vs (name_end + 6) = Inr (q, v)"
    | nm v where "nv_data vs nm (name_end + 6) = Inr (q, v)" | v where "nv_plain vs (name_end + 1) = (q, v)"
    using assms(1) unfolding nv_step_def start'_def [symmetric] name_end_def [symmetric] Let_def
    by (auto simp: name_end_def split: if_splits prod.splits dest!: sum)
  then have "name_end < q" by cases (auto dest: forward)
  then show ?thesis by (simp add: name_end_def start'_def)
qed

lemma nv_loop_returns:
  assumes "CHR ''-'' \<notin> set vs" "length vs < 2 ^ 63"
  shows "\<exists>r. nv_loop files vs start m = Some r"
proof (induction "length vs - start" arbitrary: start m rule: less_induct)
  case less
  show ?case
  proof (cases "start < length vs")
    case False
    then show ?thesis by (subst nv_loop.simps) simp
  next
    case True
    show ?thesis
    proof (cases "nv_step files vs start m")
      case (Inl e)
      then show ?thesis using True by (subst nv_loop.simps) simp
    next
      case (Inr r)
      obtain next' m' where r: "r = (next', m')" by (cases r)
      show ?thesis
      proof (cases next')
        case None
        then show ?thesis using True Inr r by (subst nv_loop.simps) simp
      next
        case (Some q)
        then have "start < q" using nv_step_forward [OF _ assms] Inr r by blast
        then have "\<exists>r. nv_loop files vs q m' = Some r" using True by (intro less) simp
        then show ?thesis using True Inr r Some by (subst nv_loop.simps) simp
      qed
    qed
  qed
qed

text \<open>
  Parsing an option string ends unless the string contains a minus sign (a negative data
  size can move the position backwards).
\<close>

theorem named_values_ends:
  assumes "CHR ''-'' \<notin> set vs" "length vs < 2 ^ 63"
  shows "\<exists>r. nv_parse files vs = Some r"
  unfolding nv_parse_def by (rule nv_loop_returns [OF assms])

lemma named_values_ends_witness: "\<exists>r. nv_parse (\<lambda>_. None) ''a;b=c;d=data:1:;;'' = Some r"
  using named_values_ends [of "''a;b=c;d=data:1:;;''" "\<lambda>_. None"] by simp

text \<open>
  An option string with a data value of a negative size can make the parser run for ever:
  here the position jumps back to the value it had before.
\<close>

theorem named_values_hang: "nv_parse files '';a=data:-12:'' = None"
proof -
  let ?vs = "'';a=data:-12:''"
  have data: "nv_data ?vs ''a'' 8 = Inr (1, [])" by code_simp
  have step: "start = 0 \<or> start = 1 \<Longrightarrow> \<exists>m'. nv_step files ?vs start m = Inr (Some 1, m')" for files start m
    using data by (auto simp: nv_step_def Let_def numeral_eq_Suc)
  have "\<not> (vs = ?vs \<and> (start = 0 \<or> start = 1))" if loop: "nv_loop files vs start m = Some r" for files vs start m r
  proof (rule nv_loop.raw_induct [OF _ loop, where P = "\<lambda>files vs start m r. \<not> (vs = ?vs \<and> (start = 0 \<or> start = 1))"], goal_cases)
    case (1 f files vs start m r)
    show ?case
    proof
      assume vs: "vs = ?vs \<and> (start = 0 \<or> start = 1)"
      then obtain m' where m': "nv_step files vs start m = Inr (Some 1, m')" using step [of start files m] by auto
      moreover have "start < length vs" using vs by auto
      ultimately have "f files vs 1 m' = Some r"
        using 1(2) by (simp only: if_True sum.case prod.case option.case)
      from 1(1) [OF this] vs show False by blast
    qed
  qed
  from this [of files ?vs 0 Map.empty] show ?thesis
    unfolding nv_parse_def by (cases "nv_loop files ?vs 0 Map.empty") simp_all
qed


section \<open>Any value can be passed\<close>

text \<open>An option with a value of the data type, and an option whose value is a plain text.\<close>

definition data_option :: "string \<times> string \<Rightarrow> string" where
  "data_option = (\<lambda>(nm, v). nm @ ''=data:'' @ show_nat (length v) @ '':'' @ v @ '';'')"

definition option_name :: "string \<Rightarrow> bool" where
  "option_name nm \<longleftrightarrow> CHR ''='' \<notin> set nm \<and> CHR '';'' \<notin> set nm \<and> nm \<noteq> []"

lemma nv_data_eval:
  assumes "str_find (CHR '':'') vs p = Some e" "parse_int (take (e - p) (drop p vs)) ''data_size'' = Inr (int n)"
    "e + 1 + n < 2 ^ 64"
  shows "nv_data vs nm p = (let q = e + 1 + n in
      if q > length vs then
        Inl (''Cannot parse named values, value '' @ quoted nm @ '' shorter than specified length!'')
      else if q < length vs \<and> vs ! q \<noteq> CHR '';'' then
        Inl (''Cannot parse named values, value '' @ quoted nm @ '' not terminated by semicolon!'')
      else Inr (q + 1, take n (drop (e + 1) vs)))"
proof -
  have "(int (e + 1) + int n) mod 2 ^ 64 = int (e + 1) + int n"
    using assms(3) by (intro mod_pos_pos_trivial) simp_all
  then have "nat ((int (e + 1) + int n) mod 2 ^ 64) = e + 1 + n" by (simp only:)
  then show ?thesis
    by (simp only: nv_data_def assms(1,2) option.case sum.case Let_def) simp
qed

lemma nv_data_written:
  assumes "int (length v) \<le> int_max" "length (pre @ show_nat (length v) @ CHR '':'' # v @ CHR '';'' # rest) < 2 ^ 63"
  shows "nv_data (pre @ show_nat (length v) @ CHR '':'' # v @ CHR '';'' # rest) nm (length pre) =
    Inr (length (pre @ show_nat (length v) @ CHR '':'' # v @ '';''), v)"
proof -
  let ?n = "show_nat (length v)"
  let ?vs = "pre @ ?n @ CHR '':'' # v @ CHR '';'' # rest"
  have colon: "CHR '':'' \<notin> set ?n" by (simp add: is_digit_def)
  have e: "str_find (CHR '':'') ?vs (length pre) = Some (length pre + length ?n)"
    using str_find_append [OF colon, of pre "v @ CHR '';'' # rest"] by simp
  have "parse_int (show_int (int (length v))) ''data_size'' = Inr (int (length v))"
    by (rule parse_int_complete [OF int_text_show_int]) (use assms(1) in \<open>simp add: in_int_range_def int_min_def\<close>)
  then have size: "parse_int ?n ''data_size'' = Inr (int (length v))" by (simp add: show_int_def)
  have "?vs ! (length pre + length ?n + 1 + length v) = CHR '';''"
    using nth_append_length [of "pre @ ?n @ CHR '':'' # v" "CHR '';''" rest] by (simp add: ac_simps)
  moreover have "take (length pre + length ?n - length pre) (drop (length pre) ?vs) = ?n" by simp
  moreover have "take (length v) (drop (length pre + length ?n + 1) ?vs) = v" by simp
  moreover have "length pre + length ?n + 1 + length v < length ?vs" by simp
  moreover have "length pre + length ?n + 1 + length v < 2 ^ 64" using assms(2) by simp
  ultimately have "nv_data ?vs nm (length pre) = Inr (length pre + length ?n + 1 + length v + 1, v)"
    using nv_data_eval [OF e, of "length v" nm] size by (simp only: Let_def) simp
  then show ?thesis by simp
qed

lemma nv_step_written:
  assumes "option_name nm" "int (length v) \<le> int_max" "length (pre @ data_option (nm, v) @ rest) < 2 ^ 63"
  shows "nv_step files (pre @ data_option (nm, v) @ rest) (length pre) m =
    Inr (Some (length (pre @ data_option (nm, v))), m(nm \<mapsto> v))"
proof -
  let ?vs = "pre @ data_option (nm, v) @ rest"
  let ?pre = "pre @ nm @ ''=data:''"
  have vs: "?vs = ?pre @ show_nat (length v) @ CHR '':'' # v @ CHR '';'' # rest" by (simp add: data_option_def)
  have data: "nv_data ?vs nm (length pre + length nm + 6) = Inr (length (pre @ data_option (nm, v)), v)"
  proof -
    have len: "length ?pre = length pre + length nm + 6" by simp
    have out: "length (?pre @ show_nat (length v) @ CHR '':'' # v @ '';'') = length (pre @ data_option (nm, v))"
      by (simp add: data_option_def)
    show ?thesis
      using nv_data_written [OF assms(2), of ?pre rest nm] assms(3) unfolding vs len out by blast
  qed
  obtain c nm' where nm: "nm = c # nm'" "c \<noteq> CHR '';''" using assms(1) by (cases nm) (auto simp: option_name_def)
  have d: "drop (length pre) ?vs = nm @ CHR ''='' # ''data:'' @ show_nat (length v) @ CHR '':'' # v @ CHR '';'' # rest"
    by (simp add: data_option_def)
  have "takeWhile (\<lambda>c. c \<noteq> CHR ''='' \<and> c \<noteq> CHR '';'') (drop (length pre) ?vs) = nm"
    unfolding d using assms(1) by (subst takeWhile_append2) (auto simp: option_name_def)
  moreover have "takeWhile (\<lambda>c. c = CHR '';'') (drop (length pre) ?vs) = []" unfolding d using nm by simp
  moreover have "?vs ! (length pre + length nm) = CHR ''=''"
    using nth_append_length [of "pre @ nm" "CHR ''=''"] by (simp add: data_option_def)
  moreover have "take 5 (drop (Suc (length pre + length nm)) ?vs) = ''data:''"
    by (simp add: data_option_def)
  moreover have "length pre + length nm < length ?vs" by (simp add: data_option_def)
  moreover have "data_option (nm, v) \<noteq> []" by (simp add: data_option_def)
  ultimately show ?thesis
    unfolding nv_step_def by (simp add: Let_def data)
qed

text \<open>
  Whatever the values are, semicolons, colons and any other bytes included, options written
  with the data type are parsed back to the map of their names and values.
\<close>

theorem named_values_data:
  assumes "\<forall>(nm, v) \<in> set items. option_name nm \<and> int (length v) \<le> int_max"
    "length (concat (map data_option items)) < 2 ^ 63"
  shows "nv_parse files (concat (map data_option items)) = Some (Inr (map_of (rev items)))"
proof -
  have "nv_loop files (pre @ concat (map data_option items)) (length pre) m = Some (Inr (m ++ map_of (rev items)))"
    if "length (pre @ concat (map data_option items)) < 2 ^ 63" for pre m
    using assms(1) that
  proof (induction items arbitrary: pre m)
    case Nil
    then show ?case by (subst nv_loop.simps) simp
  next
    case (Cons item items)
    obtain nm v where item: "item = (nm, v)" by (cases item)
    let ?rest = "concat (map data_option items)"
    have step: "nv_step files (pre @ data_option item @ ?rest) (length pre) m =
        Inr (Some (length (pre @ data_option item)), m(nm \<mapsto> v))"
      using Cons.prems unfolding item by (intro nv_step_written) simp_all
    have "nv_loop files ((pre @ data_option item) @ ?rest) (length (pre @ data_option item)) (m(nm \<mapsto> v)) =
        Some (Inr (m(nm \<mapsto> v) ++ map_of (rev items)))"
      using Cons.prems by (intro Cons.IH) simp_all
    moreover have "length pre < length (pre @ data_option item @ ?rest)" by (simp add: item data_option_def)
    ultimately show ?case
      using step by (subst nv_loop.simps) (simp add: item)
  qed
  from this [of "[]" Map.empty] assms(2) show ?thesis by (simp add: nv_parse_def)
qed

lemma named_values_data_witness:
  "nv_parse (\<lambda>_. None) (concat (map data_option [(''a'', ''x;y''), (''b'', '':'')])) = Some (Inr [''b'' \<mapsto> '':'', ''a'' \<mapsto> ''x;y''])"
proof -
  have "length (show_nat 3) = 1" "length (show_nat 1) = 1" by (simp_all add: show_nat.simps)
  then show ?thesis
    using named_values_data [of "[(''a'', ''x;y''), (''b'', '':'')]" "\<lambda>_. None"]
    by (simp add: option_name_def int_max_def data_option_def numeral_3_eq_3 [symmetric] fun_upd_twist)
qed

end
