(* ===== verification/Formats.thy ===== *)
theory Formats
  imports Line_Formats Named_Values
begin

text \<open>
  The other output formats and the factories of \<open>src/sentence/output_format.cpp\<close> and
  \<open>input_format.cpp\<close>: the EPE writer with its JSON builder, the Matxin writer, and the choice of a
  format by name and options.
\<close>

section \<open>The JSON builder\<close>

record json_builder =
  jb_json :: string
  jb_stack :: string
  jb_comma_needed :: bool

definition jb_clear :: json_builder where
  "jb_clear = \<lparr>jb_json = [], jb_stack = [], jb_comma_needed = False\<rparr>"

definition jb_push :: "string \<Rightarrow> json_builder \<Rightarrow> json_builder" where
  "jb_push t b = b\<lparr>jb_json := jb_json b @ t\<rparr>"

definition jb_comma :: "json_builder \<Rightarrow> json_builder" where
  "jb_comma b = (if jb_comma_needed b then jb_push '', '' b else b)\<lparr>jb_comma_needed := False\<rparr>"

definition hex_digit :: "nat \<Rightarrow> char" where
  "hex_digit d = ''0123456789ABCDEF'' ! d"

definition json_char :: "char \<Rightarrow> string" where
  "json_char c =
     (if c = CHR 0x22 then [CHR 0x5C, CHR 0x22]
      else if c = CHR 0x5C then [CHR 0x5C, CHR 0x5C]
      else if c = CHR 0x08 then [CHR 0x5C, CHR ''b'']
      else if c = CHR 0x0C then [CHR 0x5C, CHR ''f'']
      else if c = lf then [CHR 0x5C, CHR ''n'']
      else if c = cr then [CHR 0x5C, CHR ''r'']
      else if c = tab then [CHR 0x5C, CHR ''t'']
      else if byte_of c < 32 then ''u00'' @ [char_of (48 + byte_of c div 16), hex_digit (byte_of c mod 16)]
      else [c])"

definition json_string :: "string \<Rightarrow> string" where
  "json_string t = [CHR 0x22] @ concat (map json_char t) @ [CHR 0x22]"

definition jb_object :: "json_builder \<Rightarrow> json_builder" where
  "jb_object b = (let b = jb_push ''{'' (jb_comma b) in b\<lparr>jb_stack := CHR ''}'' # jb_stack b\<rparr>)"

definition jb_array :: "json_builder \<Rightarrow> json_builder" where
  "jb_array b = (let b = jb_push ''['' (jb_comma b) in b\<lparr>jb_stack := CHR '']'' # jb_stack b\<rparr>)"

definition jb_close :: "json_builder \<Rightarrow> json_builder" where
  "jb_close b =
     (case jb_stack b of [] \<Rightarrow> b | c # st \<Rightarrow> (jb_push [c] b)\<lparr>jb_stack := st\<rparr>)\<lparr>jb_comma_needed := True\<rparr>"

definition jb_key :: "string \<Rightarrow> json_builder \<Rightarrow> json_builder" where
  "jb_key nm b = jb_push '':'' (jb_push (json_string nm) (jb_comma b))"

definition jb_value :: "string \<Rightarrow> json_builder \<Rightarrow> json_builder" where
  "jb_value v b = (jb_push (json_string v) (jb_comma b))\<lparr>jb_comma_needed := True\<rparr>"

definition jb_number :: "nat \<Rightarrow> json_builder \<Rightarrow> json_builder" where
  "jb_number v b = (jb_push (show_nat v) (jb_comma b))\<lparr>jb_comma_needed := True\<rparr>"

definition jb_true :: "json_builder \<Rightarrow> json_builder" where
  "jb_true b = (jb_push ''true'' (jb_comma b))\<lparr>jb_comma_needed := True\<rparr>"

section \<open>EPE\<close>

text \<open>A feature \<open>Name=Value\<close>; one without a value is left out.\<close>

definition epe_feature :: "string \<Rightarrow> json_builder \<Rightarrow> json_builder" where
  "epe_feature feat b =
     (let k = takeWhile (\<lambda>c. c \<noteq> CHR ''='') feat in
      if length k + 1 < length feat then jb_value (drop (length k + 1) feat) (jb_key k b) else b)"

definition epe_child :: "word_data list \<Rightarrow> int \<Rightarrow> json_builder \<Rightarrow> json_builder" where
  "epe_child ws child b =
     jb_close (jb_number (u64 child) (jb_key ''target'' (jb_value (w_deprel (ws ! nat child)) (jb_key ''label'' (jb_object b)))))"

definition epe_word :: "word_data list \<Rightarrow> nat \<Rightarrow> json_builder \<Rightarrow> json_builder" where
  "epe_word ws i b =
     (let w = ws ! i;
          b = jb_value (tk_form w) (jb_key ''form'' (jb_number i (jb_key ''id'' (jb_object b))));
          b = (case get_token_range w of None \<Rightarrow> b
               | Some (start, end) \<Rightarrow> jb_number end (jb_key ''end'' (jb_number start (jb_key ''start'' b))));
          b = (if w_head w = 0 then jb_true (jb_key ''top'' b) else b);
          b = jb_value (w_xpostag w) (jb_key ''xpos'' (jb_value (w_upostag w) (jb_key ''upos''
                (jb_value (w_lemma w) (jb_key ''lemma'' (jb_object (jb_key ''properties'' b)))))));
          b = jb_close (fold epe_feature (split (w_feats w) (CHR ''|'')) b);
          b = (if w_children w \<noteq> [] then jb_close (fold (epe_child ws) (w_children w) (jb_array (jb_key ''edges'' b))) else b)
      in jb_close b)"

text \<open>
  \<open>write_sentence\<close>, with the counter of sentences: the text it writes and the new counter. The
  builder is cleared after every sentence.
\<close>

definition write_epe :: "nat \<Rightarrow> sentence \<Rightarrow> string \<times> nat" where
  "write_epe sentences s =
     (let b = jb_array (jb_key ''nodes'' (jb_number (sentences + 1) (jb_key ''id'' (jb_object jb_clear))));
          b = fold (epe_word (s_words s)) [1..<length (s_words s)] b
      in (jb_json (jb_close (jb_close b)) @ [lf], sentences + 1))"

section \<open>Matxin\<close>

text \<open>
  The recursion of \<open>write_node\<close> follows the children, with \<open>depth\<close> levels left; \<open>None\<close> is a
  recursion deeper than that.
\<close>

fun concat_options :: "string option list \<Rightarrow> string option" where
  "concat_options [] = Some []"
| "concat_options (x # xs) =
     (case x of None \<Rightarrow> None | Some t \<Rightarrow> (case concat_options xs of None \<Rightarrow> None | Some u \<Rightarrow> Some (t @ u)))"

fun write_node :: "nat \<Rightarrow> word_data list \<Rightarrow> int \<Rightarrow> string \<Rightarrow> string option" where
  "write_node 0 ws node pad = None"
| "write_node (Suc depth) ws node pad =
     (let w = ws ! nat node; pad = pad @ '' '';
          open_tag = pad @ ''<NODE ord='' @ [CHR 0x22] @ show_int node @ [CHR 0x22] @ '' alloc='' @ [CHR 0x22] @ ''0'' @
            [CHR 0x22] @ '' form='' @ [CHR 0x22] @ xml_encoded True (tk_form w) @
            [CHR 0x22] @ '' lem='' @ [CHR 0x22] @ xml_encoded True (w_lemma w) @
            [CHR 0x22] @ '' mi='' @ [CHR 0x22] @ xml_encoded True (w_feats w) @
            [CHR 0x22] @ '' si='' @ [CHR 0x22] @ xml_encoded True (w_deprel w) @ [CHR 0x22]
      in if w_children w = [] then Some (open_tag @ ''/>'' @ [lf])
      else (case concat_options (map (\<lambda>child. write_node depth ws child pad) (w_children w)) of None \<Rightarrow> None
            | Some t \<Rightarrow> Some (open_tag @ ''>'' @ [lf] @ t @ pad @ ''</NODE>'' @ [lf])))"

definition write_matxin :: "nat \<Rightarrow> nat \<Rightarrow> sentence \<Rightarrow> (string \<times> nat) option" where
  "write_matxin depth sentences s =
     (case concat_options (map (\<lambda>node. write_node depth (s_words s) node []) (w_children (s_words s ! 0))) of
        None \<Rightarrow> None
      | Some t \<Rightarrow> Some ((if sentences = 0 then ''<corpus>'' else []) @
          [lf] @ ''<SENTENCE ord='' @ [CHR 0x22] @ show_nat (sentences + 1) @ [CHR 0x22] @ '' alloc='' @ [CHR 0x22] @ ''0'' @
          [CHR 0x22] @ ''>'' @ [lf] @ t @ ''</SENTENCE>'' @ [lf], sentences + 1))"

definition matxin_finish_document :: "string \<times> nat" where
  "matxin_finish_document = (''</corpus>'' @ [lf], 0)"

section \<open>Factories\<close>

datatype input_kind =
    Conllu_Input nat
  | Generic_Tokenizer_Input (normalized_spaces: bool) (token_ranges: bool) (presegmented: bool)
  | Horizontal_Input
  | Vertical_Input

datatype output_kind =
    Conllu_Output nat
  | Epe_Output
  | Matxin_Output
  | Horizontal_Output bool
  | Plaintext_Output bool
  | Vertical_Output bool

text \<open>
  The results are \<open>None\<close> when parsing the options does not end and \<open>Some None\<close> for \<open>nullptr\<close>.
\<close>

definition with_options :: "files \<Rightarrow> string \<Rightarrow> (values_map \<Rightarrow> 'k) \<Rightarrow> 'k option option" where
  "with_options files options f =
     map_option (\<lambda>r. case r of Inl _ \<Rightarrow> None | Inr m \<Rightarrow> Some (f m)) (nv_parse files options)"

definition conllu_version :: "values_map \<Rightarrow> nat" where
  "conllu_version m =
     (let version = 2; version = (if m ''v1'' \<noteq> None then 1 else version);
          version = (if m ''v2'' \<noteq> None then 2 else version) in version)"

definition new_conllu_input_format :: "files \<Rightarrow> string \<Rightarrow> input_kind option option" where
  "new_conllu_input_format files options = with_options files options (\<lambda>m. Conllu_Input (conllu_version m))"

definition new_generic_tokenizer_input_format :: "files \<Rightarrow> string \<Rightarrow> input_kind option option" where
  "new_generic_tokenizer_input_format files options = with_options files options
     (\<lambda>m. Generic_Tokenizer_Input (m ''normalized_spaces'' \<noteq> None) (m ''ranges'' \<noteq> None) (m ''presegmented'' \<noteq> None))"

text \<open>A format name up to the first equals sign, and the options behind it.\<close>

definition format_name :: "string \<Rightarrow> string \<times> string" where
  "format_name nm =
     (let name_len = (case str_find (CHR ''='') nm 0 of None \<Rightarrow> length nm | Some e \<Rightarrow> e);
          option_offset = (case str_find (CHR ''='') nm 0 of None \<Rightarrow> length nm | Some e \<Rightarrow> e + 1)
      in (take name_len nm, drop option_offset nm))"

definition new_input_format :: "files \<Rightarrow> string \<Rightarrow> input_kind option option" where
  "new_input_format files nm =
     (let (f, options) = format_name nm in
      if f = ''conllu'' then new_conllu_input_format files options
      else if f = ''generic_tokenizer'' then new_generic_tokenizer_input_format files options
      else if f = ''horizontal'' then Some (Some Horizontal_Input)
      else if f = ''vertical'' then Some (Some Vertical_Input)
      else Some None)"

definition new_conllu_output_format :: "files \<Rightarrow> string \<Rightarrow> output_kind option option" where
  "new_conllu_output_format files options = with_options files options (\<lambda>m. Conllu_Output (conllu_version m))"

definition new_horizontal_output_format :: "files \<Rightarrow> string \<Rightarrow> output_kind option option" where
  "new_horizontal_output_format files options =
     with_options files options (\<lambda>m. Horizontal_Output (m ''paragraphs'' \<noteq> None))"

definition new_plaintext_output_format :: "files \<Rightarrow> string \<Rightarrow> output_kind option option" where
  "new_plaintext_output_format files options =
     with_options files options (\<lambda>m. Plaintext_Output (m ''normalized_spaces'' \<noteq> None))"

definition new_vertical_output_format :: "files \<Rightarrow> string \<Rightarrow> output_kind option option" where
  "new_vertical_output_format files options =
     with_options files options (\<lambda>m. Vertical_Output (m ''paragraphs'' \<noteq> None))"

definition new_output_format :: "files \<Rightarrow> string \<Rightarrow> output_kind option option" where
  "new_output_format files nm =
     (let (f, options) = format_name nm in
      if f = ''conllu'' then new_conllu_output_format files options
      else if f = ''epe'' then Some (Some Epe_Output)
      else if f = ''matxin'' then Some (Some Matxin_Output)
      else if f = ''horizontal'' then new_horizontal_output_format files options
      else if f = ''plaintext'' then new_plaintext_output_format files options
      else if f = ''vertical'' then new_vertical_output_format files options
      else Some None)"


section \<open>The JSON value behind the EPE output\<close>

text \<open>
  The specification of the builder: JSON values and their text. The builder writes a value as a
  sequence of calls; what a call contributes depends on the state only through the comma that
  separates it from the item before.
\<close>

datatype json = JNumber nat | JString string | JTrue | JArray "json list" | JObject "(string \<times> json) list"

fun separated :: "bool \<Rightarrow> string list \<Rightarrow> string" where
  "separated comma [] = []"
| "separated comma (x # xs) = (if comma then '', '' else []) @ x @ separated True xs"

fun render :: "json \<Rightarrow> string" where
  "render (JNumber n) = show_nat n"
| "render (JString s) = json_string s"
| "render JTrue = ''true''"
| "render (JArray vs) = ''['' @ separated False (map render vs) @ '']''"
| "render (JObject kvs) = ''{'' @ separated False (map (\<lambda>(k, v). json_string k @ '':'' @ render v) kvs) @ ''}''"

abbreviation member :: "string \<times> json \<Rightarrow> string" where
  "member kv \<equiv> json_string (fst kv) @ '':'' @ render (snd kv)"

lemma separated_append: "separated c (xs @ ys) = separated c xs @ separated (c \<or> xs \<noteq> []) ys"
  by (induction xs arbitrary: c) auto

text \<open>A group of calls \<open>emits\<close> some items: it appends them, separated, and changes nothing else.\<close>

definition emits :: "string list \<Rightarrow> (json_builder \<Rightarrow> json_builder) \<Rightarrow> bool" where
  "emits xs f \<longleftrightarrow> (\<forall>b. f b = b\<lparr>jb_json := jb_json b @ separated (jb_comma_needed b) xs,
     jb_comma_needed := jb_comma_needed b \<or> xs \<noteq> []\<rparr>)"

lemma emits_id: "emits [] (\<lambda>b. b)"
  by (simp add: emits_def)

lemma emits_seq: "emits xs f \<Longrightarrow> emits ys g \<Longrightarrow> emits (xs @ ys) (\<lambda>b. g (f b))"
  by (simp add: emits_def separated_append)

lemma emits_fold:
  "(\<And>x. x \<in> set xs \<Longrightarrow> emits (items x) (f x)) \<Longrightarrow> emits (concat (map items xs)) (fold f xs)"
proof (induction xs)
  case Nil
  show ?case by (simp add: emits_def)
next
  case (Cons x xs)
  then have "emits (items x @ concat (map items xs)) (\<lambda>b. fold f xs (f x b))"
    by (intro emits_seq) simp_all
  then show ?case by (simp add: comp_def)
qed

lemmas builder_defs = jb_value_def jb_number_def jb_true_def jb_key_def jb_comma_def jb_push_def jb_object_def
  jb_array_def jb_close_def Let_def

lemma emits_scalar:
  "emits [member (k, JString v)] (\<lambda>b. jb_value v (jb_key k b))"
  "emits [member (k, JNumber n)] (\<lambda>b. jb_number n (jb_key k b))"
  "emits [member (k, JTrue)] (\<lambda>b. jb_true (jb_key k b))"
  by (simp_all add: emits_def builder_defs)

lemma emits_object:
  "emits (map member kvs) f \<Longrightarrow> emits [render (JObject kvs)] (\<lambda>b. jb_close (f (jb_object b)))"
  by (simp add: emits_def builder_defs case_prod_unfold)

lemma emits_keyed:
  "emits (map member kvs) f \<Longrightarrow> emits [member (k, JObject kvs)] (\<lambda>b. jb_close (f (jb_object (jb_key k b))))"
  "emits (map render vs) f \<Longrightarrow> emits [member (k, JArray vs)] (\<lambda>b. jb_close (f (jb_array (jb_key k b))))"
  by (simp_all add: emits_def builder_defs case_prod_unfold)

definition epe_feature_members :: "string \<Rightarrow> (string \<times> json) list" where
  "epe_feature_members feat =
     (let k = takeWhile (\<lambda>c. c \<noteq> CHR ''='') feat; v = drop (length k + 1) feat in
      if v = [] then [] else [(k, JString v)])"

definition epe_edge :: "word_data list \<Rightarrow> int \<Rightarrow> json" where
  "epe_edge ws child = JObject [(''label'', JString (w_deprel (ws ! nat child))), (''target'', JNumber (u64 child))]"

definition epe_node :: "word_data list \<Rightarrow> nat \<Rightarrow> json" where
  "epe_node ws i =
     (let w = ws ! i in JObject (
        [(''id'', JNumber i), (''form'', JString (tk_form w))] @
        (case get_token_range w of None \<Rightarrow> [] | Some (start, end) \<Rightarrow> [(''start'', JNumber start), (''end'', JNumber end)]) @
        (if w_head w = 0 then [(''top'', JTrue)] else []) @
        [(''properties'', JObject ([(''lemma'', JString (w_lemma w)), (''upos'', JString (w_upostag w)),
            (''xpos'', JString (w_xpostag w))] @ concat (map epe_feature_members (split (w_feats w) (CHR ''|'')))))] @
        (if w_children w = [] then [] else [(''edges'', JArray (map (epe_edge ws) (w_children w)))])))"

definition epe_sentence :: "nat \<Rightarrow> sentence \<Rightarrow> json" where
  "epe_sentence n s = JObject [(''id'', JNumber n), (''nodes'', JArray (map (epe_node (s_words s)) [1..<length (s_words s)]))]"

lemma emits_feature: "emits (map member (epe_feature_members feat)) (epe_feature feat)"
proof (cases "length (takeWhile (\<lambda>c. c \<noteq> CHR ''='') feat) + 1 < length feat")
  case True
  then show ?thesis using emits_scalar(1) by (simp add: epe_feature_members_def epe_feature_def [abs_def] Let_def)
next
  case False
  then show ?thesis by (simp add: epe_feature_members_def epe_feature_def Let_def emits_def)
qed

lemma emits_edge: "emits [render (epe_edge ws child)] (epe_child ws child)"
proof -
  let ?v = "w_deprel (ws ! nat child)"
  have "emits [member (''label'', JString ?v), member (''target'', JNumber (u64 child))]
      (\<lambda>b. jb_number (u64 child) (jb_key ''target'' (jb_value ?v (jb_key ''label'' b))))"
    using emits_seq [OF emits_scalar(1) emits_scalar(2), of "''label''" ?v "''target''" "u64 child"] by simp
  then show ?thesis
    using emits_object [of "[(''label'', JString ?v), (''target'', JNumber (u64 child))]"]
    by (simp add: epe_edge_def epe_child_def [abs_def])
qed

lemma emits_cong: "emits xs f \<Longrightarrow> xs = ys \<Longrightarrow> emits ys f"
  by simp

lemma emits_members:
  "emits (map member kvs) f \<Longrightarrow> emits (map member kws) g \<Longrightarrow> emits (map member (kvs @ kws)) (\<lambda>b. g (f b))"
  by (simp add: emits_seq)

lemma emits_scalar_members:
  "emits (map member [(k, JString v)]) (\<lambda>b. jb_value v (jb_key k b))"
  "emits (map member [(k, JNumber n)]) (\<lambda>b. jb_number n (jb_key k b))"
  "emits (map member [(k, JTrue)]) (\<lambda>b. jb_true (jb_key k b))"
  using emits_scalar by simp_all

lemma emits_features: "emits (map member (concat (map epe_feature_members feats))) (fold epe_feature feats)"
  using emits_fold [of feats "\<lambda>feat. map member (epe_feature_members feat)" epe_feature] emits_feature
  by (simp add: map_concat comp_def)

lemma emits_properties:
  "emits (map member [(''properties'', JObject ([(''lemma'', JString a), (''upos'', JString u), (''xpos'', JString x)] @
      concat (map epe_feature_members feats)))])
    (\<lambda>b. jb_close (fold epe_feature feats (jb_value x (jb_key ''xpos'' (jb_value u (jb_key ''upos''
      (jb_value a (jb_key ''lemma'' (jb_object (jb_key ''properties'' b))))))))))"
proof -
  note three = emits_members [OF emits_members [OF emits_scalar_members(1) emits_scalar_members(1)] emits_scalar_members(1)]
  show ?thesis
    using emits_keyed(1) [OF emits_members [OF three emits_features], where k = "''properties''"] by simp
qed

lemma emits_edges:
  "emits (map member [(''edges'', JArray (map (epe_edge ws) cs))])
     (\<lambda>b. jb_close (fold (epe_child ws) cs (jb_array (jb_key ''edges'' b))))"
proof -
  have "emits (map render (map (epe_edge ws) cs)) (fold (epe_child ws) cs)"
    using emits_fold [of cs "\<lambda>c. [render (epe_edge ws c)]" "epe_child ws"] emits_edge
    by (simp add: concat_map_singleton comp_def)
  from emits_keyed(2) [OF this, where k = "''edges''"] show ?thesis by simp
qed

lemma emits_if:
  "(c \<Longrightarrow> emits (map member kvs) f) \<Longrightarrow> (\<not> c \<Longrightarrow> emits (map member kws) g) \<Longrightarrow>
   emits (map member (if c then kvs else kws)) (\<lambda>b. if c then f b else g b)"
  by auto

lemma emits_range:
  "emits (map member (case r of None \<Rightarrow> [] | Some (start, end) \<Rightarrow> [(''start'', JNumber start), (''end'', JNumber end)]))
     (\<lambda>b. case r of None \<Rightarrow> b | Some (start, end) \<Rightarrow> jb_number end (jb_key ''end'' (jb_number start (jb_key ''start'' b))))"
  using emits_id emits_members [OF emits_scalar_members(2) emits_scalar_members(2)]
  by (auto split: option.split)

lemma emits_node: "emits [render (epe_node ws i)] (epe_word ws i)"
proof -
  let ?w = "ws ! i"
  have top: "emits (map member (if w_head ?w = 0 then [(''top'', JTrue)] else []))
      (\<lambda>b. if w_head ?w = 0 then jb_true (jb_key ''top'' b) else b)"
    using emits_scalar_members(3) emits_id by auto
  have edges: "emits (map member (if w_children ?w = [] then [] else [(''edges'', JArray (map (epe_edge ws) (w_children ?w)))]))
      (\<lambda>b. if w_children ?w \<noteq> [] then jb_close (fold (epe_child ws) (w_children ?w) (jb_array (jb_key ''edges'' b))) else b)"
    using emits_edges emits_id by auto
  have "emits (map member [(''id'', JNumber i), (''form'', JString (tk_form ?w))])
      (\<lambda>b. jb_value (tk_form ?w) (jb_key ''form'' (jb_number i (jb_key ''id'' b))))"
    using emits_members [OF emits_scalar_members(2) emits_scalar_members(1)] by simp
  from emits_object [OF emits_members [OF emits_members [OF emits_members [OF emits_members [OF this
        emits_range [of "get_token_range ?w"]] top]
        emits_properties [of "w_lemma ?w" "w_upostag ?w" "w_xpostag ?w" "split (w_feats ?w) (CHR ''|'')"]] edges]]
  show ?thesis
    by (simp only: epe_node_def epe_word_def [abs_def] Let_def append_assoc)
qed

lemma write_epe_renders: "write_epe n s = (render (epe_sentence (n + 1) s) @ [lf], n + 1)"
proof -
  let ?ns = "map (epe_node (s_words s)) [1..<length (s_words s)]"
  have "emits (map render ?ns) (fold (epe_word (s_words s)) [1..<length (s_words s)])"
    using emits_fold [of _ "\<lambda>i. [render (epe_node (s_words s) i)]" "epe_word (s_words s)"] emits_node
    by (simp add: concat_map_singleton comp_def)
  from emits_object [OF emits_members [OF emits_scalar_members(2), where g = "\<lambda>b. jb_close (fold (epe_word (s_words s))
        [1..<length (s_words s)] (jb_array (jb_key ''nodes'' b)))" and kws = "[(''nodes'', JArray ?ns)]"]]
    emits_keyed(2) [OF this, of "''nodes''"]
  have "emits [render (epe_sentence (n + 1) s)] (\<lambda>b. jb_close (jb_close (fold (epe_word (s_words s))
      [1..<length (s_words s)] (jb_array (jb_key ''nodes'' (jb_number (n + 1) (jb_key ''id'' (jb_object b))))))))"
    by (simp add: epe_sentence_def)
  then show ?thesis by (simp add: write_epe_def emits_def jb_clear_def Let_def)
qed

section \<open>JSON strings\<close>

text \<open>
  A reader of JSON texts, as the standard has them: numbers without sign, fraction and exponent and
  the constant \<open>true\<close> are enough here, and escapes by code point are left out. Strings hold no control
  characters; white space may stand between the parts of a text.
\<close>

definition json_escape :: "char \<Rightarrow> char option" where
  "json_escape d =
     (if d \<in> {CHR 0x22, CHR 0x5C, CHR ''/''} then Some d
      else if d = CHR ''b'' then Some (CHR 0x08) else if d = CHR ''f'' then Some (CHR 0x0C)
      else if d = CHR ''n'' then Some lf else if d = CHR ''r'' then Some cr
      else if d = CHR ''t'' then Some tab else None)"

fun read_json_string :: "string \<Rightarrow> (string \<times> string) option" where
  "read_json_string [] = None"
| "read_json_string (c # s) =
     (if c = CHR 0x22 then Some ([], s)
      else if c = CHR 0x5C then
        (case s of [] \<Rightarrow> None
         | d # t \<Rightarrow> (case json_escape d of None \<Rightarrow> None | Some e \<Rightarrow> map_option (apfst ((#) e)) (read_json_string t)))
      else if byte_of c < 32 then None
      else map_option (apfst ((#) c)) (read_json_string s))"

definition skip_white :: "string \<Rightarrow> string" where
  "skip_white s = dropWhile (\<lambda>c. c \<in> {CHR '' '', tab, lf, cr}) s"

definition expect_char :: "char \<Rightarrow> string \<Rightarrow> string option" where
  "expect_char c s = (case skip_white s of [] \<Rightarrow> None | d # r \<Rightarrow> if d = c then Some r else None)"

text \<open>The number bounds the depth of the recursion.\<close>

fun read_value :: "nat \<Rightarrow> string \<Rightarrow> (json \<times> string) option"
  and read_values :: "nat \<Rightarrow> string \<Rightarrow> (json list \<times> string) option"
  and read_members :: "nat \<Rightarrow> string \<Rightarrow> ((string \<times> json) list \<times> string) option" where
  "read_value 0 s = None"
| "read_value (Suc n) s =
     (case skip_white s of
        [] \<Rightarrow> None
      | c # r \<Rightarrow>
        if c = CHR 0x22 then map_option (apfst JString) (read_json_string r)
        else if is_digit c then Some (JNumber (digits_val (takeWhile is_digit (c # r))), dropWhile is_digit (c # r))
        else if c = CHR ''t'' then if take 3 r = ''rue'' then Some (JTrue, drop 3 r) else None
        else if c = CHR ''['' then
          (case expect_char (CHR '']'') r of Some r \<Rightarrow> Some (JArray [], r) | None \<Rightarrow> map_option (apfst JArray) (read_values n r))
        else if c = CHR ''{'' then
          (case expect_char (CHR ''}'') r of Some r \<Rightarrow> Some (JObject [], r) | None \<Rightarrow> map_option (apfst JObject) (read_members n r))
        else None)"
| "read_values 0 s = None"
| "read_values (Suc n) s = Option.bind (read_value n s) (\<lambda>(v, r).
     (case expect_char (CHR '','') r of
        Some r \<Rightarrow> map_option (apfst ((#) v)) (read_values n r)
      | None \<Rightarrow> map_option (Pair [v]) (expect_char (CHR '']'') r)))"
| "read_members 0 s = None"
| "read_members (Suc n) s =
     Option.bind (expect_char (CHR 0x22) s) (\<lambda>r. Option.bind (read_json_string r) (\<lambda>(k, r).
     Option.bind (expect_char (CHR '':'') r) (\<lambda>r. Option.bind (read_value n r) (\<lambda>(v, r).
     (case expect_char (CHR '','') r of
        Some r \<Rightarrow> map_option (apfst ((#) (k, v))) (read_members n r)
      | None \<Rightarrow> map_option (Pair [(k, v)]) (expect_char (CHR ''}'') r))))))"

text \<open>A text that holds one value and nothing else; each call in the recursion but one in two reads a character.\<close>

definition read_json :: "string \<Rightarrow> json option" where
  "read_json s = (case read_value (2 * length s) s of Some (v, r) \<Rightarrow> if skip_white r = [] then Some v else None | None \<Rightarrow> None)"

definition json_plain :: "char \<Rightarrow> bool" where
  "json_plain c \<longleftrightarrow> byte_of c \<ge> 32 \<or> c \<in> {CHR 0x08, CHR 0x0C, lf, cr, tab}"

lemma read_json_char: "json_plain c \<Longrightarrow> read_json_string (json_char c @ s) = map_option (apfst ((#) c)) (read_json_string s)"
  by (auto simp: json_char_def json_plain_def json_escape_def)

lemma read_json_chars: "\<forall>c \<in> set t. json_plain c \<Longrightarrow> read_json_string (concat (map json_char t) @ CHR 0x22 # s) = Some (t, s)"
  by (induction t) (simp_all add: read_json_char)

text \<open>
  Text without other control characters than tabs, line ends, backspaces and form feeds is
  read back from the string the EPE writer puts for it, whatever follows.
\<close>

lemma json_string_roundtrip:
  assumes "\<forall>c \<in> set t. json_plain c"
  shows "\<exists>q. json_string t @ s = CHR 0x22 # q \<and> read_json_string q = Some (t, s)"
  using assms by (simp add: json_string_def read_json_chars)

subsection \<open>The reader reads what is rendered\<close>

fun plain_json :: "json \<Rightarrow> bool" where
  "plain_json (JNumber n) \<longleftrightarrow> True"
| "plain_json (JString t) \<longleftrightarrow> list_all json_plain t"
| "plain_json JTrue \<longleftrightarrow> True"
| "plain_json (JArray vs) \<longleftrightarrow> list_all plain_json vs"
| "plain_json (JObject kvs) \<longleftrightarrow> list_all (\<lambda>(k, v). list_all json_plain k \<and> plain_json v) kvs"

text \<open>Nothing follows that a number would go on with.\<close>

definition delimited :: "string \<Rightarrow> bool" where
  "delimited s \<longleftrightarrow> (s = [] \<or> \<not> is_digit (hd s))"

lemma skip_white_dark: "c \<notin> {CHR '' '', tab, lf, cr} \<Longrightarrow> skip_white (c # s) = c # s"
  by (auto simp: skip_white_def)

lemma skip_white_space: "skip_white (CHR '' '' # s) = skip_white s"
  by (simp add: skip_white_def)

lemma expect_char_dark: "d \<notin> {CHR '' '', tab, lf, cr} \<Longrightarrow> expect_char c (d # s) = (if d = c then Some s else None)"
  by (simp add: expect_char_def skip_white_dark)

lemma read_space [simp]:
  "read_value n (CHR '' '' # s) = read_value n s" "read_values n (CHR '' '' # s) = read_values n s"
  "read_members n (CHR '' '' # s) = read_members n s"
proof -
  show 1: "read_value n (CHR '' '' # s) = read_value n s" for n by (cases n) (simp_all add: skip_white_space)
  show "read_values n (CHR '' '' # s) = read_values n s" by (cases n) (simp_all add: 1)
  show "read_members n (CHR '' '' # s) = read_members n s" by (cases n) (simp_all add: expect_char_def skip_white_space)
qed

lemma separated_Cons:
  "separated False (x # xs) = x @ (if xs = [] then [] else '', '' @ separated False xs)"
  by (cases xs) simp_all

lemma read_string_member: "list_all json_plain t \<Longrightarrow> read_json_string (concat (map json_char t) @ CHR 0x22 # s) = Some (t, s)"
  by (simp add: read_json_chars list_all_iff)

lemma read_values_render:
  assumes "\<And>v n s. v \<in> set vs \<Longrightarrow> 2 * length (render v) \<le> n \<Longrightarrow> delimited s \<Longrightarrow> read_value n (render v @ s) = Some (v, s)"
  shows "vs \<noteq> [] \<Longrightarrow> 2 * length (separated False (map render vs)) + 1 \<le> n \<Longrightarrow>
    read_values n (separated False (map render vs) @ CHR '']'' # s) = Some (vs, s)"
  using assms
proof (induction vs arbitrary: n)
  case (Cons v vs)
  then obtain m where n: "n = Suc m" by (cases n) auto
  let ?r = "(if vs = [] then [] else '', '' @ separated False (map render vs)) @ CHR '']'' # s"
  have "delimited ?r" by (simp add: delimited_def is_digit_def)
  moreover have "2 * length (render v) \<le> m" using Cons.prems(2) by (simp add: n separated_Cons del: separated.simps)
  ultimately have v: "read_value m (render v @ ?r) = Some (v, ?r)" using Cons.prems(3) by simp
  have "read_values m (separated False (map render vs) @ CHR '']'' # s) = Some (vs, s)" if "vs \<noteq> []"
    using Cons.IH [OF that] Cons.prems(2,3) that by (simp add: n separated_Cons del: separated.simps)
  then show ?case using v by (simp add: n separated_Cons expect_char_dark del: separated.simps)
qed simp

lemma read_members_render:
  assumes "\<And>k v n s. (k, v) \<in> set kvs \<Longrightarrow> 2 * length (render v) \<le> n \<Longrightarrow> delimited s \<Longrightarrow> read_value n (render v @ s) = Some (v, s)"
    and "list_all (\<lambda>(k, v). list_all json_plain k) kvs"
  shows "kvs \<noteq> [] \<Longrightarrow> 2 * length (separated False (map member kvs)) + 1 \<le> n \<Longrightarrow>
    read_members n (separated False (map member kvs) @ CHR ''}'' # s) = Some (kvs, s)"
  using assms
proof (induction kvs arbitrary: n)
  case (Cons kv kvs)
  then obtain m where n: "n = Suc m" by (cases n) auto
  obtain k v where kv: "kv = (k, v)" by (cases kv)
  let ?r = "(if kvs = [] then [] else '', '' @ separated False (map member kvs)) @ CHR ''}'' # s"
  have "delimited ?r" by (simp add: delimited_def is_digit_def)
  moreover have "2 * length (render v) \<le> m" using Cons.prems(2) by (simp add: n kv separated_Cons del: separated.simps)
  ultimately have v: "read_value m (render v @ ?r) = Some (v, ?r)" using Cons.prems(3) [of k v] by (simp add: kv)
  have k: "expect_char (CHR 0x22) (json_string k @ t) = Some (concat (map json_char k) @ CHR 0x22 # t)"
    "read_json_string (concat (map json_char k) @ CHR 0x22 # t) = Some (k, t)" for t
    using Cons.prems(4) read_string_member [of k t] by (simp_all add: kv json_string_def expect_char_dark)
  have "read_members m (separated False (map member kvs) @ CHR ''}'' # s) = Some (kvs, s)" if "kvs \<noteq> []"
  proof (rule Cons.IH [OF that])
    show "2 * length (separated False (map member kvs)) + 1 \<le> m"
      using Cons.prems(2) that by (simp add: n separated_Cons del: separated.simps)
    show "read_value n (render w @ t) = Some (w, t)" if "(l, w) \<in> set kvs" "2 * length (render w) \<le> n" "delimited t" for l w n t
      using Cons.prems(3) [of l w n t] that by simp
  qed (use Cons.prems(4) in simp)
  then show ?case using v k
    by (cases "kvs = []") (simp_all add: n kv separated_Cons expect_char_dark del: separated.simps)
qed simp

lemma read_number: "delimited s \<Longrightarrow> read_value (Suc n) (show_nat k @ s) = Some (JNumber k, s)"
proof -
  assume s: "delimited s"
  obtain d ds where d: "show_nat k = d # ds" by (cases "show_nat k") simp_all
  have digits: "\<forall>c \<in> set (show_nat k). is_digit c" using show_nat_digits by blast
  then have "is_digit d" by (simp add: d)
  then have "d \<noteq> CHR 0x22" "d \<notin> {CHR '' '', tab, lf, cr}" by (auto simp: is_digit_def)
  moreover have "takeWhile is_digit (show_nat k @ s) = show_nat k" "dropWhile is_digit (show_nat k @ s) = s"
    using digits s by (cases s; simp add: delimited_def takeWhile_append2 dropWhile_append2)+
  ultimately show ?thesis using \<open>is_digit d\<close> by (simp add: d skip_white_dark digits_val_show_nat [of k, unfolded d])
qed

lemma render_start: "\<exists>c r. render v = c # r \<and> c \<notin> {CHR '' '', tab, lf, cr, CHR '']'', CHR ''}''}"
proof (cases v)
  case (JNumber n)
  obtain d ds where d: "show_nat n = d # ds" by (cases "show_nat n") simp_all
  then have "is_digit d" using show_nat_digits [of d n] by simp
  then show ?thesis using JNumber d by (auto simp: is_digit_def)
qed (simp_all add: json_string_def)

lemma separated_start:
  assumes "xs \<noteq> []" "\<forall>x \<in> set xs. \<exists>c r. x = c # r \<and> c \<notin> {CHR '' '', tab, lf, cr, CHR '']'', CHR ''}''}"
  shows "\<exists>c r. separated False xs @ s = c # r \<and> c \<notin> {CHR '' '', tab, lf, cr, CHR '']'', CHR ''}''}"
  using assms by (cases xs) auto

lemma read_rendered:
  "plain_json v \<Longrightarrow> 2 * length (render v) \<le> n \<Longrightarrow> delimited s \<Longrightarrow> read_value n (render v @ s) = Some (v, s)"
proof (induction v arbitrary: n s)
  case (JNumber k)
  then show ?case using read_number [OF JNumber.prems(3)] by (cases n) simp_all
next
  case (JString t)
  then show ?case by (cases n) (simp_all add: json_string_def skip_white_dark read_string_member)
next
  case JTrue
  then show ?case by (cases n) (simp_all add: skip_white_dark is_digit_def)
next
  case (JArray vs)
  then obtain m where n: "n = Suc m" by (cases n) auto
  show ?case
  proof (cases "vs = []")
    case True
    then show ?thesis by (simp add: n skip_white_dark is_digit_def expect_char_dark)
  next
    case False
    have "read_values m (separated False (map render vs) @ CHR '']'' # s) = Some (vs, s)"
      by (rule read_values_render [OF _ False]) (use JArray in \<open>auto simp: n list_all_iff\<close>)
    moreover have "expect_char (CHR '']'') (separated False (map render vs) @ CHR '']'' # s) = None"
      using separated_start [of "map render vs" "CHR '']'' # s"] False render_start by (force simp: expect_char_dark)
    ultimately show ?thesis by (simp add: n skip_white_dark is_digit_def)
  qed
next
  case (JObject kvs)
  then obtain m where n: "n = Suc m" by (cases n) auto
  have r: "render (JObject kvs) @ s = CHR ''{'' # separated False (map member kvs) @ CHR ''}'' # s"
    by (simp add: case_prod_unfold)
  show ?case
  proof (cases "kvs = []")
    case True
    then show ?thesis by (simp add: n skip_white_dark is_digit_def expect_char_dark)
  next
    case False
    have "read_members m (separated False (map member kvs) @ CHR ''}'' # s) = Some (kvs, s)"
    proof (rule read_members_render [OF _ _ False])
      show "read_value n (render v @ t) = Some (v, t)" if "(k, v) \<in> set kvs" "2 * length (render v) \<le> n" "delimited t" for k v n t
        using JObject.IH [of "(k, v)" v n t] JObject.prems(1) that by (auto simp: list_all_iff)
      show "2 * length (separated False (map member kvs)) + 1 \<le> m"
        using JObject.prems(2) by (simp add: n case_prod_unfold)
    qed (use JObject.prems(1) in \<open>auto simp: list_all_iff\<close>)
    moreover have "expect_char (CHR ''}'') (separated False (map member kvs) @ CHR ''}'' # s) = None"
      using separated_start [of "map member kvs" "CHR ''}'' # s"] False by (force simp: expect_char_dark json_string_def)
    ultimately show ?thesis unfolding r by (simp add: n skip_white_dark is_digit_def)
  qed
qed

lemma read_json_rendered: "plain_json v \<Longrightarrow> read_json (render v @ [lf]) = Some v"
  using read_rendered [of v "2 * length (render v @ [lf])" "[lf]"]
  by (simp add: read_json_def delimited_def is_digit_def skip_white_def)

text \<open>The texts of a word that the writer puts into strings.\<close>

definition plain_texts :: "word_data \<Rightarrow> bool" where
  "plain_texts w \<longleftrightarrow>
     list_all json_plain (tk_form w @ w_lemma w @ w_upostag w @ w_xpostag w @ w_feats w @ w_deprel w)"

lemma plain_features: "list_all json_plain t \<Longrightarrow> feat \<in> set (split t (CHR ''|'')) \<Longrightarrow>
    list_all (\<lambda>(k, v). list_all json_plain k \<and> plain_json v) (epe_feature_members feat)"
proof -
  assume t: "list_all json_plain t" and feat: "feat \<in> set (split t (CHR ''|''))"
  then have "\<forall>c \<in> set feat. json_plain c"
    using set_split_pieces [of feat "CHR ''|''" t] by (auto simp: split_def list_all_iff split: if_splits)
  then show ?thesis by (auto simp: epe_feature_members_def Let_def list_all_iff dest: set_takeWhileD in_set_dropD)
qed

lemma plain_node:
  assumes "words.wf ws" "i < length ws" "\<forall>w \<in> set ws. plain_texts w"
  shows "plain_json (epe_node ws i)"
proof -
  let ?w = "ws ! i"
  have w: "plain_texts ?w" using assms(2,3) by simp
  have "plain_texts (ws ! nat c)" if "c \<in> set (w_children ?w)" for c
  proof -
    have "c \<in> ids ws" using words.wf_children [OF assms(1), of "int i"] assms(2) that by (auto simp: word_link_def ids_def)
    then show ?thesis using assms(3) by (auto simp: ids_def)
  qed
  then have "list_all plain_json (map (epe_edge ws) (w_children ?w))"
    by (auto simp: list_all_iff epe_edge_def plain_texts_def json_plain_def)
  moreover have "list_all (\<lambda>(k, v). list_all json_plain k \<and> plain_json v) (concat (map epe_feature_members (split (w_feats ?w) (CHR ''|''))))"
    using plain_features [of "w_feats ?w"] w by (auto simp: plain_texts_def list_all_iff)
  ultimately show ?thesis
    using w by (auto simp: epe_node_def Let_def plain_texts_def json_plain_def split: option.splits prod.splits)
qed

lemma json_string_line: "lf \<notin> set (json_string t)"
proof -
  have hex: "hex_digit d \<noteq> lf" if "d < 16" for d
  proof -
    have "hex_digit d \<in> set ''0123456789ABCDEF''" unfolding hex_digit_def using that by (intro nth_mem) simp
    then show ?thesis by auto
  qed
  have chars: "lf \<noteq> char_of (48 :: nat)" "lf \<noteq> char_of (49 :: nat)" by (simp_all add: char_of_def)
  have "lf \<notin> set (json_char c)" for c
  proof (cases "byte_of c < 32")
    case True
    then have "byte_of c div 16 \<in> {0, 1}" "byte_of c mod 16 < 16" by auto
    then show ?thesis using hex [of "byte_of c mod 16"] chars by (auto simp: json_char_def)
  qed (auto simp: json_char_def)
  then show ?thesis by (auto simp: json_string_def)
qed

lemma one_line: "lf \<notin> set (render v)"
proof (induction v)
  case (JArray vs)
  have "lf \<notin> set (separated b (map render vs))" for b using JArray by (induction vs arbitrary: b) auto
  then show ?case by simp
next
  case (JObject kvs)
  have "lf \<notin> set (render (snd kv))" if "kv \<in> set kvs" for kv using JObject [OF that] by (cases kv) simp
  then have "lf \<notin> set (separated b (map member kvs))" for b using json_string_line by (induction kvs arbitrary: b) auto
  then show ?case by (simp add: case_prod_unfold)
next
  case (JNumber n)
  then show ?case using show_nat_digits [of lf n] by (auto simp: is_digit_def)
qed (simp_all add: json_string_line)

text \<open>
  C30: What the EPE writer outputs for a sentence is one line, and a JSON reader reads from it the
  object that stands for the sentence, with the next number: the words with their columns, their
  ranges and their edges to dependents. The sentence has to be well formed, and its texts must have no
  control characters besides those that JSON has a letter for.
\<close>

theorem epe_writes_json:
  assumes "wf_words (s_words s)" "\<forall>w \<in> set (s_words s). plain_texts w"
  shows "\<exists>t. write_epe n s = (t @ [lf], n + 1) \<and> lf \<notin> set t \<and> read_json (t @ [lf]) = Some (epe_sentence (n + 1) s)"
proof -
  have "plain_json (epe_sentence (n + 1) s)"
    using plain_node [of "s_words s"] assms by (auto simp: epe_sentence_def list_all_iff json_plain_def wf_words_def)
  then show ?thesis using write_epe_renders read_json_rendered one_line by blast
qed

lemma epe_writes_json_witness:
  "\<exists>t. write_epe 0 sample_sentence = (t @ [lf], 1) \<and> lf \<notin> set t \<and> read_json (t @ [lf]) = Some (epe_sentence 1 sample_sentence)"
proof -
  have "\<forall>w \<in> set (s_words sample_sentence). plain_texts w"
    by (simp add: sample_sentence_def plain_texts_def json_plain_def mk_word_def root_word_def root_form_def)
  from epe_writes_json [OF sample_wf_words this, of 0] show ?thesis by simp
qed

text \<open>
  The remaining control characters are lost: their escape is written without its backslash, so
  the byte 1 and the five characters \<open>u0001\<close> have the same text.
\<close>

theorem json_control_lost: "json_string [CHR 0x01] = json_string ''u0001'' \<and> [CHR 0x01] \<noteq> ''u0001''"
  by code_simp

section \<open>The recursion of the Matxin writer\<close>

text \<open>A node with all its ancestors, up to the root: what the stack of the recursion holds.\<close>

fun ancestors_of :: "word_data list \<Rightarrow> int list \<Rightarrow> bool" where
  "ancestors_of ws [] \<longleftrightarrow> False"
| "ancestors_of ws [r] \<longleftrightarrow> r = 0"
| "ancestors_of ws (i # j # p) \<longleftrightarrow> i \<in> ids ws \<and> w_head (ws ! nat i) = j \<and> ancestors_of ws (j # p)"

lemma ancestors_of_ids: "ancestors_of ws p \<Longrightarrow> ws \<noteq> [] \<Longrightarrow> set p \<subseteq> ids ws"
  by (induction ws p rule: ancestors_of.induct) (auto simp: ids_def)

lemma ancestors_of_member:
  "ancestors_of ws p \<Longrightarrow> c \<in> set p \<Longrightarrow> w_head (ws ! nat c) = h \<Longrightarrow> h \<notin> set (tl p) \<Longrightarrow> c = 0"
  by (induction ws p rule: ancestors_of.induct) auto

lemma ancestors_of_child:
  assumes "ancestors_of ws p" "distinct p" "w_head (ws ! 0) < 0" "c \<in> ids ws" "w_head (ws ! nat c) = hd p" "hd p \<ge> 0"
  shows "ancestors_of ws (c # p) \<and> distinct (c # p)"
proof -
  obtain i q where p: "p = i # q" using assms(1) by (cases p) auto
  have "c \<notin> set p"
  proof
    assume "c \<in> set p"
    then have "c = 0" using ancestors_of_member [OF assms(1)] assms(2,5) by (simp add: p)
    then show False using assms(3,5,6) by simp
  qed
  then show ?thesis using assms(1,2,4,5) by (simp add: p)
qed

lemma concat_options_Some: "\<forall>x \<in> set xs. x \<noteq> None \<Longrightarrow> concat_options xs \<noteq> None"
  by (induction xs) auto

lemma ancestors_of_length: "ancestors_of ws p \<Longrightarrow> distinct p \<Longrightarrow> ws \<noteq> [] \<Longrightarrow> length p \<le> length ws"
proof -
  assume p: "ancestors_of ws p" "distinct p" "ws \<noteq> []"
  have ids: "ids ws = int ` {..<length ws}" unfolding ids_def by (auto simp: image_iff intro!: bexI [of _ "nat _"])
  then have "card (ids ws) = length ws" by (simp add: card_image)
  moreover have "card (set p) \<le> card (ids ws)"
    using ancestors_of_ids [OF p(1,3)] by (intro card_mono) (simp_all add: ids)
  ultimately show ?thesis using p(2) by (simp add: distinct_card)
qed

lemma write_node_returns:
  assumes "wf_words ws" "w_head (ws ! 0) < 0"
  shows "ancestors_of ws p \<Longrightarrow> distinct p \<Longrightarrow> length ws < length p + depth \<Longrightarrow> write_node depth ws (hd p) pad \<noteq> None"
proof (induction depth arbitrary: p pad)
  case 0
  then show ?case using ancestors_of_length [of ws p] assms(1) by (simp add: wf_words_def)
next
  case (Suc depth)
  have wf: "words.wf ws" "ws \<noteq> []" using assms(1) by (simp_all add: wf_words_def)
  obtain i q where p: "p = i # q" using Suc.prems(1) by (cases p) auto
  then have i: "i \<in> ids ws" using ancestors_of_ids [OF Suc.prems(1) wf(2)] by simp
  have "write_node depth ws c t \<noteq> None" if "c \<in> set (w_children (ws ! nat i))" for c t
  proof -
    have "c \<in> ids ws" "w_head (ws ! nat c) = i"
      using words.wf_children [OF wf(1) i] that by (auto simp: word_link_def)
    then have "ancestors_of ws (c # p) \<and> distinct (c # p)"
      using ancestors_of_child [OF Suc.prems(1,2) assms(2)] i by (simp add: p ids_def)
    then show ?thesis using Suc.IH [of "c # p" t] Suc.prems(3) by simp
  qed
  then have "concat_options (map (\<lambda>c. write_node depth ws c (pad @ '' '')) (w_children (ws ! nat i))) \<noteq> None"
    by (intro concat_options_Some) auto
  then obtain t where "concat_options (map (\<lambda>c. write_node depth ws c (pad @ '' '')) (w_children (ws ! nat i))) = Some t"
    by blast
  then show ?case by (simp add: p Let_def)
qed

text \<open>
  The recursion of the Matxin writer ends on every well-formed sentence, also on one whose
  heads form a cycle: it never goes deeper than the number of words, and the sentence gets the
  next number.
\<close>

theorem matxin_returns:
  assumes "wf_sentence s"
  shows "\<exists>t. write_matxin (length (s_words s)) n s = Some (t, n + 1)"
proof -
  let ?ws = "s_words s"
  have wf: "wf_words ?ws" "words.wf ?ws" "?ws \<noteq> []" and root: "without_children (hd ?ws) = root_word"
    using assms by (simp_all add: wf_sentence_def wf_words_def)
  have zero: "0 \<in> ids ?ws" using wf(3) by (simp add: ids_def)
  have "w_head (without_children (hd ?ws)) = -1" unfolding root by (simp add: root_word_def mk_word_def)
  then have neg: "w_head (?ws ! 0) < 0" using wf(3) by (simp add: without_children_def hd_conv_nth)
  have "write_node (length ?ws) ?ws c [] \<noteq> None" if "c \<in> set (w_children (?ws ! 0))" for c
  proof -
    have "c \<in> ids ?ws" "w_head (?ws ! nat c) = 0"
      using words.wf_children [OF wf(2) zero] that by (auto simp: word_link_def)
    then have "ancestors_of ?ws [c, 0] \<and> distinct [c, 0]"
      using ancestors_of_child [of ?ws "[0]" c] neg by simp
    then show ?thesis using write_node_returns [OF wf(1) neg, of "[c, 0]" "length ?ws"] by simp
  qed
  then have "concat_options (map (\<lambda>c. write_node (length ?ws) ?ws c []) (w_children (?ws ! 0))) \<noteq> None"
    by (intro concat_options_Some) auto
  then show ?thesis by (auto simp: write_matxin_def)
qed

lemma matxin_returns_witness: "\<exists>t. write_matxin (length (s_words sample_sentence)) 4 sample_sentence = Some (t, 5)"
  using matxin_returns [of sample_sentence 4] sample_ok by (simp add: conllu_ok_def)

end
