(* ===== verification/Dependency_Tree.thy ===== *)
theory Dependency_Tree
  imports Links Text_Utils
begin

text \<open>
  The trees of Parsito (\<open>src/parsito/tree/node.h\<close>, \<open>tree.cpp\<close>): a list of nodes whose ids are
  their positions, the technical root first. The container has the same links as a sentence and
  interprets the same contract. The second part is the notion of a dependency tree that the
  parser has to produce.
\<close>

record tree_node =
  n_id :: int
  n_form :: string
  n_lemma :: string
  n_upostag :: string
  n_xpostag :: string
  n_feats :: string
  n_head :: int
  n_deprel :: string
  n_deps :: string
  n_misc :: string
  n_children :: "int list"

definition mk_node :: "int \<Rightarrow> string \<Rightarrow> tree_node" where
  "mk_node i form = \<lparr>n_id = i, n_form = form, n_lemma = [], n_upostag = [], n_xpostag = [], n_feats = [],
     n_head = -1, n_deprel = [], n_deps = [], n_misc = [], n_children = []\<rparr>"

type_synonym tree = "tree_node list"

definition tree_root_form :: string where
  "tree_root_form = ''<root>''"

definition tree_empty :: "tree \<Rightarrow> bool" where
  "tree_empty t \<longleftrightarrow> length t = 1"

definition add_node :: "string \<Rightarrow> tree \<Rightarrow> tree" where
  "add_node form t = t @ [mk_node (int (length t)) form]"

definition tree_clear :: tree where
  "tree_clear = upd 0 (\<lambda>root. root\<lparr>n_lemma := tree_root_form, n_upostag := tree_root_form,
     n_xpostag := tree_root_form, n_feats := tree_root_form\<rparr>) (add_node tree_root_form [])"

definition tree_set_head :: "int \<Rightarrow> int \<Rightarrow> string \<Rightarrow> tree \<Rightarrow> tree" where
  "tree_set_head i head deprel t =
     (let old = n_head (t ! nat i);
          t = (if old \<ge> 0 then upd old (\<lambda>n. n\<lparr>n_children := remove_child i (n_children n)\<rparr>) t else t);
          t = upd i (\<lambda>n. n\<lparr>n_head := head, n_deprel := deprel\<rparr>) t
      in if head \<ge> 0 then upd head (\<lambda>n. n\<lparr>n_children := insert_child i (n_children n)\<rparr>) t else t)"

definition unlink_all_nodes :: "tree \<Rightarrow> tree" where
  "unlink_all_nodes t = map (\<lambda>n. n\<lparr>n_head := -1, n_deprel := [], n_children := []\<rparr>) t"

section \<open>Heads and children\<close>

definition node_link :: "tree_node \<Rightarrow> link" where
  "node_link n = (n_head n, n_children n)"

lemma node_link_upds:
  "i \<in> ids t \<Longrightarrow> map node_link (upd i (\<lambda>n. n\<lparr>n_children := remove_child c (n_children n)\<rparr>) t)
     = upd i (\<lambda>(h, cs). (h, remove_child c cs)) (map node_link t)"
  "i \<in> ids t \<Longrightarrow> map node_link (upd i (\<lambda>n. n\<lparr>n_children := insert_child c (n_children n)\<rparr>) t)
     = upd i (\<lambda>(h, cs). (h, insert_child c cs)) (map node_link t)"
  "i \<in> ids t \<Longrightarrow> map node_link (upd i (\<lambda>n. n\<lparr>n_head := h, n_deprel := d\<rparr>) t)
     = upd i (\<lambda>(_, cs). (h, cs)) (map node_link t)"
  by (simp_all add: map_upd node_link_def)

lemma map_tree_set_head:
  assumes "i \<in> ids t" "0 \<le> n_head (t ! nat i) \<longrightarrow> n_head (t ! nat i) \<in> ids t" "h < int (length t)"
  shows "map node_link (tree_set_head i h d t) = link_set_head i h (map node_link t)"
proof -
  have old: "lhead (map node_link t) i = n_head (t ! nat i)"
    using assms(1) by (simp add: nth_map_ids node_link_def)
  have "h \<ge> 0 \<Longrightarrow> h \<in> ids t" using assms(3) by (simp add: ids_def)
  then show ?thesis
    using assms(1,2) by (simp add: tree_set_head_def link_set_head_def Let_def old node_link_upds)
qed

interpretation tree: linked_nodes node_link tree_set_head unlink_all_nodes add_node
proof unfold_locales
  fix i h d and ns :: tree
  assume "i \<in> ids ns" "0 \<le> fst (node_link (ns ! nat i)) \<longrightarrow> fst (node_link (ns ! nat i)) \<in> ids ns" "h < int (length ns)"
  then show "map node_link (tree_set_head i h d ns) = link_set_head i h (map node_link ns)"
    by (intro map_tree_set_head) (simp_all add: node_link_def)
qed (simp_all add: unlink_all_nodes_def add_node_def node_link_def mk_node_def)

definition wf_tree :: "tree \<Rightarrow> bool" where
  "wf_tree t \<longleftrightarrow> t \<noteq> [] \<and> map n_id t = map int [0..<length t] \<and> tree.wf t"

lemma head_node_link [simp]: "fst (node_link n) = n_head n" "snd (node_link n) = n_children n"
  by (simp_all add: node_link_def)

lemma n_id_set_head: "map n_id (tree_set_head i h d t) = map n_id t"
  by (simp add: tree_set_head_def Let_def map_upd_same)

lemma length_tree_set_head [simp]: "length (tree_set_head i h d t) = length t"
  by (simp add: tree_set_head_def Let_def)

lemma ids_tree_set_head [simp]: "ids (tree_set_head i h d t) = ids t"
  by (simp add: ids_def)

lemma wf_tree_set_head:
  assumes "wf_tree t" "i \<in> ids t" "-1 \<le> h" "h < int (length t)"
  shows "wf_tree (tree_set_head i h d t)"
proof -
  have "tree_set_head i h d t \<noteq> []" using assms(1) by (metis length_0_conv length_tree_set_head wf_tree_def)
  then show ?thesis
    using assms tree.wf_sh [of t i h d] by (simp add: wf_tree_def n_id_set_head)
qed

lemma head_tree_set_head:
  "wf_tree t \<Longrightarrow> i \<in> ids t \<Longrightarrow> -1 \<le> h \<Longrightarrow> h < int (length t) \<Longrightarrow> j \<in> ids t \<Longrightarrow>
   n_head (tree_set_head i h d t ! nat j) = (if j = i then h else n_head (t ! nat j))"
  using tree.head_sh [of t i h j d] by (simp add: wf_tree_def)

lemma deprel_upd:
  "j \<in> ids t \<Longrightarrow> i \<in> ids t \<Longrightarrow> (\<And>n. n_deprel (f n) = n_deprel n) \<Longrightarrow> n_deprel (upd i f t ! nat j) = n_deprel (t ! nat j)"
  by (simp add: nth_upd)

text \<open>Everything but the links of a node is untouched, and only the child's relation changes.\<close>

lemma deprel_tree_set_head:
  assumes "wf_tree t" "i \<in> ids t" "-1 \<le> h" "h < int (length t)" "j \<in> ids t"
  shows "n_deprel (tree_set_head i h d t ! nat j) = (if j = i then d else n_deprel (t ! nat j))"
proof -
  have old: "0 \<le> n_head (t ! nat i) \<Longrightarrow> n_head (t ! nat i) \<in> ids t"
    using tree.wf_head_ids [of t i] assms(1,2) by (simp add: wf_tree_def)
  have "h \<ge> 0 \<Longrightarrow> h \<in> ids t" using assms(4) by (simp add: ids_def)
  then show ?thesis
    using assms(2,5) old by (simp add: tree_set_head_def Let_def nth_upd)
qed

lemma wf_tree_clear: "wf_tree tree_clear"
  using tree.wf_add_node [OF tree.wf_Nil, of tree_root_form]
  by (simp add: wf_tree_def tree_clear_def add_node_def tree.wf_def node_link_def upd_def mk_node_def)

lemma wf_tree_add_node: "wf_tree t \<Longrightarrow> wf_tree (add_node form t)"
  using tree.wf_add_node [of t form] by (simp add: wf_tree_def add_node_def mk_node_def)

lemma length_unlink_nodes [simp]: "length (unlink_all_nodes t) = length t"
  by (simp add: unlink_all_nodes_def)

lemma wf_tree_unlink: "wf_tree t \<Longrightarrow> wf_tree (unlink_all_nodes t)"
  using tree.wf_unlink [of t] by (simp add: wf_tree_def unlink_all_nodes_def comp_def)

lemma head_unlink_nodes: "j \<in> ids t \<Longrightarrow> n_head (unlink_all_nodes t ! nat j) = -1"
  using tree.head_unlink [of j t] by simp

section \<open>Dependency trees\<close>

text \<open>\<open>reaches t i r\<close>: the chain of heads leads from \<open>i\<close> to \<open>r\<close>.\<close>

inductive reaches :: "tree \<Rightarrow> int \<Rightarrow> int \<Rightarrow> bool" for t where
  here: "i \<in> ids t \<Longrightarrow> reaches t i i"
| up: "i \<in> ids t \<Longrightarrow> n_head (t ! nat i) = h \<Longrightarrow> reaches t h r \<Longrightarrow> reaches t i r"

inductive_cases reachesE: "reaches t i r"

lemma reaches_ids: "reaches t i r \<Longrightarrow> i \<in> ids t \<and> r \<in> ids t"
  by (induction rule: reaches.induct) auto

lemma reaches_trans: "reaches t i j \<Longrightarrow> reaches t j k \<Longrightarrow> reaches t i k"
  by (induction rule: reaches.induct) (auto intro: reaches.up)

text \<open>Every node but the root has a head, and every chain of heads ends in the root.\<close>

definition dependency_tree :: "tree \<Rightarrow> bool" where
  "dependency_tree t \<longleftrightarrow> wf_tree t \<and> n_head (t ! 0) = -1 \<and>
     (\<forall>i \<in> ids t. i \<noteq> 0 \<longrightarrow> n_head (t ! nat i) \<ge> 0) \<and> (\<forall>i \<in> ids t. reaches t i 0)"

text \<open>A forest: every chain of heads ends in a node without head.\<close>

definition forest :: "tree \<Rightarrow> bool" where
  "forest t \<longleftrightarrow> wf_tree t \<and> (\<forall>i \<in> ids t. \<exists>r. reaches t i r \<and> n_head (t ! nat r) = -1)"

lemma forest_unlink: "wf_tree t \<Longrightarrow> forest (unlink_all_nodes t)"
proof -
  assume "wf_tree t"
  moreover have "reaches (unlink_all_nodes t) i i \<and> n_head (unlink_all_nodes t ! nat i) = -1"
    if "i \<in> ids (unlink_all_nodes t)" for i
    using that head_unlink_nodes [of i t] by (auto intro: reaches.here simp: ids_def)
  ultimately show ?thesis using wf_tree_unlink [of t] unfolding forest_def by blast
qed

text \<open>Linking one root of the forest under another keeps it a forest.\<close>

lemma reaches_set_head:
  assumes "wf_tree t" "c \<in> ids t" "p \<in> ids t" "n_head (t ! nat c) = -1"
    and "reaches t i r" "n_head (t ! nat r) = -1"
  shows "reaches (tree_set_head c p d t) i (if r = c then p else r)"
proof -
  have p: "-1 \<le> p" "p < int (length t)" using assms(3) by (auto simp: ids_def)
  have head: "n_head (tree_set_head c p d t ! nat j) = (if j = c then p else n_head (t ! nat j))" if "j \<in> ids t" for j
    by (rule head_tree_set_head [OF assms(1,2) p that])
  from assms(5,6) show ?thesis
  proof (induction rule: reaches.induct)
    case (here i)
    show ?case
    proof (cases "i = c")
      case True
      then show ?thesis
        using here head [OF here(1)] reaches.up [of i "tree_set_head c p d t" p p] reaches.here [of p] assms(3) by simp
    next
      case False
      then show ?thesis using here by (auto intro: reaches.here)
    qed
  next
    case (up i h r)
    have h: "h \<in> ids t" using reaches_ids [OF up(3)] by simp
    then have "i \<noteq> c" using up(2) assms(4) by (auto simp: ids_def)
    then show ?case using up head [OF up(1)] by (auto intro: reaches.up)
  qed
qed

lemma forest_set_head:
  assumes "forest t" "c \<in> ids t" "p \<in> ids t" "c \<noteq> p" "n_head (t ! nat c) = -1" "n_head (t ! nat p) = -1"
  shows "forest (tree_set_head c p d t)"
  unfolding forest_def
proof (intro conjI ballI)
  have wf: "wf_tree t" and p: "-1 \<le> p" "p < int (length t)" using assms(1,3) by (auto simp: forest_def ids_def)
  show "wf_tree (tree_set_head c p d t)" by (rule wf_tree_set_head [OF wf assms(2) p])
  fix i assume "i \<in> ids (tree_set_head c p d t)"
  then obtain r where r: "reaches t i r" "n_head (t ! nat r) = -1" using assms(1) by (auto simp: forest_def)
  then have "reaches (tree_set_head c p d t) i (if r = c then p else r)"
    using reaches_set_head [OF wf assms(2,3,5)] by blast
  moreover have "n_head (tree_set_head c p d t ! nat (if r = c then p else r)) = -1"
    using head_tree_set_head [OF wf assms(2) p] reaches_ids [OF r(1)] r(2) assms(3,4,6) by auto
  ultimately show "\<exists>r. reaches (tree_set_head c p d t) i r \<and> n_head (tree_set_head c p d t ! nat r) = -1" by blast
qed

lemma forest_single_root:
  assumes "forest t" "n_head (t ! 0) = -1" "\<And>i. i \<in> ids t \<Longrightarrow> i \<noteq> 0 \<Longrightarrow> n_head (t ! nat i) \<noteq> -1"
  shows "dependency_tree t"
proof -
  have wf: "wf_tree t" using assms(1) by (simp add: forest_def)
  have "reaches t i 0" if i: "i \<in> ids t" for i
  proof -
    obtain r where r: "reaches t i r" "n_head (t ! nat r) = -1" using assms(1) i by (auto simp: forest_def)
    then have "r = 0" using assms(3) reaches_ids by blast
    then show ?thesis using r by simp
  qed
  moreover have "n_head (t ! nat i) \<ge> 0" if "i \<in> ids t" "i \<noteq> 0" for i
    using tree.wf_head [of t i] assms(3) [OF that] that wf by (force simp: wf_tree_def)
  ultimately show ?thesis using wf assms(2) by (simp add: dependency_tree_def)
qed

end
