(* ===== verification/Transitions.thy ===== *)
theory Transitions
  imports Dependency_Tree "HOL-Library.Multiset"
begin

text \<open>
  The transition systems of Parsito: configurations (\<open>src/parsito/configuration/configuration.cpp\<close>),
  the six transitions (\<open>src/parsito/transition/transition.cpp\<close>) and the systems made of them
  (\<open>transition_system.cpp\<close>, \<open>transition_system_projective.cpp\<close>, \<open>transition_system_swap.cpp\<close>,
  \<open>transition_system_link2.cpp\<close>). The vectors \<open>stack\<close> and \<open>buffer\<close> are used at their back
  only: they are lists whose head is the back.
\<close>

section \<open>Configurations\<close>

record configuration =
  c_tree :: tree
  c_stack :: "int list"
  c_buffer :: "int list"
  c_single_root :: bool

definition conf_init :: "bool \<Rightarrow> tree \<Rightarrow> configuration" where
  "conf_init single_root t =
     (let t = unlink_all_nodes t in
      \<lparr>c_tree = t, c_stack = (if t \<noteq> [] then [0] else []), c_buffer = map int [1..<length t],
        c_single_root = single_root\<rparr>)"

definition conf_final :: "configuration \<Rightarrow> bool" where
  "conf_final c \<longleftrightarrow> c_buffer c = [] \<and> length (c_stack c) \<le> 1"

section \<open>Transitions\<close>

datatype transition =
    Shift
  | Swap
  | Left_Arc string
  | Right_Arc string
  | Left_Arc_2 string
  | Right_Arc_2 string

definition root_label :: string where
  "root_label = ''root''"

fun applicable :: "transition \<Rightarrow> configuration \<Rightarrow> bool" where
  "applicable Shift c \<longleftrightarrow> c_buffer c \<noteq> []"
| "applicable Swap c \<longleftrightarrow> length (c_stack c) \<ge> 2 \<and> c_stack c ! 1 \<noteq> 0 \<and> c_stack c ! 1 < c_stack c ! 0"
| "applicable (Left_Arc label) c \<longleftrightarrow>
     (if c_single_root c \<and> label = root_label then False
      else length (c_stack c) \<ge> 2 \<and> c_stack c ! 1 \<noteq> 0)"
| "applicable (Right_Arc label) c \<longleftrightarrow>
     (if c_single_root c \<and> label = root_label then length (c_stack c) = 2 \<and> c_buffer c = []
      else if c_single_root c then length (c_stack c) > 2
      else length (c_stack c) \<ge> 2)"
| "applicable (Left_Arc_2 label) c \<longleftrightarrow>
     (if c_single_root c \<and> label = root_label then False
      else length (c_stack c) \<ge> 3 \<and> c_stack c ! 2 \<noteq> 0)"
| "applicable (Right_Arc_2 label) c \<longleftrightarrow>
     (if c_single_root c \<and> label = root_label then False
      else if c_single_root c then length (c_stack c) \<ge> 4
      else length (c_stack c) \<ge> 3)"

text \<open>
  The effect of a transition, the linked child with it (-1 for none). A transition is performed
  only where it is applicable, which the code asserts: \<open>None\<close> is the failed assertion.
\<close>

fun effect :: "transition \<Rightarrow> configuration \<Rightarrow> configuration \<times> int" where
  "effect Shift c = (c\<lparr>c_stack := hd (c_buffer c) # c_stack c, c_buffer := tl (c_buffer c)\<rparr>, -1)"
| "effect Swap c =
     (let top = c_stack c ! 0; to_buffer = c_stack c ! 1
      in (c\<lparr>c_stack := top # drop 2 (c_stack c), c_buffer := to_buffer # c_buffer c\<rparr>, -1))"
| "effect (Left_Arc label) c =
     (let parent = c_stack c ! 0; child = c_stack c ! 1
      in (c\<lparr>c_stack := parent # drop 2 (c_stack c), c_tree := tree_set_head child parent label (c_tree c)\<rparr>, child))"
| "effect (Right_Arc label) c =
     (let child = c_stack c ! 0; parent = c_stack c ! 1
      in (c\<lparr>c_stack := drop 1 (c_stack c), c_tree := tree_set_head child parent label (c_tree c)\<rparr>, child))"
| "effect (Left_Arc_2 label) c =
     (let parent = c_stack c ! 0; ignore = c_stack c ! 1; child = c_stack c ! 2
      in (c\<lparr>c_stack := parent # ignore # drop 3 (c_stack c), c_tree := tree_set_head child parent label (c_tree c)\<rparr>, child))"
| "effect (Right_Arc_2 label) c =
     (let child = c_stack c ! 0; to_buffer = c_stack c ! 1; parent = c_stack c ! 2
      in (c\<lparr>c_stack := drop 2 (c_stack c), c_buffer := to_buffer # c_buffer c,
            c_tree := tree_set_head child parent label (c_tree c)\<rparr>, child))"

definition perform :: "transition \<Rightarrow> configuration \<Rightarrow> (configuration \<times> int) option" where
  "perform tr c = (if applicable tr c then Some (effect tr c) else None)"

section \<open>Transition systems\<close>

definition projective_system :: "string list \<Rightarrow> transition list" where
  "projective_system labels = Shift # concat (map (\<lambda>label. [Left_Arc label, Right_Arc label]) labels)"

definition swap_system :: "string list \<Rightarrow> transition list" where
  "swap_system labels = Shift # Swap # concat (map (\<lambda>label. [Left_Arc label, Right_Arc label]) labels)"

definition link2_system :: "string list \<Rightarrow> transition list" where
  "link2_system labels = Shift # concat (map (\<lambda>label.
     [Left_Arc label, Right_Arc label, Left_Arc_2 label, Right_Arc_2 label]) labels)"

definition create_system :: "string \<Rightarrow> string list \<Rightarrow> transition list option" where
  "create_system nm labels =
     (if nm = ''projective'' then Some (projective_system labels)
      else if nm = ''swap'' then Some (swap_system labels)
      else if nm = ''link2'' then Some (link2_system labels)
      else None)"

definition transition_count :: "transition list \<Rightarrow> nat" where
  "transition_count sys = length sys"

definition system_applicable :: "transition list \<Rightarrow> configuration \<Rightarrow> nat \<Rightarrow> bool" where
  "system_applicable sys c tr \<longleftrightarrow> tr < length sys \<and> applicable (sys ! tr) c"

definition system_perform :: "transition list \<Rightarrow> configuration \<Rightarrow> nat \<Rightarrow> (configuration \<times> int) option" where
  "system_perform sys c tr = (if tr < length sys then perform (sys ! tr) c else None)"

section \<open>Every run ends\<close>

text \<open>
  The words still to be linked, in the order of the sentence as the swaps have left it: the stack
  from its bottom, then the buffer. A swap turns an ascending pair of neighbours around, an arc
  removes a word, a shift moves the border.
\<close>

definition pending :: "configuration \<Rightarrow> int list" where
  "pending c = rev (c_stack c) @ c_buffer c"

fun ascending_pairs :: "int list \<Rightarrow> nat" where
  "ascending_pairs [] = 0"
| "ascending_pairs (x # xs) = length (filter (\<lambda>y. x < y) xs) + ascending_pairs xs"

lemma ascending_pairs_swap: "x < y \<Longrightarrow> ascending_pairs (xs @ y # x # ys) < ascending_pairs (xs @ x # y # ys)"
  by (induction xs) auto

definition conf_order :: "(configuration \<times> configuration) set" where
  "conf_order = measures [\<lambda>c. length (pending c), \<lambda>c. ascending_pairs (pending c), \<lambda>c. length (c_buffer c)]"

lemma wf_conf_order: "wf conf_order"
  by (simp add: conf_order_def)

lemma list_ge_2: "2 \<le> length xs \<Longrightarrow> \<exists>a b ys. xs = a # b # ys"
  by (cases xs; cases "tl xs") auto

lemma list_ge_3: "3 \<le> length xs \<Longrightarrow> \<exists>a b c ys. xs = a # b # c # ys"
  by (cases xs; cases "tl xs"; cases "tl (tl xs)") auto

text \<open>What an applicable transition finds on the stack.\<close>

lemma applicable_cases:
  assumes "applicable tr c"
  obtains (shift) b bs where "tr = Shift" "c_buffer c = b # bs"
  | (swap) a b st where "tr = Swap" "c_stack c = a # b # st" "b \<noteq> 0" "b < a"
  | (left) l a b st where "tr = Left_Arc l" "c_stack c = a # b # st" "b \<noteq> 0" "c_single_root c \<Longrightarrow> l \<noteq> root_label"
  | (right) l a b st where "tr = Right_Arc l" "c_stack c = a # b # st"
      "c_single_root c \<Longrightarrow> if l = root_label then st = [] \<and> c_buffer c = [] else st \<noteq> []"
  | (left2) l a b d st where "tr = Left_Arc_2 l" "c_stack c = a # b # d # st" "d \<noteq> 0" "c_single_root c \<Longrightarrow> l \<noteq> root_label"
  | (right2) l a b d st where "tr = Right_Arc_2 l" "c_stack c = a # b # d # st"
      "c_single_root c \<Longrightarrow> l \<noteq> root_label \<and> st \<noteq> []"
proof (cases tr)
  case Shift
  then show ?thesis using assms that(1) by (cases "c_buffer c") auto
next
  case Swap
  then obtain a b st where "c_stack c = a # b # st" using assms list_ge_2 [of "c_stack c"] by auto
  then show ?thesis using assms Swap that(2) by simp
next
  case (Left_Arc l)
  then obtain a b st where "c_stack c = a # b # st" using assms list_ge_2 [of "c_stack c"] by (auto split: if_splits)
  then show ?thesis using assms Left_Arc that(3) by (auto split: if_splits)
next
  case (Right_Arc l)
  then obtain a b st where "c_stack c = a # b # st" using assms list_ge_2 [of "c_stack c"] by (auto split: if_splits)
  then show ?thesis using assms Right_Arc that(4) by (auto split: if_splits)
next
  case (Left_Arc_2 l)
  then obtain a b d st where "c_stack c = a # b # d # st" using assms list_ge_3 [of "c_stack c"] by (auto split: if_splits)
  then show ?thesis using assms Left_Arc_2 that(5) by (auto split: if_splits)
next
  case (Right_Arc_2 l)
  then obtain a b d st where "c_stack c = a # b # d # st" using assms list_ge_3 [of "c_stack c"] by (auto split: if_splits)
  moreover from this have "c_single_root c \<Longrightarrow> l \<noteq> root_label \<and> st \<noteq> []"
    using assms Right_Arc_2 by (cases st) (auto split: if_splits)
  ultimately show ?thesis using Right_Arc_2 that(6) by blast
qed

lemma effect_decreases:
  assumes "applicable tr c"
  shows "(fst (effect tr c), c) \<in> conf_order"
  using assms
proof (cases rule: applicable_cases)
  case (swap a b st)
  then show ?thesis
    using ascending_pairs_swap [of b a "rev st" "c_buffer c"] by (simp add: conf_order_def pending_def Let_def)
qed (simp_all add: conf_order_def pending_def Let_def)

inductive conf_step :: "transition list \<Rightarrow> configuration \<Rightarrow> configuration \<Rightarrow> bool" for sys where
  conf_step: "system_perform sys c tr = Some (c', child) \<Longrightarrow> conf_step sys c c'"

inductive_cases conf_stepE: "conf_step sys c c'"

lemma system_perform_Some:
  "system_perform sys c tr = Some r \<longleftrightarrow> tr < length sys \<and> applicable (sys ! tr) c \<and> r = effect (sys ! tr) c"
  by (auto simp: system_perform_def perform_def)

lemma conf_step_effect: "conf_step sys c c' \<Longrightarrow> \<exists>tr \<in> set sys. applicable tr c \<and> c' = fst (effect tr c)"
  by (auto elim!: conf_stepE simp: system_perform_Some) (metis fst_conv nth_mem)

text \<open>
  C22: in every transition system the transitions are well-founded: there is no infinite sequence of
  applicable transitions, swaps and arcs over two words included.
\<close>

theorem transitions_terminate: "wf {(c', c). conf_step sys c c'}"
  by (rule wf_subset [OF wf_conf_order]) (auto dest!: conf_step_effect intro: effect_decreases)

section \<open>The invariant of a configuration\<close>

text \<open>
  The links form a forest; the root is at the bottom of the stack; the words without head are the
  ones on the stack and in the buffer, each there once.
\<close>

definition conf_wf :: "configuration \<Rightarrow> bool" where
  "conf_wf c \<longleftrightarrow> forest (c_tree c) \<and> c_stack c \<noteq> [] \<and> last (c_stack c) = 0 \<and>
     distinct (c_stack c @ c_buffer c) \<and>
     set (c_stack c @ c_buffer c) = {i \<in> ids (c_tree c). n_head (c_tree c ! nat i) = -1}"

text \<open>With a single root: the words under the root and the label \<open>root\<close>.\<close>

definition root_wf :: "configuration \<Rightarrow> bool" where
  "root_wf c \<longleftrightarrow> (c_single_root c \<longrightarrow>
     (\<forall>i \<in> ids (c_tree c). n_head (c_tree c ! nat i) \<noteq> -1 \<longrightarrow>
        (n_head (c_tree c ! nat i) = 0 \<longleftrightarrow> n_deprel (c_tree c ! nat i) = root_label)) \<and>
     (\<forall>i \<in> ids (c_tree c). n_head (c_tree c ! nat i) = 0 \<longrightarrow> conf_final c \<and>
        (\<forall>j \<in> ids (c_tree c). n_head (c_tree c ! nat j) = 0 \<longrightarrow> j = i)))"

text \<open>A transition that is not an arc keeps the words; an arc links one of them under another.\<close>

lemma effect_cases:
  assumes "applicable tr c" "conf_wf c"
  obtains (move) "c_tree (fst (effect tr c)) = c_tree c" "snd (effect tr c) = -1"
      "mset (c_stack (fst (effect tr c)) @ c_buffer (fst (effect tr c))) = mset (c_stack c @ c_buffer c)"
  | (arc) ch p l where "c_tree (fst (effect tr c)) = tree_set_head ch p l (c_tree c)" "snd (effect tr c) = ch"
      "mset (c_stack c @ c_buffer c) = add_mset ch (mset (c_stack (fst (effect tr c)) @ c_buffer (fst (effect tr c))))"
      "p \<in> set (c_stack (fst (effect tr c)))"
      "c_single_root c \<Longrightarrow> p = 0 \<longleftrightarrow> l = root_label" "c_single_root c \<Longrightarrow> p = 0 \<Longrightarrow> conf_final (fst (effect tr c))"
proof -
  have inv: "last (c_stack c) = 0" "distinct (c_stack c @ c_buffer c)" using assms(2) by (simp_all add: conf_wf_def)
  note p = arc [of _ _ "case tr of Left_Arc l \<Rightarrow> l | Right_Arc l \<Rightarrow> l | Left_Arc_2 l \<Rightarrow> l | Right_Arc_2 l \<Rightarrow> l | _ \<Rightarrow> []"]
  from assms(1) show ?thesis
  proof (cases rule: applicable_cases)
    case (shift b bs)
    then show ?thesis by (intro move) simp_all
  next
    case (swap a b st)
    then show ?thesis by (intro move) (simp_all add: Let_def)
  next
    case (left l a b st)
    then have "a \<noteq> 0" using inv last_in_set [of "b # st"] by auto
    then show ?thesis using left by (intro p [of b a]) (auto simp: Let_def)
  next
    case (right l a b st)
    then have "st \<noteq> [] \<Longrightarrow> b \<noteq> 0" "st = [] \<Longrightarrow> b = 0" using inv last_in_set [of st] by (auto split: if_splits)
    then show ?thesis using right by (intro p [of a b]) (auto simp: Let_def conf_final_def split: if_splits)
  next
    case (left2 l a b d st)
    then have "a \<noteq> 0" using inv last_in_set [of "b # d # st"] by auto
    then show ?thesis using left2 by (intro p [of d a]) (auto simp: Let_def)
  next
    case (right2 l a b d st)
    then have "st \<noteq> [] \<Longrightarrow> d \<noteq> 0" using inv last_in_set [of st] by (auto split: if_splits)
    then show ?thesis using right2 by (intro p [of a d]) (auto simp: Let_def)
  qed
qed

lemma effect_bottom:
  assumes "applicable tr c" "c_stack c \<noteq> []" "last (c_stack c) = 0"
  shows "c_stack (fst (effect tr c)) \<noteq> [] \<and> last (c_stack (fst (effect tr c))) = 0 \<and>
    c_single_root (fst (effect tr c)) = c_single_root c"
  using assms by (cases rule: applicable_cases) (auto simp: Let_def split: if_splits)

lemma pending_head: "conf_wf c \<Longrightarrow> i \<in> set (c_stack c @ c_buffer c) \<longleftrightarrow> i \<in> ids (c_tree c) \<and> n_head (c_tree c ! nat i) = -1"
  by (auto simp: conf_wf_def)

lemma effect_wf:
  assumes "applicable tr c" "conf_wf c"
  shows "conf_wf (fst (effect tr c)) \<and> length (c_tree (fst (effect tr c))) = length (c_tree c)"
proof -
  let ?c = "fst (effect tr c)"
  have bottom: "c_stack ?c \<noteq> [] \<and> last (c_stack ?c) = 0"
    using effect_bottom [OF assms(1)] assms(2) by (simp add: conf_wf_def)
  from assms show ?thesis
  proof (cases rule: effect_cases)
    case move
    from mset_eq_setD [OF move(3)] mset_eq_imp_distinct_iff [OF move(3)] show ?thesis
      using bottom assms(2) move(1) by (simp add: conf_wf_def)
  next
    case (arc ch p l)
    let ?old = "c_stack c @ c_buffer c" and ?new = "c_stack ?c @ c_buffer ?c"
    have new: "mset ?old = mset (ch # ?new)" using arc(3) by simp
    have "distinct ?old" using assms(2) by (simp add: conf_wf_def)
    then have dist: "distinct ?new" "ch \<notin> set ?new" using mset_eq_imp_distinct_iff [OF new] by auto
    have old: "set ?old = insert ch (set ?new)" using mset_eq_setD [OF new] by simp
    have ch: "ch \<in> ids (c_tree c)" "n_head (c_tree c ! nat ch) = -1" and p: "p \<in> ids (c_tree c)" "n_head (c_tree c ! nat p) = -1"
      using old pending_head [OF assms(2)] arc(4) by auto
    have "ch \<noteq> p" using dist(2) arc(4) by auto
    then have "forest (c_tree ?c)"
      using forest_set_head [OF _ ch(1) p(1) _ ch(2) p(2)] assms(2) unfolding arc(1) by (simp add: conf_wf_def)
    moreover have "set ?new = {i \<in> ids (c_tree ?c). n_head (c_tree ?c ! nat i) = -1}"
    proof -
      have pr: "-1 \<le> p" "p < int (length (c_tree c))" "p \<noteq> -1" using p(1) by (auto simp: ids_def)
      have wf: "wf_tree (c_tree c)" using assms(2) by (simp add: conf_wf_def forest_def)
      have "set ?new = set ?old - {ch}" using old dist(2) by auto
      also have "\<dots> = {i \<in> ids (c_tree c). n_head (c_tree c ! nat i) = -1} - {ch}"
        using assms(2) by (simp add: conf_wf_def)
      also have "\<dots> = {i \<in> ids (c_tree ?c). n_head (c_tree ?c ! nat i) = -1}"
        unfolding arc(1) using head_tree_set_head [OF wf ch(1) pr(1,2)] pr(3) by (auto split: if_splits)
      finally show ?thesis .
    qed
    ultimately show ?thesis using bottom dist(1) unfolding conf_wf_def arc(1) by simp
  qed
qed

lemma effect_root:
  assumes "applicable tr c" "conf_wf c" "root_wf c"
  shows "root_wf (fst (effect tr c))"
proof -
  let ?c = "fst (effect tr c)"
  have single: "c_single_root ?c = c_single_root c"
    using effect_bottom [OF assms(1)] assms(2) by (simp add: conf_wf_def)
  have nonfinal: "\<not> conf_final c" using assms(1) by (cases rule: applicable_cases) (auto simp: conf_final_def)
  from assms(1,2) show ?thesis
  proof (cases rule: effect_cases)
    case move
    then show ?thesis using assms(3) nonfinal by (auto simp: root_wf_def single)
  next
    case (arc ch p l)
    have wf: "wf_tree (c_tree c)" using assms(2) by (simp add: conf_wf_def forest_def)
    have "set (c_stack c @ c_buffer c) = insert ch (set (c_stack ?c @ c_buffer ?c))"
      using arc(3) mset_eq_setD [of "c_stack c @ c_buffer c" "ch # c_stack ?c @ c_buffer ?c"] by simp
    then have ch: "ch \<in> ids (c_tree c)" and p: "p \<in> ids (c_tree c)"
      using pending_head [OF assms(2)] arc(4) by auto
    then have pr: "-1 \<le> p" "p < int (length (c_tree c))" "p \<noteq> -1" by (auto simp: ids_def)
    note head = head_tree_set_head [OF wf ch pr(1,2)] and deprel = deprel_tree_set_head [OF wf ch pr(1,2), where d = l]
    show ?thesis
    proof (cases "c_single_root c")
      case True
      have no: "n_head (c_tree c ! nat i) \<noteq> 0" if "i \<in> ids (c_tree c)" for i
        using assms(3) True that nonfinal by (auto simp: root_wf_def)
      then show ?thesis
        using assms(3) True arc(5,6) pr(3) by (auto simp: root_wf_def single arc(1) head deprel)
    qed (simp add: root_wf_def single)
  qed
qed

lemma ids_conf_tree: "length t = length u \<Longrightarrow> ids t = ids u"
  by (simp add: ids_def)

lemma conf_init_wf:
  assumes "wf_tree t"
  shows "conf_wf (conf_init single_root t) \<and> root_wf (conf_init single_root t)"
proof -
  let ?t = "unlink_all_nodes t"
  have ne: "?t \<noteq> []" using assms by (metis length_0_conv length_unlink_nodes wf_tree_def)
  have head: "i \<in> ids ?t \<Longrightarrow> n_head (?t ! nat i) = -1" for i
    using head_unlink_nodes [of i t] by (simp add: ids_def)
  have "x \<in> int ` {1..<length t}" if "x \<in> ids ?t" "x \<noteq> 0" for x
    using that by (intro image_eqI [of _ _ "nat x"]) (auto simp: ids_def)
  moreover have "length t > 0" using assms by (simp add: wf_tree_def)
  ultimately have "set (map int [1..<length t]) = ids ?t - {0}" by (auto simp: ids_def)
  moreover have "0 \<in> ids ?t" using assms by (simp add: ids_def wf_tree_def)
  ultimately have "insert 0 (set (map int [1..<length t])) = {i \<in> ids ?t. n_head (?t ! nat i) = -1}"
    using head by blast
  moreover have "distinct (0 # map int [1..<length t])" by (auto simp: distinct_map)
  ultimately have "conf_wf (conf_init single_root t)"
    using ne forest_unlink [OF assms] by (simp add: conf_wf_def conf_init_def Let_def)
  moreover have "root_wf (conf_init single_root t)"
    using head by (auto simp: root_wf_def conf_init_def Let_def)
  ultimately show ?thesis by blast
qed

definition conf_inv :: "configuration \<Rightarrow> bool" where
  "conf_inv c \<longleftrightarrow> conf_wf c \<and> root_wf c"

lemma effect_inv:
  "applicable tr c \<Longrightarrow> conf_inv c \<Longrightarrow> conf_inv (fst (effect tr c)) \<and>
   length (c_tree (fst (effect tr c))) = length (c_tree c) \<and> c_single_root (fst (effect tr c)) = c_single_root c"
  using effect_wf [of tr c] effect_root [of tr c] effect_bottom [of tr c] by (simp add: conf_inv_def conf_wf_def)

text \<open>A final configuration holds a dependency tree; with a single root, one word is under the root.\<close>

lemma final_tree:
  assumes "conf_inv c" "conf_final c"
  shows "dependency_tree (c_tree c)"
proof -
  have "conf_wf c" using assms(1) by (simp add: conf_inv_def)
  moreover obtain r where "c_stack c = [r]" "c_buffer c = []"
    using assms(2) calculation by (cases "c_stack c") (auto simp: conf_final_def conf_wf_def)
  ultimately have "forest (c_tree c)" "{0} = {i \<in> ids (c_tree c). n_head (c_tree c ! nat i) = -1}"
    by (auto simp: conf_wf_def)
  moreover from this(2) have "0 \<in> {i \<in> ids (c_tree c). n_head (c_tree c ! nat i) = -1}" by blast
  ultimately show ?thesis by (intro forest_single_root) auto
qed

definition single_rooted :: "tree \<Rightarrow> bool" where
  "single_rooted t \<longleftrightarrow> (\<exists>!i. i \<in> ids t \<and> n_head (t ! nat i) = 0) \<and>
     (\<forall>i \<in> ids t. i \<noteq> 0 \<longrightarrow> (n_head (t ! nat i) = 0 \<longleftrightarrow> n_deprel (t ! nat i) = root_label))"

lemma reaches_last: "reaches t i r \<Longrightarrow> i \<noteq> r \<Longrightarrow> \<exists>j \<in> ids t. n_head (t ! nat j) = r"
  by (induction rule: reaches.induct) auto

lemma final_single_root:
  assumes "conf_inv c" "conf_final c" "c_single_root c" "length (c_tree c) > 1"
  shows "single_rooted (c_tree c)"
proof -
  have dep: "dependency_tree (c_tree c)" by (rule final_tree [OF assms(1,2)])
  have "1 \<in> ids (c_tree c)" using assms(4) by (simp add: ids_def)
  then have "reaches (c_tree c) 1 0" using dep by (simp add: dependency_tree_def)
  then obtain i where i: "i \<in> ids (c_tree c)" "n_head (c_tree c ! nat i) = 0"
    using reaches_last [of "c_tree c" 1 0] by auto
  have "\<forall>j \<in> ids (c_tree c). j \<noteq> 0 \<longrightarrow> n_head (c_tree c ! nat j) \<noteq> -1"
    using dep by (force simp: dependency_tree_def)
  then show ?thesis
    using assms(1,3) i unfolding single_rooted_def conf_inv_def root_wf_def by metis
qed

text \<open>
  C7: from the initial configuration of a well-formed tree on, whatever applicable transitions are
  taken, in whatever system, every final configuration holds a dependency tree over the same
  words; if a single root is asked for, one word is under the root, and it is the only one that
  bears the label \<open>root\<close>.
\<close>

theorem transitions_build_tree:
  assumes "wf_tree t" "(conf_step sys)\<^sup>*\<^sup>* (conf_init single_root t) c" "conf_final c"
  shows "dependency_tree (c_tree c) \<and> length (c_tree c) = length t \<and>
    (single_root \<and> length t > 1 \<longrightarrow> single_rooted (c_tree c))"
proof -
  from assms(2) have "conf_inv c \<and> length (c_tree c) = length t \<and> c_single_root c = single_root"
  proof (induction rule: rtranclp_induct)
    case base
    then show ?case
      using conf_init_wf [OF assms(1), of single_root] by (simp add: conf_inv_def conf_init_def Let_def)
  next
    case (step c c')
    then show ?case using conf_step_effect effect_inv by metis
  qed
  then show ?thesis using final_tree final_single_root assms(3) by auto
qed

lemma transitions_build_tree_witness:
  "let t = add_node ''a'' tree_clear; c = fst (effect (Right_Arc root_label) (fst (effect Shift (conf_init True t)))) in
   dependency_tree (c_tree c) \<and> single_rooted (c_tree c)"
proof -
  define t where "t = add_node ''a'' tree_clear"
  define c where "c = fst (effect Shift (conf_init True t))"
  define d where "d = fst (effect (Right_Arc root_label) c)"
  let ?sys = "projective_system [root_label]"
  have len: "length t = 2" by (simp add: t_def add_node_def tree_clear_def)
  then have ne: "unlink_all_nodes t \<noteq> []" by (metis length_unlink_nodes list.size(3) zero_neq_numeral)
  have init: "c_stack (conf_init True t) = [0]" "c_buffer (conf_init True t) = [1]" "c_single_root (conf_init True t)"
    using len ne by (simp_all add: conf_init_def Let_def upt_rec)
  then have c: "c_stack c = [1, 0]" "c_buffer c = []" "c_single_root c" by (simp_all add: c_def)
  have "conf_step ?sys (conf_init True t) c"
    by (rule conf_step.intros [of _ _ 0 _ "-1"]) (simp add: system_perform_Some projective_system_def init c_def)
  moreover have "conf_step ?sys c d"
    by (rule conf_step.intros [of _ _ 2 _ 1]) (simp add: system_perform_Some projective_system_def c d_def Let_def)
  ultimately have "(conf_step ?sys)\<^sup>*\<^sup>* (conf_init True t) d" by (meson converse_rtranclp_into_rtranclp rtranclp.rtrancl_refl)
  moreover have "conf_final d" by (simp add: d_def conf_final_def Let_def c)
  ultimately have "dependency_tree (c_tree d) \<and> length (c_tree d) = length t \<and> (True \<and> length t > 1 \<longrightarrow> single_rooted (c_tree d))"
    by (rule transitions_build_tree [OF wf_tree_add_node [OF wf_tree_clear, of "''a''", folded t_def]])
  then show ?thesis using len by (simp add: Let_def d_def c_def t_def)
qed

section \<open>Progress\<close>

text \<open>
  Some transition is applicable in every configuration that is not final, if there is a label; to
  end with a single root, the label \<open>root\<close> and another one are needed.
\<close>

definition labels_ok :: "bool \<Rightarrow> string list \<Rightarrow> bool" where
  "labels_ok single_root labels \<longleftrightarrow>
     (if single_root then root_label \<in> set labels \<and> (\<exists>l \<in> set labels. l \<noteq> root_label) else labels \<noteq> [])"

lemma create_system_members:
  "create_system nm labels = Some sys \<Longrightarrow> Shift \<in> set sys \<and> (\<forall>l \<in> set labels. Right_Arc l \<in> set sys)"
  by (auto simp: create_system_def projective_system_def swap_system_def link2_system_def split: if_splits)

text \<open>
  C21: the parser does not get stuck: in a configuration that is not final, one of the transitions
  of the system is applicable, provided the labels of the model allow for the root it asks for.
\<close>

theorem transitions_progress:
  assumes "create_system nm labels = Some sys" "labels_ok (c_single_root c) labels" "c_stack c \<noteq> []" "\<not> conf_final c"
  shows "\<exists>tr < transition_count sys. system_applicable sys c tr"
proof -
  have "\<exists>tr \<in> set sys. applicable tr c"
  proof (cases "c_buffer c")
    case (Cons b bs)
    then show ?thesis using create_system_members [OF assms(1)] by (intro bexI [of _ Shift]) auto
  next
    case Nil
    then have two: "length (c_stack c) \<ge> 2" using assms(3,4) by (auto simp: conf_final_def)
    obtain l where "l \<in> set labels" "c_single_root c \<longrightarrow> (l = root_label \<longleftrightarrow> length (c_stack c) = 2)"
      using assms(2) by (cases "c_single_root c"; cases "length (c_stack c) = 2") (auto simp: labels_ok_def neq_Nil_conv intro: that)
    then show ?thesis
      using create_system_members [OF assms(1)] two Nil by (intro bexI [of _ "Right_Arc l"]) auto
  qed
  then show ?thesis by (auto simp: system_applicable_def transition_count_def in_set_conv_nth)
qed

lemma transitions_progress_witness:
  "\<exists>tr < transition_count (link2_system [''root'', ''nsubj'']).
     system_applicable (link2_system [''root'', ''nsubj'']) (conf_init True (add_node ''a'' tree_clear)) tr"
proof -
  have "c_stack (conf_init True (add_node ''a'' tree_clear)) \<noteq> []" "c_single_root (conf_init True (add_node ''a'' tree_clear))"
    "\<not> conf_final (conf_init True (add_node ''a'' tree_clear))"
    by (simp_all add: conf_init_def Let_def conf_final_def tree_clear_def add_node_def upd_def mk_node_def unlink_all_nodes_def)
  then show ?thesis
    by (intro transitions_progress [of "''link2''" "[''root'', ''nsubj'']"])
      (simp_all add: create_system_def labels_ok_def root_label_def)
qed

text \<open>
  With the label \<open>root\<close> alone and a single root, a sentence of two words can reach a
  configuration that is not final and in which no transition is applicable: the parser then
  performs the transition of index -1.
\<close>

theorem transitions_stuck:
  "\<exists>c. (conf_step (projective_system [root_label]))\<^sup>*\<^sup>* (conf_init True (add_node ''b'' (add_node ''a'' tree_clear))) c \<and>
     \<not> conf_final c \<and> (\<forall>tr. \<not> system_applicable (projective_system [root_label]) c tr)"
proof -
  let ?sys = "projective_system [root_label]"
  define t where "t = unlink_all_nodes (add_node ''b'' (add_node ''a'' tree_clear))"
  let ?c = "\<lambda>st b. \<lparr>c_tree = t, c_stack = st, c_buffer = b, c_single_root = True\<rparr>"
  have len: "length t = 3" by (simp add: t_def add_node_def tree_clear_def)
  then have "t \<noteq> []" by auto
  with len have init: "conf_init True (add_node ''b'' (add_node ''a'' tree_clear)) = ?c [0] [1, 2]"
    by (simp add: conf_init_def t_def [symmetric] Let_def upt_rec)
  have shift: "conf_step ?sys (?c st (b # bs)) (?c (b # st) bs)" for st b bs
    by (rule conf_step.intros [of _ _ 0 _ "-1"]) (simp add: system_perform_Some projective_system_def)
  have "(conf_step ?sys)\<^sup>*\<^sup>* (?c [0] [1, 2]) (?c [2, 1, 0] [])"
    using shift [of "[0]" 1 "[2]"] shift [of "[1, 0]" 2 "[]"] by (meson converse_rtranclp_into_rtranclp rtranclp.rtrancl_refl)
  moreover have "\<not> system_applicable ?sys (?c [2, 1, 0] []) tr" for tr
    by (cases tr; cases "tr - 1"; cases "tr - 2") (auto simp: projective_system_def system_applicable_def)
  ultimately show ?thesis unfolding init by (intro exI [of _ "?c [2, 1, 0] []"]) (simp add: conf_final_def)
qed

end
