(* ===== verification/Extractors.thy ===== *)
theory Extractors
  imports Transitions
begin

text \<open>
  What the parser looks at: \<open>src/parsito/configuration/node_extractor.cpp\<close> picks nodes of a
  configuration by selectors such as \<open>stack 0,child -1\<close>, and \<open>value_extractor.cpp\<close> picks a column
  of a node. Both read their description from the model.
\<close>

section \<open>Nodes\<close>

datatype start = Stack_Start | Buffer_Start
datatype direction = Parent_Direction | Child_Direction int

record node_selector =
  ns_start :: "start \<times> int"
  ns_directions :: "direction list"

text \<open>
  The element \<open>k\<close> from the back of a vector, -1 when there are not so many. The code compares
  only with the size: a negative \<open>k\<close> reads behind the vector, which is \<open>None\<close> here.
\<close>

definition from_back :: "int list \<Rightarrow> int \<Rightarrow> int option" where
  "from_back xs k = (if k < int (length xs) then if k < 0 then None else Some (xs ! nat k) else Some (-1))"

definition start_node :: "configuration \<Rightarrow> start \<times> int \<Rightarrow> int option" where
  "start_node c = (\<lambda>(start, k). case start of Stack_Start \<Rightarrow> from_back (c_stack c) k | Buffer_Start \<Rightarrow> from_back (c_buffer c) k)"

definition select_child :: "int list \<Rightarrow> int \<Rightarrow> int" where
  "select_child cs k =
     (if k \<ge> 0 \<and> k < int (length cs) then cs ! nat k
      else if k < 0 \<and> -k \<le> int (length cs) then cs ! nat (int (length cs) + k)
      else -1)"

fun follow :: "tree \<Rightarrow> direction list \<Rightarrow> int \<Rightarrow> int" where
  "follow t [] current = current"
| "follow t (direction # directions) current =
     (let node = t ! nat current;
          current = (case direction of Parent_Direction \<Rightarrow> if n_head node \<noteq> 0 then n_head node else -1
            | Child_Direction k \<Rightarrow> select_child (n_children node) k)
      in if current \<le> 0 then current else follow t directions current)"

definition extract_node :: "configuration \<Rightarrow> node_selector \<Rightarrow> int option" where
  "extract_node c selector = (case start_node c (ns_start selector) of None \<Rightarrow> None
     | Some current \<Rightarrow> Some (if current \<ge> 0 then follow (c_tree c) (ns_directions selector) current else current))"

fun extract_nodes :: "configuration \<Rightarrow> node_selector list \<Rightarrow> int list option" where
  "extract_nodes c [] = Some []"
| "extract_nodes c (s # ss) = (case extract_node c s of None \<Rightarrow> None
     | Some n \<Rightarrow> map_option ((#) n) (extract_nodes c ss))"

text \<open>Reading the description: one selector per line, comments and empty lines left out.\<close>

definition on_line :: "string \<Rightarrow> string" where
  "on_line line = '' on line '' @ quote1 # line @ ''.!''"

definition read_direction :: "string \<Rightarrow> string \<Rightarrow> direction result" where
  "read_direction line part =
     (let words = split part (CHR '' '') in
      if words = [] then Inl (''Empty node selector on line '' @ quote1 # line @ ''.!'')
      else if words ! 0 = ''parent'' then
        if length words \<noteq> 1 then
          Inl (''The node selector '' @ quoted part @ '' on line '' @ quoted line @ '' does not contain one space separated value!'')
        else Inr Parent_Direction
      else if words ! 0 = ''child'' then
        if length words \<noteq> 2 then
          Inl (''The node selector '' @ quoted part @ '' on line '' @ quoted line @ '' does not contain two space separated values!'')
        else map_sum (\<lambda>e. e) Child_Direction (parse_int (words ! 1) ''child index'')
      else Inl (''Cannot parse direction location '' @ quoted (words ! 0) @ on_line line))"

fun read_directions :: "string \<Rightarrow> string list \<Rightarrow> direction list result" where
  "read_directions line [] = Inr []"
| "read_directions line (part # parts) = (case read_direction line part of Inl e \<Rightarrow> Inl e
     | Inr d \<Rightarrow> map_sum (\<lambda>e. e) ((#) d) (read_directions line parts))"

definition read_start :: "string \<Rightarrow> string \<Rightarrow> (start \<times> int) result" where
  "read_start line part =
     (let words = split part (CHR '' '') in
      if length words \<noteq> 2 then
        Inl (''The node selector '' @ quoted part @ '' on line '' @ quoted line @ '' does not contain two space separated values!'')
      else if words ! 0 = ''stack'' then map_sum (\<lambda>e. e) (Pair Stack_Start) (parse_int (words ! 1) ''starting index'')
      else if words ! 0 = ''buffer'' then map_sum (\<lambda>e. e) (Pair Buffer_Start) (parse_int (words ! 1) ''starting index'')
      else Inl (''Cannot parse starting location '' @ quoted (words ! 0) @ on_line line))"

definition read_selector :: "string \<Rightarrow> node_selector result" where
  "read_selector line =
     (let parts = split line (CHR '','') in
      case read_start line (parts ! 0) of Inl e \<Rightarrow> Inl e
      | Inr start \<Rightarrow> map_sum (\<lambda>e. e) (\<lambda>ds. \<lparr>ns_start = start, ns_directions = ds\<rparr>) (read_directions line (tl parts)))"

fun read_selectors :: "string list \<Rightarrow> node_selector list result" where
  "read_selectors [] = Inr []"
| "read_selectors (line # lines) =
     (if line = [] \<or> hd line = CHR ''#'' then read_selectors lines
      else case read_selector line of Inl e \<Rightarrow> Inl e
      | Inr s \<Rightarrow> map_sum (\<lambda>e. e) ((#) s) (read_selectors lines))"

definition create_node_extractor :: "string \<Rightarrow> node_selector list result" where
  "create_node_extractor description = read_selectors (split description lf)"

section \<open>Values\<close>

datatype value_selector =
    Form_Value | Lemma_Value | Lemma_Id_Value | Tag_Value | Universal_Tag_Value | Feats_Value
  | Universal_Tag_Feats_Value | Deprel_Value

text \<open>\<open>string::find\<close> of a text, from a position on.\<close>

function find_text :: "string \<Rightarrow> string \<Rightarrow> nat \<Rightarrow> nat option" where
  "find_text needle s p =
     (if p + length needle > length s then None
      else if take (length needle) (drop p s) = needle then Some p
      else find_text needle s (p + 1))"
  by pat_completeness auto
termination
  by (relation "measure (\<lambda>(needle, s, p). Suc (length s) - p)") auto

declare find_text.simps [simp del]

definition extract_value :: "value_selector \<Rightarrow> tree_node \<Rightarrow> string" where
  "extract_value selector n =
     (case selector of
        Form_Value \<Rightarrow> n_form n
      | Lemma_Value \<Rightarrow> n_lemma n
      | Lemma_Id_Value \<Rightarrow>
          (case find_text ''LId='' (n_misc n) 0 of None \<Rightarrow> n_lemma n
           | Some p \<Rightarrow>
             (let lid = p + 4;
                  lid_end = (case str_find (CHR ''|'') (n_misc n) lid of None \<Rightarrow> length (n_misc n) | Some e \<Rightarrow> e)
              in take (lid_end - lid) (drop lid (n_misc n))))
      | Tag_Value \<Rightarrow> n_xpostag n
      | Universal_Tag_Value \<Rightarrow> n_upostag n
      | Feats_Value \<Rightarrow> n_feats n
      | Universal_Tag_Feats_Value \<Rightarrow> n_upostag n @ n_feats n
      | Deprel_Value \<Rightarrow> n_deprel n)"

definition create_value_extractor :: "string \<Rightarrow> value_selector result" where
  "create_value_extractor description =
     (if description = ''form'' then Inr Form_Value
      else if description = ''lemma'' then Inr Lemma_Value
      else if description = ''lemma_id'' then Inr Lemma_Id_Value
      else if description = ''tag'' then Inr Tag_Value
      else if description = ''universal_tag'' then Inr Universal_Tag_Value
      else if description = ''feats'' then Inr Feats_Value
      else if description = ''universal_tag_feats'' then Inr Universal_Tag_Feats_Value
      else if description = ''deprel'' then Inr Deprel_Value
      else Inl (''Cannot parse value selector '' @ quoted description @ ''!''))"

section \<open>The nodes stay in the tree\<close>

definition node_or_none :: "tree \<Rightarrow> int \<Rightarrow> bool" where
  "node_or_none t i \<longleftrightarrow> i = -1 \<or> i \<in> ids t"

lemma select_child_member: "select_child cs k = -1 \<or> select_child cs k \<in> set cs"
  by (auto simp: select_child_def)

lemma follow_range: "wf_tree t \<Longrightarrow> current \<in> ids t \<Longrightarrow> node_or_none t (follow t ds current)"
proof (induction ds arbitrary: current)
  case Nil
  then show ?case by (simp add: node_or_none_def)
next
  case (Cons d ds)
  have wf: "tree.wf t" using Cons.prems(1) by (simp add: wf_tree_def)
  let ?n = "t ! nat current"
  let ?next = "case d of Parent_Direction \<Rightarrow> if n_head ?n \<noteq> 0 then n_head ?n else -1 | Child_Direction k \<Rightarrow> select_child (n_children ?n) k"
  have "node_or_none t ?next"
  proof (cases d)
    case Parent_Direction
    then show ?thesis using tree.wf_head [OF wf Cons.prems(2)] by (auto simp: node_or_none_def ids_def)
  next
    case (Child_Direction k)
    then show ?thesis
      using tree.wf_children [OF wf Cons.prems(2)] select_child_member [of "n_children ?n" k] by (auto simp: node_or_none_def)
  qed
  moreover have "follow t (d # ds) current = (if ?next \<le> 0 then ?next else follow t ds ?next)"
    by (simp only: follow.simps Let_def)
  moreover have "?next \<in> ids t" if "\<not> ?next \<le> 0" using that calculation(1) by (auto simp: node_or_none_def)
  ultimately show ?case using Cons.IH [OF Cons.prems(1)] by presburger
qed

lemma extract_node_range:
  assumes "conf_wf c" "snd (ns_start s) \<ge> 0"
  shows "\<exists>n. extract_node c s = Some n \<and> node_or_none (c_tree c) n"
proof -
  obtain st k where start: "ns_start s = (st, k)" by (cases "ns_start s")
  have sub: "set (c_stack c) \<subseteq> ids (c_tree c)" "set (c_buffer c) \<subseteq> ids (c_tree c)" using assms(1) by (auto simp: conf_wf_def)
  have from_end: "\<exists>n. from_back xs k = Some n \<and> node_or_none (c_tree c) n" if "set xs \<subseteq> ids (c_tree c)" for xs
  proof (cases "k < int (length xs)")
    case True
    then have "nat k < length xs" using assms(2) by (simp add: start)
    then have "xs ! nat k \<in> ids (c_tree c)" using that nth_mem by blast
    then show ?thesis using True assms(2) by (simp add: start from_back_def node_or_none_def)
  qed (simp add: from_back_def node_or_none_def)
  have "\<exists>n. start_node c (ns_start s) = Some n \<and> node_or_none (c_tree c) n"
    using from_end [OF sub(1)] from_end [OF sub(2)] by (cases st) (simp_all add: start start_node_def)
  then obtain n where n: "start_node c (ns_start s) = Some n" "node_or_none (c_tree c) n" by blast
  moreover have "wf_tree (c_tree c)" using assms(1) by (simp add: conf_wf_def forest_def)
  ultimately show ?thesis
    using follow_range by (auto simp: extract_node_def node_or_none_def)
qed

text \<open>
  In a reachable configuration, selectors with start indices that are not negative pick one
  node each, and every node picked is -1 or a node of the tree, so that the table of embeddings is
  not read outside its bounds.
\<close>

theorem extract_nodes_range:
  assumes "conf_wf c" "\<forall>s \<in> set ss. snd (ns_start s) \<ge> 0"
  shows "\<exists>ns. extract_nodes c ss = Some ns \<and> length ns = length ss \<and>
    (\<forall>n \<in> set ns. n = -1 \<or> 0 \<le> n \<and> n < int (length (c_tree c)))"
  using assms(2)
proof (induction ss)
  case (Cons s ss)
  then obtain ns where "extract_nodes c ss = Some ns" "length ns = length ss"
      "\<forall>n \<in> set ns. n = -1 \<or> 0 \<le> n \<and> n < int (length (c_tree c))" by auto
  moreover obtain n where "extract_node c s = Some n" "node_or_none (c_tree c) n"
    using extract_node_range [OF assms(1)] Cons.prems by auto
  ultimately show ?case by (auto simp: node_or_none_def ids_def)
qed simp

lemma extract_nodes_range_witness:
  "\<exists>ns. extract_nodes (conf_init False (add_node ''a'' tree_clear))
     [\<lparr>ns_start = (Buffer_Start, 0), ns_directions = [Parent_Direction, Child_Direction (-1)]\<rparr>] = Some ns \<and> length ns = 1"
  using extract_nodes_range [of "conf_init False (add_node ''a'' tree_clear)"
      "[\<lparr>ns_start = (Buffer_Start, 0), ns_directions = [Parent_Direction, Child_Direction (-1)]\<rparr>]"]
    conf_init_wf [OF wf_tree_add_node [OF wf_tree_clear, of "''a''"], of False]
  by auto

text \<open>A negative start index, which the description may hold, reads behind the end of the stack.\<close>

theorem extract_negative:
  "\<exists>s. create_node_extractor ''stack -1'' = Inr [s] \<and> (\<forall>c. extract_nodes c [s] = None)"
proof -
  have "create_node_extractor ''stack -1'' = Inr [\<lparr>ns_start = (Stack_Start, -1), ns_directions = []\<rparr>]"
    by code_simp
  then show ?thesis by (simp add: extract_node_def start_node_def from_back_def)
qed

section \<open>Descriptions\<close>

text \<open>How a list of selectors is written down.\<close>

definition show_direction :: "direction \<Rightarrow> string" where
  "show_direction d = (case d of Parent_Direction \<Rightarrow> ''parent'' | Child_Direction k \<Rightarrow> ''child '' @ show_int k)"

definition show_start :: "start \<times> int \<Rightarrow> string" where
  "show_start = (\<lambda>(s, k). (case s of Stack_Start \<Rightarrow> ''stack '' | Buffer_Start \<Rightarrow> ''buffer '') @ show_int k)"

definition show_selector :: "node_selector \<Rightarrow> string" where
  "show_selector s = join (CHR '','') (show_start (ns_start s) # map show_direction (ns_directions s))"

definition selector_ok :: "node_selector \<Rightarrow> bool" where
  "selector_ok s \<longleftrightarrow> in_int_range (snd (ns_start s)) \<and>
     (\<forall>d \<in> set (ns_directions s). case d of Parent_Direction \<Rightarrow> True | Child_Direction k \<Rightarrow> in_int_range k)"

lemma show_int_chars: "c \<in> set (show_int k) \<Longrightarrow> is_digit c \<or> c = CHR ''-''"
  by (auto simp: show_int_def show_nat_digits split: if_splits)

lemma not_in_show_int [simp]: "\<not> is_digit c \<Longrightarrow> c \<noteq> CHR ''-'' \<Longrightarrow> c \<notin> set (show_int k)"
  using show_int_chars by blast

lemma separators_not_digits [simp]: "\<not> is_digit (CHR '' '')" "\<not> is_digit (CHR '','')" "\<not> is_digit lf"
  by (simp_all add: is_digit_def)

lemma show_int_not_Nil [simp]: "show_int k \<noteq> []"
  by (simp add: show_int_def)

lemma split_two: "CHR '' '' \<notin> set p \<Longrightarrow> p \<noteq> [] \<Longrightarrow> split (p @ CHR '' '' # show_int k) (CHR '' '') = [p, show_int k]"
  by (simp add: split_def)

lemma read_show_direction:
  "(case d of Parent_Direction \<Rightarrow> True | Child_Direction k \<Rightarrow> in_int_range k) \<Longrightarrow> read_direction line (show_direction d) = Inr d"
  using split_two [of "''child''"]
  by (cases d) (simp_all add: show_direction_def read_direction_def parse_show_int split_def)

lemma read_show_start: "in_int_range (snd s) \<Longrightarrow> read_start line (show_start s) = Inr s"
  using split_two [of "''stack''"] split_two [of "''buffer''"]
  by (cases s; cases "fst s") (simp_all add: show_start_def read_start_def parse_show_int)

lemma read_show_directions:
  "\<forall>d \<in> set ds. case d of Parent_Direction \<Rightarrow> True | Child_Direction k \<Rightarrow> in_int_range k \<Longrightarrow>
   read_directions line (map show_direction ds) = Inr ds"
  by (induction ds) (simp_all add: read_show_direction)

lemma show_parts_chars:
  "p \<in> set (show_start s # map show_direction ds) \<Longrightarrow> CHR '','' \<notin> set p \<and> lf \<notin> set p"
  by (auto simp: show_start_def show_direction_def split: prod.splits start.splits direction.splits)

lemma show_selector_head: "\<exists>c r. show_selector s = c # r \<and> c \<noteq> CHR ''#''"
  by (cases "ns_start s"; cases "ns_directions s") (auto simp: show_selector_def show_start_def join_Cons split: start.split)

lemma join_chars: "c \<in> set (join sep ps) \<Longrightarrow> c = sep \<or> (\<exists>p \<in> set ps. c \<in> set p)"
  by (induction sep ps rule: join.induct) auto

lemma show_selector_no_lf: "lf \<notin> set (show_selector s)"
proof
  assume "lf \<in> set (show_selector s)"
  then have "lf \<in> set (join (CHR '','') (show_start (ns_start s) # map show_direction (ns_directions s)))"
    by (simp only: show_selector_def)
  then obtain p where "p \<in> set (show_start (ns_start s) # map show_direction (ns_directions s))" "lf \<in> set p"
    by (auto dest!: join_chars)
  then show False using show_parts_chars by blast
qed

lemma read_show_selector:
  assumes "selector_ok s"
  shows "read_selector (show_selector s) = Inr s"
proof -
  let ?ps = "show_start (ns_start s) # map show_direction (ns_directions s)"
  have "?ps \<noteq> [[]]" by (auto simp: show_start_def split: prod.splits start.splits)
  then have "split (show_selector s) (CHR '','') = ?ps"
    unfolding show_selector_def using show_parts_chars by (intro split_join) blast+
  then show ?thesis
    using assms read_show_start [of "ns_start s"] read_show_directions [of "ns_directions s"]
    by (simp add: read_selector_def selector_ok_def)
qed

lemma read_show_selectors: "\<forall>s \<in> set ss. selector_ok s \<Longrightarrow> read_selectors (map show_selector ss) = Inr ss"
proof (induction ss)
  case (Cons s ss)
  then show ?case using show_selector_head [of s] read_show_selector [of s] by auto
qed simp

text \<open>
  The description of a list of selectors is read back as that list: the parser that loads a
  model looks at the nodes the trainer was told to look at.
\<close>

theorem node_extractor_roundtrip:
  assumes "\<forall>s \<in> set ss. selector_ok s"
  shows "create_node_extractor (join lf (map show_selector ss)) = Inr ss"
proof (cases "ss = []")
  case True
  then show ?thesis by (simp add: create_node_extractor_def split_def)
next
  case False
  moreover have "show_selector s \<noteq> []" for s using show_selector_head [of s] by auto
  then have "map show_selector ss \<noteq> [[]]" by (cases ss) auto
  ultimately have "split (join lf (map show_selector ss)) lf = map show_selector ss"
    using show_selector_no_lf by (intro split_join) auto
  then show ?thesis using read_show_selectors [OF assms] by (simp add: create_node_extractor_def)
qed

lemma node_extractor_roundtrip_witness:
  "create_node_extractor (join lf (map show_selector [\<lparr>ns_start = (Stack_Start, 0), ns_directions = [Child_Direction (-1), Parent_Direction]\<rparr>]))
     = Inr [\<lparr>ns_start = (Stack_Start, 0), ns_directions = [Child_Direction (-1), Parent_Direction]\<rparr>]"
  by (rule node_extractor_roundtrip) (simp add: selector_ok_def in_int_range_def int_max_def int_min_def)

end
