(* ===== verification/Utf8.thy ===== *)
theory Utf8
  imports Prelude
begin

text \<open>
  The UTF-8 coder of \<open>src/unilib/utf8.h\<close> and \<open>utf8.cpp\<close>. A code point (\<open>char32_t\<close>) is a
  \<open>nat\<close>; the C++ shifts and masks are \<open>push_bit\<close>, \<open>drop_bit\<close> and \<open>AND\<close>, and a narrowing
  to \<open>char\<close> is \<open>char_of\<close>, which reduces modulo 256. The pointer-and-length functions work on
  the byte list they are given; the functions on a NUL-terminated string work on the bytes in
  front of the first NUL (\<open>c_str\<close>).
\<close>

unbundle bit_operations_syntax

section \<open>Model\<close>

definition replacement_char :: nat where
  "replacement_char = byte_of (CHR ''?'')"

definition utf8_cont :: "char \<Rightarrow> bool" where
  "utf8_cont c \<longleftrightarrow> \<not> (byte_of c < 0x80 \<or> byte_of c \<ge> 0xC0)"

text \<open>
  A continuation byte: its six payload bits and the rest, or nothing where the input ends or
  another kind of byte follows (which is then not consumed).
\<close>

fun cont_byte :: "string \<Rightarrow> (nat \<times> string) option" where
  "cont_byte [] = None"
| "cont_byte (c # s) = (if utf8_cont c then Some (byte_of c AND 0x3F, s) else None)"

fun utf8_decode :: "string \<Rightarrow> nat \<times> string" where
  "utf8_decode [] = (0, [])"
| "utf8_decode (c # s) =
     (let b = byte_of c in
      if b < 0x80 then (b, s)
      else if b < 0xC0 then (replacement_char, s)
      else if b < 0xE0 then
        (case cont_byte s of None \<Rightarrow> (replacement_char, s)
         | Some (x1, s) \<Rightarrow> (push_bit 6 (b AND 0x1F) + x1, s))
      else if b < 0xF0 then
        (case cont_byte s of None \<Rightarrow> (replacement_char, s)
         | Some (x1, s) \<Rightarrow>
        (case cont_byte s of None \<Rightarrow> (replacement_char, s)
         | Some (x2, s) \<Rightarrow> (push_bit 12 (b AND 0x0F) + push_bit 6 x1 + x2, s)))
      else if b < 0xF8 then
        (case cont_byte s of None \<Rightarrow> (replacement_char, s)
         | Some (x1, s) \<Rightarrow>
        (case cont_byte s of None \<Rightarrow> (replacement_char, s)
         | Some (x2, s) \<Rightarrow>
        (case cont_byte s of None \<Rightarrow> (replacement_char, s)
         | Some (x3, s) \<Rightarrow>
             (push_bit 18 (b AND 0x07) + push_bit 12 x1 + push_bit 6 x2 + x3, s))))
      else (replacement_char, s))"

definition utf8_append :: "nat \<Rightarrow> string" where
  "utf8_append chr =
     (if chr < 0x80 then [char_of chr]
      else if chr < 0x800 then [char_of (0xC0 + drop_bit 6 chr), char_of (0x80 + (chr AND 0x3F))]
      else if chr < 0x10000 then
        [char_of (0xE0 + drop_bit 12 chr), char_of (0x80 + (drop_bit 6 chr AND 0x3F)),
         char_of (0x80 + (chr AND 0x3F))]
      else if chr < 0x200000 then
        [char_of (0xF0 + drop_bit 18 chr), char_of (0x80 + (drop_bit 12 chr AND 0x3F)),
         char_of (0x80 + (drop_bit 6 chr AND 0x3F)), char_of (0x80 + (chr AND 0x3F))]
      else [char_of replacement_char])"

lemma cont_byte_length: "cont_byte s = Some (x, s') \<Longrightarrow> length s' < length s"
  by (cases s) (auto split: if_splits)

lemma utf8_decode_length: "s \<noteq> [] \<Longrightarrow> length (snd (utf8_decode s)) < length s"
  by (cases s) (auto simp: Let_def dest!: cont_byte_length split: option.splits)

function utf8_decode_all :: "string \<Rightarrow> nat list" where
  "utf8_decode_all s =
     (if s = [] then [] else (case utf8_decode s of (chr, s') \<Rightarrow> chr # utf8_decode_all s'))"
  by pat_completeness auto
termination
  by (relation "measure length") (auto dest!: utf8_decode_length, metis snd_conv)

definition c_str :: "string \<Rightarrow> string" where
  "c_str = takeWhile (\<lambda>c. c \<noteq> CHR 0x00)"

text \<open>
  The loops over a NUL-terminated string stop at the first code point 0, which the terminator
  yields and, before it, an overlong encoding of 0.
\<close>

definition utf8_decode_cstr :: "string \<Rightarrow> nat list" where
  "utf8_decode_cstr s = takeWhile (\<lambda>chr. chr \<noteq> 0) (utf8_decode_all (c_str s))"

definition utf8_encode :: "nat list \<Rightarrow> string" where
  "utf8_encode chrs = concat (map utf8_append chrs)"

function utf8_map :: "(nat \<Rightarrow> nat) \<Rightarrow> string \<Rightarrow> string" where
  "utf8_map f s =
     (if s = [] then [] else (case utf8_decode s of (chr, s') \<Rightarrow> utf8_append (f chr) @ utf8_map f s'))"
  by pat_completeness auto
termination
  by (relation "measure (length \<circ> snd)") (auto dest!: utf8_decode_length, metis snd_conv)

definition utf8_map_cstr :: "(nat \<Rightarrow> nat) \<Rightarrow> string \<Rightarrow> string" where
  "utf8_map_cstr f s = utf8_encode (map f (utf8_decode_cstr s))"

fun utf8_valid :: "string \<Rightarrow> bool" where
  "utf8_valid [] = True"
| "utf8_valid (c # s) =
     (let b = byte_of c in
      if b \<ge> 0x80 then
        (if b < 0xC0 then False
         else if b < 0xE0 then (case s of c1 # s \<Rightarrow> utf8_cont c1 \<and> utf8_valid s | _ \<Rightarrow> False)
         else if b < 0xF0 then
           (case s of c1 # c2 # s \<Rightarrow> utf8_cont c1 \<and> utf8_cont c2 \<and> utf8_valid s | _ \<Rightarrow> False)
         else if b < 0xF8 then
           (case s of c1 # c2 # c3 # s \<Rightarrow> utf8_cont c1 \<and> utf8_cont c2 \<and> utf8_cont c3 \<and> utf8_valid s
            | _ \<Rightarrow> False)
         else False)
      else utf8_valid s)"

definition utf8_valid_cstr :: "string \<Rightarrow> bool" where
  "utf8_valid_cstr s = utf8_valid (c_str s)"

declare utf8_decode_all.simps [simp del] utf8_map.simps [simp del]

section \<open>Masks and shifts as arithmetic\<close>

lemma mask_nat [text_simps]:
  "(n::nat) AND 0x1F = n mod 32" "n AND 0x0F = n mod 16" "n AND 0x07 = n mod 8" "n AND 0x3F = n mod 64"
  using take_bit_eq_mask [of 5 n] take_bit_eq_mask [of 4 n] take_bit_eq_mask [of 3 n]
    take_bit_eq_mask [of 6 n]
  by (simp_all add: take_bit_eq_mod mask_eq_exp_minus_1)

lemma shift_nat [text_simps]:
  "push_bit 6 (n::nat) = n * 64" "push_bit 12 n = n * 4096" "push_bit 18 n = n * 262144"
  "drop_bit 6 n = n div 64" "drop_bit 12 n = n div 4096" "drop_bit 18 n = n div 262144"
  by (simp_all add: push_bit_eq_mult drop_bit_eq_div)

lemma byte_of_char_of [simp]: "n < 256 \<Longrightarrow> byte_of (char_of n) = n"
  by simp

lemma add_mod_base [simp]: "m dvd k \<Longrightarrow> x < m \<Longrightarrow> (k + x) mod m = (x::nat)"
  by (auto elim!: dvdE)

lemma utf8_cont_char_of [simp]: "(x::nat) < 64 \<Longrightarrow> utf8_cont (char_of (0x80 + x))"
  by (simp add: utf8_cont_def)

section \<open>Lemmas\<close>

text \<open>Appending a code point and decoding it again.\<close>

lemma cont_byte_char_of [simp]: "x < 64 \<Longrightarrow> cont_byte (char_of (0x80 + x) # s) = Some (x, s)"
  by (simp add: text_simps)

lemma base64_2: "n = n div 64 * 64 + n mod (64::nat)"
  by simp

lemma base64_3: "(n::nat) div 4096 * 4096 + (n div 64 mod 64) * 64 + n mod 64 = n"
proof -
  have "n div 4096 = n div 64 div 64" by (simp add: div_mult2_eq [symmetric])
  then show ?thesis using base64_2 [of n] base64_2 [of "n div 64"] by linarith
qed

lemma base64_4: "(n::nat) div 262144 * 262144 + (n div 4096 mod 64) * 4096 + (n div 64 mod 64) * 64 + n mod 64 = n"
proof -
  have "n div 262144 = n div 4096 div 64" by (simp add: div_mult2_eq [symmetric])
  then show ?thesis using base64_3 [of n] base64_2 [of "n div 4096"] by linarith
qed

lemma utf8_decode_append:
  assumes "chr < 0x200000"
  shows "utf8_decode (utf8_append chr @ r) = (chr, r)"
proof -
  consider "chr < 0x80" | "0x80 \<le> chr" "chr < 0x800" | "0x800 \<le> chr" "chr < 0x10000"
    | "0x10000 \<le> chr" "chr < 0x200000" using assms by linarith
  then show ?thesis
  proof cases
    case 1
    then show ?thesis by (simp add: utf8_append_def)
  next
    case 2
    then have "chr div 64 < 32" by (simp add: less_mult_imp_div_less)
    with 2 show ?thesis by (simp add: utf8_append_def text_simps)
  next
    case 3
    then have "chr div 4096 < 16" by (simp add: less_mult_imp_div_less)
    with 3 show ?thesis by (simp add: utf8_append_def text_simps base64_3)
  next
    case 4
    then have "chr div 262144 < 8" by (simp add: less_mult_imp_div_less)
    with 4 show ?thesis by (simp add: utf8_append_def text_simps base64_4)
  qed
qed

lemma utf8_append_not_Nil [simp]: "utf8_append chr \<noteq> []"
  by (simp add: utf8_append_def)

interpretation utf8: codec utf8_append
  "\<lambda>s. if s = [] then None else Some (utf8_decode s)" "\<lambda>chr. chr < 0x200000"
  by unfold_locales (simp add: utf8_decode_append)

lemma utf8_decode_all_Nil [simp]: "utf8_decode_all [] = []"
  by (simp add: utf8_decode_all.simps)

lemma utf8_decode_all_append:
  "chr < 0x200000 \<Longrightarrow> utf8_decode_all (utf8_append chr @ r) = chr # utf8_decode_all r"
  by (subst utf8_decode_all.simps) (simp add: utf8_decode_append)

lemma utf8_decode_all_encode:
  "\<forall>chr \<in> set chrs. chr < 0x200000 \<Longrightarrow> utf8_decode_all (utf8_encode chrs @ r) = chrs @ utf8_decode_all r"
  by (induction chrs) (auto simp: utf8_encode_def utf8_decode_all_append)

lemma utf8_map_eq: "utf8_map f s = utf8_encode (map f (utf8_decode_all s))"
proof (induction f s rule: utf8_map.induct)
  case (1 f s)
  show ?case
  proof (cases "s = []")
    case False
    with 1 show ?thesis
      by (subst utf8_map.simps, subst utf8_decode_all.simps)
         (simp add: utf8_encode_def split: prod.splits)
  qed (simp add: utf8_encode_def utf8_map.simps)
qed

lemma cont_byte_bound: "cont_byte s = Some (x, s') \<Longrightarrow> x < 64"
  by (cases s) (auto simp: text_simps split: if_splits)

lemma utf8_decode_bound: "fst (utf8_decode s) < 0x200000"
proof (cases s)
  case (Cons c s')
  have "byte_of c mod 16 \<le> 15" "byte_of c mod 8 \<le> 7" "byte_of c mod 32 \<le> 31" by simp_all
  then show ?thesis
    unfolding Cons
    by (auto simp: Let_def text_simps replacement_char_def dest!: cont_byte_bound split: option.splits)
qed simp

lemma utf8_decode_all_bound: "chr \<in> set (utf8_decode_all s) \<Longrightarrow> chr < 0x200000"
proof (induction s rule: utf8_decode_all.induct)
  case (1 s)
  then show ?case
    using utf8_decode_bound [of s] utf8_decode_all.simps [of s] by (auto split: if_splits prod.splits)
qed

lemma utf8_valid_append: "chr < 0x200000 \<Longrightarrow> utf8_valid (utf8_append chr @ r) = utf8_valid r"
proof -
  assume "chr < 0x200000"
  then have "drop_bit 6 chr < 32768" "drop_bit 12 chr < 512" "drop_bit 18 chr < 8"
    "chr < 0x800 \<Longrightarrow> drop_bit 6 chr < 32" "chr < 0x10000 \<Longrightarrow> drop_bit 12 chr < 16"
    by (auto simp: text_simps less_mult_imp_div_less)
  then show ?thesis by (auto simp: utf8_append_def Let_def text_simps)
qed

lemma utf8_valid_encode: "\<forall>chr \<in> set chrs. chr < 0x200000 \<Longrightarrow> utf8_valid (utf8_encode chrs)"
  by (induction chrs) (auto simp: utf8_encode_def utf8_valid_append)

text \<open>
  On valid text the decoder never stops inside a sequence, so decoding is compositional.
\<close>

lemma utf8_decode_valid:
  assumes "utf8_valid s" "s \<noteq> []"
  shows "utf8_decode (s @ t) = (fst (utf8_decode s), snd (utf8_decode s) @ t)
     \<and> utf8_valid (snd (utf8_decode s))"
proof (cases s)
  case (Cons c r)
  note v = assms(1) [unfolded Cons utf8_valid.simps Let_def]
  consider "byte_of c < 0x80"
    | "\<not> byte_of c < 0xC0" "byte_of c < 0xE0" | "\<not> byte_of c < 0xE0" "byte_of c < 0xF0"
    | "\<not> byte_of c < 0xF0" "byte_of c < 0xF8"
    using v by (auto split: if_splits)
  then show ?thesis
  proof cases
    case 2
    with v obtain c1 r' where "r = c1 # r'" "utf8_cont c1" "utf8_valid r'" by (auto split: list.splits)
    with 2 show ?thesis unfolding Cons by simp
  next
    case 3
    with v obtain c1 c2 r' where "r = c1 # c2 # r'" "utf8_cont c1" "utf8_cont c2" "utf8_valid r'"
      by (auto split: list.splits)
    with 3 show ?thesis unfolding Cons by simp
  next
    case 4
    with v obtain c1 c2 c3 r' where "r = c1 # c2 # c3 # r'" "utf8_cont c1" "utf8_cont c2"
      "utf8_cont c3" "utf8_valid r'" by (auto split: list.splits)
    with 4 show ?thesis unfolding Cons by simp
  qed (use v in \<open>simp add: Cons\<close>)
qed (use assms in simp)

lemma utf8_decode_all_valid:
  "utf8_valid s \<Longrightarrow> utf8_decode_all (s @ t) = utf8_decode_all s @ utf8_decode_all t"
proof (induction s rule: utf8_decode_all.induct)
  case (1 s)
  show ?case
  proof (cases "s = []")
    case False
    obtain chr s' where d: "utf8_decode s = (chr, s')" by fastforce
    with 1 False utf8_decode_valid [OF 1(2) False, of t] show ?thesis
      by (subst (1 2) utf8_decode_all.simps) auto
  qed simp
qed

text \<open>
  Validity does not make the encoding canonical: an overlong encoding of the code point 0 is
  accepted and decodes to 0.
\<close>

lemma utf8_valid_overlong:
  "utf8_valid [CHR 0xC0, CHR 0x80] \<and> utf8_decode_all [CHR 0xC0, CHR 0x80] = [0] \<and>
   utf8_encode (utf8_decode_all [CHR 0xC0, CHR 0x80]) \<noteq> [CHR 0xC0, CHR 0x80]"
  by (simp add: utf8_cont_def utf8_decode_all.simps text_simps utf8_encode_def utf8_append_def)

section \<open>Character properties\<close>

text \<open>
  The classes of \<open>src/unilib/unicode.h\<close>. The tables are a parameter: \<open>othercase\<close> and \<open>category\<close>
  stand for the two-level lookups in the generated arrays of \<open>unicode.cpp\<close>, at a code point.
\<close>

record unicode_tables =
  category_table :: "nat \<Rightarrow> nat"
  othercase_table :: "nat \<Rightarrow> nat"

definition unicode_chars :: nat where "unicode_chars = 0x110000"

definition unicode_bit :: "nat list \<Rightarrow> nat" where
  "unicode_bit cats = foldr (\<lambda>c m. push_bit c 1 OR m) cats 0"

definition cat_Lut :: nat where "cat_Lut = unicode_bit [1, 3]"
definition cat_L :: nat where "cat_L = unicode_bit [1, 2, 3, 4, 5]"
definition cat_M :: nat where "cat_M = unicode_bit [6, 7, 8]"
definition cat_N :: nat where "cat_N = unicode_bit [9, 10, 11]"
definition cat_S :: nat where "cat_S = unicode_bit [19, 20, 21, 22]"
definition cat_Zs :: nat where "cat_Zs = unicode_bit [23]"
definition cat_C :: nat where "cat_C = unicode_bit [26, 27, 28, 29, 30]"
definition cat_Cn :: nat where "cat_Cn = unicode_bit [30]"

definition unicode_category :: "unicode_tables \<Rightarrow> nat \<Rightarrow> nat" where
  "unicode_category u chr = (if chr < unicode_chars then push_bit (category_table u chr) 1 else cat_Cn)"

text \<open>The low byte of a table entry is its type, the rest a code point: the other case.\<close>

definition other_type :: "nat \<Rightarrow> nat" where "other_type e = e AND 0xFF"
definition other_chr :: "nat \<Rightarrow> nat" where "other_chr e = drop_bit 8 e"

definition unicode_lowercase :: "unicode_tables \<Rightarrow> nat \<Rightarrow> nat" where
  "unicode_lowercase u chr =
     (if chr < unicode_chars then
        (let e = othercase_table u chr in
         if other_type e = 1 then other_chr e
         else if other_type e = 4 then other_chr e
         else if other_type e = 6 then other_chr (othercase_table u (other_chr e))
         else chr)
      else chr)"

definition unicode_uppercase :: "unicode_tables \<Rightarrow> nat \<Rightarrow> nat" where
  "unicode_uppercase u chr =
     (if chr < unicode_chars then
        (let e = othercase_table u chr in
         if other_type e = 2 then other_chr e
         else if other_type e = 3 then other_chr e
         else if other_type e = 5 then other_chr e
         else if other_type e = 4 then other_chr (othercase_table u (other_chr e))
         else chr)
      else chr)"

definition unicode_titlecase :: "unicode_tables \<Rightarrow> nat \<Rightarrow> nat" where
  "unicode_titlecase u chr =
     (if chr < unicode_chars then
        (let e = othercase_table u chr in
         if other_type e = 2 then other_chr e
         else if other_type e = 6 then other_chr e
         else if other_type e = 5 then other_chr (othercase_table u (other_chr e))
         else chr)
      else chr)"

text \<open>A character carries a property when its category bit is in the property's mask.\<close>

definition has_category :: "unicode_tables \<Rightarrow> nat \<Rightarrow> nat \<Rightarrow> bool" where
  "has_category u chr cats \<longleftrightarrow> unicode_category u chr AND cats \<noteq> 0"


section \<open>Properties\<close>

text \<open>
  C37: every list of 21-bit code points survives encoding and decoding, whatever text follows,
  and its encoding passes the validity test.
\<close>

theorem utf8_roundtrip:
  assumes "\<forall>chr \<in> set chrs. chr < 0x200000"
  shows "utf8_decode_all (utf8_encode chrs @ r) = chrs @ utf8_decode_all r \<and> utf8_valid (utf8_encode chrs)"
  using assms by (simp add: utf8_decode_all_encode utf8_valid_encode)

lemma utf8_roundtrip_witness: "utf8_decode_all (utf8_encode [0x10D, 0x1F600]) = [0x10D, 0x1F600]"
  using utf8_roundtrip [of "[0x10D, 0x1F600]" "[]"] by simp

text \<open>
  On text that passes the validity test the decoder never runs over the end of it, so
  decoding two texts one after the other is decoding the concatenation; \<open>utf8::map\<close> then
  encodes the mapped code points.
\<close>

theorem utf8_valid_decode:
  assumes "utf8_valid s"
  shows "utf8_decode_all (s @ t) = utf8_decode_all s @ utf8_decode_all t \<and>
    utf8_map f (s @ t) = utf8_map f s @ utf8_map f t"
  using utf8_decode_all_valid [OF assms] by (simp add: utf8_map_eq utf8_encode_def)

lemma utf8_valid_decode_witness:
  "utf8_decode_all ([CHR 0xC4, CHR 0x8D] @ [CHR 0x8D]) = [0x10D] @ utf8_decode_all [CHR 0x8D]"
proof -
  have "utf8_valid [CHR 0xC4, CHR 0x8D]" by (simp add: utf8_cont_def)
  from utf8_valid_decode [OF this, of "[CHR 0x8D]" "\<lambda>c. c"] show ?thesis
    by (simp add: utf8_decode_all.simps [of "[CHR 0xC4, CHR 0x8D]"] utf8_cont_def text_simps)
qed

text \<open>
  The validity test accepts an overlong encoding (two bytes for the code point 0), which
  does not come back from decoding and encoding.
\<close>

theorem utf8_accepts_overlong:
  "utf8_valid [CHR 0xC0, CHR 0x80] \<and> utf8_decode_all [CHR 0xC0, CHR 0x80] = [0] \<and>
   utf8_encode [0] \<noteq> [CHR 0xC0, CHR 0x80]"
  using utf8_valid_overlong by metis

end
