(* ===== verification/Binary.thy ===== *)
theory Binary
  imports Prelude
begin

text \<open>
  Binary serialisation: \<open>src/utils/binary_encoder.h\<close>, \<open>binary_decoder.h\<close>,
  \<open>pointer_decoder.h\<close> and the variable-length integers of \<open>src/morphodita/tagger/vli.h\<close>.
  An \<open>unsigned char\<close> is an \<open>8 word\<close>, an \<open>unsigned\<close> a \<open>32 word\<close>; the multi-byte copies are
  those of a little-endian machine. \<open>add_float\<close> and \<open>add_double\<close> are not modelled.
\<close>

unbundle bit_operations_syntax

type_synonym u8 = "8 word"
type_synonym u32 = "32 word"

section \<open>Encoder\<close>

text \<open>The state of \<open>binary_encoder\<close> is its \<open>data\<close>; \<open>training_failure\<close> throws.\<close>

definition add_1B :: "u32 \<Rightarrow> u8 list \<Rightarrow> u8 list result" where
  "add_1B val data =
     (if ucast (ucast val :: u8) \<noteq> val then Inl ''Should encode value in one byte!''
      else Inr (data @ [ucast val]))"

definition add_2B :: "u32 \<Rightarrow> u8 list \<Rightarrow> u8 list result" where
  "add_2B val data =
     (if ucast (ucast val :: 16 word) \<noteq> val then Inl ''Should encode value in two bytes!''
      else Inr (data @ [ucast val, ucast (drop_bit 8 val)]))"

text \<open>The range test of \<open>add_4B\<close> compares a 32-bit value with itself and never fails.\<close>

definition bytes4 :: "u32 \<Rightarrow> u8 list" where
  "bytes4 val = [ucast val, ucast (drop_bit 8 val), ucast (drop_bit 16 val), ucast (drop_bit 24 val)]"

definition add_4B :: "u32 \<Rightarrow> u8 list \<Rightarrow> u8 list result" where
  "add_4B val data = Inr (data @ bytes4 val)"

definition byte8 :: "char \<Rightarrow> u8" where
  "byte8 c = word_of_nat (byte_of c)"

definition char8 :: "u8 \<Rightarrow> char" where
  "char8 b = char_of (unat b)"

definition add_data :: "string \<Rightarrow> u8 list \<Rightarrow> u8 list" where
  "add_data str data = data @ map byte8 str"

text \<open>
  The length goes into the \<open>unsigned\<close> parameter of \<open>add_1B\<close> and \<open>add_4B\<close>, so a length of
  \<open>2 ^ 32\<close> or more is reduced.
\<close>

definition add_str :: "string \<Rightarrow> u8 list \<Rightarrow> u8 list result" where
  "add_str str data =
     (case add_1B (if length str < 255 then of_nat (length str) else 255) data of
        Inl e \<Rightarrow> Inl e
      | Inr data \<Rightarrow>
     (case (if length str < 255 then Inr data else add_4B (of_nat (length str)) data) of
        Inl e \<Rightarrow> Inl e
      | Inr data \<Rightarrow> Inr (add_data str data)))"

section \<open>Decoders\<close>

text \<open>
  \<open>pointer_decoder\<close> moves a pointer through memory without any test. Its state is the list
  of bytes from the pointer to the end of the allocation; \<open>None\<close> is a read past that end,
  which in C++ is undefined.
\<close>

fun ptr_next_1B :: "u8 list \<Rightarrow> (u32 \<times> u8 list) option" where
  "ptr_next_1B (b # s) = Some (ucast b, s)"
| "ptr_next_1B _ = None"

fun ptr_next_2B :: "u8 list \<Rightarrow> (u32 \<times> u8 list) option" where
  "ptr_next_2B (b0 # b1 # s) = Some (ucast b0 OR push_bit 8 (ucast b1), s)"
| "ptr_next_2B _ = None"

fun ptr_next_4B :: "u8 list \<Rightarrow> (u32 \<times> u8 list) option" where
  "ptr_next_4B (b0 # b1 # b2 # b3 # s) =
     Some (ucast b0 OR push_bit 8 (ucast b1) OR push_bit 16 (ucast b2) OR push_bit 24 (ucast b3), s)"
| "ptr_next_4B _ = None"

definition ptr_next :: "u32 \<Rightarrow> u8 list \<Rightarrow> (u8 list \<times> u8 list) option" where
  "ptr_next elements s =
     (if unat elements > length s then None else Some (take (unat elements) s, drop (unat elements) s))"

definition ptr_next_str :: "u8 list \<Rightarrow> (string \<times> u8 list) option" where
  "ptr_next_str s =
     (case ptr_next_1B s of None \<Rightarrow> None
      | Some (len, s) \<Rightarrow>
     (case (if len = 255 then ptr_next_4B s else Some (len, s)) of None \<Rightarrow> None
      | Some (len, s) \<Rightarrow>
     (case ptr_next len s of None \<Rightarrow> None
      | Some (bs, s) \<Rightarrow> Some (map char8 bs, s))))"

text \<open>
  \<open>binary_decoder\<close> keeps its buffer and the position of \<open>data\<close> in it, and throws when a read
  would pass the end.
\<close>

record binary_decoder =
  bd_buffer :: "u8 list"
  bd_pos :: nat

definition no_more_data :: string where
  "no_more_data = ''No more data in binary_decoder''"

definition bd_fill :: "u8 list \<Rightarrow> binary_decoder" where
  "bd_fill bytes = \<lparr>bd_buffer = bytes, bd_pos = 0\<rparr>"

definition bd_next_1B :: "binary_decoder \<Rightarrow> (u32 \<times> binary_decoder) result" where
  "bd_next_1B d =
     (if bd_pos d + 1 > length (bd_buffer d) then Inl no_more_data
      else Inr (ucast (bd_buffer d ! bd_pos d), d\<lparr>bd_pos := bd_pos d + 1\<rparr>))"

definition bd_next_2B :: "binary_decoder \<Rightarrow> (u32 \<times> binary_decoder) result" where
  "bd_next_2B d =
     (if bd_pos d + 2 > length (bd_buffer d) then Inl no_more_data
      else Inr (ucast (bd_buffer d ! bd_pos d) OR push_bit 8 (ucast (bd_buffer d ! (bd_pos d + 1))),
                d\<lparr>bd_pos := bd_pos d + 2\<rparr>))"

definition bd_next_4B :: "binary_decoder \<Rightarrow> (u32 \<times> binary_decoder) result" where
  "bd_next_4B d =
     (if bd_pos d + 4 > length (bd_buffer d) then Inl no_more_data
      else Inr (ucast (bd_buffer d ! bd_pos d) OR push_bit 8 (ucast (bd_buffer d ! (bd_pos d + 1)))
                  OR push_bit 16 (ucast (bd_buffer d ! (bd_pos d + 2)))
                  OR push_bit 24 (ucast (bd_buffer d ! (bd_pos d + 3))),
                d\<lparr>bd_pos := bd_pos d + 4\<rparr>))"

definition bd_next :: "u32 \<Rightarrow> binary_decoder \<Rightarrow> (u8 list \<times> binary_decoder) result" where
  "bd_next elements d =
     (if bd_pos d + unat elements > length (bd_buffer d) then Inl no_more_data
      else Inr (take (unat elements) (drop (bd_pos d) (bd_buffer d)),
                d\<lparr>bd_pos := bd_pos d + unat elements\<rparr>))"

definition bd_next_str :: "binary_decoder \<Rightarrow> (string \<times> binary_decoder) result" where
  "bd_next_str d =
     (case bd_next_1B d of Inl e \<Rightarrow> Inl e
      | Inr (len, d) \<Rightarrow>
     (case (if len = 255 then bd_next_4B d else Inr (len, d)) of Inl e \<Rightarrow> Inl e
      | Inr (len, d) \<Rightarrow>
     (case bd_next len d of Inl e \<Rightarrow> Inl e
      | Inr (bs, d) \<Rightarrow> Inr (map char8 bs, d))))"

definition bd_is_end :: "binary_decoder \<Rightarrow> bool" where
  "bd_is_end d \<longleftrightarrow> bd_pos d \<ge> length (bd_buffer d)"

definition bd_tell :: "binary_decoder \<Rightarrow> nat" where
  "bd_tell d = bd_pos d"

definition bd_seek :: "nat \<Rightarrow> binary_decoder \<Rightarrow> binary_decoder result" where
  "bd_seek pos d =
     (if pos > length (bd_buffer d) then Inl ''Cannot seek past end of binary_decoder''
      else Inr (d\<lparr>bd_pos := pos\<rparr>))"

section \<open>Variable-length integers\<close>

definition vli_encode :: "u32 \<Rightarrow> u8 list" where
  "vli_encode value =
     (if value < 0x80 then [ucast value]
      else if value < 0x4000 then [ucast (drop_bit 7 value OR 0x80), ucast (value AND 0x7F)]
      else if value < 0x200000 then
        [ucast (drop_bit 14 value OR 0x80), ucast ((drop_bit 7 value AND 0x7F) OR 0x80),
         ucast (value AND 0x7F)]
      else if value < 0x10000000 then
        [ucast (drop_bit 21 value OR 0x80), ucast ((drop_bit 14 value AND 0x7F) OR 0x80),
         ucast ((drop_bit 7 value AND 0x7F) OR 0x80), ucast (value AND 0x7F)]
      else
        [ucast (drop_bit 28 value OR 0x80), ucast ((drop_bit 21 value AND 0x7F) OR 0x80),
         ucast ((drop_bit 14 value AND 0x7F) OR 0x80), ucast ((drop_bit 7 value AND 0x7F) OR 0x80),
         ucast (value AND 0x7F)])"

fun vli_decode_loop :: "u32 \<Rightarrow> u8 list \<Rightarrow> (u32 \<times> u8 list) option" where
  "vli_decode_loop value [] = None"
| "vli_decode_loop value (b # s) =
     (if b AND 0x80 \<noteq> 0 then vli_decode_loop (push_bit 7 value OR ucast (b XOR 0x80)) s
      else Some (push_bit 7 value OR ucast b, s))"

definition vli_decode :: "u8 list \<Rightarrow> (u32 \<times> u8 list) option" where
  "vli_decode s = vli_decode_loop 0 s"

section \<open>Words, bit by bit\<close>

lemma bit_80: "bit (0x80 :: int) n \<longleftrightarrow> n = 7"
proof -
  have "(0x80 :: int) = 2 ^ 7" by simp
  then show ?thesis by (simp only: bit_exp_iff possible_bit_int) auto
qed

lemma bit_7F: "bit (0x7F :: int) n \<longleftrightarrow> n < 7"
proof -
  have "(0x7F :: int) = mask 7" by (simp add: mask_eq_exp_minus_1)
  then show ?thesis by (simp only: bit_mask_iff possible_bit_int) auto
qed

lemmas byte_bits = bit_simps bit_80 bit_7F

lemma le4: "ucast (ucast v :: u8) OR push_bit 8 (ucast (ucast (drop_bit 8 v) :: u8)) OR
   push_bit 16 (ucast (ucast (drop_bit 16 v) :: u8)) OR push_bit 24 (ucast (ucast (drop_bit 24 v) :: u8)) = (v :: u32)"
   (is "?l = v")
proof (rule bit_word_eqI)
  fix n assume "n < LENGTH(32)"
  then consider "n < 8" | "8 \<le> n" "n < 16" | "16 \<le> n" "n < 24" | "24 \<le> n" "n < 32" by fastforce
  then show "bit ?l n = bit v n" by cases (auto simp: bit_simps)
qed

lemma le2: assumes "ucast (ucast v :: 16 word) = v"
  shows "ucast (ucast v :: u8) OR push_bit 8 (ucast (ucast (drop_bit 8 v) :: u8)) = (v :: u32)" (is "?l = v")
proof (rule bit_word_eqI)
  fix n assume n: "n < LENGTH(32)"
  have "bit v n \<longleftrightarrow> bit (ucast (ucast v :: 16 word) :: u32) n" using assms by simp
  also have "\<dots> \<longleftrightarrow> n < 16 \<and> bit v n" using n by (auto simp: bit_simps)
  finally show "bit ?l n = bit v n"
    using n by (auto simp: bit_simps)
qed

lemma vli_hi: "(ucast (x OR 0x80 :: u32) :: u8) AND 0x80 \<noteq> 0"
proof -
  have "bit ((ucast (x OR 0x80 :: u32) :: u8) AND 0x80) 7" by (simp add: byte_bits)
  then show ?thesis by (metis bit_0_eq bot_apply bot_bool_def)
qed

lemma vli_lo: "(ucast (x AND 0x7F :: u32) :: u8) AND 0x80 = 0"
  by (rule bit_word_eqI) (auto simp: byte_bits)

lemma vli_xor: "ucast ((ucast (x OR 0x80 :: u32) :: u8) XOR 0x80) = (x AND 0x7F :: u32)"
  by (rule bit_word_eqI) (auto simp: byte_bits)

lemma vli_and: "ucast (ucast (x AND 0x7F :: u32) :: u8) = (x AND 0x7F :: u32)"
  by (rule bit_word_eqI) (auto simp: byte_bits)

lemma bit_bound: "unat (x :: u32) < 2 ^ k \<Longrightarrow> bit x n \<Longrightarrow> n < k"
proof -
  assume a: "unat x < 2 ^ k" "bit x n"
  then have "take_bit k (unat x) = unat x" by (simp add: take_bit_nat_eq_self_iff)
  moreover have "bit (unat x) n" using a(2) by (simp add: bit_unsigned_iff)
  ultimately show "n < k" by (metis bit_take_bit_iff)
qed

lemma and_7F: "unat (x :: u32) < 2 ^ 7 \<Longrightarrow> x AND 0x7F = x"
  using bit_bound [of x 7] by (intro bit_word_eqI) (auto simp: byte_bits)

lemma vli_step: "vli_decode_loop a (ucast (x OR 0x80) # s) = vli_decode_loop (push_bit 7 a OR (x AND 0x7F)) s"
  by (simp add: vli_hi vli_xor)

lemma vli_step7: "vli_decode_loop a (ucast ((x AND 0x7F) OR 0x80) # s) = vli_decode_loop (push_bit 7 a OR (x AND 0x7F)) s"
  by (simp add: vli_step and.assoc del: vli_decode_loop.simps)

lemma vli_stop: "vli_decode_loop a (ucast (x AND 0x7F) # s) = Some (push_bit 7 a OR (x AND 0x7F), s)"
  by (simp add: vli_lo vli_and)

text \<open>The seven-bit groups put together again.\<close>

lemma vli_group: "push_bit 7 (drop_bit (k + 7) v) OR (drop_bit k v AND 0x7F) = drop_bit k (v :: u32)"
proof (rule bit_word_eqI)
  fix n show "bit (push_bit 7 (drop_bit (k + 7) v) OR (drop_bit k v AND 0x7F)) n = bit (drop_bit k v) n"
   by (cases "n < 7") (auto simp: byte_bits ac_simps dest: bit_imp_le_length)
qed

lemmas vli_groups = vli_group [of 0, simplified] vli_group [of 7, simplified] vli_group [of 14, simplified] vli_group [of 21, simplified]

lemma vli_top: "unat (v :: u32) < 2 ^ (k + 7) \<Longrightarrow> drop_bit k v AND 0x7F = drop_bit k v"
  using bit_bound [of v "k + 7"] by (intro bit_word_eqI) (fastforce simp: byte_bits)

lemma vli_decode_encode: "vli_decode (vli_encode v @ r) = Some (v, r)"
proof -
  note less = word_less_nat_alt
  consider "unat v < 2 ^ 7" | "\<not> unat v < 2 ^ 7" "unat v < 2 ^ 14" | "\<not> unat v < 2 ^ 14" "unat v < 2 ^ 21"
    | "\<not> unat v < 2 ^ 21" "unat v < 2 ^ 28" | "\<not> unat v < 2 ^ 28" by blast
  then show ?thesis
  proof cases
    case 1
    then have "vli_encode v = [ucast (v AND 0x7F)]" by (simp add: vli_encode_def less and_7F)
    then show ?thesis using vli_stop [of 0 v r] 1 by (simp add: vli_decode_def and_7F del: vli_decode_loop.simps)
  next
    case 2
    then show ?thesis using vli_top [of v 7]
      by (simp add: vli_encode_def less vli_decode_def vli_step vli_step7 vli_stop vli_groups del: vli_decode_loop.simps)
  next
    case 3
    then show ?thesis using vli_top [of v 14]
      by (simp add: vli_encode_def less vli_decode_def vli_step vli_step7 vli_stop vli_groups del: vli_decode_loop.simps)
  next
    case 4
    then show ?thesis using vli_top [of v 21]
      by (simp add: vli_encode_def less vli_decode_def vli_step vli_step7 vli_stop vli_groups del: vli_decode_loop.simps)
  next
    case 5
    have "unat v < 2 ^ LENGTH(32)" by (rule unsigned_less)
    with 5 show ?thesis using vli_top [of v 28]
      by (simp add: vli_encode_def less vli_decode_def vli_step vli_step7 vli_stop vli_groups del: vli_decode_loop.simps)
  qed
qed

lemma vli_encode_length: "1 \<le> length (vli_encode v) \<and> length (vli_encode v) \<le> 5"
  by (simp add: vli_encode_def)

interpretation vli: codec vli_encode vli_decode "\<lambda>_. True"
  by unfold_locales (rule vli_decode_encode)

section \<open>Round trips of the byte coders\<close>

lemma ptr_next_1B_add: "add_1B v data = Inr data' \<Longrightarrow> \<exists>bs. data' = data @ bs \<and> ptr_next_1B (bs @ r) = Some (v, r)"
  by (auto simp: add_1B_def split: if_splits)

lemma ptr_next_2B_add: "add_2B v data = Inr data' \<Longrightarrow> \<exists>bs. data' = data @ bs \<and> ptr_next_2B (bs @ r) = Some (v, r)"
  by (auto simp: add_2B_def le2 split: if_splits)

lemma ptr_next_4B_bytes4 [simp]: "ptr_next_4B (bytes4 v @ r) = Some (v, r)"
  by (simp add: bytes4_def le4 or.assoc)

lemma char8_byte8 [simp]: "char8 (byte8 c) = c"
proof -
  have "byte_of c mod 256 = byte_of c" using byte_of_less [of c] by simp
  then show ?thesis by (simp add: char8_def byte8_def unat_of_nat)
qed

lemma char8_byte8_map [simp]: "map (char8 \<circ> byte8) s = s"
  by (induction s) auto

lemma ptr_next_take: "unat n = length bs \<Longrightarrow> ptr_next n (bs @ r) = Some (bs, r)"
  by (simp add: ptr_next_def)

lemma add_str_eq:
  assumes "length str < 2 ^ 32"
  shows "\<exists>bs. add_str str data = Inr (data @ bs) \<and> ptr_next_str (bs @ r) = Some (str, r)"
proof (cases "length str < 255")
  case True
  then have len: "unat (of_nat (length str) :: u32) = length str" by (simp add: unat_of_nat)
  have "ucast (ucast (of_nat (length str) :: u32) :: u8) = (of_nat (length str) :: u32)"
    using True by (simp add: unsigned_of_nat take_bit_nat_eq_self)
  moreover have "(of_nat (length str) :: u32) \<noteq> 255"
  proof
    assume "(of_nat (length str) :: u32) = 255"
    then have "unat (of_nat (length str) :: u32) = unat (255 :: u32)" by simp
    then show False using True by (simp add: len)
  qed
  ultimately show ?thesis
    using True by (simp add: add_str_def add_1B_def add_data_def ptr_next_str_def ptr_next_take len)
next
  case False
  then have "unat (of_nat (length str) :: u32) = length str"
    using assms by (simp add: unat_of_nat)
  with False show ?thesis
    by (simp add: add_str_def add_1B_def add_4B_def add_data_def ptr_next_str_def ptr_next_take)
qed

text \<open>
  \<open>binary_decoder\<close> is the checked version of \<open>pointer_decoder\<close>: on the bytes not yet read
  it returns what the latter returns, and it throws where the latter would read past the end.
\<close>

definition bd_rest :: "binary_decoder \<Rightarrow> u8 list" where
  "bd_rest d = drop (bd_pos d) (bd_buffer d)"

definition bd_wf :: "binary_decoder \<Rightarrow> bool" where
  "bd_wf d \<longleftrightarrow> bd_pos d \<le> length (bd_buffer d)"

definition bd_refines :: "(binary_decoder \<Rightarrow> ('a \<times> binary_decoder) result) \<Rightarrow> (u8 list \<Rightarrow> ('a \<times> u8 list) option) \<Rightarrow> bool" where
  "bd_refines f g \<longleftrightarrow> (\<forall>d. bd_wf d \<longrightarrow>
     (case g (bd_rest d) of
        None \<Rightarrow> f d = Inl no_more_data
      | Some (v, s) \<Rightarrow> \<exists>d'. f d = Inr (v, d') \<and> bd_wf d' \<and> bd_buffer d' = bd_buffer d \<and> bd_rest d' = s))"

text \<open>A read of \<open>n\<close> bytes moves the position by \<open>n\<close> and drops \<open>n\<close> bytes of the rest.\<close>

lemma bd_refines_readI:
  assumes fail: "\<And>d. bd_wf d \<Longrightarrow> g (bd_rest d) = None \<Longrightarrow> f d = Inl no_more_data"
    and succ: "\<And>d v s. bd_wf d \<Longrightarrow> g (bd_rest d) = Some (v, s) \<Longrightarrow>
      \<exists>n. f d = Inr (v, d\<lparr>bd_pos := bd_pos d + n\<rparr>) \<and> n \<le> length (bd_rest d) \<and> drop n (bd_rest d) = s"
  shows "bd_refines f g"
proof -
  have "\<exists>d'. f d = Inr (v, d') \<and> bd_wf d' \<and> bd_buffer d' = bd_buffer d \<and> bd_rest d' = s"
    if wf: "bd_wf d" and g: "g (bd_rest d) = Some (v, s)" for d v s
  proof -
    from succ [OF wf g] obtain n where n: "f d = Inr (v, d\<lparr>bd_pos := bd_pos d + n\<rparr>)"
      "n \<le> length (bd_rest d)" "drop n (bd_rest d) = s" by blast
    then show ?thesis
      using wf by (intro exI [of _ "d\<lparr>bd_pos := bd_pos d + n\<rparr>"]) (auto simp: bd_wf_def bd_rest_def add.commute)
  qed
  then show ?thesis
    using fail by (simp add: bd_refines_def split: option.split)
qed

lemma bd_refinesD:
  assumes "bd_refines f g" "bd_wf d"
  shows "case g (bd_rest d) of None \<Rightarrow> f d = Inl no_more_data
    | Some (v, s) \<Rightarrow> \<exists>d'. f d = Inr (v, d') \<and> bd_wf d' \<and> bd_buffer d' = bd_buffer d \<and> bd_rest d' = s"
  using assms unfolding bd_refines_def by blast

lemma bd_length: "bd_wf d \<Longrightarrow> length (bd_buffer d) = bd_pos d + length (bd_rest d)"
  by (simp add: bd_wf_def bd_rest_def)

lemma bd_nth: "k < length (bd_rest d) \<Longrightarrow> bd_buffer d ! (bd_pos d + k) = bd_rest d ! k"
  by (simp add: bd_rest_def)

lemmas bd_nth0 = bd_nth [of 0, simplified]

lemma bd_next_1B_refines: "bd_refines bd_next_1B ptr_next_1B"
proof (rule bd_refines_readI)
  fix d v s assume wf: "bd_wf d" and "ptr_next_1B (bd_rest d) = Some (v, s)"
  then show "\<exists>n. bd_next_1B d = Inr (v, d\<lparr>bd_pos := bd_pos d + n\<rparr>) \<and> n \<le> length (bd_rest d) \<and> drop n (bd_rest d) = s"
    using bd_nth0 [of d]
    by (cases "bd_rest d" rule: ptr_next_1B.cases) (auto simp: bd_next_1B_def bd_length intro!: exI [of _ 1])
next
  fix d assume wf: "bd_wf d" and "ptr_next_1B (bd_rest d) = None"
  then show "bd_next_1B d = Inl no_more_data"
    by (cases "bd_rest d" rule: ptr_next_1B.cases) (auto simp: bd_next_1B_def bd_length)
qed

lemma bd_next_2B_refines: "bd_refines bd_next_2B ptr_next_2B"
proof (rule bd_refines_readI)
  fix d v s assume wf: "bd_wf d" and "ptr_next_2B (bd_rest d) = Some (v, s)"
  then show "\<exists>n. bd_next_2B d = Inr (v, d\<lparr>bd_pos := bd_pos d + n\<rparr>) \<and> n \<le> length (bd_rest d) \<and> drop n (bd_rest d) = s"
    using bd_nth0 [of d] bd_nth [of 1 d]
    by (cases "bd_rest d" rule: ptr_next_2B.cases) (auto simp: bd_next_2B_def bd_length intro!: exI [of _ 2])
next
  fix d assume wf: "bd_wf d" and "ptr_next_2B (bd_rest d) = None"
  then show "bd_next_2B d = Inl no_more_data"
    by (cases "bd_rest d" rule: ptr_next_2B.cases) (auto simp: bd_next_2B_def bd_length)
qed

lemma bd_next_4B_refines: "bd_refines bd_next_4B ptr_next_4B"
proof (rule bd_refines_readI)
  fix d v s assume wf: "bd_wf d" and "ptr_next_4B (bd_rest d) = Some (v, s)"
  then show "\<exists>n. bd_next_4B d = Inr (v, d\<lparr>bd_pos := bd_pos d + n\<rparr>) \<and> n \<le> length (bd_rest d) \<and> drop n (bd_rest d) = s"
    using bd_nth0 [of d] bd_nth [of 1 d] bd_nth [of 2 d] bd_nth [of 3 d]
    by (cases "bd_rest d" rule: ptr_next_4B.cases) (auto simp: bd_next_4B_def bd_length intro!: exI [of _ 4])
next
  fix d assume wf: "bd_wf d" and "ptr_next_4B (bd_rest d) = None"
  then show "bd_next_4B d = Inl no_more_data"
    by (cases "bd_rest d" rule: ptr_next_4B.cases) (auto simp: bd_next_4B_def bd_length)
qed

lemma bd_next_refines: "bd_refines (bd_next n) (ptr_next n)"
proof (rule bd_refines_readI)
  fix d v s assume wf: "bd_wf d" and "ptr_next n (bd_rest d) = Some (v, s)"
  then show "\<exists>k. bd_next n d = Inr (v, d\<lparr>bd_pos := bd_pos d + k\<rparr>) \<and> k \<le> length (bd_rest d) \<and> drop k (bd_rest d) = s"
    by (intro exI [of _ "unat n"])
      (simp add: bd_next_def ptr_next_def bd_length bd_rest_def [symmetric] split: if_splits)
qed (simp add: bd_next_def ptr_next_def bd_length split: if_splits)

text \<open>Refinement is closed under running one read after the other.\<close>

lemma bd_refines_return: "bd_refines (\<lambda>d. Inr (v, d)) (\<lambda>s. Some (v, s))"
  by (simp add: bd_refines_def)

lemma bd_refines_bind:
  assumes "bd_refines f g" "\<And>v. bd_refines (f' v) (g' v)"
  shows "bd_refines (\<lambda>d. case f d of Inl e \<Rightarrow> Inl e | Inr (v, d) \<Rightarrow> f' v d)
    (\<lambda>s. case g s of None \<Rightarrow> None | Some (v, s) \<Rightarrow> g' v s)"
  unfolding bd_refines_def
proof (intro allI impI)
  fix d assume wf: "bd_wf d"
  show "case (case g (bd_rest d) of None \<Rightarrow> None | Some (v, s) \<Rightarrow> g' v s) of
      None \<Rightarrow> (case f d of Inl e \<Rightarrow> Inl e | Inr (v, d) \<Rightarrow> f' v d) = Inl no_more_data
    | Some (v, s) \<Rightarrow> \<exists>d'. (case f d of Inl e \<Rightarrow> Inl e | Inr (v, d) \<Rightarrow> f' v d) = Inr (v, d') \<and>
        bd_wf d' \<and> bd_buffer d' = bd_buffer d \<and> bd_rest d' = s"
  proof (cases "g (bd_rest d)")
    case None
    with bd_refinesD [OF assms(1) wf] have "f d = Inl no_more_data" by simp
    then show ?thesis by (simp add: None)
  next
    case (Some p)
    obtain v s where p: "p = (v, s)" by (cases p)
    note bd_refinesD [OF assms(1) wf]
    then obtain d' where d': "f d = Inr (v, d')" "bd_wf d'" "bd_buffer d' = bd_buffer d" "bd_rest d' = s"
      unfolding Some p by auto
    note bd_refinesD [OF assms(2) d'(2), of v]
    then show ?thesis by (cases "g' v s") (auto simp: Some p d')
  qed
qed

lemma bd_next_str_refines: "bd_refines bd_next_str ptr_next_str"
proof -
  have "bd_refines (\<lambda>d. if len = 255 then bd_next_4B d else Inr (len, d))
      (\<lambda>s. if len = 255 then ptr_next_4B s else Some (len, s))" for len
    using bd_next_4B_refines bd_refines_return [of len] by (cases "len = 255") simp_all
  then show ?thesis
    unfolding bd_next_str_def ptr_next_str_def
    by (intro bd_refines_bind bd_next_1B_refines bd_next_refines bd_refines_return) simp
qed


section \<open>Properties\<close>

text \<open>
  C36: a sequence of variable-length integers written one after the other is read back, and no
  integer takes more than five bytes.
\<close>

theorem vli_roundtrip:
  "decode_many vli_decode (length vs) (concat (map vli_encode vs) @ r) = Some (vs, r) \<and>
   length (concat (map vli_encode vs)) \<le> 5 * length vs"
proof
  show "decode_many vli_decode (length vs) (concat (map vli_encode vs) @ r) = Some (vs, r)"
    by (rule vli.decode_many_enc) simp
  show "length (concat (map vli_encode vs)) \<le> 5 * length vs"
  proof (induction vs)
    case (Cons v vs)
    then show ?case using vli_encode_length [of v] by simp
  qed simp
qed

text \<open>
  The checked decoder reads a string exactly where the unchecked one does, and throws
  where the unchecked one would run out of the buffer; it never moves past the end.
\<close>

theorem bd_next_str_checked:
  assumes "bd_wf d"
  shows "bd_next_str d = (case ptr_next_str (bd_rest d) of
      None \<Rightarrow> Inl no_more_data
    | Some (str, rest) \<Rightarrow> Inr (str, d\<lparr>bd_pos := length (bd_buffer d) - length rest\<rparr>))"
  using bd_refinesD [OF bd_next_str_refines assms]
proof (cases "ptr_next_str (bd_rest d)")
  case (Some p)
  obtain v s where p: "p = (v, s)" by (cases p)
  then obtain d' where d': "bd_next_str d = Inr (v, d')" "bd_wf d'" "bd_buffer d' = bd_buffer d" "bd_rest d' = s"
    using bd_refinesD [OF bd_next_str_refines assms] Some by auto
  then have "bd_pos d' = length (bd_buffer d) - length s"
    using bd_length [of d'] by simp
  then have "d' = d\<lparr>bd_pos := length (bd_buffer d) - length s\<rparr>"
    using d'(3) by (cases d; cases d') simp
  then show ?thesis using Some p d'(1) by simp
qed simp

lemma bd_next_str_checked_witness:
  "bd_next_str (bd_fill [2, 97]) = Inl no_more_data \<and>
   bd_next_str (bd_fill [1, 97, 7]) = Inr (''a'', \<lparr>bd_buffer = [1, 97, 7], bd_pos = 2\<rparr>)"
proof -
  have "char_of (97 :: nat) = CHR ''a''" by code_simp
  then show ?thesis
    using bd_next_str_checked [of "bd_fill [2, 97]"] bd_next_str_checked [of "bd_fill [1, 97, 7]"]
    by (simp add: bd_fill_def bd_wf_def bd_rest_def ptr_next_str_def ptr_next_def char8_def)
qed

text \<open>
  C35: a string written by \<open>add_str\<close>, behind any other data, is read back by \<open>next_str\<close> from the
  position where it was written, and the decoder stops behind it.
\<close>

theorem string_roundtrip:
  assumes "length str < 2 ^ 32"
  shows "\<exists>out. add_str str data = Inr (data @ out) \<and>
    bd_next_str \<lparr>bd_buffer = data @ out @ tail, bd_pos = length data\<rparr> =
      Inr (str, \<lparr>bd_buffer = data @ out @ tail, bd_pos = length (data @ out)\<rparr>)"
proof -
  obtain out where out: "add_str str data = Inr (data @ out)" "ptr_next_str (out @ tail) = Some (str, tail)"
    using add_str_eq [OF assms] by blast
  let ?d = "\<lparr>bd_buffer = data @ out @ tail, bd_pos = length data\<rparr>"
  have wf: "bd_wf ?d" and rest: "bd_rest ?d = out @ tail" by (simp_all add: bd_wf_def bd_rest_def)
  obtain d' where d': "bd_next_str ?d = Inr (str, d')" "bd_wf d'" "bd_buffer d' = data @ out @ tail" "bd_rest d' = tail"
    using bd_refinesD [OF bd_next_str_refines wf] by (auto simp: rest out(2))
  then have "bd_pos d' = length (data @ out)" using bd_length [of d'] by simp
  with d' have "d' = \<lparr>bd_buffer = data @ out @ tail, bd_pos = length (data @ out)\<rparr>" by (cases d') simp
  with out d'(1) show ?thesis by auto
qed

lemma string_roundtrip_witness:
  "\<exists>out. add_str ''abc'' [7] = Inr ([7] @ out) \<and>
    bd_next_str \<lparr>bd_buffer = [7] @ out @ [9], bd_pos = length [7 :: u8]\<rparr> =
      Inr (''abc'', \<lparr>bd_buffer = [7] @ out @ [9], bd_pos = length ([7] @ out)\<rparr>)"
  by (rule string_roundtrip) simp

end
