(* ===== verification/Embedding.thy ===== *)
theory Embedding
  imports Utf8 Binary
begin

text \<open>
  Word embeddings (\<open>src/parsito/embedding/embedding.cpp\<close>, \<open>embedding_encode.cpp\<close>): the dictionary
  with the fallbacks of its lookup, the table of weights, and the coder of both. A \<open>float\<close> is
  only stored and copied here, so it is its four bytes (\<open>u32\<close>); the Unicode tables are a parameter.
\<close>

type_synonym dictionary = "(string \<times> int) list"

record embedding =
  em_dimension :: nat
  em_updatable_index :: int
  em_unknown_index :: int
  em_dictionary :: dictionary
  em_weights :: "u32 list"

text \<open>\<open>dictionary.emplace(word, dictionary.size())\<close>: a word that is there keeps its id.\<close>

definition emplace_word :: "string \<Rightarrow> dictionary \<Rightarrow> dictionary" where
  "emplace_word word d = (if map_of d word = None then d @ [(word, int (length d))] else d)"

section \<open>Lookup\<close>

definition word_categories :: "unicode_tables \<Rightarrow> string \<Rightarrow> nat \<times> nat" where
  "word_categories u word =
     (case utf8_decode_cstr word of [] \<Rightarrow> (0, 0)
      | chr # chrs \<Rightarrow> (unicode_category u chr, fold (\<lambda>c m. m OR unicode_category u c) chrs 0))"

definition lowercase_tail :: "unicode_tables \<Rightarrow> string \<Rightarrow> string" where
  "lowercase_tail u word =
     (case utf8_decode_cstr word of [] \<Rightarrow> []
      | chr # chrs \<Rightarrow> utf8_append chr @ utf8_encode (map (unicode_lowercase u) chrs))"

definition lookup_word :: "unicode_tables \<Rightarrow> embedding \<Rightarrow> string \<Rightarrow> int" where
  "lookup_word u em word =
     (let (first, others) = word_categories u word;
          find = map_of (em_dictionary em)
      in case find word of Some i \<Rightarrow> i | None \<Rightarrow>
        (case (if first AND cat_Lut \<noteq> 0 \<and> others AND cat_Lut \<noteq> 0 then find (lowercase_tail u word) else None) of
           Some i \<Rightarrow> i | None \<Rightarrow>
        (case (if first AND cat_Lut \<noteq> 0 \<or> others AND cat_Lut \<noteq> 0
               then find (utf8_map_cstr (unicode_lowercase u) word) else None) of
           Some i \<Rightarrow> i | None \<Rightarrow>
        (case (if first AND cat_N \<noteq> 0 \<and> others AND cat_L = 0
               then find (utf8_append (fst (utf8_decode (c_str word)))) else None) of
           Some i \<Rightarrow> i | None \<Rightarrow> em_unknown_index em))))"

definition unknown_word :: "embedding \<Rightarrow> int" where
  "unknown_word em = em_unknown_index em"

text \<open>The row of an id, \<open>None\<close> for \<open>nullptr\<close>.\<close>

definition em_weight :: "embedding \<Rightarrow> int \<Rightarrow> u32 list option" where
  "em_weight em i =
     (if i < 0 \<or> i * int (em_dimension em) \<ge> int (length (em_weights em)) then None
      else Some (take (em_dimension em) (drop (nat i * em_dimension em) (em_weights em))))"

definition can_update_weights :: "embedding \<Rightarrow> int \<Rightarrow> bool" where
  "can_update_weights em i \<longleftrightarrow> i \<ge> em_updatable_index em"

section \<open>Construction and coding\<close>

definition create_embedding :: "nat \<Rightarrow> int \<Rightarrow> (string \<times> u32 list) list \<Rightarrow> u32 list \<Rightarrow> embedding" where
  "create_embedding dimension updatable_index words unknown_weights =
     (let d = fold (\<lambda>(word, _). emplace_word word) words [];
          ws = concat (map snd words)
      in \<lparr>em_dimension = dimension, em_updatable_index = updatable_index,
          em_unknown_index = (if unknown_weights = [] then -1 else int (length d)),
          em_dictionary = d, em_weights = ws @ unknown_weights\<rparr>)"

definition words_by_id :: "dictionary \<Rightarrow> string list" where
  "words_by_id d = fold (\<lambda>(word, i) words. words[nat i := word]) d (replicate (length d) [])"

definition bytes_of_floats :: "u32 list \<Rightarrow> u8 list" where
  "bytes_of_floats ws = concat (map bytes4 ws)"

fun add_strs :: "string list \<Rightarrow> u8 list \<Rightarrow> u8 list result" where
  "add_strs [] data = Inr data"
| "add_strs (s # ss) data = (case add_str s data of Inl e \<Rightarrow> Inl e | Inr data \<Rightarrow> add_strs ss data)"

definition save_embedding :: "embedding \<Rightarrow> u8 list \<Rightarrow> u8 list result" where
  "save_embedding em data =
     (case add_4B (of_nat (em_dimension em)) data of Inl e \<Rightarrow> Inl e | Inr data \<Rightarrow>
     (case add_4B (of_nat (length (em_dictionary em))) data of Inl e \<Rightarrow> Inl e | Inr data \<Rightarrow>
     (case add_strs (words_by_id (em_dictionary em)) data of Inl e \<Rightarrow> Inl e | Inr data \<Rightarrow>
     (case add_1B (if em_unknown_index em \<ge> 0 then 1 else 0) data of Inl e \<Rightarrow> Inl e | Inr data \<Rightarrow>
       Inr (data @ bytes_of_floats (em_weights em))))))"

text \<open>\<open>next<float>(elements)\<close>: four bytes each; the parameter is an \<open>unsigned\<close>.\<close>

fun floats_of_bytes :: "u8 list \<Rightarrow> u32 list" where
  "floats_of_bytes (a # b # c # d # bs) = (case ptr_next_4B [a, b, c, d] of None \<Rightarrow> [] | Some (w, _) \<Rightarrow> w # floats_of_bytes bs)"
| "floats_of_bytes _ = []"

definition bd_next_floats :: "u32 \<Rightarrow> binary_decoder \<Rightarrow> (u32 list \<times> binary_decoder) result" where
  "bd_next_floats elements d =
     (if bd_pos d + 4 * unat elements > length (bd_buffer d) then Inl no_more_data
      else Inr (floats_of_bytes (take (4 * unat elements) (drop (bd_pos d) (bd_buffer d))),
                d\<lparr>bd_pos := bd_pos d + 4 * unat elements\<rparr>))"

fun load_words :: "nat \<Rightarrow> dictionary \<Rightarrow> binary_decoder \<Rightarrow> (dictionary \<times> binary_decoder) result" where
  "load_words 0 dict d = Inr (dict, d)"
| "load_words (Suc n) dict d = (case bd_next_str d of Inl e \<Rightarrow> Inl e
     | Inr (word, d) \<Rightarrow> load_words n (emplace_word word dict) d)"

text \<open>What \<open>load\<close> does behind the dictionary.\<close>

definition load_weights :: "u32 \<Rightarrow> dictionary \<Rightarrow> u32 \<Rightarrow> binary_decoder \<Rightarrow> (embedding \<times> binary_decoder) result" where
  "load_weights dimension dict unknown d =
     (let unknown_index = (if unknown \<noteq> 0 then int (length dict) else -1);
          n = unat dimension * (length dict + (if unknown_index \<ge> 0 then 1 else 0))
      in case bd_next_floats (of_nat n) d of Inl e \<Rightarrow> Inl e | Inr (ws, d) \<Rightarrow>
        Inr (\<lparr>em_dimension = unat dimension, em_updatable_index = 2 ^ 31 - 1, em_unknown_index = unknown_index,
              em_dictionary = dict, em_weights = ws\<rparr>, d))"

definition load_embedding :: "binary_decoder \<Rightarrow> (embedding \<times> binary_decoder) result" where
  "load_embedding d =
     (case bd_next_4B d of Inl e \<Rightarrow> Inl e | Inr (dimension, d) \<Rightarrow>
     (case bd_next_4B d of Inl e \<Rightarrow> Inl e | Inr (entries, d) \<Rightarrow>
     (case load_words (unat entries) [] d of Inl e \<Rightarrow> Inl e | Inr (dict, d) \<Rightarrow>
     (case bd_next_1B d of Inl e \<Rightarrow> Inl e | Inr (unknown, d) \<Rightarrow> load_weights dimension dict unknown d))))"

section \<open>Well-formed embeddings\<close>

text \<open>The ids are the positions of the words, and the table has a row for every id.\<close>

definition dict_ok :: "dictionary \<Rightarrow> bool" where
  "dict_ok d \<longleftrightarrow> distinct (map fst d) \<and> map snd d = map int [0..<length d]"

definition embedding_ok :: "embedding \<Rightarrow> bool" where
  "embedding_ok em \<longleftrightarrow> dict_ok (em_dictionary em) \<and>
     (em_unknown_index em = -1 \<or> em_unknown_index em = int (length (em_dictionary em))) \<and>
     length (em_weights em) = em_dimension em * (length (em_dictionary em) + (if em_unknown_index em \<ge> 0 then 1 else 0))"

lemma emplace_word_ok: "dict_ok d \<Longrightarrow> dict_ok (emplace_word word d)"
  by (auto simp: emplace_word_def dict_ok_def map_of_eq_None_iff)

lemma emplace_words_ok: "dict_ok d \<Longrightarrow> dict_ok (fold (\<lambda>(word, _). emplace_word word) words d)"
  by (induction words arbitrary: d) (auto intro: emplace_word_ok)

lemma emplace_fresh: "word \<notin> fst ` set d \<Longrightarrow> emplace_word word d = d @ [(word, int (length d))]"
  by (simp add: emplace_word_def map_of_eq_None_iff)

lemma dict_ok_range: "dict_ok d \<Longrightarrow> map_of d word = Some i \<Longrightarrow> 0 \<le> i \<and> i < int (length d)"
proof -
  assume d: "dict_ok d" "map_of d word = Some i"
  then have "i \<in> set (map snd d)" by (force dest: map_of_SomeD)
  moreover have "set (map snd d) = set (map int [0..<length d])" using d(1) by (simp only: dict_ok_def)
  ultimately show ?thesis by auto
qed

lemma lookup_word_cases: "lookup_word u em word = em_unknown_index em \<or> (\<exists>w. map_of (em_dictionary em) w = Some (lookup_word u em word))"
  by (auto simp: lookup_word_def Let_def split: prod.splits option.splits if_splits)

text \<open>
  The id that a lookup gives is -1 only if there is no vector for unknown words, and any other
  id has a full row of weights: the network never reads behind the table.
\<close>

theorem lookup_word_row:
  assumes "embedding_ok em" "em_dimension em > 0"
  shows "lookup_word u em word = -1 \<and> unknown_word em = -1 \<or>
    (\<exists>row. em_weight em (lookup_word u em word) = Some row \<and> length row = em_dimension em)"
proof -
  let ?i = "lookup_word u em word" and ?n = "length (em_dictionary em)"
  let ?rows = "?n + (if em_unknown_index em \<ge> 0 then 1 else 0)"
  have row: "\<exists>row. em_weight em i = Some row \<and> length row = em_dimension em" if "0 \<le> i" "i < int ?rows" for i
  proof -
    have "nat i + 1 \<le> ?rows" using that by linarith
    then have "(nat i + 1) * em_dimension em \<le> length (em_weights em)"
      using mult_le_mono1 [of "nat i + 1" ?rows "em_dimension em"] assms(1) by (simp add: embedding_ok_def mult.commute)
    then have le: "nat i * em_dimension em + em_dimension em \<le> length (em_weights em)" by (simp add: algebra_simps)
    then have "int (nat i * em_dimension em + em_dimension em) \<le> int (length (em_weights em))" by (simp only: of_nat_le_iff)
    then have "i * int (em_dimension em) + int (em_dimension em) \<le> int (length (em_weights em))" using that(1) by simp
    then have "i * int (em_dimension em) < int (length (em_weights em))" using assms(2) by linarith
    then show ?thesis using that(1) le by (simp add: em_weight_def)
  qed
  from lookup_word_cases [of u em word] show ?thesis
  proof
    assume i: "?i = em_unknown_index em"
    then show ?thesis using row [of ?i] assms(1) by (auto simp: embedding_ok_def unknown_word_def)
  next
    assume "\<exists>w. map_of (em_dictionary em) w = Some ?i"
    then have "0 \<le> ?i \<and> ?i < int ?n" using dict_ok_range assms(1) by (auto simp: embedding_ok_def)
    then show ?thesis using row [of ?i] by simp
  qed
qed

lemma create_embedding_ok:
  assumes "\<forall>(w, v) \<in> set words. length v = dimension" "distinct (map fst words)"
    "unknown_weights = [] \<or> length unknown_weights = dimension"
  shows "embedding_ok (create_embedding dimension updatable words unknown_weights)"
proof -
  have dict: "map fst d @ map fst words = map fst d @ map fst words \<and> length (fold (\<lambda>(w, _). emplace_word w) words d) = length d + length words"
    if "distinct (map fst d @ map fst words)" for d
    using that
  proof (induction words arbitrary: d)
    case (Cons e words)
    obtain w v where e: "e = (w, v)" by (cases e)
    have fresh: "emplace_word w d = d @ [(w, int (length d))]" using Cons.prems by (intro emplace_fresh) (auto simp: e)
    have "distinct (map fst (emplace_word w d) @ map fst words)" using Cons.prems by (auto simp: fresh e)
    from Cons.IH [OF this] show ?case by (simp add: e fresh)
  qed simp
  have "length (concat (map snd words)) = dimension * length words"
    using assms(1) by (induction words) auto
  moreover have "dict_ok (fold (\<lambda>(w, _). emplace_word w) words [])"
    by (rule emplace_words_ok) (simp add: dict_ok_def)
  ultimately show ?thesis
    using dict [of "[]"] assms(2,3) by (auto simp: create_embedding_def embedding_ok_def algebra_simps Let_def)
qed

lemma lookup_word_row_witness:
  "let em = create_embedding 1 0 [(''a'', [7])] [9] in
   \<forall>u. \<exists>row. em_weight em (lookup_word u em ''b'') = Some row \<and> length row = 1"
proof -
  have "embedding_ok (create_embedding 1 0 [(''a'', [7])] [9])" by (rule create_embedding_ok) simp_all
  from lookup_word_row [OF this, of _ "''b''"] show ?thesis
    by (simp add: Let_def create_embedding_def unknown_word_def emplace_word_def)
qed

section \<open>Saving and loading\<close>

text \<open>A reader \<open>reads\<close> a value from its bytes, whatever follows, and stops behind them.\<close>

definition reads :: "(binary_decoder \<Rightarrow> ('a \<times> binary_decoder) result) \<Rightarrow> u8 list \<Rightarrow> 'a \<Rightarrow> bool" where
  "reads f bs v \<longleftrightarrow> (\<forall>d r. bd_wf d \<and> bd_rest d = bs @ r \<longrightarrow>
     (\<exists>d'. f d = Inr (v, d') \<and> bd_wf d' \<and> bd_rest d' = r))"

lemma reads_refines: "bd_refines f g \<Longrightarrow> (\<And>r. g (bs @ r) = Some (v, r)) \<Longrightarrow> reads f bs v"
  unfolding reads_def using bd_refinesD by fastforce

lemma reads_bind:
  assumes "reads f bs v" "reads (g v) cs w"
  shows "reads (\<lambda>d. case f d of Inl e \<Rightarrow> Inl e | Inr (v, d) \<Rightarrow> g v d) (bs @ cs) w"
  unfolding reads_def
proof (intro allI impI)
  fix d r assume "bd_wf d \<and> bd_rest d = (bs @ cs) @ r"
  then have "bd_wf d \<and> bd_rest d = bs @ (cs @ r)" by simp
  then obtain d1 where d1: "f d = Inr (v, d1)" "bd_wf d1 \<and> bd_rest d1 = cs @ r" using assms(1) unfolding reads_def by blast
  then obtain d2 where "g v d1 = Inr (w, d2)" "bd_wf d2" "bd_rest d2 = r" using assms(2) unfolding reads_def by blast
  then show "\<exists>d'. (case f d of Inl e \<Rightarrow> Inl e | Inr (v, d) \<Rightarrow> g v d) = Inr (w, d') \<and> bd_wf d' \<and> bd_rest d' = r"
    using d1 by simp
qed

lemma reads_return: "reads (\<lambda>d. Inr (v, d)) [] v"
  by (simp add: reads_def)

lemma reads_4B: "reads bd_next_4B (bytes4 n) n"
  by (rule reads_refines [OF bd_next_4B_refines]) simp

lemma reads_1B: "reads bd_next_1B [ucast b] (ucast (ucast b :: u8))"
  by (rule reads_refines [OF bd_next_1B_refines]) simp

lemma add_str_reads:
  assumes "length str < 2 ^ 32"
  shows "\<exists>bs. (\<forall>data. add_str str data = Inr (data @ bs)) \<and> reads bd_next_str bs str"
proof -
  obtain bs where bs: "add_str str [] = Inr bs" using add_str_eq [OF assms, of "[]"] by auto
  have "add_str str data = map_sum (\<lambda>e. e) (\<lambda>out. data @ out) (add_str str [])" for data
    by (simp add: add_str_def add_1B_def add_4B_def add_data_def)
  then have "add_str str data = Inr (data @ bs)" for data by (simp add: bs)
  moreover have "ptr_next_str (bs @ r) = Some (str, r)" for r using add_str_eq [OF assms, of "[]" r] bs by simp
  ultimately show ?thesis using reads_refines [OF bd_next_str_refines] by blast
qed

lemma floats_of_bytes4 [simp]: "floats_of_bytes (bytes4 w @ bs) = w # floats_of_bytes bs"
  using ptr_next_4B_bytes4 [of w "[]"] by (simp add: bytes4_def)

lemma floats_of_bytes_floats: "floats_of_bytes (bytes_of_floats ws) = ws"
  by (induction ws) (simp_all add: bytes_of_floats_def)

lemma length_bytes_of_floats: "length (bytes_of_floats ws) = 4 * length ws"
  by (induction ws) (simp_all add: bytes_of_floats_def bytes4_def)

lemma reads_floats:
  assumes "unat n = length ws"
  shows "reads (bd_next_floats n) (bytes_of_floats ws) ws"
  unfolding reads_def
proof (intro allI impI)
  fix d r assume d: "bd_wf d \<and> bd_rest d = bytes_of_floats ws @ r"
  let ?d = "d\<lparr>bd_pos := bd_pos d + 4 * length ws\<rparr>"
  have rest: "drop (bd_pos d) (bd_buffer d) = bytes_of_floats ws @ r" using d by (simp add: bd_rest_def)
  have le: "bd_pos d + 4 * length ws \<le> length (bd_buffer d)"
    using d bd_length [of d] by (simp add: length_bytes_of_floats)
  have "take (4 * length ws) (drop (bd_pos d) (bd_buffer d)) = bytes_of_floats ws"
    unfolding rest by (simp add: length_bytes_of_floats)
  then have "bd_next_floats n d = Inr (ws, ?d)"
    using le by (simp add: bd_next_floats_def assms floats_of_bytes_floats)
  moreover have "drop (bd_pos d + 4 * length ws) (bd_buffer d) = drop (4 * length ws) (drop (bd_pos d) (bd_buffer d))"
    by (simp add: add.commute)
  then have "bd_rest ?d = r" unfolding rest by (simp add: bd_rest_def length_bytes_of_floats)
  ultimately show "\<exists>d'. bd_next_floats n d = Inr (ws, d') \<and> bd_wf d' \<and> bd_rest d' = r"
    using le by (simp add: bd_wf_def)
qed

lemma load_words_reads:
  assumes "\<forall>w \<in> set words. length w < 2 ^ 32"
  shows "\<exists>bs. (\<forall>data. add_strs words data = Inr (data @ bs)) \<and>
    (\<forall>dict. reads (load_words (length words) dict) bs (fold emplace_word words dict))"
  using assms
proof (induction words)
  case Nil
  then show ?case by (intro exI [of _ "[]"]) (simp add: reads_return)
next
  case (Cons w words)
  obtain bs where bs: "\<And>data. add_strs words data = Inr (data @ bs)"
      "\<And>dict. reads (load_words (length words) dict) bs (fold emplace_word words dict)"
    using Cons by auto
  obtain cs where cs: "\<And>data. add_str w data = Inr (data @ cs)" "reads bd_next_str cs w"
    using add_str_reads [of w] Cons.prems by auto
  have "reads (load_words (length (w # words)) dict) (cs @ bs) (fold emplace_word (w # words) dict)" for dict
  proof -
    have "load_words (length (w # words)) dict = (\<lambda>d. case bd_next_str d of Inl e \<Rightarrow> Inl e
        | Inr (word, d) \<Rightarrow> load_words (length words) (emplace_word word dict) d)"
      by (rule ext) simp
    then show ?thesis
      using reads_bind [OF cs(2), of "\<lambda>w. load_words (length words) (emplace_word w dict)"] bs(2) by simp
  qed
  moreover have "\<forall>data. add_strs (w # words) data = Inr (data @ cs @ bs)" using bs(1) cs(1) by simp
  ultimately show ?case by blast
qed

lemma words_by_id_ok: "dict_ok d \<Longrightarrow> words_by_id d = map fst d"
proof -
  assume d: "dict_ok d"
  have "fold (\<lambda>(word, i) words. words[nat i := word]) e (map fst p @ replicate (length e) []) = map fst (p @ e)"
    if "map snd (p @ e) = map int [0..<length (p @ e)]" for e p
    using that
  proof (induction e arbitrary: p)
    case (Cons x e)
    obtain w i where x: "x = (w, i)" by (cases x)
    have "map snd (p @ x # e) ! length p = map int [0..<length (p @ x # e)] ! length p" using Cons.prems by (simp only:)
    then have "i = int (length p)" by (simp add: x nth_append del: upt_Suc)
    then show ?case using Cons.IH [of "p @ [x]"] Cons.prems by (simp add: x list_update_append)
  qed simp
  from this [of "[]" d] show ?thesis using d by (simp add: words_by_id_def dict_ok_def)
qed

lemma emplace_all:
  "distinct (map fst d @ words) \<Longrightarrow> fold emplace_word words d = d @ map (\<lambda>i. (words ! i, int (length d + i))) [0..<length words]"
proof (induction words arbitrary: d)
  case (Cons w words)
  have fresh: "emplace_word w d = d @ [(w, int (length d))]" using Cons.prems by (intro emplace_fresh) auto
  have "distinct (map fst (emplace_word w d) @ words)" using Cons.prems by (auto simp: fresh)
  from Cons.IH [OF this] show ?case
    by (simp add: fresh map_upt_Suc del: upt_Suc)
qed simp

lemma emplace_words_by_id: "dict_ok d \<Longrightarrow> fold emplace_word (words_by_id d) [] = d"
proof -
  assume d: "dict_ok d"
  have "snd (d ! i) = int i" if "i < length d" for i
  proof -
    have "map snd d ! i = map int [0..<length d] ! i" using d by (simp only: dict_ok_def)
    then show ?thesis using that by simp
  qed
  then have "map (\<lambda>i. (map fst d ! i, int i)) [0..<length d] = d"
    by (intro nth_equalityI) (simp_all add: prod_eq_iff)
  then show ?thesis using d emplace_all [of "[]" "map fst d"] by (simp add: words_by_id_ok dict_ok_def)
qed

lemma load_weights_reads:
  assumes "embedding_ok em" "em_dimension em < 2 ^ 32" "length (em_weights em) < 2 ^ 32"
  shows "reads (load_weights (of_nat (em_dimension em)) (em_dictionary em) (if em_unknown_index em \<ge> 0 then 1 else 0))
    (bytes_of_floats (em_weights em)) (em\<lparr>em_updatable_index := 2 ^ 31 - 1\<rparr>)"
proof -
  let ?d = "em_dictionary em"
  let ?u = "if em_unknown_index em \<ge> 0 then 1 else 0 :: u32"
  have unat: "unat (of_nat n :: u32) = n" if "n < 2 ^ 32" for n using that by (simp add: unat_of_nat)
  have index: "(if ?u \<noteq> 0 then int (length ?d) else -1) = em_unknown_index em"
    using assms(1) by (auto simp: embedding_ok_def)
  have n: "em_dimension em * (length ?d + (if em_unknown_index em \<ge> 0 then 1 else 0)) = length (em_weights em)"
    using assms(1) by (simp add: embedding_ok_def)
  let ?k = "\<lambda>ws d. Inr (\<lparr>em_dimension = em_dimension em, em_updatable_index = 2 ^ 31 - 1,
        em_unknown_index = em_unknown_index em, em_dictionary = ?d, em_weights = ws\<rparr>, d)"
  have "reads (bd_next_floats (of_nat (length (em_weights em)))) (bytes_of_floats (em_weights em)) (em_weights em)"
    by (rule reads_floats) (rule unat [OF assms(3)])
  moreover have "reads (?k (em_weights em)) [] (em\<lparr>em_updatable_index := 2 ^ 31 - 1\<rparr>)"
    by (cases em) (simp add: reads_def)
  ultimately have "reads (\<lambda>d. case bd_next_floats (of_nat (length (em_weights em))) d of Inl e \<Rightarrow> Inl e | Inr (ws, d) \<Rightarrow> ?k ws d)
      (bytes_of_floats (em_weights em) @ []) (em\<lparr>em_updatable_index := 2 ^ 31 - 1\<rparr>)"
    by (rule reads_bind)
  moreover have "load_weights (of_nat (em_dimension em)) ?d ?u =
      (\<lambda>d. case bd_next_floats (of_nat (length (em_weights em))) d of Inl e \<Rightarrow> Inl e | Inr (ws, d) \<Rightarrow> ?k ws d)"
    by (rule ext) (simp only: load_weights_def Let_def index n unat [OF assms(2)])
  ultimately show ?thesis by simp
qed

text \<open>
  C29: an embedding that is saved behind other data is loaded again from there: dictionary, ids,
  the vector for unknown words and every weight, bit by bit. Only the mark of the updatable rows
  is not saved; a loaded embedding has none.
\<close>

theorem embedding_roundtrip:
  assumes "embedding_ok em" "em_dimension em < 2 ^ 32" "length (em_dictionary em) < 2 ^ 32"
    "length (em_weights em) < 2 ^ 32" "\<forall>(w, _) \<in> set (em_dictionary em). length w < 2 ^ 32"
  shows "\<exists>bs. save_embedding em data = Inr (data @ bs) \<and>
    (\<forall>d r. bd_wf d \<and> bd_rest d = bs @ r \<longrightarrow>
       (\<exists>d'. load_embedding d = Inr (em\<lparr>em_updatable_index := 2 ^ 31 - 1\<rparr>, d') \<and> bd_wf d' \<and> bd_rest d' = r))"
proof -
  let ?d = "em_dictionary em" and ?u = "if em_unknown_index em \<ge> 0 then 1 else 0 :: u32"
  have d: "dict_ok ?d" using assms(1) by (simp add: embedding_ok_def)
  have unat: "unat (of_nat n :: u32) = n" if "n < 2 ^ 32" for n using that by (simp add: unat_of_nat)
  have "\<forall>w \<in> set (words_by_id ?d). length w < 2 ^ 32" using assms(5) by (auto simp: words_by_id_ok [OF d])
  from load_words_reads [OF this] obtain bs where bs: "\<And>data. add_strs (words_by_id ?d) data = Inr (data @ bs)"
      "reads (load_words (length ?d) []) bs ?d"
    using emplace_words_by_id [OF d] words_by_id_ok [OF d] by (metis length_map)
  have u: "ucast (ucast ?u :: u8) = ?u" by simp
  have one: "reads bd_next_1B [ucast ?u] ?u" using reads_1B [of ?u] by (simp only: u)
  have dict: "reads (load_words (unat (of_nat (length ?d) :: u32)) []) bs ?d" using bs(2) by (simp only: unat [OF assms(3)])
  have "reads load_embedding (bytes4 (of_nat (em_dimension em)) @ bytes4 (of_nat (length ?d)) @ bs @ [ucast ?u] @
      bytes_of_floats (em_weights em)) (em\<lparr>em_updatable_index := 2 ^ 31 - 1\<rparr>)"
    unfolding load_embedding_def
    by (intro reads_bind [OF reads_4B] reads_bind [OF dict] reads_bind [OF one] load_weights_reads assms)
  moreover have "save_embedding em data = Inr (data @ bytes4 (of_nat (em_dimension em)) @ bytes4 (of_nat (length ?d)) @ bs @
      [ucast ?u] @ bytes_of_floats (em_weights em))"
    by (simp add: save_embedding_def add_4B_def bs(1) add_1B_def)
  ultimately show ?thesis unfolding reads_def by blast
qed

lemma embedding_roundtrip_witness:
  "\<exists>bs. save_embedding (create_embedding 1 0 [(''a'', [7])] [9]) [] = Inr ([] @ bs)"
proof -
  let ?em = "create_embedding 1 0 [(''a'', [7])] [9]"
  have "embedding_ok ?em" by (rule create_embedding_ok) simp_all
  from embedding_roundtrip [OF this, of "[]"] show ?thesis
    by (auto simp: create_embedding_def emplace_word_def)
qed

end
