(* ===== verification/Parser.thy ===== *)
theory Parser
  imports Extractors Embedding
begin

text \<open>
  The parser (\<open>src/parsito/parser/parser_nn.cpp\<close>): the greedy search and the beam search over the
  configurations of a transition system. The network (\<open>src/parsito/network\<close>) is a parameter: it
  takes, for every selected node, the ids of its embeddings, and gives one outcome per transition.
  The outcomes and the costs are values of a linear order.
\<close>

record parser_nn =
  pn_single_root :: bool
  pn_labels :: "string list"
  pn_system :: "transition list"
  pn_nodes :: "node_selector list"
  pn_values :: "value_selector list"
  pn_embeddings :: "embedding list"

section \<open>Embeddings of the nodes\<close>

text \<open>The row of the table of embeddings for one node: an id for every value extractor.\<close>

definition node_ids :: "unicode_tables \<Rightarrow> parser_nn \<Rightarrow> tree_node \<Rightarrow> int list" where
  "node_ids u p n = map2 (\<lambda>value em. lookup_word u em (extract_value value n)) (pn_values p) (pn_embeddings p)"

definition extracted_embeddings :: "int list list \<Rightarrow> int list \<Rightarrow> int list option list" where
  "extracted_embeddings ems nodes = map (\<lambda>n. if n \<ge> 0 then Some (ems ! nat n) else None) nodes"

section \<open>Greedy search\<close>

text \<open>The applicable transition with the greatest outcome, the first one of several.\<close>

definition best_transition :: "(nat \<Rightarrow> bool) \<Rightarrow> ('o :: linorder) list \<Rightarrow> nat option" where
  "best_transition ok outcomes =
     fold (\<lambda>i best. if ok i \<and> (case best of None \<Rightarrow> True | Some b \<Rightarrow> outcomes ! i > outcomes ! b) then Some i else best)
       [0..<length outcomes] None"

text \<open>
  One round of the loop, over the configuration and the table of embeddings. \<open>None\<close> stands for a
  selector that reads outside the stack or the buffer and for a configuration without an
  applicable transition, where the code performs the transition of index -1.
\<close>

definition greedy_step ::
  "unicode_tables \<Rightarrow> parser_nn \<Rightarrow> (int list option list \<Rightarrow> ('o :: linorder) list) \<Rightarrow>
   configuration \<times> int list list \<Rightarrow> (configuration \<times> int list list) option" where
  "greedy_step u p network = (\<lambda>(c, ems).
     case extract_nodes c (pn_nodes p) of None \<Rightarrow> None
     | Some nodes \<Rightarrow>
       (let outcomes = network (extracted_embeddings ems nodes) in
        case best_transition (system_applicable (pn_system p) c) outcomes of None \<Rightarrow> None
        | Some best \<Rightarrow>
          (case system_perform (pn_system p) c best of None \<Rightarrow> None
           | Some (c, child) \<Rightarrow>
             Some (c, if child \<ge> 0 then ems[nat child := node_ids u p (c_tree c ! nat child)] else ems))))"

lemma best_transition_inv:
  fixes outcomes :: "('o :: linorder) list" and ok :: "nat \<Rightarrow> bool"
  defines "f \<equiv> \<lambda>i best. if ok i \<and> (case best of None \<Rightarrow> True | Some b \<Rightarrow> outcomes ! i > outcomes ! b) then Some i else best"
  shows "case fold f [0..<k] None of Some b \<Rightarrow> ok b \<and> b < k | None \<Rightarrow> \<forall>i < k. \<not> ok i"
proof (induction k)
  case (Suc k)
  have "fold f [0..<Suc k] None = f k (fold f [0..<k] None)" by simp
  then show ?case
    using Suc by (cases "fold f [0..<k] None") (auto simp: f_def less_Suc_eq)
qed simp

lemma best_transition_Some: "best_transition ok outcomes = Some b \<Longrightarrow> ok b \<and> b < length outcomes"
  using best_transition_inv [where k = "length outcomes" and ok = ok and outcomes = outcomes]
  by (simp add: best_transition_def)

lemma best_transition_None: "best_transition ok outcomes = None \<Longrightarrow> i < length outcomes \<Longrightarrow> \<not> ok i"
  using best_transition_inv [where k = "length outcomes" and ok = ok and outcomes = outcomes]
  by (simp add: best_transition_def)

lemma greedy_step_Some:
  assumes "greedy_step u p network (c, ems) = Some (c', ems')"
  obtains tr child where "tr \<in> set (pn_system p)" "applicable tr c" "effect tr c = (c', child)"
    "ems' = (if child \<ge> 0 then ems[nat child := node_ids u p (c_tree c' ! nat child)] else ems)"
proof -
  obtain nodes where nodes: "extract_nodes c (pn_nodes p) = Some nodes"
    using assms by (auto simp: greedy_step_def split: option.splits)
  obtain b where b: "best_transition (system_applicable (pn_system p) c) (network (extracted_embeddings ems nodes)) = Some b"
    using assms by (auto simp: greedy_step_def nodes Let_def split: option.splits)
  obtain c1 child where perform: "system_perform (pn_system p) c b = Some (c1, child)"
    using assms by (auto simp: greedy_step_def nodes b Let_def split: option.splits)
  have "c1 = c'" "ems' = (if child \<ge> 0 then ems[nat child := node_ids u p (c_tree c1 ! nat child)] else ems)"
    using assms by (simp_all add: greedy_step_def nodes b perform Let_def)
  then show ?thesis using that [of "pn_system p ! b" child] perform by (auto simp: system_perform_Some)
qed

function greedy_loop ::
  "unicode_tables \<Rightarrow> parser_nn \<Rightarrow> (int list option list \<Rightarrow> ('o :: linorder) list) \<Rightarrow>
   configuration \<times> int list list \<Rightarrow> configuration option" where
  "greedy_loop u p network st =
     (if conf_final (fst st) then Some (fst st)
      else case greedy_step u p network st of None \<Rightarrow> None | Some st \<Rightarrow> greedy_loop u p network st)"
  by pat_completeness auto
termination
proof (relation "inv_image conf_order (\<lambda>(u, p, network, st). fst st)", goal_cases)
  case 1
  show ?case by (simp add: wf_conf_order)
next
  case (2 u p network st st')
  obtain c ems c' ems' where st: "st = (c, ems)" "st' = (c', ems')" by (cases st, cases st')
  obtain tr child where "applicable tr c" "effect tr c = (c', child)"
    using greedy_step_Some 2(2) unfolding st by blast
  then show ?case using effect_decreases [of tr c] by (simp add: st)
qed

declare greedy_loop.simps [simp del]

definition parse_greedy ::
  "unicode_tables \<Rightarrow> parser_nn \<Rightarrow> (int list option list \<Rightarrow> ('o :: linorder) list) \<Rightarrow> tree \<Rightarrow> tree option" where
  "parse_greedy u p network t =
     (let c = conf_init (pn_single_root p) t in
      map_option c_tree (greedy_loop u p network (c, map (node_ids u p) (c_tree c))))"

section \<open>What the search leaves alone\<close>

text \<open>A node without its links, and a node without its relation too.\<close>

definition unlinked :: "tree_node \<Rightarrow> tree_node" where
  "unlinked n = n\<lparr>n_head := -1, n_children := []\<rparr>"

definition same_words :: "tree \<Rightarrow> tree \<Rightarrow> bool" where
  "same_words t t' \<longleftrightarrow> unlink_all_nodes t = unlink_all_nodes t'"

lemma same_words_length: "same_words t t' \<Longrightarrow> length t = length t'"
  unfolding same_words_def by (metis length_unlink_nodes)

lemma same_words_trans: "same_words t t' \<Longrightarrow> same_words t' t'' \<Longrightarrow> same_words t t''"
  by (simp add: same_words_def)

lemma unlink_upd: "(\<And>n. unlink_all_nodes [f n] = unlink_all_nodes [n]) \<Longrightarrow> unlink_all_nodes (upd i f t) = unlink_all_nodes t"
  unfolding unlink_all_nodes_def by (intro map_upd_same) simp

lemma same_words_set_head: "same_words (tree_set_head i h d t) t"
  unfolding same_words_def tree_set_head_def Let_def
  by (simp add: unlink_upd unlink_all_nodes_def [of "[_]"])

lemma same_words_unlink: "same_words (unlink_all_nodes t) t"
  by (simp add: same_words_def unlink_all_nodes_def)

lemma same_words_effect: "same_words (c_tree (fst (effect tr c))) (c_tree c)"
  by (cases tr) (simp_all add: Let_def same_words_set_head, simp_all add: same_words_def)

text \<open>The extractors do not see the links, so linking a child changes its own row only.\<close>

lemma extract_value_unlinked: "extract_value v (unlinked n) = extract_value v n"
  by (cases v) (simp_all add: extract_value_def unlinked_def cong: option.case_cong)

lemma node_ids_unlinked: "unlinked n = unlinked n' \<Longrightarrow> node_ids u p n = node_ids u p n'"
  unfolding node_ids_def by (metis extract_value_unlinked)

lemma unlinked_upd_children: "unlinked (n\<lparr>n_children := cs\<rparr>) = unlinked n"
  by (simp add: unlinked_def)

lemma unlinked_upd: "(\<And>n. unlinked (f n) = unlinked n) \<Longrightarrow> map unlinked (upd i f t) = map unlinked t"
  by (rule map_upd_same)

lemma unlinked_set_head:
  assumes "j < length t" "j \<noteq> nat i"
  shows "unlinked (tree_set_head i h d t ! j) = unlinked (t ! j)"
proof -
  have "unlinked (upd k f ns ! j) = unlinked (ns ! j)"
    if "j < length ns" "(\<forall>n. unlinked (f n) = unlinked n) \<or> j \<noteq> nat k" for k f and ns :: tree
    using that by (cases "j = nat k") (auto simp: upd_def)
  then show ?thesis
    using assms by (simp add: tree_set_head_def Let_def unlinked_upd_children)
qed

lemma node_ids_effect:
  assumes "applicable tr c" "conf_wf c" "j < length (c_tree c)" "snd (effect tr c) < 0 \<or> j \<noteq> nat (snd (effect tr c))"
  shows "node_ids u p (c_tree (fst (effect tr c)) ! j) = node_ids u p (c_tree c ! j)"
  using assms(1,2)
proof (cases rule: effect_cases)
  case (arc ch pa l)
  have "ch \<in> set (c_stack c @ c_buffer c)"
    using arc(3) by (metis set_mset_mset union_single_eq_member)
  then have "ch \<ge> 0" using assms(2) by (auto simp: conf_wf_def ids_def)
  then show ?thesis
    using assms(3,4) arc(1,2) by (intro node_ids_unlinked) (simp add: unlinked_set_head)
qed simp

section \<open>The table of embeddings\<close>

text \<open>
  The loop recomputes one row of the table, that of the child that was linked. Reference: a loop
  that computes the whole table anew from the tree in every round.
\<close>

definition fresh_step ::
  "unicode_tables \<Rightarrow> parser_nn \<Rightarrow> (int list option list \<Rightarrow> ('o :: linorder) list) \<Rightarrow> configuration \<Rightarrow> configuration option" where
  "fresh_step u p network c = map_option fst (greedy_step u p network (c, map (node_ids u p) (c_tree c)))"

lemma greedy_step_fresh:
  assumes "conf_wf c" "greedy_step u p network (c, map (node_ids u p) (c_tree c)) = Some (c', ems')"
  shows "conf_wf c' \<and> ems' = map (node_ids u p) (c_tree c')"
proof -
  let ?row = "node_ids u p"
  obtain tr child where tr: "applicable tr c" "effect tr c = (c', child)"
    and ems: "ems' = (if child \<ge> 0 then (map ?row (c_tree c))[nat child := ?row (c_tree c' ! nat child)] else map ?row (c_tree c))"
    using greedy_step_Some [OF assms(2)] by metis
  have wf: "conf_wf c'" and len: "length (c_tree c') = length (c_tree c)"
    using effect_wf [OF tr(1) assms(1)] by (simp_all add: tr(2))
  have "ems' ! j = ?row (c_tree c' ! j)" if "j < length (c_tree c)" for j
    using node_ids_effect [OF tr(1) assms(1) that, of u p] that
    by (cases "j = nat child"; cases "child \<ge> 0") (simp_all add: ems tr(2))
  then have "ems' = map ?row (c_tree c')" using len by (intro nth_equalityI) (auto simp: ems)
  with wf show ?thesis by simp
qed

inductive fresh_run ::
  "unicode_tables \<Rightarrow> parser_nn \<Rightarrow> (int list option list \<Rightarrow> ('o :: linorder) list) \<Rightarrow> configuration \<Rightarrow> configuration \<Rightarrow> bool"
  for u p network where
  stop: "conf_final c \<Longrightarrow> fresh_run u p network c c"
| step: "\<not> conf_final c \<Longrightarrow> fresh_step u p network c = Some c' \<Longrightarrow> fresh_run u p network c' d \<Longrightarrow> fresh_run u p network c d"

inductive_cases fresh_runE: "fresh_run u p network c d"

lemma greedy_loop_fresh:
  "conf_wf c \<Longrightarrow> greedy_loop u p network (c, map (node_ids u p) (c_tree c)) = Some d \<longleftrightarrow> fresh_run u p network c d"
proof (induction u p network "(c, map (node_ids u p) (c_tree c))" arbitrary: c rule: greedy_loop.induct)
  case (1 u p network)
  let ?st = "(c, map (node_ids u p) (c_tree c))"
  show ?case
  proof (cases "conf_final c")
    case True
    then show ?thesis by (subst greedy_loop.simps) (auto intro: stop elim: fresh_runE)
  next
    case False
    show ?thesis
    proof (cases "greedy_step u p network ?st")
      case None
      then show ?thesis
        using False by (subst greedy_loop.simps) (auto elim: fresh_runE simp: fresh_step_def)
    next
      case (Some st)
      obtain c' where st: "st = (c', map (node_ids u p) (c_tree c'))" "conf_wf c'"
        using greedy_step_fresh [OF 1(2)] Some by (metis surj_pair)
      have "greedy_loop u p network ?st = greedy_loop u p network st"
        using False Some by (subst greedy_loop.simps) simp
      moreover have "greedy_loop u p network st = Some d \<longleftrightarrow> fresh_run u p network c' d"
        using 1(1) [of c'] False Some st by simp
      moreover have "fresh_step u p network c = Some c'" using Some by (simp add: fresh_step_def st(1))
      ultimately show ?thesis using False by (auto intro: step elim: fresh_runE)
    qed
  qed
qed

text \<open>
  C13: updating the row of the linked child is enough: the greedy search returns a tree exactly
  when the reference search that recomputes all embeddings before every transition ends, and then
  it is the same tree.
\<close>

theorem greedy_cache_correct:
  assumes "wf_tree t"
  shows "parse_greedy u p network t = Some t' \<longleftrightarrow>
    (\<exists>c. fresh_run u p network (conf_init (pn_single_root p) t) c \<and> c_tree c = t')"
  using greedy_loop_fresh [OF conjunct1 [OF conf_init_wf [OF assms, of "pn_single_root p"]], of u p network]
  by (auto simp: parse_greedy_def Let_def)

section \<open>The greedy search returns a dependency tree\<close>

text \<open>
  What a model has to satisfy: its transition system exists, its labels allow for the root, the
  selectors have indices that are not negative and the network has an outcome per transition.
\<close>

definition parser_ok :: "string \<Rightarrow> parser_nn \<Rightarrow> (int list option list \<Rightarrow> ('o :: linorder) list) \<Rightarrow> bool" where
  "parser_ok system_name p network \<longleftrightarrow> create_system system_name (pn_labels p) = Some (pn_system p) \<and>
     labels_ok (pn_single_root p) (pn_labels p) \<and> (\<forall>s \<in> set (pn_nodes p). snd (ns_start s) \<ge> 0) \<and>
     (\<forall>xs. length (network xs) = transition_count (pn_system p))"

lemma greedy_step_returns:
  assumes "parser_ok nm p network" "conf_inv c" "c_single_root c = pn_single_root p" "\<not> conf_final c"
  shows "\<exists>st. greedy_step u p network (c, ems) = Some st"
proof -
  have wf: "conf_wf c" using assms(2) by (simp add: conf_inv_def)
  obtain nodes where nodes: "extract_nodes c (pn_nodes p) = Some nodes"
    using extract_nodes_range [OF wf, of "pn_nodes p"] assms(1) by (auto simp: parser_ok_def)
  let ?out = "network (extracted_embeddings ems nodes)"
  obtain tr where tr: "tr < length ?out" "system_applicable (pn_system p) c tr"
    using transitions_progress [of nm "pn_labels p" "pn_system p" c] assms wf
    by (auto simp: parser_ok_def conf_wf_def)
  then obtain b where b: "best_transition (system_applicable (pn_system p) c) ?out = Some b"
    using best_transition_None by (cases "best_transition (system_applicable (pn_system p) c) ?out") blast+
  then have "system_applicable (pn_system p) c b" by (rule conjunct1 [OF best_transition_Some])
  then show ?thesis
    by (simp add: greedy_step_def nodes b Let_def system_perform_def perform_def system_applicable_def split: prod.split)
qed

lemma greedy_loop_returns:
  assumes "parser_ok nm p network"
  shows "conf_inv (fst st) \<Longrightarrow> c_single_root (fst st) = pn_single_root p \<Longrightarrow>
    \<exists>d. greedy_loop u p network st = Some d \<and> conf_inv d \<and> conf_final d \<and> same_words (c_tree d) (c_tree (fst st)) \<and>
      c_single_root d = pn_single_root p"
  using assms
proof (induction u p network st rule: greedy_loop.induct)
  case (1 u p network st)
  show ?case
  proof (cases "conf_final (fst st)")
    case True
    then show ?thesis using 1 by (subst greedy_loop.simps) (simp add: same_words_def)
  next
    case False
    obtain c ems where st: "st = (c, ems)" by (cases st)
    obtain c' ems' where next': "greedy_step u p network st = Some (c', ems')"
      using greedy_step_returns [of nm p network c u ems] 1(2-4) False by (auto simp: st)
    obtain tr child where tr: "applicable tr c" "effect tr c = (c', child)"
      using greedy_step_Some next' unfolding st by metis
    have inv: "conf_inv c'" "c_single_root c' = pn_single_root p"
      using effect_inv [OF tr(1)] 1(2,3) by (simp_all add: st tr(2))
    have same: "same_words (c_tree c') (c_tree c)" using same_words_effect [of tr c] by (simp add: tr(2))
    have "\<exists>d. greedy_loop u p network (c', ems') = Some d \<and> conf_inv d \<and> conf_final d \<and> same_words (c_tree d) (c_tree c') \<and>
        c_single_root d = pn_single_root p"
      using 1(1) [OF False next'] inv 1(4) by simp
    then show ?thesis
      using False next' same same_words_trans by (subst greedy_loop.simps) (auto simp: st)
  qed
qed

text \<open>
  With a well-formed model the greedy search ends on every sentence, whatever the network says,
  and returns a dependency tree over the same words; if the model asks for a single root, exactly
  one word is under the root and bears the label \<open>root\<close>.
\<close>

lemma parse_greedy_tree:
  assumes "parser_ok nm p network" "wf_tree t"
  shows "\<exists>t'. parse_greedy u p network t = Some t' \<and> dependency_tree t' \<and> same_words t' t \<and>
    (pn_single_root p \<and> length t > 1 \<longrightarrow> single_rooted t')"
proof -
  let ?c = "conf_init (pn_single_root p) t"
  have inv: "conf_inv ?c" "c_single_root ?c = pn_single_root p" "c_tree ?c = unlink_all_nodes t"
    using conf_init_wf [OF assms(2), of "pn_single_root p"] by (simp_all add: conf_inv_def conf_init_def Let_def)
  obtain d where d: "greedy_loop u p network (?c, map (node_ids u p) (c_tree ?c)) = Some d" "conf_inv d" "conf_final d"
      "same_words (c_tree d) (c_tree ?c)" "c_single_root d = pn_single_root p"
    using greedy_loop_returns [OF assms(1), of "(?c, map (node_ids u p) (c_tree ?c))" u] inv by auto
  have same: "same_words (c_tree d) t" using d(4) same_words_unlink same_words_trans by (simp add: inv(3))
  then have "length (c_tree d) = length t" by (rule same_words_length)
  then show ?thesis
    using d same final_tree [OF d(2,3)] final_single_root [OF d(2,3)] by (auto simp: parse_greedy_def)
qed

definition sample_parser :: parser_nn where
  "sample_parser = \<lparr>pn_single_root = True, pn_labels = [''root'', ''det''], pn_system = swap_system [''root'', ''det''],
     pn_nodes = [\<lparr>ns_start = (Stack_Start, 0), ns_directions = [Child_Direction 0]\<rparr>], pn_values = [Form_Value],
     pn_embeddings = [create_embedding 1 0 [(''a'', [7])] [9]]\<rparr>"

lemma sample_parser_ok: "parser_ok ''swap'' sample_parser (\<lambda>_. replicate 6 (0 :: nat))"
  by (simp add: parser_ok_def sample_parser_def create_system_def labels_ok_def root_label_def transition_count_def swap_system_def)

lemma parse_greedy_tree_witness:
  "\<forall>u. \<exists>t'. parse_greedy u sample_parser (\<lambda>_. replicate 6 (0 :: nat)) (add_node ''a'' tree_clear) = Some t' \<and> single_rooted t'"
  using parse_greedy_tree [OF sample_parser_ok wf_tree_add_node [OF wf_tree_clear], of _ "''a''"]
  by (auto simp: sample_parser_def add_node_def tree_clear_def)

lemma greedy_cache_correct_witness:
  "\<forall>u. parse_greedy u sample_parser (\<lambda>_. replicate 6 (0 :: nat)) tree_clear = Some (unlink_all_nodes tree_clear)"
proof
  fix u
  have "conf_final (conf_init True tree_clear)"
    by (simp add: conf_final_def conf_init_def Let_def tree_clear_def add_node_def unlink_all_nodes_def upd_def)
  then have "fresh_run u sample_parser (\<lambda>_. replicate 6 (0 :: nat)) (conf_init (pn_single_root sample_parser) tree_clear)
      (conf_init True tree_clear)" by (auto intro: stop simp: sample_parser_def)
  moreover have "c_tree (conf_init True tree_clear) = unlink_all_nodes tree_clear" by (simp add: conf_init_def Let_def)
  ultimately show "parse_greedy u sample_parser (\<lambda>_. replicate 6 (0 :: nat)) tree_clear = Some (unlink_all_nodes tree_clear)"
    using greedy_cache_correct [OF wf_tree_clear] by metis
qed

section \<open>What the network reads\<close>

text \<open>
  C26: What the parser hands to the network in a reachable configuration is in range: every
  selector picks a node or none, and for each picked node the table holds one id per embedding,
  which is a full row of that embedding, or -1 where the embedding has no row for unknown words. The
  selectors must not have negative indices.
\<close>

theorem network_input_range:
  assumes "conf_wf c" "\<forall>s \<in> set (pn_nodes p). snd (ns_start s) \<ge> 0" "length (pn_values p) = length (pn_embeddings p)"
    and "\<forall>em \<in> set (pn_embeddings p). embedding_ok em \<and> em_dimension em > 0"
  shows "\<exists>nodes. extract_nodes c (pn_nodes p) = Some nodes \<and> length nodes = length (pn_nodes p) \<and>
    (\<forall>row \<in> set (extracted_embeddings (map (node_ids u p) (c_tree c)) nodes). \<forall>ids. row = Some ids \<longrightarrow>
       list_all2 (\<lambda>i em. i = -1 \<and> unknown_word em = -1 \<or>
         (\<exists>weights. em_weight em i = Some weights \<and> length weights = em_dimension em)) ids (pn_embeddings p))"
proof -
  have ids: "list_all2 (\<lambda>i em. i = -1 \<and> unknown_word em = -1 \<or>
      (\<exists>weights. em_weight em i = Some weights \<and> length weights = em_dimension em)) (node_ids u p n) (pn_embeddings p)" for n
    unfolding node_ids_def using assms(3,4) lookup_word_row by (auto simp: list_all2_conv_all_nth)
  obtain nodes where nodes: "extract_nodes c (pn_nodes p) = Some nodes" "length nodes = length (pn_nodes p)"
      "\<forall>n \<in> set nodes. n = -1 \<or> 0 \<le> n \<and> n < int (length (c_tree c))"
    using extract_nodes_range [OF assms(1,2)] by blast
  have "\<exists>n. ids = node_ids u p n" if some: "Some ids \<in> set (extracted_embeddings (map (node_ids u p) (c_tree c)) nodes)" for ids
  proof -
    obtain x where x: "x \<in> set nodes" "0 \<le> x" "ids = map (node_ids u p) (c_tree c) ! nat x"
      using some by (auto simp: extracted_embeddings_def split: if_splits)
    then have "x < int (length (c_tree c))" using nodes(3) by fastforce
    then have "nat x < length (c_tree c)" using x(2) by simp
    then show ?thesis using x(3) by auto
  qed
  then show ?thesis using nodes(1,2) ids by blast
qed

lemma network_input_range_witness:
  "\<forall>u. \<exists>nodes. extract_nodes (conf_init False (add_node ''a'' tree_clear)) (pn_nodes sample_parser) = Some nodes \<and>
    length nodes = 1 \<and>
    (\<forall>row \<in> set (extracted_embeddings (map (node_ids u sample_parser) (c_tree (conf_init False (add_node ''a'' tree_clear)))) nodes).
      \<forall>ids. row = Some ids \<longrightarrow> list_all2 (\<lambda>i em. i = -1 \<and> unknown_word em = -1 \<or>
        (\<exists>weights. em_weight em i = Some weights \<and> length weights = em_dimension em)) ids (pn_embeddings sample_parser))"
proof
  fix u
  let ?c = "conf_init False (add_node ''a'' tree_clear)"
  have wf: "conf_wf ?c" using conf_init_wf [OF wf_tree_add_node [OF wf_tree_clear, of "''a''"], of False] by blast
  have "embedding_ok (create_embedding 1 0 [(''a'', [7])] [9])" by (rule create_embedding_ok) simp_all
  then have em: "\<forall>em \<in> set (pn_embeddings sample_parser). embedding_ok em \<and> em_dimension em > 0"
    by (simp add: sample_parser_def) (simp add: create_embedding_def Let_def)
  have start: "\<forall>s \<in> set (pn_nodes sample_parser). snd (ns_start s) \<ge> 0"
    and vals: "length (pn_values sample_parser) = length (pn_embeddings sample_parser)"
    and one: "length (pn_nodes sample_parser) = 1"
    by (simp_all add: sample_parser_def)
  show "\<exists>nodes. extract_nodes ?c (pn_nodes sample_parser) = Some nodes \<and> length nodes = 1 \<and>
    (\<forall>row \<in> set (extracted_embeddings (map (node_ids u sample_parser) (c_tree ?c)) nodes).
      \<forall>ids. row = Some ids \<longrightarrow> list_all2 (\<lambda>i em. i = -1 \<and> unknown_word em = -1 \<or>
        (\<exists>weights. em_weight em i = Some weights \<and> length weights = em_dimension em)) ids (pn_embeddings sample_parser))"
    by (rule network_input_range [OF wf start vals em, of u, unfolded one])
qed

end
