(* ===== verification/Oracles.thy ===== *)
theory Oracles
  imports Parser
begin

text \<open>
  The static oracle of the projective system, which tells the trainer of the parser which
  transition to follow (\<open>src/parsito/transition/transition_system_projective.cpp\<close>), and the loop of
  \<open>src/parsito/parser/parser_nn_trainer.cpp\<close> that follows it. A failed search for a label is
  \<open>None\<close>, the assertion in the code.

  The proofs show that the oracle is complete: on a projective tree the loop runs through, without
  its emergency break, and ends with the gold tree.
\<close>

section \<open>Model\<close>

fun label_index :: "string list \<Rightarrow> string \<Rightarrow> nat option" where
  "label_index [] d = None"
| "label_index (l # ls) d = (if d = l then Some 0 else map_option Suc (label_index ls d))"

text \<open>The labels that are equal to a relation, as indices in order.\<close>

definition label_indices :: "string list \<Rightarrow> string \<Rightarrow> nat list" where
  "label_indices labels d = filter (\<lambda>i. d = labels ! i) [0..<length labels]"

definition root_index :: "string list \<Rightarrow> nat" where
  "root_index labels = (case label_index labels root_label of None \<Rightarrow> length labels | Some i \<Rightarrow> i)"

text \<open>The projective system: shift is 0, the arcs of label \<open>i\<close> are \<open>1 + 2 i\<close> to the left and the next to the right.\<close>

definition predict_projective :: "string list \<Rightarrow> tree \<Rightarrow> configuration \<Rightarrow> nat option" where
  "predict_projective labels gold c =
     (case c_stack c of
        a # b # _ \<Rightarrow>
          if n_head (gold ! nat b) = a then map_option (\<lambda>i. 1 + 2 * i) (label_index labels (n_deprel (gold ! nat b)))
          else if n_head (gold ! nat a) = b \<and>
              (c_buffer c = [] \<or> n_children (gold ! nat a) = [] \<or> last (n_children (gold ! nat a)) < hd (c_buffer c))
          then map_option (\<lambda>i. 1 + 2 * i + 1) (label_index labels (n_deprel (gold ! nat a)))
          else Some 0
      | _ \<Rightarrow> Some 0)"

definition interesting_projective :: "string list \<Rightarrow> tree \<Rightarrow> configuration \<Rightarrow> nat list" where
  "interesting_projective labels gold c =
     (if c_buffer c \<noteq> [] then [0] else []) @
     (case c_stack c of
        a # b # st \<Rightarrow> concat (map (\<lambda>(direction, child). map (\<lambda>i. 1 + 2 * i + direction)
            (filter (\<lambda>i. \<not> c_single_root c \<or> (i = root_index labels \<and> st = [] \<and> c_buffer c = [] \<and> direction = 1) \<or>
                (i \<noteq> root_index labels \<and> st \<noteq> []))
              (label_indices labels (n_deprel (gold ! nat child))))) [(0, b), (1, a)])
      | _ \<Rightarrow> [])"

text \<open>The loop that follows an oracle; a transition that is not applicable breaks it.\<close>

function follow_oracle :: "(configuration \<Rightarrow> nat option) \<Rightarrow> transition list \<Rightarrow> configuration \<Rightarrow> configuration option" where
  "follow_oracle predict sys c =
     (if conf_final c then Some c
      else case predict c of None \<Rightarrow> None
      | Some tr \<Rightarrow> (case system_perform sys c tr of None \<Rightarrow> Some c | Some (c', _) \<Rightarrow> follow_oracle predict sys c'))"
  by pat_completeness auto
termination
proof (relation "inv_image conf_order (\<lambda>(predict, sys, c). c)", goal_cases)
  case 1
  show ?case by (simp add: wf_conf_order)
next
  case (2 predict sys c tr r c' child)
  then have "applicable (sys ! tr) c" "c' = fst (effect (sys ! tr) c)" by (auto simp: system_perform_Some dest: arg_cong [where f = fst])
  then show ?case using effect_decreases [of "sys ! tr" c] by simp
qed

declare follow_oracle.simps [simp del]

section \<open>Projective trees\<close>

text \<open>Every word between a word and its head descends from that head.\<close>

definition projective :: "tree \<Rightarrow> bool" where
  "projective t \<longleftrightarrow> (\<forall>i \<in> ids t. \<forall>k. 0 \<le> n_head (t ! nat i) \<longrightarrow> min i (n_head (t ! nat i)) < k \<longrightarrow> k < max i (n_head (t ! nat i)) \<longrightarrow>
     reaches t k (n_head (t ! nat i)))"

abbreviation gh :: "tree \<Rightarrow> int \<Rightarrow> int" where
  "gh t i \<equiv> n_head (t ! nat i)"

lemma projectiveD:
  assumes "projective t" "i \<in> ids t" "0 \<le> gh t i" "min i (gh t i) < k" "k < max i (gh t i)"
  shows "reaches t k (gh t i)"
  using assms unfolding projective_def by blast

lemma reaches_head: "reaches t i r \<Longrightarrow> i \<noteq> r \<Longrightarrow> reaches t (gh t i) r"
  by (cases rule: reaches.cases) auto

lemma gold_head:
  assumes "dependency_tree t" "i \<in> ids t" "i \<noteq> 0"
  shows "gh t i \<in> ids t" "0 \<le> gh t i" "reaches t i (gh t i)"
proof -
  show h: "0 \<le> gh t i" using assms by (simp add: dependency_tree_def)
  then show ids: "gh t i \<in> ids t" using tree.wf_head_ids [of t i] assms by (simp add: dependency_tree_def wf_tree_def)
  show "reaches t i (gh t i)" by (rule reaches.up [OF assms(2) refl reaches.here [OF ids]])
qed

lemma reaches_acyclic:
  assumes "dependency_tree t"
  shows "reaches t i r \<Longrightarrow> r = 0 \<Longrightarrow> reaches t i j \<Longrightarrow> reaches t j i \<Longrightarrow> i = j"
proof (induction arbitrary: j rule: reaches.induct)
  case (here i)
  show ?case
  proof (rule ccontr)
    assume "i \<noteq> j"
    then have "reaches t (gh t i) j" using here reaches_head by blast
    then have "gh t i \<in> ids t" using reaches_ids by blast
    then show False using here assms by (simp add: dependency_tree_def ids_def)
  qed
next
  case (up i h r)
  show ?case
  proof (rule ccontr)
    assume ne: "i \<noteq> j"
    have hj: "reaches t h j" using reaches_head [OF up.prems(2) ne] up.hyps(2) by simp
    have ih: "reaches t i h" using reaches_ids [OF hj] by (intro reaches.up [OF up.hyps(1,2)] reaches.here) simp
    have "reaches t h i" using hj up.prems(3) by (rule reaches_trans)
    from up.IH [OF up.prems(1) this ih] have "h = i" .
    then show False using up.IH [OF up.prems(1)] hj up.prems(3) ne by blast
  qed
qed

lemma reaches_antisym: "dependency_tree t \<Longrightarrow> reaches t i j \<Longrightarrow> reaches t j i \<Longrightarrow> i = j"
  using reaches_acyclic [of t i 0 j] reaches_ids [of t i j] by (auto simp: dependency_tree_def)

lemma gold_head_neq: "dependency_tree t \<Longrightarrow> i \<in> ids t \<Longrightarrow> gh t i \<noteq> i"
proof
  assume t: "dependency_tree t" and i: "i \<in> ids t" and h: "gh t i = i"
  have "reaches t j r \<Longrightarrow> j = i \<Longrightarrow> r = i" for j r
    by (induction rule: reaches.induct) (use h in auto)
  then have "0 = i" using t i by (auto simp: dependency_tree_def)
  then show False using t h by (simp add: dependency_tree_def)
qed

section \<open>Where the oracle cannot be\<close>

text \<open>
  Pending words are those without a head yet. \<open>heads_pending\<close>: the gold head of a pending word is
  pending, so the words below a linked word are linked. \<open>lefts_done\<close>: no word of the stack but its
  top waits for a dependent below it. \<open>rights_open\<close>: a word of the stack whose head is directly
  below it, the top aside, waits for a dependent above it.
\<close>

definition heads_pending :: "tree \<Rightarrow> int set \<Rightarrow> bool" where
  "heads_pending gold P \<longleftrightarrow> P \<subseteq> ids gold \<and> (\<forall>w \<in> P. w \<noteq> 0 \<longrightarrow> gh gold w \<in> P)"

definition lefts_done :: "tree \<Rightarrow> int set \<Rightarrow> int list \<Rightarrow> bool" where
  "lefts_done gold P st \<longleftrightarrow> (\<forall>y \<in> set st. \<forall>z \<in> P. z < y \<longrightarrow> gh gold z \<noteq> y)"

definition rights_open :: "tree \<Rightarrow> int set \<Rightarrow> int list \<Rightarrow> bool" where
  "rights_open gold P st \<longleftrightarrow> (\<forall>p x y s. st = p @ x # y # s \<and> gh gold x = y \<longrightarrow> (\<exists>v \<in> P. x < v \<and> gh gold v = x))"

text \<open>
  Walking down the stack from below its top \<open>a\<close>: if the first word \<open>b\<close> waits for nothing from \<open>a\<close> on
  and every head on the way is further below, the walk would have to pass the root.
\<close>

lemma no_walk_down:
  assumes gold: "dependency_tree gold" "projective gold"
    and P: "heads_pending gold P" "P = set (a # hi @ x # lo) \<union> B" "\<forall>v \<in> B. a < v" "sorted_wrt (>) (a # hi @ x # lo)"
      "last (x # lo) = 0"
    and inv: "lefts_done gold P (hi @ x # lo)" "rights_open gold P (hi @ x # lo)"
    and b: "b = hd (hi @ [x])" "\<forall>v \<in> P. a \<le> v \<longrightarrow> gh gold v \<noteq> b"
    and down: "x \<noteq> 0" "gh gold x < x" "\<forall>e \<in> set hi. gh gold e < x"
  shows False
  using assms
proof (induction lo arbitrary: hi x)
  case Nil
  then show ?case by simp
next
  case (Cons y lo)
  let ?h = "gh gold x"
  have PI: "P \<subseteq> ids gold" "\<And>w. w \<in> P \<Longrightarrow> w \<noteq> 0 \<Longrightarrow> gh gold w \<in> P" using Cons.prems(3) by (auto simp: heads_pending_def)
  have nonneg: "0 \<le> w" if "w \<in> P" for w using PI(1) that by (auto simp: ids_def)
  have order: "y < x" "\<forall>e \<in> set hi. x < e \<and> e < a" "x < a" "\<forall>e \<in> set lo. e < y"
    using Cons.prems(6) by (auto simp: sorted_wrt_append)
  have x: "x \<in> P" "x \<in> ids gold" "0 < x" using Cons.prems(4,12) PI(1) nonneg [of x] by auto
  have h: "?h \<in> P" "reaches gold x ?h" "0 \<le> ?h" using PI(2) [OF x(1)] x gold_head [OF gold(1) x(2)] by simp_all
  have lo: "?h \<in> set (y # lo)"
    using h(1) Cons.prems(4,5,13) order(2,3) by force
  note proj = projectiveD [OF gold(2)] and antisym = reaches_antisym [OF gold(1)]
  show ?case
  proof (cases "?h = y")
    case True
    then obtain v where v: "v \<in> P" "x < v" "gh gold v = x"
      using Cons.prems(9) unfolding rights_open_def by blast
    have "v \<notin> set hi" using v(3) Cons.prems(14) by auto
    then have av: "a \<le> v" using v(1,2) Cons.prems(4,5) order(1,4) by force
    then have "x \<noteq> b" using Cons.prems(11) v(1,3) by blast
    then have b: "b \<in> set hi" using Cons.prems(10) by (cases hi) auto
    then have lt: "x < b" "b < a" "gh gold b < x" using order(2) Cons.prems(14) by auto
    have bP: "b \<in> P" "b \<noteq> 0" using b Cons.prems(4) lt x(3) by auto
    have "reaches gold b x"
      using proj [of v b] v PI(1) x(3) lt av by auto
    then have up: "reaches gold (gh gold b) x" using lt(1) reaches_head [of gold b x] by auto
    have "reaches gold x (gh gold b)"
      using proj [of b x] PI bP lt(1,3) nonneg [OF PI(2) [OF bP]] by auto
    then show False using antisym [OF up] lt(3) by simp
  next
    case False
    then have hy: "?h < y" using lo order(4) by auto
    have y: "y \<in> P" "y \<in> ids gold" "y \<noteq> 0" using Cons.prems(4) PI(1) hy h(3) by auto
    have yh: "reaches gold y ?h" using proj [of x y] x(2) h(3) hy order(1) by auto
    have gy: "gh gold y \<in> P" using PI(2) y by blast
    have "gh gold y < y"
    proof (rule ccontr)
      assume "\<not> gh gold y < y"
      then have gt: "y < gh gold y" using gold_head_neq [OF gold(1) y(2)] by simp
      show False
      proof (cases "a \<le> gh gold y")
        case True
        then have "reaches gold x (gh gold y)" using proj [of y x] y(2) order(1,3) gt nonneg [OF gy] by auto
        moreover have "x \<noteq> gh gold y" using True order(3) by simp
        ultimately have "reaches gold ?h (gh gold y)" using reaches_head by blast
        moreover have "reaches gold (gh gold y) ?h" using yh hy reaches_head [of gold y ?h] by auto
        ultimately have "?h = gh gold y" by (rule antisym)
        then show False using gt hy by simp
      next
        case False
        then have "gh gold y \<in> set (hi @ [x])" using gy gt Cons.prems(4,5) order(4) by force
        then show False using Cons.prems(8) y(1) gt unfolding lefts_done_def by auto
      qed
    qed
    moreover have "gh gold e < y" if e: "e \<in> set (hi @ [x])" for e
    proof (cases "e = x")
      case False
      then have ea: "e \<in> set hi" using e by simp
      then have eP: "e \<in> P" "e \<noteq> 0" "gh gold e < x" "x < e" using Cons.prems(4,14) order(2) x(3) by auto
      have "gh gold e \<in> P" using PI(2) eP by blast
      then have "gh gold e \<in> set (y # lo)" using eP(3) Cons.prems(4,5) order(2,3) by force
      moreover have "gh gold e \<noteq> y"
      proof
        assume ey: "gh gold e = y"
        have "reaches gold x y" using proj [of e x] eP PI(1) nonneg [OF y(1)] order(1) ey by auto
        then have "reaches gold ?h y" using reaches_head [of gold x y] order(1) by auto
        then show False using antisym yh hy by blast
      qed
      ultimately show ?thesis using order(4) by auto
    qed (use hy in simp)
    ultimately show False
      using Cons.IH [of "hi @ [x]" y] Cons.prems y(3) by (auto simp: hd_append split: if_splits)
  qed
qed

section \<open>The static oracle of the projective system\<close>

text \<open>The state of a run that follows the oracle. Linked words have their gold heads and relations.\<close>

abbreviation pending_set :: "configuration \<Rightarrow> int set" where
  "pending_set c \<equiv> set (c_stack c) \<union> set (c_buffer c)"

definition linked_gold :: "tree \<Rightarrow> configuration \<Rightarrow> bool" where
  "linked_gold gold c \<longleftrightarrow> same_words (c_tree c) gold \<and> n_deprel (c_tree c ! nat 0) = [] \<and>
     (\<forall>i \<in> ids gold. i \<notin> pending_set c \<longrightarrow> gh (c_tree c) i = gh gold i \<and> n_deprel (c_tree c ! nat i) = n_deprel (gold ! nat i))"

definition oracle_inv :: "tree \<Rightarrow> configuration \<Rightarrow> bool" where
  "oracle_inv gold c \<longleftrightarrow> conf_inv c \<and> linked_gold gold c \<and>
     sorted_wrt (<) (rev (c_stack c) @ c_buffer c) \<and> (\<exists>k. c_buffer c = map int [k..<length gold]) \<and>
     heads_pending gold (pending_set c) \<and> lefts_done gold (pending_set c) (tl (c_stack c)) \<and>
     rights_open gold (pending_set c) (tl (c_stack c))"

text \<open>A gold tree the projective system can build, and whose labels it has.\<close>

definition oracle_gold :: "bool \<Rightarrow> string list \<Rightarrow> tree \<Rightarrow> bool" where
  "oracle_gold single_root labels gold \<longleftrightarrow> dependency_tree gold \<and> projective gold \<and>
     (\<forall>i \<in> ids gold. i \<noteq> 0 \<longrightarrow> n_deprel (gold ! nat i) \<in> set labels) \<and> n_deprel (gold ! 0) = [] \<and>
     (single_root \<and> 1 < length gold \<longrightarrow> single_rooted gold)"

lemma label_index_Some: "label_index labels d = Some i \<Longrightarrow> i < length labels \<and> labels ! i = d"
  by (induction labels arbitrary: i) (auto split: if_splits)

lemma label_index_ex: "d \<in> set labels \<Longrightarrow> \<exists>i. label_index labels d = Some i"
  by (induction labels) auto

lemma projective_nth:
  "i < length labels \<Longrightarrow> projective_system labels ! Suc (2 * i) = Left_Arc (labels ! i) \<and>
     projective_system labels ! Suc (Suc (2 * i)) = Right_Arc (labels ! i) \<and> Suc (Suc (2 * i)) < length (projective_system labels)"
proof -
  have "i < length labels \<Longrightarrow> concat (map (\<lambda>l. [Left_Arc l, Right_Arc l]) labels) ! (2 * i) = Left_Arc (labels ! i) \<and>
     concat (map (\<lambda>l. [Left_Arc l, Right_Arc l]) labels) ! Suc (2 * i) = Right_Arc (labels ! i) \<and>
     Suc (2 * i) < length (concat (map (\<lambda>l. [Left_Arc l, Right_Arc l]) labels))"
  proof (induction labels arbitrary: i)
    case (Cons l labels)
    then show ?case by (cases i) simp_all
  qed simp
  then show "i < length labels \<Longrightarrow> ?thesis" by (simp add: projective_system_def)
qed

lemma heads_pending_remove: "heads_pending gold P \<Longrightarrow> \<forall>w \<in> P. gh gold w \<noteq> ch \<Longrightarrow> heads_pending gold (P - {ch})"
  by (auto simp: heads_pending_def)

lemma lefts_done_mono: "lefts_done gold P st \<Longrightarrow> P' \<subseteq> P \<Longrightarrow> set st' \<subseteq> set st \<Longrightarrow> lefts_done gold P' st'"
  unfolding lefts_done_def by blast

lemma rights_open_tl:
  assumes "rights_open gold P (b # st)" "gh gold ch \<notin> set st"
  shows "rights_open gold (P - {ch}) st"
  unfolding rights_open_def
proof (intro allI impI)
  fix p x y s assume st: "st = p @ x # y # s \<and> gh gold x = y"
  then obtain v where v: "v \<in> P" "x < v" "gh gold v = x"
    using assms(1) [unfolded rights_open_def, rule_format, of "b # p" x y s] by auto
  then have "v \<noteq> ch" using assms(2) st by auto
  then show "\<exists>v \<in> P - {ch}. x < v \<and> gh gold v = x" using v by blast
qed

lemma linked_gold_arc:
  assumes "linked_gold gold c" "conf_wf c" "ch \<in> pending_set c" "p \<in> pending_set c" "gh gold ch = p" "n_deprel (gold ! nat ch) = l" "ch \<noteq> 0"
    and c': "c_tree c' = tree_set_head ch p l (c_tree c)" "pending_set c' = pending_set c - {ch}"
  shows "linked_gold gold c'"
proof -
  have same: "same_words (c_tree c) gold" using assms(1) by (simp add: linked_gold_def)
  then have ids: "ids (c_tree c) = ids gold" using same_words_length [OF same] by (simp add: ids_def)
  have in_ids: "ch \<in> ids (c_tree c)" "p \<in> ids (c_tree c)" using assms(2-4) by (auto simp: conf_wf_def)
  then have pr: "-1 \<le> p" "p < int (length (c_tree c))" by (auto simp: ids_def)
  have wf: "wf_tree (c_tree c)" using assms(2) by (simp add: conf_wf_def forest_def)
  have "same_words (c_tree c') gold" using same_words_trans [OF same_words_set_head same] by (simp add: c'(1))
  moreover have "n_deprel (c_tree c' ! nat 0) = []"
  proof -
    have "0 \<in> ids (c_tree c)" using in_ids(1) by (cases "c_tree c") (auto simp: ids_def)
    from deprel_tree_set_head [OF wf in_ids(1) pr this] show ?thesis
      using assms(1,7) by (simp add: c' linked_gold_def)
  qed
  moreover have "gh (c_tree c') i = gh gold i \<and> n_deprel (c_tree c' ! nat i) = n_deprel (gold ! nat i)"
    if i: "i \<in> ids gold" "i \<notin> pending_set c'" for i
  proof -
    have "i \<in> ids (c_tree c)" using i(1) ids by simp
    from head_tree_set_head [OF wf in_ids(1) pr this] deprel_tree_set_head [OF wf in_ids(1) pr this]
    show ?thesis using assms(1,5,6) i unfolding c' linked_gold_def by auto
  qed
  ultimately show ?thesis unfolding linked_gold_def by blast
qed

text \<open>What the invariant says of a stack of two words or more.\<close>

lemma oracle_inv_stack:
  assumes "oracle_inv gold c" "c_stack c = a # b # rest"
  shows "pending_set c = set (a # [] @ b # rest) \<union> set (c_buffer c)" "\<forall>v \<in> set (c_buffer c). a < v" "sorted_wrt (>) (a # [] @ b # rest)"
    "last (b # rest) = 0" "b < a" "\<forall>v \<in> set rest. v < b" "\<forall>w \<in> pending_set c. 0 \<le> w" "a \<noteq> 0"
proof -
  show "pending_set c = set (a # [] @ b # rest) \<union> set (c_buffer c)" by (simp add: assms(2))
  have s: "sorted_wrt (<) (rev (c_stack c) @ c_buffer c)" using assms(1) by (simp add: oracle_inv_def)
  then show "\<forall>v \<in> set (c_buffer c). a < v" by (auto simp: assms(2) sorted_wrt_append)
  have "sorted_wrt (<) (rev (c_stack c))" using s by (simp add: sorted_wrt_append)
  then have desc: "sorted_wrt (>) (c_stack c)" by (simp add: sorted_wrt_rev)
  then show "sorted_wrt (>) (a # [] @ b # rest)" "b < a" "\<forall>v \<in> set rest. v < b" by (simp_all add: assms(2))
  have "last (c_stack c) = 0" using assms(1) by (simp add: oracle_inv_def conf_inv_def conf_wf_def)
  then show last: "last (b # rest) = 0" by (simp add: assms(2))
  have "pending_set c \<subseteq> ids gold" using assms(1) by (simp add: oracle_inv_def heads_pending_def)
  then show "\<forall>w \<in> pending_set c. 0 \<le> w" by (auto simp: ids_def)
  show "a \<noteq> 0" using last_in_set [of "b # rest"] last desc by (auto simp: assms(2))
qed

text \<open>With the word below the top waiting for nothing from the top on, its head cannot be further down.\<close>

lemma no_head_below:
  assumes inv: "oracle_inv gold c" "c_stack c = a # b # rest" and gold: "dependency_tree gold" "projective gold"
    and b: "b \<noteq> 0" "gh gold b < b" "\<forall>v \<in> pending_set c. a \<le> v \<longrightarrow> gh gold v \<noteq> b"
  shows False
proof (rule no_walk_down [of gold "pending_set c" a "[]" b rest "set (c_buffer c)" b])
  note st = oracle_inv_stack [OF inv]
  show "dependency_tree gold" "projective gold" by fact+
  show "heads_pending gold (pending_set c)" using inv(1) by (simp add: oracle_inv_def)
  show "pending_set c = set (a # [] @ b # rest) \<union> set (c_buffer c)" "\<forall>v \<in> set (c_buffer c). a < v"
    "sorted_wrt (>) (a # [] @ b # rest)" "last (b # rest) = 0" using st by blast+
  show "lefts_done gold (pending_set c) ([] @ b # rest)" "rights_open gold (pending_set c) ([] @ b # rest)"
    using inv by (simp_all add: oracle_inv_def)
qed (use b in simp_all)

text \<open>Shifting is right when neither arc is: the buffer is not empty and the top waits for nothing below it.\<close>

lemma shift_possible:
  assumes inv: "oracle_inv gold c" "c_stack c = a # b # rest" and gold: "dependency_tree gold" "projective gold"
    and no: "gh gold b \<noteq> a" "gh gold a \<noteq> b \<or> c_buffer c \<noteq> []"
  shows "c_buffer c \<noteq> []"
proof
  assume empty: "c_buffer c = []"
  note st = oracle_inv_stack [OF inv]
  have P: "pending_set c = insert a (insert b (set rest))" using inv(2) empty by simp
  have heads: "\<And>w. w \<in> pending_set c \<Longrightarrow> w \<noteq> 0 \<Longrightarrow> gh gold w \<in> pending_set c" "pending_set c \<subseteq> ids gold"
    using inv(1) by (auto simp: oracle_inv_def heads_pending_def)
  show False
  proof (cases "b = 0")
    case True
    then have "rest = []" using st(4,6) last_in_set [of rest] by (cases "rest = []") auto
    then have "gh gold a \<in> {a, b}" using heads(1) [of a] st(8) P by auto
    then show False using no empty gold_head_neq [OF gold(1), of a] heads(2) P by auto
  next
    case False
    have "gh gold b \<in> pending_set c" "gh gold b \<noteq> b" using heads False P gold_head_neq [OF gold(1), of b] by auto
    then have "gh gold b < b" using no(1) st(6) P by auto
    moreover have "\<forall>v \<in> pending_set c. a \<le> v \<longrightarrow> gh gold v \<noteq> b" using no(2) empty st(5,6) P by auto
    ultimately show False using no_head_below [OF inv gold False] by blast
  qed
qed

lemma shift_lefts:
  assumes inv: "oracle_inv gold c" "c_stack c = a # b # rest" and gold: "dependency_tree gold" "projective gold"
    and no: "gh gold b \<noteq> a" and z: "z \<in> pending_set c" "z < a"
  shows "gh gold z \<noteq> a"
proof
  assume za: "gh gold z = a"
  note st = oracle_inv_stack [OF inv]
  note antisym = reaches_antisym [OF gold(1)]
  have heads: "\<And>w. w \<in> pending_set c \<Longrightarrow> w \<noteq> 0 \<Longrightarrow> gh gold w \<in> pending_set c" "pending_set c \<subseteq> ids gold"
    using inv(1) by (auto simp: oracle_inv_def heads_pending_def)
  have "z \<noteq> b" using za no by blast
  then have zb: "z < b" using z st(1,2,6) by fastforce
  have z0: "0 \<le> z" "z \<in> ids gold" using z(1) st(7) heads(2) by blast+
  have ba: "reaches gold b a" using projectiveD [OF gold(2) z0(2), of b] za zb st(5) z0(1) by simp
  have b: "b \<in> pending_set c" "b \<noteq> 0" "b \<in> ids gold" using inv(2) heads(2) z0(1) zb by auto
  have gb: "gh gold b \<in> pending_set c" "gh gold b \<noteq> b" using heads b gold_head_neq [OF gold(1)] by blast+
  have up: "reaches gold (gh gold b) a" using reaches_head [OF ba] st(5) by simp
  have "gh gold b < b"
  proof (rule ccontr)
    assume "\<not> gh gold b < b"
    then have gt: "a < gh gold b" using gb no st(1,2,6) by fastforce
    then have "reaches gold a (gh gold b)" using projectiveD [OF gold(2) b(3), of a] st(5) b(1) st(7) gb(1) by auto
    then show False using antisym [OF up] gt by simp
  qed
  moreover have "gh gold v \<noteq> b" if v: "v \<in> pending_set c" "a \<le> v" for v
  proof
    assume vb: "gh gold v = b"
    have "v \<noteq> 0" "v \<in> ids gold" using v heads(2) st(5,7) b(1) by force+
    then have "reaches gold a b"
      using projectiveD [OF gold(2), of v a] gold_head(3) [OF gold(1), of v] vb v(2) st(5,7) b(1) by (cases "v = a") auto
    then show False using antisym [OF ba] st(5) by simp
  qed
  ultimately show False using no_head_below [OF inv gold b(2)] by blast
qed

lemma sorted_le_last: "sorted_wrt (<) xs \<Longrightarrow> (x :: int) \<in> set xs \<Longrightarrow> x \<le> last xs"
  by (induction xs) (auto intro: less_imp_le)

text \<open>Linking is right where the oracle does it: the child waits for nothing.\<close>

lemma left_complete:
  assumes inv: "oracle_inv gold c" "c_stack c = a # b # rest" and gold: "dependency_tree gold" "projective gold"
    and left: "gh gold b = a" and w: "w \<in> pending_set c"
  shows "gh gold w \<noteq> b"
proof
  assume wb: "gh gold w = b"
  note st = oracle_inv_stack [OF inv]
  have ids: "pending_set c \<subseteq> ids gold" using inv(1) by (auto simp: oracle_inv_def heads_pending_def)
  have b: "b \<in> pending_set c" "b \<in> ids gold" "a \<in> ids gold" using inv(2) ids by auto
  have b0: "b \<noteq> 0" using left gold(1) st(7) inv(2) by (auto simp: dependency_tree_def)
  have ba: "reaches gold b a" using gold_head(3) [OF gold(1) b(2) b0] left by simp
  have w0: "w \<in> ids gold" "0 \<le> w" using w ids st(7) by blast+
  have "\<not> w < b" using inv w wb by (auto simp: oracle_inv_def lefts_done_def)
  moreover have "w \<noteq> b" using wb gold_head_neq [OF gold(1) b(2)] by blast
  ultimately have aw: "a \<le> w" using w inv(2) st(2,6) by fastforce
  then have "w \<noteq> 0" using st(5,7) b(1) by force
  then have "reaches gold a b"
    using projectiveD [OF gold(2) w0(1), of a] gold_head(3) [OF gold(1) w0(1)] wb aw st(5,7) b(1) by (cases "w = a") auto
  then show False using reaches_antisym [OF gold(1) ba] st(5) by simp
qed

lemma right_complete:
  assumes inv: "oracle_inv gold c" "c_stack c = a # b # rest" and gold: "dependency_tree gold" "projective gold"
    and right: "gh gold a = b"
      "c_buffer c = [] \<or> n_children (gold ! nat a) = [] \<or> last (n_children (gold ! nat a)) < hd (c_buffer c)"
    and w: "w \<in> pending_set c"
  shows "gh gold w \<noteq> a"
proof
  assume wa: "gh gold w = a"
  note st = oracle_inv_stack [OF inv]
  have ids: "pending_set c \<subseteq> ids gold" using inv(1) by (auto simp: oracle_inv_def heads_pending_def)
  have a: "a \<in> ids gold" "b \<in> ids gold" "b \<in> pending_set c" "a \<in> pending_set c" using inv(2) ids by auto
  have ab: "reaches gold a b" using gold_head(3) [OF gold(1) a(1) st(8)] right(1) by simp
  have w0: "w \<in> ids gold" "0 \<le> w" using w ids st(7) by blast+
  have wf: "tree.wf gold" using gold(1) by (simp add: dependency_tree_def wf_tree_def)
  have children: "sorted_wrt (<) (n_children (gold ! nat a))" "w \<in> set (n_children (gold ! nat a))"
    using tree.wf_children [OF wf a(1)] w0(1) wa by auto
  consider "w \<in> set (c_buffer c)" | "w = a" | "w = b" | "w \<in> set rest" using w inv(2) by auto
  then show False
  proof cases
    case 1
    have "hd (c_buffer c) \<le> w" using inv(1) 1 by (cases "c_buffer c") (auto simp: oracle_inv_def sorted_wrt_append)
    moreover have "w \<le> last (n_children (gold ! nat a))" using children by (rule sorted_le_last)
    ultimately show False using right(2) 1 children(2) by auto
  next
    case 2
    then show False using wa gold_head_neq [OF gold(1) a(1)] by simp
  next
    case 3
    have "0 \<le> a" using st(7) a(4) by blast
    then have "b \<noteq> 0" using wa 3 gold(1) by (auto simp: dependency_tree_def)
    then have "reaches gold b a" using gold_head(3) [OF gold(1) a(2)] wa 3 by simp
    then show False using reaches_antisym [OF gold(1) ab] st(5) by simp
  next
    case 4
    then have "reaches gold b a" using projectiveD [OF gold(2) w0(1), of b] wa st(5,6,7) a(4) by auto
    then show False using reaches_antisym [OF gold(1) ab] st(5) by simp
  qed
qed

text \<open>A single root is linked only when nothing is left.\<close>

lemma root_last:
  assumes inv: "oracle_inv gold c" "c_stack c = [a, 0]" and gold: "dependency_tree gold"
    and right: "gh gold a = 0"
      "c_buffer c = [] \<or> n_children (gold ! nat a) = [] \<or> last (n_children (gold ! nat a)) < hd (c_buffer c)"
    and root: "single_rooted gold"
  shows "c_buffer c = []"
proof (rule ccontr)
  assume ne: "c_buffer c \<noteq> []"
  note st = oracle_inv_stack [OF inv]
  have heads: "\<And>w. w \<in> pending_set c \<Longrightarrow> w \<noteq> 0 \<Longrightarrow> gh gold w \<in> pending_set c" "pending_set c \<subseteq> ids gold"
    using inv(1) by (auto simp: oracle_inv_def heads_pending_def)
  have a: "a \<in> ids gold" using inv(2) heads(2) by auto
  have wf: "tree.wf gold" using gold by (simp add: dependency_tree_def wf_tree_def)
  have "reaches gold w r \<Longrightarrow> r = 0 \<Longrightarrow> w \<in> set (c_buffer c) \<Longrightarrow> False" for w r
  proof (induction rule: reaches.induct)
    case (here i)
    then show ?case using st(2,5) by auto
  next
    case (up i h r)
    have i: "i \<in> pending_set c" "i \<noteq> 0" using up.prems(2) st(2,5) by auto
    have "h \<in> pending_set c" using heads(1) i up.hyps(2) by blast
    then consider "h = a" | "h = 0" | "h \<in> set (c_buffer c)" using inv(2) by auto
    then show ?case
    proof cases
      case 1
      then have "i \<in> set (n_children (gold ! nat a))" "sorted_wrt (<) (n_children (gold ! nat a))"
        using tree.wf_children [OF wf a] up.hyps(1,2) by auto
      then have "n_children (gold ! nat a) \<noteq> []" "i \<le> last (n_children (gold ! nat a))" using sorted_le_last by auto
      moreover have "hd (c_buffer c) \<le> i" using inv(1) up.prems(2) by (cases "c_buffer c") (auto simp: oracle_inv_def sorted_wrt_append)
      ultimately show False using right(2) ne by auto
    next
      case 2
      then have "i = a" using root a right(1) up.hyps(1,2) unfolding single_rooted_def by blast
      then show False using st(2) up.prems(2) by auto
    next
      case 3
      then show False using up.IH up.prems(1) by blast
    qed
  qed
  moreover have "hd (c_buffer c) \<in> set (c_buffer c)" using ne by simp
  moreover have "hd (c_buffer c) \<in> ids gold" using heads(2) hd_in_set [OF ne] by blast
  then have "reaches gold (hd (c_buffer c)) 0" using gold by (simp add: dependency_tree_def)
  ultimately show False by blast
qed

text \<open>One step keeps the invariant, and in a configuration that is not final there is one.\<close>

lemma oracle_shift:
  assumes inv: "oracle_inv gold c" and k: "c_buffer c = k # ks"
    and lefts: "lefts_done gold (pending_set c) (c_stack c)" and rights: "rights_open gold (pending_set c) (c_stack c)"
  shows "oracle_inv gold (fst (effect Shift c))"
proof -
  let ?c = "fst (effect Shift c)"
  have same: "c_tree ?c = c_tree c" "pending_set ?c = pending_set c" "c_stack ?c = k # c_stack c" "c_buffer ?c = ks" using k by auto
  have "conf_inv ?c" using effect_inv [of Shift c] inv k by (simp add: oracle_inv_def)
  moreover have "linked_gold gold ?c" using inv same(1,2) by (simp add: oracle_inv_def linked_gold_def)
  moreover have "rev (c_stack ?c) @ c_buffer ?c = rev (c_stack c) @ c_buffer c" using k same(3,4) by simp
  moreover have "\<exists>k. ks = map int [k..<length gold]"
  proof -
    have "\<exists>j. c_buffer c = map int [j..<length gold]" using inv unfolding oracle_inv_def by (elim conjE)
    then obtain j where "k # ks = map int [j..<length gold]" unfolding k by (elim exE)
    then have "ks = map int [Suc j..<length gold]" by (cases "j < length gold") (simp_all add: upt_conv_Cons)
    then show ?thesis by blast
  qed
  ultimately show ?thesis using inv lefts rights same unfolding oracle_inv_def by simp
qed

lemma oracle_arc:
  assumes inv: "oracle_inv gold c" "c_stack c = a # b # rest" and tr: "applicable tr c"
    and eff: "effect tr c = (c', ch)" "c_buffer c' = c_buffer c" "c_tree c' = tree_set_head ch p l (c_tree c)"
      "c_stack c' = p # rest" "{ch, p} = {a, b}" "ch \<noteq> p"
    and gold: "gh gold ch = p" "n_deprel (gold ! nat ch) = l" "\<forall>w \<in> pending_set c. gh gold w \<noteq> ch" "ch \<noteq> 0"
  shows "oracle_inv gold c'"
proof -
  have c': "fst (effect tr c) = c'" by (simp add: eff(1))
  have s: "sorted_wrt (<) (rev (c_stack c) @ c_buffer c)" using inv(1) by (simp add: oracle_inv_def)
  have mem: "ch \<in> pending_set c" "p \<in> pending_set c" using eff(5) inv(2) by auto
  have dist: "distinct (c_stack c @ c_buffer c)" using inv(1) by (simp add: oracle_inv_def conf_inv_def conf_wf_def)
  then have pend: "pending_set c' = pending_set c - {ch}" using eff(2,4,5,6) inv(2) by auto
  have "conf_inv c'" using effect_inv [OF tr] inv(1) c' by (simp add: oracle_inv_def)
  moreover have "linked_gold gold c'"
    using linked_gold_arc [OF _ _ mem gold(1,2,4) eff(3) pend] inv(1) by (simp add: oracle_inv_def conf_inv_def)
  moreover have "sorted_wrt (<) (rev (c_stack c') @ c_buffer c')"
    using s eff(2,4,5) inv(2) by (auto simp: sorted_wrt_append)
  moreover have "heads_pending gold (pending_set c')"
    using heads_pending_remove [OF _ gold(3)] inv(1) by (simp add: oracle_inv_def pend)
  moreover have "lefts_done gold (pending_set c') (tl (c_stack c'))"
  proof (rule lefts_done_mono)
    show "lefts_done gold (pending_set c) (tl (c_stack c))" using inv(1) by (simp add: oracle_inv_def)
    show "pending_set c' \<subseteq> pending_set c" unfolding pend by blast
    show "set (tl (c_stack c')) \<subseteq> set (tl (c_stack c))" by (simp add: eff(4) inv(2) subset_insertI)
  qed
  moreover have "p \<in> {a, b}" using eff(5) by blast
  then have "gh gold ch \<notin> set rest" using dist gold(1) inv(2) by auto
  then have "rights_open gold (pending_set c') (tl (c_stack c'))"
    using rights_open_tl [of gold "pending_set c" b rest ch] inv eff(4) pend by (simp add: oracle_inv_def)
  ultimately show ?thesis using inv(1) eff(2) by (simp add: oracle_inv_def)
qed

lemma oracle_step:
  assumes inv: "oracle_inv gold c" and final: "\<not> conf_final c" and gold: "oracle_gold (c_single_root c) labels gold"
  shows "\<exists>tr c' child. predict_projective labels gold c = Some tr \<and> system_perform (projective_system labels) c tr = Some (c', child) \<and>
    oracle_inv gold c' \<and> c_single_root c' = c_single_root c"
proof -
  have g: "dependency_tree gold" "projective gold" using gold by (simp_all add: oracle_gold_def)
  have "c_stack c \<noteq> []" using inv by (simp add: oracle_inv_def conf_inv_def conf_wf_def)
  then consider (one) a where "c_stack c = [a]" | (two) a b rest where "c_stack c = a # b # rest"
    by (cases "c_stack c"; cases "tl (c_stack c)") auto
  then show ?thesis
  proof cases
    case one
    then obtain k ks where k: "c_buffer c = k # ks" using final by (cases "c_buffer c") (auto simp: conf_final_def)
    have "a = 0" using inv one by (simp add: oracle_inv_def conf_inv_def conf_wf_def)
    moreover have "\<forall>z \<in> pending_set c. 0 \<le> z" using inv by (auto simp: oracle_inv_def heads_pending_def ids_def)
    ultimately have "lefts_done gold (pending_set c) (c_stack c)" using one by (auto simp: lefts_done_def)
    moreover have "rights_open gold (pending_set c) (c_stack c)" using one by (auto simp: rights_open_def)
    ultimately have "oracle_inv gold (fst (effect Shift c))" using oracle_shift [OF inv k] by blast
    moreover have "system_perform (projective_system labels) c 0 = Some (effect Shift c)"
      using k by (simp add: system_perform_Some projective_system_def)
    ultimately show ?thesis using one by (simp add: predict_projective_def)
  next
    case two
    note st = oracle_inv_stack [OF inv two]
    have ids: "a \<in> ids gold" "b \<in> ids gold" using inv two by (auto simp: oracle_inv_def heads_pending_def)
    have labels: "n_deprel (gold ! nat w) \<in> set labels" if "w \<in> ids gold" "w \<noteq> 0" for w
      using gold that by (simp add: oracle_gold_def)
    have root: "gh gold w = 0 \<longleftrightarrow> n_deprel (gold ! nat w) = root_label" if "c_single_root c" "w \<in> ids gold" "w \<noteq> 0" for w
    proof -
      have "1 < length gold" using that(2,3) by (auto simp: ids_def)
      then show ?thesis using gold that by (simp add: oracle_gold_def single_rooted_def)
    qed
    consider (left) "gh gold b = a"
      | (right) "gh gold b \<noteq> a" "gh gold a = b"
          "c_buffer c = [] \<or> n_children (gold ! nat a) = [] \<or> last (n_children (gold ! nat a)) < hd (c_buffer c)"
      | (shift) "gh gold b \<noteq> a" "gh gold a \<noteq> b \<or> \<not> (c_buffer c = [] \<or> n_children (gold ! nat a) = [] \<or>
          last (n_children (gold ! nat a)) < hd (c_buffer c))" by blast
    then show ?thesis
    proof cases
      case left
      have b0: "b \<noteq> 0" using left g(1) st(7) two by (auto simp: dependency_tree_def)
      obtain i where i: "label_index labels (n_deprel (gold ! nat b)) = Some i" using label_index_ex [OF labels [OF ids(2) b0]] by blast
      note li = label_index_Some [OF i]
      let ?tr = "Left_Arc (labels ! i)"
      have ok: "applicable ?tr c" using two b0 st(8) root [OF _ ids(2) b0] left li by auto
      have eff: "effect ?tr c = (c\<lparr>c_stack := a # rest, c_tree := tree_set_head b a (labels ! i) (c_tree c)\<rparr>, b)" (is "_ = (?c, b)")
        using two by simp
      have complete: "\<forall>w \<in> pending_set c. gh gold w \<noteq> b" using left_complete [OF inv two g left] by blast
      have "oracle_inv gold ?c"
        by (rule oracle_arc [OF inv two ok eff _ _ _ _ _ left _ complete b0]) (use li st(5) in \<open>simp_all, blast\<close>)
      moreover have "system_perform (projective_system labels) c (Suc (2 * i)) = Some (?c, b)"
        using ok eff projective_nth [of i labels] li by (simp add: system_perform_Some)
      ultimately show ?thesis using left two i by (simp add: predict_projective_def)
    next
      case right
      obtain i where i: "label_index labels (n_deprel (gold ! nat a)) = Some i" using label_index_ex [OF labels [OF ids(1) st(8)]] by blast
      note li = label_index_Some [OF i]
      let ?tr = "Right_Arc (labels ! i)"
      have ok: "applicable ?tr c"
      proof (cases "c_single_root c")
        case True
        note r = root [OF True ids(1) st(8)]
        show ?thesis
        proof (cases "b = 0")
          case b0: True
          then have "rest = []" using st(4,6) last_in_set [of rest] by (cases "rest = []") auto
          moreover have "1 < length gold" using ids(1) st(8) by (auto simp: ids_def)
          then have "single_rooted gold" using gold True by (simp add: oracle_gold_def)
          then have "c_buffer c = []" using root_last [OF inv _ g(1), of a] two b0 right(2,3) calculation by simp
          ultimately show ?thesis using two True r right(2) b0 li by simp
        next
          case False
          then have "rest \<noteq> []" using st(4) by auto
          then show ?thesis using two True r right(2) False li by (cases rest) auto
        qed
      qed (use two in simp)
      have eff: "effect ?tr c = (c\<lparr>c_stack := b # rest, c_tree := tree_set_head a b (labels ! i) (c_tree c)\<rparr>, a)" (is "_ = (?c, a)")
        using two by simp
      have complete: "\<forall>w \<in> pending_set c. gh gold w \<noteq> a" using right_complete [OF inv two g right(2,3)] by blast
      have "oracle_inv gold ?c"
        by (rule oracle_arc [OF inv two ok eff _ _ _ _ _ right(2) _ complete st(8)]) (use li st(5) in simp_all)
      moreover have "system_perform (projective_system labels) c (Suc (Suc (2 * i))) = Some (?c, a)"
        using ok eff projective_nth [of i labels] li by (simp add: system_perform_Some)
      ultimately show ?thesis using right two i by (simp add: predict_projective_def)
    next
      case shift
      then obtain k ks where k: "c_buffer c = k # ks"
        using shift_possible [OF inv two g shift(1)] by (cases "c_buffer c") auto
      have "\<forall>z \<in> pending_set c. z < a \<longrightarrow> gh gold z \<noteq> a" using shift_lefts [OF inv two g shift(1)] by blast
      then have lefts: "lefts_done gold (pending_set c) (c_stack c)" using inv two by (auto simp: oracle_inv_def lefts_done_def)
      have open_right: "\<exists>v \<in> pending_set c. a < v \<and> gh gold v = a" if "gh gold a = b"
      proof -
        let ?v = "last (n_children (gold ! nat a))"
        have v: "n_children (gold ! nat a) \<noteq> []" "k \<le> ?v" using shift(2) that k by auto
        have "tree.wf gold" using g(1) by (simp add: dependency_tree_def wf_tree_def)
        then have vg: "?v \<in> ids gold" "gh gold ?v = a" using tree.wf_children [OF _ ids(1)] last_in_set [OF v(1)] by auto
        have "\<exists>j. c_buffer c = map int [j..<length gold]" using inv unfolding oracle_inv_def by (elim conjE)
        then obtain j where j: "k # ks = map int [j..<length gold]" unfolding k by (elim exE)
        then have "k = int j" by (cases "j < length gold") (simp_all add: upt_conv_Cons)
        then have "?v \<in> int ` {j..<length gold}" using v(2) vg(1) by (intro image_eqI [of _ _ "nat ?v"]) (auto simp: ids_def)
        then have "?v \<in> set (c_buffer c)" unfolding k j by simp
        then show ?thesis using vg(2) st(2) by blast
      qed
      have "rights_open gold (pending_set c) (c_stack c)"
        unfolding rights_open_def
      proof (intro allI impI)
        fix p x y s assume p: "c_stack c = p @ x # y # s \<and> gh gold x = y"
        show "\<exists>v \<in> pending_set c. x < v \<and> gh gold v = x"
        proof (cases p)
          case Nil
          then show ?thesis using p two open_right by simp
        next
          case (Cons q p')
          then have "tl (c_stack c) = p' @ x # y # s" using p by simp
          then show ?thesis using inv p unfolding oracle_inv_def rights_open_def by blast
        qed
      qed
      then have "oracle_inv gold (fst (effect Shift c))" using oracle_shift [OF inv k lefts] by blast
      moreover have "system_perform (projective_system labels) c 0 = Some (effect Shift c)"
        using k by (simp add: system_perform_Some projective_system_def)
      ultimately show ?thesis using shift two by (auto simp: predict_projective_def)
    qed
  qed
qed

lemma follow_oracle_gold:
  "oracle_inv gold c \<Longrightarrow> oracle_gold (c_single_root c) labels gold \<Longrightarrow>
   \<exists>d. follow_oracle (predict_projective labels gold) (projective_system labels) c = Some d \<and> oracle_inv gold d \<and> conf_final d"
proof (induction "predict_projective labels gold" "projective_system labels" c rule: follow_oracle.induct)
  case (1 c)
  show ?case
  proof (cases "conf_final c")
    case True
    then show ?thesis using 1(2) by (subst follow_oracle.simps) simp
  next
    case False
    obtain tr c' child where step: "predict_projective labels gold c = Some tr"
        "system_perform (projective_system labels) c tr = Some (c', child)" "oracle_inv gold c'" "c_single_root c' = c_single_root c"
      using oracle_step [OF 1(2) False 1(3)] by blast
    have "\<exists>d. follow_oracle (predict_projective labels gold) (projective_system labels) c' = Some d \<and> oracle_inv gold d \<and> conf_final d"
      using 1(1) [OF False step(1,2) refl] step(3,4) 1(3) by simp
    then show ?thesis using False step(1,2) by (subst follow_oracle.simps) simp
  qed
qed

lemma oracle_inv_init:
  assumes "dependency_tree gold"
  shows "oracle_inv gold (conf_init single_root gold)"
proof -
  let ?c = "conf_init single_root gold"
  have wf: "wf_tree gold" using assms by (simp add: dependency_tree_def)
  then have len: "0 < length gold" by (simp add: wf_tree_def)
  then have "unlink_all_nodes gold \<noteq> []" by (simp add: unlink_all_nodes_def)
  then have c: "c_stack ?c = [0]" "c_buffer ?c = map int [1..<length gold]" "c_tree ?c = unlink_all_nodes gold"
    by (simp_all add: conf_init_def Let_def)
  have inv: "conf_inv ?c" using conf_init_wf [OF wf] by (simp add: conf_inv_def)
  have "w \<in> int ` {1..<length gold}" if "w \<in> ids gold" "w \<noteq> 0" for w
    using that by (intro image_eqI [of _ _ "nat w"]) (auto simp: ids_def)
  then have pend: "pending_set ?c = ids gold" using len by (auto simp: c ids_def)
  have "heads_pending gold (ids gold)" using gold_head [OF assms] by (simp add: heads_pending_def)
  moreover have "same_words (c_tree ?c) gold" by (simp add: c same_words_unlink)
  moreover have "n_deprel (c_tree ?c ! nat 0) = []" using len by (simp add: c unlink_all_nodes_def)
  moreover have "sorted_wrt (<) (rev (c_stack ?c) @ c_buffer ?c)" by (auto simp: c sorted_wrt_map)
  ultimately show ?thesis
    using inv pend c(1,2) by (auto simp: oracle_inv_def linked_gold_def lefts_done_def rights_open_def)
qed

lemma oracle_final_tree:
  assumes "oracle_inv gold d" "conf_final d" "dependency_tree gold" "n_deprel (gold ! 0) = []"
  shows "c_tree d = gold"
proof -
  have inv: "conf_inv d" "linked_gold gold d" using assms(1) by (simp_all add: oracle_inv_def)
  then have same: "same_words (c_tree d) gold" by (simp add: linked_gold_def)
  have len: "length (c_tree d) = length gold" by (rule same_words_length [OF same])
  have tree: "dependency_tree (c_tree d)" by (rule final_tree [OF inv(1) assms(2)])
  obtain r where st: "c_stack d = [r]" "c_buffer d = []"
    using inv(1) assms(2) by (cases "c_stack d") (auto simp: conf_final_def conf_inv_def conf_wf_def)
  then have "r = 0" using inv(1) by (simp add: conf_inv_def conf_wf_def)
  then have pend: "pending_set d = {0}" using st by simp
  have parts: "gh (c_tree d) i = gh gold i" "n_deprel (c_tree d ! nat i) = n_deprel (gold ! nat i)" if "i \<in> ids gold" for i
    using inv(2) that pend tree assms(3,4) by (cases "i = 0"; simp add: linked_gold_def dependency_tree_def)+
  show ?thesis
  proof (rule nth_equalityI [OF len])
    fix i assume i: "i < length (c_tree d)"
    then have ids: "int i \<in> ids (c_tree d)" "int i \<in> ids gold" using len by (simp_all add: ids_def)
    have "n_children (c_tree d ! i) = filter (\<lambda>j. gh (c_tree d) j = int i) (map int [0..<length gold])"
      using tree.wf_children_filter [of "c_tree d" "int i"] tree ids(1) len by (simp add: dependency_tree_def wf_tree_def)
    also have "\<dots> = filter (\<lambda>j. gh gold j = int i) (map int [0..<length gold])"
    proof (rule filter_cong [OF refl])
      fix j assume "j \<in> set (map int [0..<length gold])"
      then have "j \<in> ids gold" by (auto simp: ids_def)
      then show "gh (c_tree d) j = int i \<longleftrightarrow> gh gold j = int i" using parts(1) by simp
    qed
    also have "\<dots> = n_children (gold ! i)"
      using tree.wf_children_filter [of gold "int i"] assms(3) ids(2) by (simp add: dependency_tree_def wf_tree_def)
    finally have children: "n_children (c_tree d ! i) = n_children (gold ! i)" .
    have "unlink_all_nodes (c_tree d) ! i = unlink_all_nodes gold ! i" using same by (simp add: same_words_def)
    then have "(c_tree d ! i)\<lparr>n_head := -1, n_deprel := [], n_children := []\<rparr> = (gold ! i)\<lparr>n_head := -1, n_deprel := [], n_children := []\<rparr>"
      using i len by (simp add: unlink_all_nodes_def)
    then show "c_tree d ! i = gold ! i"
      using children parts(1,2) [OF ids(2)] by (cases "c_tree d ! i"; cases "gold ! i") simp
  qed
qed

text \<open>
  C6: The static oracle of the projective system is complete: on a projective gold tree over known
  labels, whose only root bears the label \<open>root\<close> if a single root is asked for, the training loop
  runs to a final configuration without its emergency break and rebuilds the gold tree exactly:
  heads, relations and children.
\<close>

theorem static_oracle_rebuilds_gold:
  assumes "oracle_gold single_root labels gold"
  shows "\<exists>c. follow_oracle (predict_projective labels gold) (projective_system labels) (conf_init single_root gold) = Some c \<and>
    conf_final c \<and> c_tree c = gold"
proof -
  have g: "dependency_tree gold" "n_deprel (gold ! 0) = []" using assms by (simp_all add: oracle_gold_def)
  have "c_single_root (conf_init single_root gold) = single_root" by (simp add: conf_init_def Let_def)
  then show ?thesis
    using follow_oracle_gold [OF oracle_inv_init [OF g(1)], of single_root labels] assms oracle_final_tree [OF _ _ g] by auto
qed

definition sample_gold :: tree where
  "sample_gold = tree_set_head 2 0 ''root'' (tree_set_head 1 2 ''det'' (add_node ''b'' (add_node ''a'' tree_clear)))"

lemma sample_gold_nodes:
  "length sample_gold = 3" "n_head (sample_gold ! 0) = -1" "n_head (sample_gold ! Suc 0) = 2" "n_head (sample_gold ! 2) = 0"
  "n_deprel (sample_gold ! 0) = []" "n_deprel (sample_gold ! Suc 0) = ''det''" "n_deprel (sample_gold ! 2) = ''root''"
  by (simp_all add: sample_gold_def add_node_def tree_clear_def mk_node_def tree_set_head_def Let_def upd_def)

lemma sample_ids: "i \<in> ids sample_gold \<longleftrightarrow> i = 0 \<or> i = 1 \<or> i = 2"
  by (auto simp: ids_def sample_gold_nodes)

lemma sample_gold_tree: "dependency_tree sample_gold"
proof (rule forest_single_root)
  let ?t = "add_node ''b'' (add_node ''a'' tree_clear)"
  have wf: "wf_tree ?t" by (intro wf_tree_add_node wf_tree_clear)
  have "unlink_all_nodes ?t = ?t" by (simp add: unlink_all_nodes_def add_node_def tree_clear_def mk_node_def upd_def)
  then have f: "forest ?t" using forest_unlink [OF wf] by simp
  have heads: "n_head (?t ! Suc 0) = -1" "n_head (?t ! 2) = -1" "n_head (?t ! 0) = -1" "length ?t = 3"
    by (simp_all add: add_node_def tree_clear_def mk_node_def upd_def nth_append)
  have in_ids: "1 \<in> ids ?t" "2 \<in> ids ?t" "0 \<in> ids ?t" by (simp_all add: ids_def heads)
  let ?u = "tree_set_head 1 2 ''det'' ?t"
  have u: "forest ?u" by (rule forest_set_head [OF f in_ids(1,2)]) (simp_all add: heads)
  have "n_head (?u ! 2) = -1" "n_head (?u ! 0) = -1"
    using head_tree_set_head [OF wf in_ids(1), of 2] in_ids heads(2-4) by (force simp: heads)+
  then show "forest sample_gold"
    unfolding sample_gold_def using in_ids by (intro forest_set_head [OF u]) simp_all
  show "n_head (sample_gold ! 0) = -1" by (rule sample_gold_nodes)
  show "n_head (sample_gold ! nat i) \<noteq> -1" if "i \<in> ids sample_gold" "i \<noteq> 0" for i
    using that by (auto simp: sample_ids sample_gold_nodes)
qed

lemma sample_oracle_gold: "oracle_gold True [''root'', ''det''] sample_gold"
proof -
  have "projective sample_gold"
  proof -
    have "reaches sample_gold 1 2" "reaches sample_gold 1 0"
    proof -
      show "reaches sample_gold 1 2"
        by (rule reaches.up [of _ _ 2 2]) (auto intro: reaches.here simp: sample_ids sample_gold_nodes)
      show "reaches sample_gold 1 0" using sample_gold_tree by (simp add: dependency_tree_def sample_ids)
    qed
    then show ?thesis
      unfolding projective_def by (auto simp: sample_ids sample_gold_nodes) (metis zless_add1_eq one_add_one add_0 not_less_iff_gr_or_eq less_le_trans zero_less_one)+
  qed
  moreover have "single_rooted sample_gold"
    unfolding single_rooted_def by (auto simp: sample_ids sample_gold_nodes root_label_def intro!: ex1I [of _ 2])
  ultimately show ?thesis
    using sample_gold_tree by (auto simp: oracle_gold_def sample_ids sample_gold_nodes)
qed

lemma static_oracle_rebuilds_gold_witness:
  "\<exists>c. follow_oracle (predict_projective [''root'', ''det''] sample_gold) (projective_system [''root'', ''det'']) (conf_init True sample_gold) = Some c \<and>
     c_tree c = sample_gold"
  using static_oracle_rebuilds_gold [OF sample_oracle_gold] by blast

end
