(* ===== verification/Viterbi.thy ===== *)
theory Viterbi
  imports Prelude
begin

text \<open>
  The decoder of the taggers, \<open>src/morphodita/tagger/viterbi.h\<close>. The features it scores are a
  parameter of the template, here a record of functions that share a cache. The vector \<open>c.nodes\<close> is
  the list of the nodes written so far together with its allocated size: a node behind that size is
  \<open>None\<close>, and so is a node whose index does not fit into an \<open>int\<close>. Scores are unbounded integers.

  The locale \<open>tag_scores\<close> states what the decoder needs of the features. The proofs show that it
  then finds a sequence of tags of maximal score, within the memory it allocates.
\<close>

section \<open>Model\<close>

record ('f, 'a, 'd, 'c) features =
  initialize_sentence :: "'f list \<Rightarrow> 'a list list \<Rightarrow> 'c \<Rightarrow> 'c"
  dynamic_features :: "nat \<Rightarrow> int \<Rightarrow> 'd option \<Rightarrow> 'c \<Rightarrow> 'd"
  window_score :: "nat \<Rightarrow> int list \<Rightarrow> nat \<Rightarrow> 'd \<Rightarrow> 'c \<Rightarrow> int \<times> 'c"

record 'd vnode =
  v_tag :: int
  v_prev :: int
  v_score :: int
  v_dynamic :: 'd

text \<open>The window of the tags from a node backwards, with the number of leading tags that it already held.\<close>

function fill_window :: "nat \<Rightarrow> 'd vnode list \<Rightarrow> int \<Rightarrow> nat \<Rightarrow> int list \<times> nat \<Rightarrow> int list \<times> nat" where
  "fill_window ws nodes p n (window, same) =
     (if 0 \<le> p \<and> n < ws
      then let tag = v_tag (nodes ! nat p) in
        fill_window ws nodes (v_prev (nodes ! nat p)) (n + 1)
          (window[n := tag], same + (if same = n \<and> window ! n = tag then 1 else 0))
      else (window, same))"
  by pat_completeness auto
termination by (relation "measure (\<lambda>(ws, nodes, p, n, w). ws - n)") auto

declare fill_window.simps [simp del]

text \<open>
  The nodes that can be written: as many as are allocated, and no more than the \<open>int\<close> that counts
  them can count.
\<close>

definition node_room :: "nat \<Rightarrow> nat" where
  "node_room allocated = min allocated (2 ^ 31 - 1)"

text \<open>One round of the loops over tags and predecessors; \<open>single\<close> is a position without a choice.\<close>

definition visit :: "('f, 'a, 'd, 'c) features \<Rightarrow> nat \<Rightarrow> nat \<Rightarrow> nat \<Rightarrow> nat \<Rightarrow> bool \<Rightarrow> int \<times> int \<Rightarrow>
    'd vnode list \<times> int list \<times> 'c \<Rightarrow> ('d vnode list \<times> int list \<times> 'c) option" where
  "visit fs decoding_order window_size allocated i single = (\<lambda>(tag, prev) (nodes, window, c).
     let (window, same) = fill_window window_size nodes prev 1 (window[0 := tag], if window ! 0 = tag then 1 else 0);
         previous = (if 0 \<le> prev then Some (nodes ! nat prev) else None);
         dynamic = dynamic_features fs i tag (map_option v_dynamic previous) c;
         (s, c) = (if single then (0, c) else window_score fs i window same dynamic c);
         score = s + (case previous of None \<Rightarrow> 0 | Some node \<Rightarrow> v_score node);
         node = \<lparr>v_tag = tag, v_prev = prev, v_score = score, v_dynamic = dynamic\<rparr>
     in if decoding_order \<le> same + 1
        then if nodes = [] then None
          else if score \<le> v_score (last nodes) then Some (nodes, window, c) else Some (butlast nodes @ [node], window, c)
        else if length nodes < node_room allocated then Some (nodes @ [node], window, c) else None)"

fun visit_all :: "('f, 'a, 'd, 'c) features \<Rightarrow> nat \<Rightarrow> nat \<Rightarrow> nat \<Rightarrow> nat \<Rightarrow> bool \<Rightarrow> (int \<times> int) list \<Rightarrow>
    'd vnode list \<times> int list \<times> 'c \<Rightarrow> ('d vnode list \<times> int list \<times> 'c) option" where
  "visit_all fs k ws allocated i single [] st = Some st"
| "visit_all fs k ws allocated i single (x # xs) st =
     (case visit fs k ws allocated i single x st of None \<Rightarrow> None | Some st' \<Rightarrow> visit_all fs k ws allocated i single xs st')"

text \<open>The tags of a position with the nodes of the position before it.\<close>

definition choices :: "nat \<Rightarrow> int \<Rightarrow> int \<Rightarrow> (int \<times> int) list" where
  "choices tags nodes_prev nodes_now = concat (map (\<lambda>tag. map (\<lambda>prev. (int tag, prev)) [nodes_prev..nodes_now - 1]) [0..<tags])"

fun compute_nodes :: "('f, 'a, 'd, 'c) features \<Rightarrow> nat \<Rightarrow> nat \<Rightarrow> nat \<Rightarrow> nat \<Rightarrow> nat list \<Rightarrow> int \<Rightarrow> 'd vnode list \<Rightarrow> 'c \<Rightarrow>
    (int \<times> 'd vnode list \<times> 'c) option" where
  "compute_nodes fs k ws allocated i [] nodes_prev nodes c = Some (nodes_prev, nodes, c)"
| "compute_nodes fs k ws allocated i (tags # rest) nodes_prev nodes c =
     (let nodes_now = int (length nodes) in
      case visit_all fs k ws allocated i (nodes_prev + 1 = nodes_now \<and> tags = 1) (choices tags nodes_prev nodes_now)
          (nodes, replicate ws (-1), c) of
        None \<Rightarrow> None
      | Some (nodes', _, c') \<Rightarrow> compute_nodes fs k ws allocated (i + 1) rest nodes_now nodes' c')"

text \<open>The number of nodes to allocate, in 32 bits.\<close>

definition count_states :: "nat \<Rightarrow> nat list \<Rightarrow> nat \<Rightarrow> nat \<times> nat \<Rightarrow> nat \<times> nat" where
  "count_states k sizes i = (\<lambda>(states, nodes).
     let states = ((if k \<le> i + 1 then states div sizes ! (i + 1 - k) else states) * sizes ! i) mod 2 ^ 32
     in (states, (nodes + states) mod 2 ^ 32))"

definition count_nodes :: "nat \<Rightarrow> nat list \<Rightarrow> nat" where
  "count_nodes k sizes = snd (fold (count_states k sizes) [0..<length sizes] (1, 0))"

definition best_node :: "'d vnode list \<Rightarrow> int \<Rightarrow> int" where
  "best_node nodes nodes_prev =
     fold (\<lambda>node best. if v_score (nodes ! nat best) < v_score (nodes ! nat node) then node else best)
       [nodes_prev + 1..int (length nodes) - 1] nodes_prev"

fun store_tags :: "'d vnode list \<Rightarrow> nat \<Rightarrow> int \<Rightarrow> int list \<Rightarrow> int list" where
  "store_tags nodes 0 best tags = tags"
| "store_tags nodes (Suc i) best tags = store_tags nodes i (v_prev (nodes ! nat best)) (tags[i := v_tag (nodes ! nat best)])"

record 'c viterbi_cache =
  vc_nodes :: nat
  vc_features :: 'c

definition viterbi_tag :: "('f, 'a, 'd, 'c) features \<Rightarrow> nat \<Rightarrow> nat \<Rightarrow> 'f list \<Rightarrow> 'a list list \<Rightarrow> 'c viterbi_cache \<Rightarrow> int list \<Rightarrow>
    (int list \<times> 'c viterbi_cache) option" where
  "viterbi_tag fs decoding_order window_size forms analyses c tags =
     (let sizes = map length (take (length forms) analyses) in
      if forms = [] \<or> 0 \<in> set sizes then Some (tags, c)
      else
        let allocated = max (vc_nodes c) (count_nodes decoding_order sizes);
            features = initialize_sentence fs forms analyses (vc_features c)
        in case compute_nodes fs decoding_order window_size allocated 0 sizes (-1) [] features of
            None \<Rightarrow> None
          | Some (nodes_prev, nodes, features') \<Rightarrow>
              Some (store_tags nodes (length forms) (best_node nodes nodes_prev) tags,
                \<lparr>vc_nodes = allocated, vc_features = features'\<rparr>))"

section \<open>Common prefixes and the order of keys\<close>

fun common_prefix :: "int list \<Rightarrow> int list \<Rightarrow> nat" where
  "common_prefix (a # x) (b # y) = (if a = b then Suc (common_prefix x y) else 0)"
| "common_prefix x y = 0"

lemma common_prefix_Nil [simp]: "common_prefix [] y = 0" "common_prefix x [] = 0"
  by (cases y; simp) (cases x; simp)

lemma le_common_prefix: "n \<le> common_prefix x y \<longleftrightarrow> n \<le> length x \<and> n \<le> length y \<and> take n x = take n y"
  by (induction x y arbitrary: n rule: common_prefix.induct) (auto simp: take_Cons split: nat.splits)

fun lex_less :: "int list \<Rightarrow> int list \<Rightarrow> bool" where
  "lex_less (a # x) (b # y) \<longleftrightarrow> a < b \<or> a = b \<and> lex_less x y"
| "lex_less x y \<longleftrightarrow> False"

lemma lex_less_Nil [simp]: "\<not> lex_less [] y" "\<not> lex_less x []"
  by (cases y; simp) (cases x; simp)

lemma lex_less_irrefl [simp]: "\<not> lex_less x x"
  by (induction x) auto

lemma lex_less_trans: "lex_less x y \<Longrightarrow> lex_less y z \<Longrightarrow> lex_less x z"
proof (induction x y arbitrary: z rule: lex_less.induct)
  case (1 a x b y)
  then show ?case by (cases z) auto
qed auto

lemma lex_less_take: "lex_less x y \<Longrightarrow> take n x = take n y \<or> lex_less (take n x) (take n y)"
  by (induction x y arbitrary: n rule: lex_less.induct) (auto simp: take_Cons split: nat.splits)

lemma sorted_wrt_lex_distinct: "sorted_wrt lex_less xs \<Longrightarrow> distinct xs"
  by (induction xs) auto


section \<open>Paths through the nodes\<close>

definition path_at :: "int list list \<Rightarrow> int \<Rightarrow> int list" where
  "path_at ps p = (if p < 0 then [] else ps ! nat p)"

text \<open>\<open>ps\<close> holds the tags on the path back from each node, the newest first.\<close>

definition linked :: "'d vnode list \<Rightarrow> int list list \<Rightarrow> bool" where
  "linked nodes ps \<longleftrightarrow> length ps = length nodes \<and>
     (\<forall>j < length nodes. -1 \<le> v_prev (nodes ! j) \<and> v_prev (nodes ! j) < int j \<and>
        ps ! j = v_tag (nodes ! j) # path_at ps (v_prev (nodes ! j)))"

definition window_of :: "nat \<Rightarrow> int list \<Rightarrow> int list" where
  "window_of ws q = take ws (q @ replicate ws (-1))"

lemma length_window_of [simp]: "length (window_of ws q) = ws"
  by (simp add: window_of_def)

lemma window_of_alt: "window_of ws q = take ws q @ replicate (ws - length q) (-1)"
  by (auto simp: window_of_def min_def)

lemma take_window_of: "n \<le> ws \<Longrightarrow> n \<le> length q \<Longrightarrow> take n (window_of ws q) = take n q"
  by (simp add: window_of_def)

lemma linkedD:
  assumes "linked nodes ps" "0 \<le> p" "p < int (length nodes)"
  shows "-1 \<le> v_prev (nodes ! nat p)" "v_prev (nodes ! nat p) < p"
    "path_at ps p = v_tag (nodes ! nat p) # path_at ps (v_prev (nodes ! nat p))"
  using assms by (auto simp: linked_def path_at_def nat_less_iff dest!: spec [of _ "nat p"])

lemma path_at_append: "p < int (length ps) \<Longrightarrow> path_at (ps @ qs) p = path_at ps p"
  by (auto simp: path_at_def nth_append nat_less_iff)

lemma linked_append:
  assumes "linked nodes ps" "-1 \<le> p" "p < int (length nodes)" "v_prev node = p"
  shows "linked (nodes @ [node]) (ps @ [v_tag node # path_at ps p])"
  using assms unfolding linked_def
  by (auto simp: nth_append less_Suc_eq path_at_append)

lemma linked_butlast:
  assumes "linked nodes ps" "nodes \<noteq> []"
  shows "linked (butlast nodes) (butlast ps)"
proof -
  obtain ns n where n: "nodes = ns @ [n]" using assms(2) by (metis append_butlast_last_id)
  obtain qs q where q: "ps = qs @ [q]" using assms by (metis append_butlast_last_id linked_def length_0_conv)
  have l: "length qs = length ns" using assms by (simp add: linked_def n q)
  have "-1 \<le> v_prev (ns ! j) \<and> v_prev (ns ! j) < int j \<and> qs ! j = v_tag (ns ! j) # path_at qs (v_prev (ns ! j))"
    if "j < length ns" for j
  proof -
    have "-1 \<le> v_prev (ns ! j) \<and> v_prev (ns ! j) < int j \<and> qs ! j = v_tag (ns ! j) # path_at (qs @ [q]) (v_prev (ns ! j))"
      using assms(1) that l unfolding linked_def n q
      by (auto simp: nth_append dest!: spec [of _ j])
    then show ?thesis using that l by (simp add: path_at_append)
  qed
  then show ?thesis by (simp add: linked_def n q l)
qed

lemma fill_window_path:
  assumes "linked nodes ps" "-1 \<le> p" "p < int (length nodes)" "length window = ws" "n \<le> ws" "same \<le> n"
  shows "fill_window ws nodes p n (window, same) =
    (take n window @ take (ws - n) (path_at ps p) @ drop (n + length (path_at ps p)) window,
     same + (if same = n then common_prefix (drop n window) (path_at ps p) else 0))"
  using assms
proof (induction ws nodes p n "(window, same)" arbitrary: window same rule: fill_window.induct)
  case (1 ws nodes p n window same)
  show ?case
  proof (cases "0 \<le> p \<and> n < ws")
    case False
    have "fill_window ws nodes p n (window, same) = (window, same)"
      by (subst fill_window.simps, rule if_not_P) (rule False)
    moreover have "p = -1 \<or> n = ws" using 1(3,6) False by linarith
    moreover have "path_at ps (-1) = []" by (simp add: path_at_def)
    ultimately show ?thesis using 1(5) by auto
  next
    case True
    let ?t = "v_tag (nodes ! nat p)" and ?p = "v_prev (nodes ! nat p)"
    let ?same = "same + (if same = n \<and> window ! n = ?t then 1 else 0)"
    have l: "-1 \<le> ?p" "?p < p" "path_at ps p = ?t # path_at ps ?p"
      using linkedD [OF 1(2)] True 1(4) by auto
    have n: "n < length window" "drop n window = window ! n # drop (Suc n) window"
      using True 1(5) by (auto simp: Cons_nth_drop_Suc)
    have ih: "fill_window ws nodes ?p (n + 1) (window[n := ?t], ?same) =
        (take (n + 1) (window[n := ?t]) @ take (ws - (n + 1)) (path_at ps ?p) @ drop (n + 1 + length (path_at ps ?p)) (window[n := ?t]),
         ?same + (if ?same = n + 1 then common_prefix (drop (n + 1) (window[n := ?t])) (path_at ps ?p) else 0))"
      using 1(1) [OF True refl 1(2) l(1)] l(2) 1(4,5,7) True by simp
    have ws: "ws - n = Suc (ws - (n + 1))" using True by arith
    have "fill_window ws nodes p n (window, same) = fill_window ws nodes ?p (n + 1) (window[n := ?t], ?same)"
      using True by (subst fill_window.simps) (simp add: Let_def)
    also have "\<dots> = (take n window @ take (ws - n) (path_at ps p) @ drop (n + length (path_at ps p)) window,
       same + (if same = n then common_prefix (drop n window) (path_at ps p) else 0))"
      unfolding ih using n 1(7) by (auto simp: l(3) ws take_Suc_conv_app_nth)
    finally show ?thesis .
  qed
qed

text \<open>Filling the window over the one that an equally long path, or none, has left.\<close>

lemma fill_window_correct:
  assumes "linked nodes ps" "-1 \<le> p" "p < int (length nodes)" "0 < ws"
    "old = [] \<or> length old = Suc (length (path_at ps p))" "0 \<le> tag"
  shows "fill_window ws nodes p 1 ((window_of ws old)[0 := tag], if window_of ws old ! 0 = tag then 1 else 0) =
    (window_of ws (tag # path_at ps p), common_prefix (window_of ws old) (tag # path_at ps p))"
proof -
  let ?w = "window_of ws old" and ?q = "path_at ps p"
  have w: "?w = ?w ! 0 # drop 1 ?w" using assms(4) by (metis Cons_nth_drop_Suc One_nat_def drop0 length_window_of)
  have "take 1 (?w[0 := tag]) @ take (ws - 1) ?q @ drop (1 + length ?q) (?w[0 := tag]) = window_of ws (tag # ?q)"
  proof -
    have "drop (1 + length ?q) ?w = replicate (ws - Suc (length ?q)) (-1)"
      using assms(5) by (auto simp: window_of_alt)
    moreover have "take 1 (?w[0 := tag]) = [tag]" using assms(4) by (simp add: take_Suc_conv_app_nth)
    ultimately show ?thesis using assms(4) by (cases ws) (auto simp: window_of_alt)
  qed
  moreover have "common_prefix ?w (tag # ?q) = (if ?w ! 0 = tag then 1 + common_prefix (drop 1 ?w) ?q else 0)"
    by (subst w) simp
  ultimately show ?thesis
    using fill_window_path [OF assms(1-3), of "?w[0 := tag]" ws 1] assms(4) by simp
qed


section \<open>The number of nodes\<close>

text \<open>The number of different keys of a path of length \<open>i\<close>, where \<open>sizes\<close> are the numbers of tags of the positions.\<close>

definition states_at :: "nat \<Rightarrow> (nat \<Rightarrow> nat) \<Rightarrow> nat \<Rightarrow> nat" where
  "states_at k sizes i = prod sizes {i - (k - 1)..<i}"

definition all_states :: "nat \<Rightarrow> (nat \<Rightarrow> nat) \<Rightarrow> nat \<Rightarrow> nat" where
  "all_states k sizes n = (\<Sum>i<n. states_at k sizes (Suc i))"

lemma states_at_Suc:
  assumes "2 \<le> k" "\<And>j. j < i \<Longrightarrow> 0 < sizes j"
  shows "states_at k sizes (Suc i) = (if k \<le> i + 1 then states_at k sizes i div sizes (i + 1 - k) else states_at k sizes i) * sizes i"
proof (cases "k \<le> i + 1")
  case True
  then have i: "i - (k - 1) = i + 1 - k" "Suc i - (k - 1) = Suc (i + 1 - k)" "i + 1 - k < i" using assms(1) by auto
  have "prod sizes {i + 1 - k..<i} = sizes (i + 1 - k) * prod sizes {Suc (i + 1 - k)..<i}"
    using i(3) by (rule prod.atLeast_Suc_lessThan)
  then show ?thesis using True i assms(2) [OF i(3)] by (simp add: states_at_def)
next
  case False
  then have "i - (k - 1) = 0" "Suc i - (k - 1) = 0" using assms(1) by auto
  then show ?thesis using False by (simp add: states_at_def)
qed

lemma all_states_mono: "m \<le> n \<Longrightarrow> all_states k sizes m \<le> all_states k sizes n"
  unfolding all_states_def by (rule sum_mono2) auto

lemma count_nodes_all:
  assumes "2 \<le> k" "\<And>x. x \<in> set sizes \<Longrightarrow> 0 < x" "all_states k ((!) sizes) (length sizes) < 2 ^ 32"
  shows "count_nodes k sizes = all_states k ((!) sizes) (length sizes)"
proof -
  let ?s = "(!) sizes"
  have "n \<le> length sizes \<Longrightarrow> fold (count_states k sizes) [0..<n] (1, 0) = (states_at k ?s n, all_states k ?s n)" for n
  proof (induction n)
    case 0
    show ?case by (simp add: states_at_def all_states_def)
  next
    case (Suc n)
    have pos: "0 < sizes ! j" if "j < n" for j using that Suc.prems assms(2) by simp
    have sum: "all_states k ?s (Suc n) = all_states k ?s n + states_at k ?s (Suc n)" by (simp add: all_states_def)
    have "all_states k ?s (Suc n) < 2 ^ 32" using all_states_mono [OF Suc.prems, of k ?s] assms(3) by simp
    then have "states_at k ?s (Suc n) mod 2 ^ 32 = states_at k ?s (Suc n)"
      "(all_states k ?s n + states_at k ?s (Suc n)) mod 2 ^ 32 = all_states k ?s (Suc n)"
      unfolding sum by simp_all
    then show ?case using Suc.IH Suc.prems states_at_Suc [OF assms(1), of n ?s] pos
      by (simp add: count_states_def Let_def del: One_nat_def)
  qed
  from this [of "length sizes"] show ?thesis by (simp add: count_nodes_def)
qed

section \<open>The contract of the features\<close>

text \<open>
  Features whose score of a window at position \<open>i\<close> is \<open>L i\<close> of the window and the dynamic features of
  the path, which are computed from those of the path before it. The cache may remember the window
  it scored last (\<open>holds\<close>), and then the call may say how many of the leading tags have not changed
  since; they are fewer than the decoding order \<open>k\<close>.
\<close>

definition window_at :: "nat \<Rightarrow> (nat \<Rightarrow> nat) \<Rightarrow> nat \<Rightarrow> int list \<Rightarrow> bool" where
  "window_at ws sizes i w \<longleftrightarrow> length w = ws \<and>
     (\<forall>j < ws. if j \<le> i then 0 \<le> w ! j \<and> w ! j < int (sizes (i - j)) else w ! j = -1)"

locale tag_scores =
  fixes fs :: "('f, 'a, 'd, 'c) features"
    and k ws len :: nat
    and sizes :: "nat \<Rightarrow> nat"
    and L :: "nat \<Rightarrow> int list \<Rightarrow> 'd \<Rightarrow> int"
    and dyn :: "nat \<Rightarrow> int \<Rightarrow> 'd option \<Rightarrow> 'd"
    and inv :: "'c \<Rightarrow> bool"
    and holds :: "nat \<Rightarrow> int list \<Rightarrow> 'c \<Rightarrow> bool"
  assumes order: "2 \<le> k" "k \<le> ws"
    and tags: "inv c \<Longrightarrow> i < len \<Longrightarrow> 0 < sizes i"
    and dynamic: "inv c \<Longrightarrow> i < len \<Longrightarrow> dynamic_features fs i t d' c = dyn i t d'"
    and score: "inv c \<Longrightarrow> i < len \<Longrightarrow> window_at ws sizes i w \<Longrightarrow> u < k \<Longrightarrow>
        u = 0 \<or> (\<exists>w'. holds i w' c \<and> take u w = take u w') \<Longrightarrow>
        \<exists>c'. window_score fs i w u d c = (L i w d, c') \<and> inv c' \<and> holds i w c'"
begin

fun valid_path :: "int list \<Rightarrow> bool" where
  "valid_path [] \<longleftrightarrow> True"
| "valid_path (t # q) \<longleftrightarrow> 0 \<le> t \<and> t < int (sizes (length q)) \<and> valid_path q"

fun path_dyn :: "int list \<Rightarrow> 'd option" where
  "path_dyn [] = None"
| "path_dyn (t # q) = Some (dyn (length q) t (path_dyn q))"

fun path_score :: "int list \<Rightarrow> int" where
  "path_score [] = 0"
| "path_score (t # q) = L (length q) (window_of ws (t # q)) (the (path_dyn (t # q))) + path_score q"

text \<open>Scores that depend on the last \<open>k\<close> tags only; for these the decoder is exact.\<close>

definition local_scores :: bool where
  "local_scores \<longleftrightarrow> (\<forall>i w w' d d'. length w = ws \<longrightarrow> length w' = ws \<longrightarrow> take k w = take k w' \<longrightarrow> L i w d = L i w' d')"

definition key :: "int list \<Rightarrow> int list" where
  "key q = take (k - 1) q"

lemma key_Cons: "key (t # q) = t # take (k - 2) (key q)"
proof -
  have "k - 1 = Suc (k - 2)" using order by simp
  then show ?thesis by (simp add: key_def min_def)
qed

lemma take_window: "take k (window_of ws q) = take k (q @ replicate k (-1))"
  using order by (auto simp: window_of_def min_def take_append) 

lemma take_window_key: "length q = length q' \<Longrightarrow> key q = key q' \<Longrightarrow> take k (window_of ws (t # q)) = take k (window_of ws (t # q'))"
  unfolding take_window key_def using order by (cases k) (auto simp: take_append)

lemma valid_path_nth: "valid_path q \<Longrightarrow> j < length q \<Longrightarrow> 0 \<le> q ! j \<and> q ! j < int (sizes (length q - 1 - j))"
  by (induction q arbitrary: j) (auto simp: nth_Cons split: nat.splits)

lemma window_at_path:
  assumes "valid_path q" "length q = Suc i"
  shows "window_at ws sizes i (window_of ws q)"
proof -
  have "if j \<le> i then 0 \<le> window_of ws q ! j \<and> window_of ws q ! j < int (sizes (i - j)) else window_of ws q ! j = -1" if "j < ws" for j
    using valid_path_nth [OF assms(1), of j] assms(2) that by (auto simp: window_of_def nth_append)
  then show ?thesis by (simp add: window_at_def)
qed

text \<open>
  The state in the middle of position \<open>i\<close>: \<open>nodes0\<close> with the paths \<open>ps0\<close> were there before, \<open>qs\<close> are
  the paths of the nodes of this position, \<open>done_\<close> the paths that have been looked at, each with its score.
\<close>

definition node_score :: "'d vnode list \<Rightarrow> int \<Rightarrow> int" where
  "node_score nodes p = (if p < 0 then 0 else v_score (nodes ! nat p))"

text \<open>The step in score from a predecessor, where nothing is added if there is no choice.\<close>

definition step_score :: "nat \<Rightarrow> bool \<Rightarrow> int list \<Rightarrow> int" where
  "step_score i single q = (if single then 0 else L i (window_of ws q) (the (path_dyn q)))"

definition visiting :: "nat \<Rightarrow> bool \<Rightarrow> 'd vnode list \<Rightarrow> int list list \<Rightarrow> (int \<times> int) list \<Rightarrow>
    'd vnode list \<Rightarrow> int list list \<Rightarrow> int list \<Rightarrow> 'c \<Rightarrow> bool" where
  "visiting i single nodes0 ps0 seen news qs w c \<longleftrightarrow>
     linked (nodes0 @ news) (ps0 @ qs) \<and> length news = length qs \<and> inv c \<and>
     (seen = [] \<longrightarrow> qs = [] \<and> w = window_of ws []) \<and>
     (seen \<noteq> [] \<longrightarrow> qs \<noteq> [] \<and> (\<exists>t p. last seen = (t, p) \<and> w = window_of ws (t # path_at ps0 p) \<and>
        key (last qs) = key (t # path_at ps0 p) \<and> (single \<or> holds i w c))) \<and>
     sorted_wrt lex_less (map key qs) \<and>
     (\<forall>j < length qs. \<exists>(t, p) \<in> set seen. qs ! j = t # path_at ps0 p \<and>
        v_score (news ! j) = step_score i single (qs ! j) + node_score nodes0 p \<and>
        Some (v_dynamic (news ! j)) = path_dyn (qs ! j)) \<and>
     (\<forall>(t, p) \<in> set seen. \<exists>j < length qs. key (qs ! j) = key (t # path_at ps0 p) \<and>
        step_score i single (t # path_at ps0 p) + node_score nodes0 p \<le> v_score (news ! j))"

definition node_dyn :: "'d vnode list \<Rightarrow> int \<Rightarrow> 'd option" where
  "node_dyn nodes p = (if 0 \<le> p then Some (v_dynamic (nodes ! nat p)) else None)"

definition choice :: "nat \<Rightarrow> 'd vnode list \<Rightarrow> int list list \<Rightarrow> int \<times> int \<Rightarrow> bool" where
  "choice i nodes0 ps0 = (\<lambda>(t, p). -1 \<le> p \<and> p < int (length ps0) \<and> length (path_at ps0 p) = i \<and>
     valid_path (t # path_at ps0 p) \<and> node_dyn nodes0 p = path_dyn (path_at ps0 p))"

definition before :: "int list list \<Rightarrow> int \<times> int \<Rightarrow> int \<times> int \<Rightarrow> bool" where
  "before ps0 = (\<lambda>(t', p') (t, p). let q' = t' # path_at ps0 p'; q = t # path_at ps0 p in
     lex_less (key q') (key q) \<or> key q' = key q \<and> k - 1 \<le> length q \<and> take k q' \<noteq> take k q)"

lemma before_key: "before ps0 (t', p') (t, p) \<Longrightarrow> take k (t' # path_at ps0 p') \<noteq> take k (t # path_at ps0 p)"
proof
  assume b: "before ps0 (t', p') (t, p)" and t: "take k (t' # path_at ps0 p') = take k (t # path_at ps0 p)"
  have "key (t' # path_at ps0 p') = key (t # path_at ps0 p)"
    using arg_cong [OF t, of "take (k - 1)"] by (simp add: key_def min_def)
  then show False using b t by (simp add: before_def Let_def)
qed

text \<open>What \<open>visit\<close> finds in the window: how far it agrees with the new path.\<close>

lemma common_prefix_seen:
  assumes old: "w = window_of ws (t' # path_at ps0 p')" and c: "choice i nodes0 ps0 (t', p')" "choice i nodes0 ps0 (t, p)"
    and b: "before ps0 (t', p') (t, p)"
  shows "common_prefix w (t # path_at ps0 p) < k"
    "k \<le> Suc (common_prefix w (t # path_at ps0 p)) \<longleftrightarrow> key (t' # path_at ps0 p') = key (t # path_at ps0 p)"
proof -
  let ?q' = "t' # path_at ps0 p'" and ?q = "t # path_at ps0 p"
  have len: "length ?q' = Suc i" "length ?q = Suc i" using c by (simp_all add: choice_def)
  have take: "take n w = take n ?q'" if "n \<le> length ?q" "n \<le> k" for n
    unfolding old using that len order by (intro take_window_of) auto
  have w: "length w = ws" by (simp add: old)
  show "common_prefix w ?q < k"
  proof (rule ccontr)
    assume "\<not> common_prefix w ?q < k"
    then have "k \<le> length ?q" "take k w = take k ?q" by (auto simp: not_less le_common_prefix)
    then show False using take [of k] before_key [OF b] by simp
  qed
  have "k \<le> Suc (common_prefix w ?q) \<longleftrightarrow> k - 1 \<le> common_prefix w ?q" by auto
  also have "\<dots> \<longleftrightarrow> k - 1 \<le> length ?q \<and> take (k - 1) w = take (k - 1) ?q"
    using order w by (auto simp: le_common_prefix)
  also have "\<dots> \<longleftrightarrow> k - 1 \<le> length ?q \<and> key ?q' = key ?q"
    using take [of "k - 1"] by (auto simp: key_def)
  also have "\<dots> \<longleftrightarrow> key ?q' = key ?q"
    using b by (auto simp: before_def Let_def)
  finally show "k \<le> Suc (common_prefix w ?q) \<longleftrightarrow> key ?q' = key ?q" .
qed

lemma common_prefix_first: "0 \<le> t \<Longrightarrow> common_prefix (window_of ws []) (t # q) = 0"
  using order by (cases ws) (auto simp: window_of_def)

lemma visit_score:
  assumes "inv c" "i < len" "choice i nodes0 ps0 (t, p)" "u < k" "w' = window_of ws (t # path_at ps0 p)" "Some d = path_dyn (t # path_at ps0 p)"
    and "single \<or> u = 0 \<or> (\<exists>w. holds i w c \<and> take u w' = take u w)"
  obtains s c' where "(if single then (0, c) else window_score fs i w' u d c) = (s, c')"
    "s = step_score i single (t # path_at ps0 p)" "inv c'" "single \<or> holds i w' c'"
proof (cases single)
  case True
  then show ?thesis using that [of 0 c] assms by (simp add: step_score_def)
next
  case False
  let ?q = "t # path_at ps0 p"
  have "window_at ws sizes i w'" unfolding assms(5)
    using window_at_path [of ?q i] assms(3) by (simp add: choice_def del: valid_path.simps)
  then obtain c' where "window_score fs i w' u d c = (L i w' d, c')" "inv c'" "holds i w' c'"
    using score [OF assms(1,2) _ assms(4), of w' d] assms(7) False by auto
  moreover have "the (path_dyn ?q) = d" by (simp only: assms(6) [symmetric] option.sel)
  ultimately show ?thesis using that False by (simp add: step_score_def assms(5) del: path_dyn.simps)
qed

lemma visit_found:
  assumes v: "visiting i single nodes0 ps0 seen news qs w c" and i: "i < len"
    and p0: "linked nodes0 ps0"
    and cs: "\<forall>x \<in> set seen. choice i nodes0 ps0 x" "choice i nodes0 ps0 (t, p)"
    and b: "seen \<noteq> [] \<Longrightarrow> before ps0 (last seen) (t, p)"
  obtains s c' d same where
    "visit fs k ws allocated i single (t, p) (nodes0 @ news, w, c) =
       (let node = \<lparr>v_tag = t, v_prev = p, v_score = s + node_score nodes0 p, v_dynamic = d\<rparr>;
            w' = window_of ws (t # path_at ps0 p)
        in if same then if v_score node \<le> v_score (last news) then Some (nodes0 @ news, w', c')
             else Some (nodes0 @ butlast news @ [node], w', c')
        else if length (nodes0 @ news) < node_room allocated then Some (nodes0 @ news @ [node], w', c') else None)"
    "same \<longleftrightarrow> seen \<noteq> [] \<and> key (last qs) = key (t # path_at ps0 p)"
    "s = step_score i single (t # path_at ps0 p)" "inv c'" "single \<or> holds i (window_of ws (t # path_at ps0 p)) c'"
    "Some d = path_dyn (t # path_at ps0 p)"
proof -
  let ?q = "t # path_at ps0 p"
  have l: "linked (nodes0 @ news) (ps0 @ qs)" "length news = length qs" "inv c" using v by (auto simp: visiting_def)
  have len0: "length ps0 = length nodes0" using p0 by (simp add: linked_def)
  have c: "-1 \<le> p" "p < int (length nodes0)" "length (path_at ps0 p) = i" "0 \<le> t"
    using cs(2) by (auto simp: choice_def len0)
  have path: "path_at (ps0 @ qs) p = path_at ps0 p" using c len0 by (simp add: path_at_append)
  have "\<exists>old. w = window_of ws old \<and> (old = [] \<or> length old = Suc i) \<and> common_prefix w ?q < k \<and>
      (k \<le> Suc (common_prefix w ?q) \<longleftrightarrow> seen \<noteq> [] \<and> key (last qs) = key ?q)"
  proof (cases "seen = []")
    case True
    then show ?thesis using v common_prefix_first [OF c(4)] order by (auto simp: visiting_def)
  next
    case False
    then obtain t' p' where l: "last seen = (t', p')" "w = window_of ws (t' # path_at ps0 p')"
        "key (last qs) = key (t' # path_at ps0 p')"
      using v by (auto simp: visiting_def)
    have "choice i nodes0 ps0 (t', p')" using cs(1) False l(1) by (metis last_in_set)
    then show ?thesis
      using common_prefix_seen [OF l(2) _ cs(2)] b [OF False] l False by (auto simp: choice_def)
  qed
  then obtain old where old: "w = window_of ws old" "old = [] \<or> length old = Suc i" "common_prefix w ?q < k"
      "k \<le> Suc (common_prefix w ?q) \<longleftrightarrow> seen \<noteq> [] \<and> key (last qs) = key ?q"
    by blast
  let ?w' = "window_of ws ?q" and ?u = "common_prefix w ?q"
  have fill: "fill_window ws (nodes0 @ news) p 1 (w[0 := t], if w ! 0 = t then 1 else 0) = (?w', ?u)"
    using fill_window_correct [OF l(1), of p ws old t] old c order by (simp add: path)
  let ?d = "dynamic_features fs i t (map_option v_dynamic (if 0 \<le> p then Some (nodes0 ! nat p) else None)) c"
  have prev: "(if 0 \<le> p then Some ((nodes0 @ news) ! nat p) else None) = (if 0 \<le> p then Some (nodes0 ! nat p) else None)"
    using c by (simp add: nth_append nat_less_iff)
  have known: "single \<or> ?u = 0 \<or> (\<exists>w. holds i w c \<and> take ?u ?w' = take ?u w)"
  proof (cases "single \<or> seen = []")
    case True
    then show ?thesis using v common_prefix_first [OF c(4)] by (auto simp: visiting_def)
  next
    case False
    then have "holds i w c" using v by (auto simp: visiting_def)
    moreover have "take ?u ?w' = take ?u w"
    proof -
      have "take ?u w = take ?u ?q" "?u \<le> length ?q" "?u \<le> length w"
        using le_common_prefix [of ?u w ?q] by auto
      moreover have "length w = ws" by (simp add: old)
      ultimately show ?thesis using take_window_of [of ?u ws ?q] by metis
    qed
    ultimately show ?thesis by blast
  qed
  have dd: "Some ?d = path_dyn ?q"
    using dynamic [OF l(3) i] cs(2) c(3) by (simp add: choice_def node_dyn_def if_distrib [of "map_option v_dynamic"] cong: if_cong)
  obtain s c' where s: "(if single then (0, c) else window_score fs i ?w' ?u ?d c) = (s, c')"
      "s = step_score i single ?q" "inv c'" "single \<or> holds i ?w' c'"
    using visit_score [OF l(3) i cs(2) old(3) refl dd known] by blast
  have ns: "(case if 0 \<le> p then Some (nodes0 ! nat p) else None of None \<Rightarrow> 0 | Some node \<Rightarrow> v_score node) = node_score nodes0 p"
    by (simp add: node_score_def)
  have news: "news \<noteq> []" if "seen \<noteq> []" using v that by (auto simp: visiting_def)
  show ?thesis
  proof (rule that [OF _ old(4) s(2-4) dd])
    show "visit fs k ws allocated i single (t, p) (nodes0 @ news, w, c) =
       (let node = \<lparr>v_tag = t, v_prev = p, v_score = s + node_score nodes0 p, v_dynamic = ?d\<rparr>; w' = ?w'
        in if k \<le> Suc ?u then if v_score node \<le> v_score (last news) then Some (nodes0 @ news, w', c')
             else Some (nodes0 @ butlast news @ [node], w', c')
        else if length (nodes0 @ news) < node_room allocated then Some (nodes0 @ news @ [node], w', c') else None)"
      unfolding visit_def prod.case fill Let_def prev s(1) ns using old(4) news
      by (auto simp: butlast_append)
  qed
qed

lemma visiting_paths:
  assumes "visiting i single nodes0 ps0 seen news qs w c" "\<forall>x \<in> set seen. choice i nodes0 ps0 x" "q \<in> set qs"
  shows "valid_path q" "length q = Suc i"
proof -
  obtain t p where "(t, p) \<in> set seen" "q = t # path_at ps0 p"
    using assms(1,3) by (auto simp: visiting_def in_set_conv_nth)
  then show "valid_path q" "length q = Suc i" using assms(2) by (auto simp: choice_def)
qed

lemma sorted_wrt_snocI: "sorted_wrt lex_less xs \<Longrightarrow> (xs \<noteq> [] \<Longrightarrow> lex_less (last xs) x) \<Longrightarrow> sorted_wrt lex_less (xs @ [x])"
proof (induction xs)
  case (Cons a xs)
  then show ?case by (cases "xs = []") (auto dest: lex_less_trans last_in_set)
qed simp

text \<open>A new node at the end, and one in the place of the last.\<close>

lemma visiting_append:
  assumes v: "visiting i single nodes0 ps0 seen news qs w c" and l0: "linked nodes0 ps0"
    and p: "-1 \<le> p" "p < int (length ps0)"
    and k: "seen \<noteq> [] \<Longrightarrow> lex_less (key (last qs)) (key (t # path_at ps0 p))"
    and n: "v_tag node = t" "v_prev node = p" "v_score node = step_score i single (t # path_at ps0 p) + node_score nodes0 p"
      "Some (v_dynamic node) = path_dyn (t # path_at ps0 p)"
    and c': "inv c'" "single \<or> holds i (window_of ws (t # path_at ps0 p)) c'"
  shows "visiting i single nodes0 ps0 (seen @ [(t, p)]) (news @ [node]) (qs @ [t # path_at ps0 p])
    (window_of ws (t # path_at ps0 p)) c'"
proof -
  let ?q = "t # path_at ps0 p"
  have len: "length news = length qs" "length ps0 = length nodes0" using v l0 by (auto simp: visiting_def linked_def)
  have "linked (nodes0 @ news @ [node]) (ps0 @ qs @ [?q])"
    using linked_append [of "nodes0 @ news" "ps0 @ qs" p node] v p n len
    by (simp add: visiting_def path_at_append)
  moreover have "sorted_wrt lex_less (map key (qs @ [?q]))"
    using sorted_wrt_snocI [of "map key qs" "key ?q"] v k by (cases "seen = []") (auto simp: visiting_def last_map)
  moreover have "\<exists>(t, p) \<in> set (seen @ [(t, p)]). (qs @ [?q]) ! j = t # path_at ps0 p \<and>
        v_score ((news @ [node]) ! j) = step_score i single ((qs @ [?q]) ! j) + node_score nodes0 p \<and>
        Some (v_dynamic ((news @ [node]) ! j)) = path_dyn ((qs @ [?q]) ! j)" if "j < length (qs @ [?q])" for j
  proof (cases "j < length qs")
    case True
    then show ?thesis using v len by (auto simp: visiting_def nth_append dest!: spec [of _ j])
  next
    case False
    then have "j = length qs" using that by simp
    then show ?thesis using n len by (auto simp: nth_append)
  qed
  moreover have "\<exists>j < length (qs @ [?q]). key ((qs @ [?q]) ! j) = key (t' # path_at ps0 p') \<and>
        step_score i single (t' # path_at ps0 p') + node_score nodes0 p' \<le> v_score ((news @ [node]) ! j)"
    if "(t', p') \<in> set (seen @ [(t, p)])" for t' p'
  proof (cases "(t', p') = (t, p)")
    case True
    then show ?thesis using n len by (intro exI [of _ "length qs"]) (auto simp: nth_append)
  next
    case False
    then have "(t', p') \<in> set seen" using that by auto
    then obtain j where "j < length qs" "key (qs ! j) = key (t' # path_at ps0 p')"
        "step_score i single (t' # path_at ps0 p') + node_score nodes0 p' \<le> v_score (news ! j)"
      using v by (fastforce simp: visiting_def)
    then show ?thesis using len by (intro exI [of _ j]) (auto simp: nth_append)
  qed
  ultimately show ?thesis using c' len unfolding visiting_def by (simp add: split_beta)
qed

lemma visiting_skip:
  assumes v: "visiting i single nodes0 ps0 seen news qs w c" and ne: "seen \<noteq> []"
    and k: "key (last qs) = key (t # path_at ps0 p)"
    and n: "step_score i single (t # path_at ps0 p) + node_score nodes0 p \<le> v_score (last news)"
    and c': "inv c'" "single \<or> holds i (window_of ws (t # path_at ps0 p)) c'"
  shows "visiting i single nodes0 ps0 (seen @ [(t, p)]) news qs (window_of ws (t # path_at ps0 p)) c'"
proof -
  have qs: "qs \<noteq> []" "length news = length qs" "news \<noteq> []" using v ne by (auto simp: visiting_def)
  then have last: "qs ! (length qs - 1) = last qs" "news ! (length qs - 1) = last news" "length qs - 1 < length qs"
    by (simp_all add: last_conv_nth)
  have "\<exists>j < length qs. key (qs ! j) = key (t' # path_at ps0 p') \<and>
        step_score i single (t' # path_at ps0 p') + node_score nodes0 p' \<le> v_score (news ! j)"
    if "(t', p') \<in> set (seen @ [(t, p)])" for t' p'
  proof (cases "(t', p') = (t, p)")
    case True
    then show ?thesis using k n last by (intro exI [of _ "length qs - 1"]) auto
  next
    case False
    then show ?thesis using v that by (fastforce simp: visiting_def)
  qed
  moreover have "\<exists>(t, p) \<in> set (seen @ [(t, p)]). qs ! j = t # path_at ps0 p \<and>
        v_score (news ! j) = step_score i single (qs ! j) + node_score nodes0 p \<and>
        Some (v_dynamic (news ! j)) = path_dyn (qs ! j)" if "j < length qs" for j
    using v that by (auto simp: visiting_def)
  ultimately show ?thesis using v c' k qs unfolding visiting_def by (simp add: split_beta)
qed

lemma visiting_replace:
  assumes v: "visiting i single nodes0 ps0 seen news qs w c" and l0: "linked nodes0 ps0" and ne: "seen \<noteq> []"
    and p: "-1 \<le> p" "p < int (length ps0)"
    and k: "key (last qs) = key (t # path_at ps0 p)"
    and n: "v_tag node = t" "v_prev node = p" "v_score node = step_score i single (t # path_at ps0 p) + node_score nodes0 p"
      "Some (v_dynamic node) = path_dyn (t # path_at ps0 p)"
      "v_score (last news) \<le> v_score node"
    and c': "inv c'" "single \<or> holds i (window_of ws (t # path_at ps0 p)) c'"
  shows "visiting i single nodes0 ps0 (seen @ [(t, p)]) (butlast news @ [node]) (butlast qs @ [t # path_at ps0 p])
    (window_of ws (t # path_at ps0 p)) c'"
proof -
  let ?q = "t # path_at ps0 p" and ?n = "length qs - 1"
  have len: "length news = length qs" "length ps0 = length nodes0" "qs \<noteq> []" "news \<noteq> []"
    using v l0 ne by (auto simp: visiting_def linked_def)
  have l: "linked (nodes0 @ butlast news) (ps0 @ butlast qs)"
    using linked_butlast [of "nodes0 @ news" "ps0 @ qs"] v len by (simp add: visiting_def butlast_append)
  have "linked (nodes0 @ butlast news @ [node]) (ps0 @ butlast qs @ [?q])"
    using linked_append [OF l, of p node] p n len by (simp add: path_at_append)
  moreover have "map key (butlast qs @ [?q]) = map key qs"
    using len(3) k by (metis append_butlast_last_id list.simps(8,9) map_append)
  then have "sorted_wrt lex_less (map key (butlast qs @ [?q]))" using v unfolding visiting_def by simp
  moreover have nth: "(butlast qs @ [?q]) ! j = (if j = ?n then ?q else qs ! j)"
      "(butlast news @ [node]) ! j = (if j = ?n then node else news ! j)" if "j < length qs" for j
    using that len by (auto simp: nth_append nth_butlast)
  have "\<exists>(t, p) \<in> set (seen @ [(t, p)]). (butlast qs @ [?q]) ! j = t # path_at ps0 p \<and>
        v_score ((butlast news @ [node]) ! j) = step_score i single ((butlast qs @ [?q]) ! j) + node_score nodes0 p \<and>
        Some (v_dynamic ((butlast news @ [node]) ! j)) = path_dyn ((butlast qs @ [?q]) ! j)"
    if "j < length (butlast qs @ [?q])" for j
  proof (cases "j = ?n")
    case True
    then show ?thesis using nth [of ?n] n len by auto
  next
    case False
    then have "j < length qs" using that by simp
    then show ?thesis using nth [of j] v False by (auto simp: visiting_def)
  qed
  moreover have "\<exists>j < length (butlast qs @ [?q]). key ((butlast qs @ [?q]) ! j) = key (t' # path_at ps0 p') \<and>
        step_score i single (t' # path_at ps0 p') + node_score nodes0 p' \<le> v_score ((butlast news @ [node]) ! j)"
    if "(t', p') \<in> set (seen @ [(t, p)])" for t' p'
  proof (cases "(t', p') = (t, p)")
    case True
    then show ?thesis using nth [of ?n] n len by (intro exI [of _ ?n]) auto
  next
    case False
    then have "(t', p') \<in> set seen" using that by auto
    then obtain j where j: "j < length qs" "key (qs ! j) = key (t' # path_at ps0 p')"
        "step_score i single (t' # path_at ps0 p') + node_score nodes0 p' \<le> v_score (news ! j)"
      using v by (fastforce simp: visiting_def)
    moreover have "qs ! ?n = last qs" "news ! ?n = last news" using len by (simp_all add: last_conv_nth)
    ultimately show ?thesis using nth [OF j(1)] n(5) k len by (intro exI [of _ j]) auto
  qed
  ultimately show ?thesis using c' len unfolding visiting_def by (simp add: split_beta)
qed

text \<open>One round of the loops keeps the invariant; \<open>room\<close> is the memory for paths with different keys.\<close>

definition room :: "nat \<Rightarrow> nat \<Rightarrow> nat \<Rightarrow> bool" where
  "room i used allocated \<longleftrightarrow> (\<forall>qs. (\<forall>q \<in> set qs. valid_path q \<and> length q = Suc i) \<longrightarrow> distinct (map key qs) \<longrightarrow>
     used + length qs \<le> node_room allocated)"

lemma visit_step:
  assumes v: "visiting i single nodes0 ps0 seen news qs w c" and i: "i < len" and l0: "linked nodes0 ps0"
    and cs: "\<forall>x \<in> set seen. choice i nodes0 ps0 x" "choice i nodes0 ps0 (t, p)"
    and b: "seen \<noteq> [] \<Longrightarrow> before ps0 (last seen) (t, p)"
    and r: "room i (length nodes0) allocated"
  shows "\<exists>news' qs' w' c'. visit fs k ws allocated i single (t, p) (nodes0 @ news, w, c) = Some (nodes0 @ news', w', c') \<and>
    visiting i single nodes0 ps0 (seen @ [(t, p)]) news' qs' w' c'"
proof -
  let ?q = "t # path_at ps0 p" and ?w' = "window_of ws (t # path_at ps0 p)"
  have p: "-1 \<le> p" "p < int (length ps0)" using cs(2) by (auto simp: choice_def)
  obtain s c' d same where f: "visit fs k ws allocated i single (t, p) (nodes0 @ news, w, c) =
       (let node = \<lparr>v_tag = t, v_prev = p, v_score = s + node_score nodes0 p, v_dynamic = d\<rparr>; w' = ?w'
        in if same then if v_score node \<le> v_score (last news) then Some (nodes0 @ news, w', c')
             else Some (nodes0 @ butlast news @ [node], w', c')
        else if length (nodes0 @ news) < node_room allocated then Some (nodes0 @ news @ [node], w', c') else None)"
    "same \<longleftrightarrow> seen \<noteq> [] \<and> key (last qs) = key ?q" "s = step_score i single ?q" "inv c'" "single \<or> holds i ?w' c'"
      "Some d = path_dyn ?q"
    using visit_found [OF v i l0 cs b] by metis
  let ?node = "\<lparr>v_tag = t, v_prev = p, v_score = s + node_score nodes0 p, v_dynamic = d\<rparr>"
  consider "\<not> same" | "same" "v_score ?node \<le> v_score (last news)" | "same" "\<not> v_score ?node \<le> v_score (last news)" by blast
  then show ?thesis
  proof cases
    case 1
    have lk: "lex_less (key (last qs)) (key ?q)" if "seen \<noteq> []"
      using b that 1 f(2) v by (auto simp: before_def visiting_def Let_def)
    have v': "visiting i single nodes0 ps0 (seen @ [(t, p)]) (news @ [?node]) (qs @ [?q]) ?w' c'"
      by (rule visiting_append [OF v l0 p lk _ _ _ _ f(4,5)]) (simp_all add: f(3,6) del: path_dyn.simps)
    have "\<forall>x \<in> set (seen @ [(t, p)]). choice i nodes0 ps0 x" using cs by auto
    then have "\<forall>q \<in> set (qs @ [?q]). valid_path q \<and> length q = Suc i" using visiting_paths [OF v'] by blast
    moreover have "distinct (map key (qs @ [?q]))"
      using v' sorted_wrt_lex_distinct unfolding visiting_def by blast
    ultimately have "length nodes0 + length (qs @ [?q]) \<le> node_room allocated" using r unfolding room_def by blast
    moreover have "length news = length qs" using v by (simp add: visiting_def)
    ultimately show ?thesis using f(1) v' 1 by (auto simp: Let_def)
  next
    case 2
    then show ?thesis using f visiting_skip [OF v _ _ _ f(4,5)] by (auto simp: Let_def)
  next
    case 3
    then have "visiting i single nodes0 ps0 (seen @ [(t, p)]) (butlast news @ [?node]) (butlast qs @ [?q]) ?w' c'"
      using f by (intro visiting_replace [OF v l0 _ p]) auto
    then show ?thesis using f(1) 3 by (auto simp: Let_def)
  qed
qed

lemma visit_all_correct:
  assumes "i < len" "linked nodes0 ps0" "room i (length nodes0) allocated"
  shows "visiting i single nodes0 ps0 seen news qs w c \<Longrightarrow> \<forall>x \<in> set (seen @ xs). choice i nodes0 ps0 x \<Longrightarrow>
    sorted_wrt (before ps0) (seen @ xs) \<Longrightarrow>
    \<exists>news' qs' w' c'. visit_all fs k ws allocated i single xs (nodes0 @ news, w, c) = Some (nodes0 @ news', w', c') \<and>
      visiting i single nodes0 ps0 (seen @ xs) news' qs' w' c'"
proof (induction xs arbitrary: seen news qs w c)
  case Nil
  then show ?case by auto
next
  case (Cons x xs)
  obtain t p where x: "x = (t, p)" by (cases x)
  have b: "before ps0 (last seen) (t, p)" if "seen \<noteq> []"
    using Cons.prems(3) that unfolding x by (auto simp: sorted_wrt_append)
  obtain news' qs' w' c' where v: "visit fs k ws allocated i single (t, p) (nodes0 @ news, w, c) = Some (nodes0 @ news', w', c')"
      "visiting i single nodes0 ps0 (seen @ [(t, p)]) news' qs' w' c'"
    using visit_step [OF Cons.prems(1) assms(1,2) _ _ b assms(3)] Cons.prems(2) unfolding x by auto
  show ?case using Cons.IH [OF v(2)] Cons.prems(2,3) v(1) by (simp add: x)
qed

text \<open>
  The state between two positions: every sequence of tags so far has a node that agrees with it in
  the last \<open>k - 1\<close> tags and scores at least as much, where \<open>off\<close> is what positions without a choice
  have left out.
\<close>

definition layer :: "nat \<Rightarrow> int \<Rightarrow> 'd vnode list \<Rightarrow> int list list \<Rightarrow> int \<Rightarrow> bool" where
  "layer i lo nodes ps off \<longleftrightarrow> linked nodes ps \<and> lo < int (length nodes) \<and>
     (if i = 0 then nodes = [] \<and> lo = -1 else 0 \<le> lo) \<and>
     (\<forall>p \<in> {lo..<int (length nodes)}. length (path_at ps p) = i \<and> valid_path (path_at ps p) \<and>
        path_score (path_at ps p) = node_score nodes p + off \<and> node_dyn nodes p = path_dyn (path_at ps p)) \<and>
     (\<forall>p \<in> {lo..<int (length nodes)}. \<forall>p' \<in> {lo..<p}. lex_less (key (path_at ps p')) (key (path_at ps p))) \<and>
     (\<forall>q. valid_path q \<longrightarrow> length q = i \<longrightarrow> (\<exists>p \<in> {lo..<int (length nodes)}. key (path_at ps p) = key q \<and>
        (local_scores \<longrightarrow> path_score q \<le> node_score nodes p + off)))"

lemma layer_0: "layer 0 (-1) [] [] 0"
  by (auto simp: layer_def linked_def path_at_def node_score_def node_dyn_def)

lemma set_choices: "set (choices n lo now) = {(t, p). 0 \<le> t \<and> t < int n \<and> lo \<le> p \<and> p < now}"
proof -
  have "(t, p) \<in> set (choices n lo now) \<longleftrightarrow> 0 \<le> t \<and> t < int n \<and> lo \<le> p \<and> p < now" for t p
    by (auto simp: choices_def image_iff intro: bexI [of _ "nat t"])
  then show ?thesis by auto
qed

lemma sorted_choices:
  assumes "\<And>t' p' t p. (t', p') \<in> set (choices n lo now) \<Longrightarrow> (t, p) \<in> set (choices n lo now) \<Longrightarrow> t' < t \<or> t' = t \<and> p' < p \<Longrightarrow> R (t', p') (t, p)"
  shows "sorted_wrt R (choices n lo now)"
  using assms
proof (induction n)
  case (Suc n)
  have s: "choices (Suc n) lo now = choices n lo now @ map (\<lambda>p. (int n, p)) [lo..now - 1]"
    by (simp add: choices_def)
  have "sorted_wrt R (choices n lo now)"
    by (rule Suc.IH) (rule Suc.prems, auto simp: set_choices)
  moreover have "sorted_wrt R (map (\<lambda>p. (int n, p)) [lo..now - 1])"
    using sorted_wrt_upto [of lo "now - 1"] unfolding sorted_wrt_map
    by (rule sorted_wrt_mono_rel [rotated]) (rule Suc.prems, auto simp: set_choices)
  moreover have "R (t', p') (int n, p)" if "(t', p') \<in> set (choices n lo now)" "p \<in> {lo..now - 1}" for t' p' p
    using that by (intro Suc.prems) (auto simp: set_choices)
  ultimately show ?case unfolding s sorted_wrt_append by auto
qed (simp add: choices_def)

lemma layerD:
  assumes "layer i lo nodes ps off" "lo \<le> p" "p < int (length nodes)"
  shows "length (path_at ps p) = i" "valid_path (path_at ps p)" "path_score (path_at ps p) = node_score nodes p + off"
    "lo \<le> p' \<Longrightarrow> p' < p \<Longrightarrow> lex_less (key (path_at ps p')) (key (path_at ps p))"
    "node_dyn nodes p = path_dyn (path_at ps p)"
  using assms unfolding layer_def by auto

lemma layer_best:
  assumes "layer i lo nodes ps off" "valid_path q" "length q = i"
  obtains p where "lo \<le> p" "p < int (length nodes)" "key (path_at ps p) = key q" "local_scores \<longrightarrow> path_score q \<le> node_score nodes p + off"
proof -
  have "\<exists>p \<in> {lo..<int (length nodes)}. key (path_at ps p) = key q \<and> (local_scores \<longrightarrow> path_score q \<le> node_score nodes p + off)"
    using assms unfolding layer_def by blast
  then show ?thesis using that by auto
qed

lemma layer_before:
  assumes l: "layer i lo nodes ps off" and p: "lo \<le> p'" "p' < int (length nodes)" "lo \<le> p" "p < int (length nodes)"
    and o: "t' < t \<or> t' = t \<and> p' < p"
  shows "before ps (t', p') (t, p)"
proof (cases "t' < t")
  case True
  then show ?thesis by (simp add: before_def key_Cons Let_def)
next
  case False
  then have t: "t' = t" and lt: "lex_less (key (path_at ps p')) (key (path_at ps p))"
    using layerD(4) [OF l p(3,4,1)] o by auto
  have len: "length (path_at ps p) = i" "length (path_at ps p') = i" using layerD(1) [OF l] p by auto
  have k: "Suc (k - 1) = k" using order by simp
  have "take k (t # path_at ps p') \<noteq> take k (t # path_at ps p)"
  proof
    assume "take k (t # path_at ps p') = take k (t # path_at ps p)"
    then have "take (Suc (k - 1)) (t # path_at ps p') = take (Suc (k - 1)) (t # path_at ps p)" unfolding k .
    then show False using lt by (simp add: key_def)
  qed
  moreover have "k - 1 \<le> Suc i" if "take (k - 2) (key (path_at ps p')) = take (k - 2) (key (path_at ps p))"
  proof (rule ccontr)
    assume "\<not> k - 1 \<le> Suc i"
    then have "take (k - 2) (key (path_at ps p')) = path_at ps p'" "take (k - 2) (key (path_at ps p)) = path_at ps p"
      using len by (simp_all add: key_def)
    then have "path_at ps p' = path_at ps p" using that by metis
    then show False using lt by simp
  qed
  ultimately show ?thesis using lex_less_take [OF lt, of "k - 2"] t len by (auto simp: before_def key_Cons Let_def)
qed

lemma visiting_start: "linked nodes ps \<Longrightarrow> inv c \<Longrightarrow> visiting i single nodes ps [] [] [] (replicate ws (-1)) c"
  by (simp add: visiting_def window_of_def)

lemma layer_choice:
  assumes "layer i lo nodes ps off" "(t, p) \<in> set (choices (sizes i) lo (int (length nodes)))"
  shows "choice i nodes ps (t, p)"
proof -
  have "-1 \<le> lo" "length ps = length nodes" using assms(1) by (auto simp: layer_def linked_def split: if_splits)
  then show ?thesis using assms layerD [OF assms(1), of p] by (simp add: choice_def set_choices)
qed

text \<open>What a position without a choice leaves out of the scores.\<close>

definition skipped :: "nat \<Rightarrow> bool \<Rightarrow> int \<Rightarrow> int list list \<Rightarrow> int" where
  "skipped i single lo ps = (if single then L i (window_of ws (0 # path_at ps lo)) (the (path_dyn (0 # path_at ps lo))) else 0)"

lemma step_score_skipped:
  assumes "single = (lo + 1 = now \<and> sizes i = 1)" "(t, p) \<in> set (choices (sizes i) lo now)"
  shows "step_score i single (t # path_at ps p) + skipped i single lo ps = L i (window_of ws (t # path_at ps p)) (the (path_dyn (t # path_at ps p)))"
proof -
  have "t = 0" "p = lo" if single using assms that by (auto simp: set_choices)
  then show ?thesis by (auto simp: step_score_def skipped_def)
qed

lemma layer_step:
  assumes l: "layer i lo nodes ps off" and i: "i < len" and c: "inv c" and r: "room i (length nodes) allocated"
    and single: "single = (lo + 1 = int (length nodes) \<and> sizes i = 1)"
  shows "\<exists>news qs w c'. visit_all fs k ws allocated i single (choices (sizes i) lo (int (length nodes))) (nodes, replicate ws (-1), c) =
      Some (nodes @ news, w, c') \<and> inv c' \<and> news \<noteq> [] \<and>
    layer (Suc i) (int (length nodes)) (nodes @ news) (ps @ qs) (off + skipped i single lo ps)"
proof -
  let ?now = "int (length nodes)" and ?off = "off + skipped i single lo ps"
  let ?xs = "choices (sizes i) lo ?now"
  have lk: "linked nodes ps" and lo: "lo < ?now" "-1 \<le> lo" using l by (auto simp: layer_def split: if_splits)
  have len: "length ps = length nodes" using lk by (simp add: linked_def)
  have ch: "choice i nodes ps x" if "x \<in> set ?xs" for x using layer_choice [OF l] that by (cases x) auto
  have "sorted_wrt (before ps) ?xs"
    by (rule sorted_choices) (rule layer_before [OF l], auto simp: set_choices)
  then obtain news qs w c' where v: "visit_all fs k ws allocated i single ?xs (nodes, replicate ws (-1), c) = Some (nodes @ news, w, c')"
      "visiting i single nodes ps ?xs news qs w c'"
    using visit_all_correct [OF i lk r visiting_start [OF lk c], of ?xs single] ch by auto
  have lq: "length news = length qs" using v(2) by (simp add: visiting_def)
  have "(0, lo) \<in> set ?xs" using lo tags [OF c i] by (simp add: set_choices)
  then have ne: "qs \<noteq> []" using v(2) by (auto simp: visiting_def)
  have path: "path_at (ps @ qs) (?now + int j) = qs ! j" "node_score (nodes @ news) (?now + int j) = v_score (news ! j)"
    "node_dyn (nodes @ news) (?now + int j) = Some (v_dynamic (news ! j))"
    if "j < length qs" for j
    using len by (auto simp: path_at_def node_score_def node_dyn_def nat_add_distrib nth_append)
  have range: "\<exists>j < length qs. p = ?now + int j" if "p \<in> {?now..<int (length (nodes @ news))}" for p
    using that lq by (intro exI [of _ "nat (p - ?now)"]) auto
  have step: "step_score i single (t # path_at ps p) + skipped i single lo ps = L i (window_of ws (t # path_at ps p)) (the (path_dyn (t # path_at ps p)))"
    if "(t, p) \<in> set ?xs" for t p
    using step_score_skipped [OF single that] .
  have "length (path_at (ps @ qs) p) = Suc i \<and> valid_path (path_at (ps @ qs) p) \<and>
      path_score (path_at (ps @ qs) p) = node_score (nodes @ news) p + ?off \<and>
      node_dyn (nodes @ news) p = path_dyn (path_at (ps @ qs) p)" if in_range: "p \<in> {?now..<int (length (nodes @ news))}" for p
  proof -
    obtain j where j: "j < length qs" "p = ?now + int j" using range [OF in_range] by blast
    then obtain t p' where q: "(t, p') \<in> set ?xs" "qs ! j = t # path_at ps p'"
        "v_score (news ! j) = step_score i single (qs ! j) + node_score nodes p'" "Some (v_dynamic (news ! j)) = path_dyn (qs ! j)"
      using v(2) by (fastforce simp: visiting_def)
    have p': "lo \<le> p'" "p' < ?now" using q(1) by (auto simp: set_choices)
    have "valid_path (qs ! j)" "length (qs ! j) = Suc i"
      using ch [OF q(1)] unfolding q(2) by (auto simp: choice_def)
    moreover have "path_score (qs ! j) = v_score (news ! j) + ?off"
      using layerD(1,3) [OF l p'] step [OF q(1)] q(3) by (simp add: q(2))
    ultimately show ?thesis using path [OF j(1)] q(4) by (simp add: j(2))
  qed
  moreover have "lex_less (key (path_at (ps @ qs) p')) (key (path_at (ps @ qs) p))"
    if in_range: "p \<in> {?now..<int (length (nodes @ news))}" "p' \<in> {?now..<p}" for p p'
  proof -
    obtain j where j: "j < length qs" "p = ?now + int j" using range [OF in_range(1)] by blast
    obtain j' where j': "j' < length qs" "p' = ?now + int j'" using range [of p'] in_range by auto
    have "sorted_wrt lex_less (map key qs)" using v(2) by (simp add: visiting_def)
    then have "lex_less (map key qs ! j') (map key qs ! j)"
      using sorted_wrt_nth_less [of lex_less "map key qs" j' j] in_range(2) j j' by auto
    then show ?thesis using path j j' by simp
  qed
  moreover have "\<exists>p \<in> {?now..<int (length (nodes @ news))}. key (path_at (ps @ qs) p) = key q \<and>
      (local_scores \<longrightarrow> path_score q \<le> node_score (nodes @ news) p + ?off)" if "valid_path q" "length q = Suc i" for q
  proof -
    obtain t q1 where q: "q = t # q1" "length q1 = i" "0 \<le> t" "t < int (sizes i)" "valid_path q1"
      using \<open>valid_path q\<close> \<open>length q = Suc i\<close> by (cases q) auto
    obtain p where p: "lo \<le> p" "p < ?now" "key (path_at ps p) = key q1" "local_scores \<longrightarrow> path_score q1 \<le> node_score nodes p + off"
      by (rule layer_best [OF l q(5,2)])
    have x: "(t, p) \<in> set ?xs" using p q by (simp add: set_choices)
    have len1: "length q1 = length (path_at ps p)" using layerD(1) [OF l p(1,2)] q(2) by simp
    have "path_score q \<le> step_score i single (t # path_at ps p) + node_score nodes p + ?off" if local_scores
    proof -
      have "L i (window_of ws q) (the (path_dyn q)) = L i (window_of ws (t # path_at ps p)) (the (path_dyn (t # path_at ps p)))"
        using that take_window_key [OF len1 p(3) [symmetric], of t] unfolding local_scores_def q(1) by simp
      then show ?thesis using step [OF x] p(4) that q(1,2) by simp
    qed
    moreover obtain j where "j < length qs" "key (qs ! j) = key (t # path_at ps p)"
        "step_score i single (t # path_at ps p) + node_score nodes p \<le> v_score (news ! j)"
      using v(2) x unfolding visiting_def by fastforce
    moreover have "key (t # path_at ps p) = key q" using p(3) by (simp add: key_Cons q(1))
    ultimately show ?thesis using path(1,2) [of j] lq by (intro bexI [of _ "?now + int j"]) auto
  qed
  moreover have "linked (nodes @ news) (ps @ qs)" "inv c'" using v(2) by (auto simp: visiting_def)
  ultimately show ?thesis using v(1) ne lq
    by (intro exI [of _ news] exI [of _ qs] exI [of _ w] exI [of _ c']) (auto simp: layer_def)
qed

text \<open>There is memory for every position.\<close>

lemma card_keys: "finite {take m q | q. valid_path q \<and> length q = i} \<and>
    card {take m q | q. valid_path q \<and> length q = i} \<le> prod sizes {i - m..<i}"
proof (induction i arbitrary: m)
  case 0
  have "{take m q | q. valid_path q \<and> length q = 0} = {[]}" by auto
  then show ?case by simp
next
  case (Suc i)
  show ?case
  proof (cases m)
    case 0
    have "{take m q | q. valid_path q \<and> length q = Suc i} \<subseteq> {[]}" using 0 by auto
    then show ?thesis using 0 card_mono [of "{[]}"] by (auto intro: finite_subset)
  next
    case (Suc m')
    let ?K = "{take m' q | q. valid_path q \<and> length q = i}" and ?T = "{0..<int (sizes i)}"
    have sub: "{take m q | q. valid_path q \<and> length q = Suc i} \<subseteq> (\<lambda>(t, x). t # x) ` (?T \<times> ?K)"
    proof
      fix x assume "x \<in> {take m q | q. valid_path q \<and> length q = Suc i}"
      then obtain q where "x = take m q" "valid_path q" "length q = Suc i" by blast
      then show "x \<in> (\<lambda>(t, x). t # x) ` (?T \<times> ?K)" by (cases q) (auto simp: Suc image_iff)
    qed
    have fin: "finite (?T \<times> ?K)" using Suc.IH by simp
    have "card {take m q | q. valid_path q \<and> length q = Suc i} \<le> card (?T \<times> ?K)"
      using card_mono [OF finite_imageI [OF fin] sub] card_image_le [OF fin] by (rule order_trans)
    also have "\<dots> = sizes i * card ?K" by (simp add: card_cartesian_product)
    also have "\<dots> \<le> sizes i * prod sizes {i - m'..<i}" using Suc.IH by simp
    also have "\<dots> = prod sizes {i - m'..<Suc i}" by (subst prod.atLeastLessThan_Suc) simp_all
    also have "\<dots> = prod sizes {Suc i - m..<Suc i}" by (simp only: Suc diff_Suc_Suc)
    finally show ?thesis using finite_subset [OF sub finite_imageI [OF fin]] by simp
  qed
qed

lemma length_keys:
  assumes "\<forall>q \<in> set qs. valid_path q \<and> length q = i" "distinct (map key qs)"
  shows "length qs \<le> states_at k sizes i"
proof -
  have "length qs = card (set (map key qs))" using distinct_card [OF assms(2)] by simp
  also have "\<dots> \<le> card {take (k - 1) q | q. valid_path q \<and> length q = i}"
    using card_keys [of "k - 1" i] assms(1) by (intro card_mono) (auto simp: key_def)
  finally show ?thesis using card_keys [of "k - 1" i] by (simp add: states_at_def)
qed

lemma layer_size:
  assumes l: "layer i lo nodes ps off"
  shows "nat (int (length nodes) - lo) \<le> states_at k sizes i"
proof -
  let ?qs = "map (path_at ps) [lo..int (length nodes) - 1]"
  have "sorted_wrt (\<lambda>p' p. lex_less (key (path_at ps p')) (key (path_at ps p))) [lo..int (length nodes) - 1]"
    using sorted_wrt_upto [of lo "int (length nodes) - 1"]
    by (rule sorted_wrt_mono_rel [rotated]) (rule layerD(4) [OF l], auto)
  then have "distinct (map key ?qs)" by (intro sorted_wrt_lex_distinct) (simp add: sorted_wrt_map)
  moreover have "\<forall>q \<in> set ?qs. valid_path q \<and> length q = i" using layerD(1,2) [OF l] by auto
  ultimately show ?thesis using length_keys [of ?qs i] by simp
qed

lemma room_states: "used + states_at k sizes (Suc i) \<le> node_room allocated \<Longrightarrow> room i used allocated"
  using length_keys unfolding room_def by (meson add_le_cancel_left order_trans)

lemma compute_nodes_correct:
  assumes "all_states k sizes len \<le> node_room allocated"
  shows "rest = map sizes [i..<len] \<Longrightarrow> i \<le> len \<Longrightarrow> layer i lo nodes ps off \<Longrightarrow> inv c \<Longrightarrow> length nodes \<le> all_states k sizes i \<Longrightarrow>
    \<exists>lo' nodes' ps' off' c'. compute_nodes fs k ws allocated i rest lo nodes c = Some (lo', nodes', c') \<and> layer len lo' nodes' ps' off' \<and> inv c'"
proof (induction rest arbitrary: i lo nodes ps off c)
  case Nil
  have "i = len" using arg_cong [OF Nil.prems(1), of length] Nil.prems(2) by simp
  then show ?case using Nil.prems by auto
next
  case (Cons n rest)
  have i: "i < len" using Cons.prems(1) by (cases "i < len") auto
  then have n: "n = sizes i" "rest = map sizes [Suc i..<len]" using Cons.prems(1) by (simp_all add: upt_rec [of i])
  let ?now = "int (length nodes)"
  let ?single = "lo + 1 = ?now \<and> sizes i = 1"
  have sum: "all_states k sizes (Suc i) = all_states k sizes i + states_at k sizes (Suc i)" by (simp add: all_states_def)
  have "all_states k sizes (Suc i) \<le> node_room allocated" using all_states_mono [of "Suc i" len k sizes] i assms by simp
  then have r: "room i (length nodes) allocated" using Cons.prems(5) sum by (intro room_states) simp
  obtain news qs w c' where v: "visit_all fs k ws allocated i ?single (choices (sizes i) lo ?now) (nodes, replicate ws (-1), c) =
      Some (nodes @ news, w, c')" "inv c'" "layer (Suc i) ?now (nodes @ news) (ps @ qs) (off + skipped i ?single lo ps)"
    using layer_step [OF Cons.prems(3) i Cons.prems(4) r refl] by blast
  have "length (nodes @ news) \<le> all_states k sizes (Suc i)" using layer_size [OF v(3)] Cons.prems(5) sum by simp
  from Cons.IH [OF n(2) _ v(3,2) this] i show ?case using v(1) by (simp add: n(1) Let_def)
qed

end

lemma best_node_max:
  assumes "lo < int (length nodes)" "0 \<le> lo"
  shows "best_node nodes lo \<in> {lo..<int (length nodes)} \<and>
    (\<forall>p \<in> {lo..<int (length nodes)}. v_score (nodes ! nat p) \<le> v_score (nodes ! nat (best_node nodes lo)))"
proof -
  let ?f = "\<lambda>node best. if v_score (nodes ! nat best) < v_score (nodes ! nat node) then node else best"
  have "lo \<le> hi \<Longrightarrow> fold ?f [lo + 1..hi] lo \<in> {lo..hi} \<and> (\<forall>p \<in> {lo..hi}. v_score (nodes ! nat p) \<le> v_score (nodes ! nat (fold ?f [lo + 1..hi] lo)))" for hi
  proof (induction "nat (hi - lo)" arbitrary: hi)
    case 0
    then show ?case by simp
  next
    case (Suc n)
    then have ih: "fold ?f [lo + 1..hi - 1] lo \<in> {lo..hi - 1} \<and> (\<forall>p \<in> {lo..hi - 1}. v_score (nodes ! nat p) \<le> v_score (nodes ! nat (fold ?f [lo + 1..hi - 1] lo)))"
      by (intro Suc.hyps(1)) auto
    have u: "[lo + 1..hi] = [lo + 1..hi - 1] @ [hi]" using Suc.prems Suc.hyps(2) by (intro upto_rec2) simp
    have "{lo..hi} = insert hi {lo..hi - 1}" using Suc.prems by auto
    then show ?case using ih unfolding u fold_append by auto
  qed
  from this [of "int (length nodes) - 1"] assms show ?thesis unfolding best_node_def by auto
qed

lemma store_tags_path:
  assumes "linked nodes ps"
  shows "-1 \<le> p \<Longrightarrow> p < int (length nodes) \<Longrightarrow> length (path_at ps p) = n \<Longrightarrow> n \<le> length tags \<Longrightarrow>
    store_tags nodes n p tags = rev (path_at ps p) @ drop n tags"
proof (induction n arbitrary: p tags)
  case (Suc n)
  have "0 \<le> p" using Suc.prems(3) by (auto simp: path_at_def split: if_splits)
  then have l: "-1 \<le> v_prev (nodes ! nat p)" "v_prev (nodes ! nat p) < p" "path_at ps p = v_tag (nodes ! nat p) # path_at ps (v_prev (nodes ! nat p))"
    using linkedD [OF assms _ Suc.prems(2)] by auto
  have "drop n (tags[n := v_tag (nodes ! nat p)]) = v_tag (nodes ! nat p) # drop (Suc n) tags"
    using Suc.prems(4) by (simp add: drop_update_swap Cons_nth_drop_Suc [symmetric])
  then show ?case using Suc.IH [OF l(1), of "tags[n := v_tag (nodes ! nat p)]"] l Suc.prems by simp
qed simp

context tag_scores
begin

lemma viterbi_best:
  assumes "length forms = len" "len \<noteq> 0" "len \<le> length analyses" "\<And>i. i < len \<Longrightarrow> sizes i = length (analyses ! i)"
    and "len \<le> length tags" "inv (initialize_sentence fs forms analyses (vc_features c))" "all_states k sizes len < 2 ^ 31"
  shows "\<exists>ts c'. viterbi_tag fs k ws forms analyses c tags = Some (ts @ drop len tags, c') \<and> inv (vc_features c') \<and>
    length ts = len \<and> valid_path (rev ts) \<and> (\<forall>us. local_scores \<longrightarrow> length us = len \<longrightarrow> valid_path (rev us) \<longrightarrow> path_score (rev us) \<le> path_score (rev ts))"
proof -
  let ?sizes = "map length (take (length forms) analyses)"
  let ?al = "max (vc_nodes c) (count_nodes k ?sizes)" and ?c = "initialize_sentence fs forms analyses (vc_features c)"
  have sz: "?sizes = map sizes [0..<len]" "length ?sizes = len"
    using assms(1,3,4) by (auto intro: nth_equalityI)
  have pos: "0 \<notin> set ?sizes" by (auto simp: sz(1) dest!: tags [OF assms(6)])
  have st: "states_at k ((!) ?sizes) i = states_at k sizes i" if "i \<le> len" for i
    unfolding states_at_def using that by (intro prod.cong) (auto simp: sz(1))
  have all: "all_states k ((!) ?sizes) len = all_states k sizes len"
    unfolding all_states_def by (intro sum.cong) (auto intro!: st)
  have "count_nodes k ?sizes = all_states k sizes len"
    by (rule count_nodes_all [OF order(1), of ?sizes, unfolded all sz(2)]) (use pos assms(7) in \<open>auto intro: gr0I\<close>)
  then have "all_states k sizes len \<le> node_room ?al" using assms(7) by (simp add: node_room_def)
  then obtain lo nodes ps off c' where n: "compute_nodes fs k ws ?al 0 ?sizes (-1) [] ?c = Some (lo, nodes, c')" "layer len lo nodes ps off" "inv c'"
    using compute_nodes_correct [of ?al ?sizes 0 "-1" "[]" "[]" 0 ?c] layer_0 assms(6) sz(1) by auto
  have lo: "0 \<le> lo" "lo < int (length nodes)" "linked nodes ps" using n(2) assms(2) by (auto simp: layer_def)
  let ?b = "best_node nodes lo"
  have b: "lo \<le> ?b" "?b < int (length nodes)" "\<And>p. lo \<le> p \<Longrightarrow> p < int (length nodes) \<Longrightarrow> v_score (nodes ! nat p) \<le> v_score (nodes ! nat ?b)"
    using best_node_max [OF lo(2,1)] by auto
  have path: "length (path_at ps ?b) = len" "valid_path (path_at ps ?b)" "path_score (path_at ps ?b) = node_score nodes ?b + off"
    using layerD(1-3) [OF n(2) b(1,2)] by auto
  have "store_tags nodes len ?b tags = rev (path_at ps ?b) @ drop len tags"
    using store_tags_path [OF lo(3)] lo(1) b(1,2) path(1) assms(5) by simp
  moreover have "path_score (rev us) \<le> path_score (path_at ps ?b)" if us: "length us = len" "valid_path (rev us)" local_scores for us
  proof -
    obtain p where "lo \<le> p" "p < int (length nodes)" "local_scores \<longrightarrow> path_score (rev us) \<le> node_score nodes p + off"
      using layer_best [OF n(2) us(2)] us(1) by (metis length_rev)
    then show ?thesis using b(1) b(3) [of p] path(3) lo(1) us(3) by (auto simp: node_score_def)
  qed
  ultimately show ?thesis using n(1,3) path assms(1,2) pos
    by (intro exI [of _ "rev (path_at ps ?b)"]) (auto simp: viterbi_tag_def Let_def)
qed

end

end
