(* ===== verification/Feature_Sequences.thy ===== *)
theory Feature_Sequences
  imports Viterbi Binary Utf8 Text_Utils
begin

text \<open>
  The features of the taggers, \<open>src/morphodita/tagger/feature_sequences.h\<close> and
  \<open>feature_sequences_encoder.h\<close>, with the table of taggers of \<open>tagger_ids.h\<close>. A feature sequence is
  a list of elementary features; their values make a key, which has a score. The elementary features
  and the maps from keys to scores are parameters of the template; those of the models UDPipe trains
  are in \<open>Conllu_Features\<close>. An index that no array has is only possible in a damaged model.

  The scores of sequences that do not depend on the changed tags are kept in a cache. The proofs
  show that the cache never changes a score, and that the contract of the decoder holds.
\<close>

section \<open>Model\<close>

datatype element_type = Per_Form | Per_Tag | Dynamic

datatype element_range = Only_Current | Any_Offset

abbreviation feature_unknown :: u32 where "feature_unknown \<equiv> 0"
abbreviation feature_empty :: u32 where "feature_empty \<equiv> 1"

record element_description =
  ed_name :: string
  ed_type :: element_type
  ed_range :: element_range
  ed_index :: nat

record element =
  el_type :: element_type
  el_index :: nat
  el_offset :: int

record sequence =
  sq_elements :: "element list"
  sq_range :: int

text \<open>The elementary features of a sentence: for each form, for each tag of each form, and for a tag after a path.\<close>

record 'a elementary =
  compute_features :: "string list \<Rightarrow> 'a list list \<Rightarrow> u32 list list \<times> u32 list list list"
  compute_dynamic :: "'a \<Rightarrow> u32 list \<Rightarrow> u32 list \<Rightarrow> u32 list option \<Rightarrow> u32 list"

record sequence_cache =
  sc_key :: "u8 list"
  sc_score :: int

record 'a feature_cache =
  fc_forms :: nat
  fc_analyses :: "'a list list"
  fc_per_form :: "u32 list list"
  fc_per_tag :: "u32 list list list"
  fc_caches :: "sequence_cache list"
  fc_score :: int

definition empty_cache :: sequence_cache where
  "empty_cache = \<lparr>sc_key = [], sc_score = 0\<rparr>"

definition new_feature_cache :: "sequence list \<Rightarrow> 'a feature_cache" where
  "new_feature_cache sequences = \<lparr>fc_forms = 0, fc_analyses = [], fc_per_form = [], fc_per_tag = [],
     fc_caches = map (\<lambda>_. empty_cache) sequences, fc_score = 0\<rparr>"

definition init_sentence :: "'a elementary \<Rightarrow> string list \<Rightarrow> 'a list list \<Rightarrow> 'a feature_cache \<Rightarrow> 'a feature_cache" where
  "init_sentence el forms analyses c =
     (let (per_form, per_tag) = compute_features el forms analyses in
      \<lparr>fc_forms = length forms, fc_analyses = analyses, fc_per_form = per_form, fc_per_tag = per_tag,
       fc_caches = map (\<lambda>_. empty_cache) (fc_caches c), fc_score = 0\<rparr>)"

definition sentence_dynamic :: "'a elementary \<Rightarrow> nat \<Rightarrow> int \<Rightarrow> u32 list option \<Rightarrow> 'a feature_cache \<Rightarrow> u32 list" where
  "sentence_dynamic el i tag prev c =
     compute_dynamic el (fc_analyses c ! i ! nat tag) (fc_per_form c ! i) (fc_per_tag c ! i ! nat tag) (if 0 < i then prev else None)"

definition element_value :: "'a feature_cache \<Rightarrow> nat \<Rightarrow> int list \<Rightarrow> u32 list \<Rightarrow> element \<Rightarrow> u32" where
  "element_value c i window dynamic e =
     (let position = int i + el_offset e in
      case el_type e of
        Per_Form \<Rightarrow> if position < 0 \<or> int (fc_forms c) \<le> position then feature_empty
          else fc_per_form c ! nat position ! el_index e
      | Per_Tag \<Rightarrow> if position < 0 then feature_empty
          else fc_per_tag c ! nat position ! nat (window ! nat (- el_offset e)) ! el_index e
      | Dynamic \<Rightarrow> dynamic ! el_index e)"

text \<open>The key of a sequence, empty as soon as one of its values is unknown.\<close>

fun encode_values :: "u32 list \<Rightarrow> u8 list \<Rightarrow> u8 list" where
  "encode_values [] key = key"
| "encode_values (v # vs) key = (if v = feature_unknown then [] else encode_values vs (key @ vli_encode v))"

definition sequence_key :: "'a feature_cache \<Rightarrow> nat \<Rightarrow> int list \<Rightarrow> u32 list \<Rightarrow> sequence \<Rightarrow> u8 list" where
  "sequence_key c i window dynamic sq = encode_values (map (element_value c i window dynamic) (sq_elements sq)) []"

definition update_cache :: "(u8 list \<Rightarrow> int) \<Rightarrow> u8 list \<Rightarrow> sequence_cache \<Rightarrow> sequence_cache" where
  "update_cache scores key cache =
     (if key = [] then \<lparr>sc_key = [], sc_score = 0\<rparr>
      else if key \<noteq> sc_key cache then \<lparr>sc_key = key, sc_score = scores key\<rparr>
      else cache)"

fun score_loop :: "int \<Rightarrow> (sequence \<Rightarrow> u8 list) \<Rightarrow> sequence list \<Rightarrow> (u8 list \<Rightarrow> int) list \<Rightarrow> sequence_cache list \<Rightarrow> int \<Rightarrow>
    int \<times> sequence_cache list" where
  "score_loop unchanged key (sq # sequences) (scores # maps) (cache # caches) result =
     (if sq_range sq \<le> unchanged then (result, cache # caches)
      else
        let cache' = update_cache scores (key sq) cache;
            (result', caches') = score_loop unchanged key sequences maps caches (result - sc_score cache + sc_score cache')
        in (result', cache' # caches'))"
| "score_loop unchanged key sequences maps caches result = (result, caches)"

definition sequences_score :: "sequence list \<Rightarrow> (u8 list \<Rightarrow> int) list \<Rightarrow> nat \<Rightarrow> int list \<Rightarrow> nat \<Rightarrow> u32 list \<Rightarrow>
    'a feature_cache \<Rightarrow> int \<times> 'a feature_cache" where
  "sequences_score sequences maps i window unchanged dynamic c =
     (let (result, caches) = score_loop (int unchanged) (sequence_key c i window dynamic) sequences maps (fc_caches c) (fc_score c)
      in (result, c\<lparr>fc_caches := caches, fc_score := result\<rparr>))"

definition feature_keys :: "sequence list \<Rightarrow> (u8 list \<Rightarrow> int) list \<Rightarrow> nat \<Rightarrow> int list \<Rightarrow> nat \<Rightarrow> u32 list \<Rightarrow>
    'a feature_cache \<Rightarrow> u8 list list \<times> 'a feature_cache" where
  "feature_keys sequences maps i window unchanged dynamic c =
     (let (_, c) = sequences_score sequences maps i window unchanged dynamic c in (map sc_key (fc_caches c), c))"

definition sequence_features :: "'a elementary \<Rightarrow> sequence list \<Rightarrow> (u8 list \<Rightarrow> int) list \<Rightarrow>
    (string, 'a, u32 list, 'a feature_cache) features" where
  "sequence_features el sequences maps =
     \<lparr>initialize_sentence = init_sentence el, dynamic_features = sentence_dynamic el,
      window_score = sequences_score sequences maps\<rparr>"

subsection \<open>Parsing templates\<close>

definition parse_element :: "element_description list \<Rightarrow> int \<Rightarrow> string \<Rightarrow> (element \<times> element_description) result" where
  "parse_element descriptions window_size token =
     (case split token CHR '' '' of
        [name, index] \<Rightarrow>
          (case find (\<lambda>d. ed_name d = name) descriptions of
            None \<Rightarrow> Inl (''Unknown elementary feature '' @ quoted name @ '' used in feature sequence '' @ quoted token @ ''!'')
          | Some desc \<Rightarrow>
              (case parse_int (c_str index) ''sequence_index'' of
                Inl error \<Rightarrow> Inl error
              | Inr offset \<Rightarrow>
                  if ed_type desc = Dynamic \<and> offset \<noteq> 0
                  then Inl (''Nonzero sequence index '' @ show_int offset @ '' of dynamic elementary feature '' @ quoted (ed_name desc) @ ''!'')
                  else if ed_type desc = Per_Tag \<and> (0 < offset \<or> offset \<le> - window_size)
                  then Inl (''Wrong sequence index '' @ show_int offset @ '' of per-tag elementary feature '' @ quoted (ed_name desc) @ ''!'')
                  else if ed_range desc = Only_Current \<and> offset \<noteq> 0
                  then Inl (''Nonzero sequence index '' @ show_int offset @ '' of elementary feature '' @ quoted (ed_name desc) @ '' requiring zero offset!'')
                  else Inr (\<lparr>el_type = ed_type desc, el_index = ed_index desc, el_offset = offset\<rparr>, desc)))
      | _ \<Rightarrow> Inl (''Cannot parse feature sequence element '' @ quoted token @ ''!''))"

definition add_element :: "int \<Rightarrow> element \<times> element_description \<Rightarrow> sequence \<times> bool \<Rightarrow> sequence \<times> bool" where
  "add_element window_size = (\<lambda>(e, desc) (sq, only_current).
     (\<lparr>sq_elements = sq_elements sq @ [e],
       sq_range = (case el_type e of
          Dynamic \<Rightarrow> max (sq_range sq) (window_size + 1)
        | Per_Tag \<Rightarrow> max (sq_range sq) (1 - el_offset e)
        | Per_Form \<Rightarrow> sq_range sq)\<rparr>,
      only_current \<or> ed_range desc = Only_Current))"

fun parse_elements :: "element_description list \<Rightarrow> int \<Rightarrow> string list \<Rightarrow> sequence \<times> bool \<Rightarrow> (sequence \<times> bool) result" where
  "parse_elements descriptions window_size [] st = Inr st"
| "parse_elements descriptions window_size (token # tokens) st =
     (case parse_element descriptions window_size token of
        Inl error \<Rightarrow> Inl error
      | Inr e \<Rightarrow> parse_elements descriptions window_size tokens (add_element window_size e st))"

definition parse_sequence :: "element_description list \<Rightarrow> int \<Rightarrow> string \<Rightarrow> sequence result" where
  "parse_sequence descriptions window_size line =
     (let tokens = split line CHR '','' in
      if tokens = [] then Inl ''Feature sequence cannot be empty!''
      else case parse_elements descriptions window_size tokens (\<lparr>sq_elements = [], sq_range = 1\<rparr>, False) of
        Inl error \<Rightarrow> Inl error
      | Inr (sq, only_current) \<Rightarrow>
          if only_current \<and> 1 < sq_range sq
          then Inl (''Feature sequence '' @ quoted line @ '' contains both a non-local elementary feature and exclusively-local elementary feature!'')
          else Inr sq)"

function parse_lines :: "element_description list \<Rightarrow> int \<Rightarrow> sequence list \<Rightarrow> string \<Rightarrow> sequence list result" where
  "parse_lines descriptions window_size sequences input =
     (case getline input of
        None \<Rightarrow> Inr sequences
      | Some (line, rest) \<Rightarrow>
          (case parse_sequence descriptions window_size line of
            Inl error \<Rightarrow> Inl error
          | Inr sq \<Rightarrow> parse_lines descriptions window_size (sequences @ [sq]) rest))"
  by pat_completeness auto
termination by (relation "measure (\<lambda>(_, _, _, input). length input)") (auto dest: getline_length)

declare parse_lines.simps [simp del]

fun repeated_name :: "element_description list \<Rightarrow> string list \<Rightarrow> string option" where
  "repeated_name [] seen = None"
| "repeated_name (d # ds) seen = (if ed_name d \<in> set seen then Some (ed_name d) else repeated_name ds (ed_name d # seen))"

definition parse_sequences :: "element_description list \<Rightarrow> int \<Rightarrow> string \<Rightarrow> sequence list result" where
  "parse_sequences descriptions window_size input =
     (case repeated_name descriptions [] of
        Some name \<Rightarrow> Inl (''Repeated elementary feature with name '' @ name @ ''!'')
      | None \<Rightarrow>
          (case parse_lines descriptions window_size [] input of
            Inl error \<Rightarrow> Inl error
          | Inr sequences \<Rightarrow> Inr (sort_key (\<lambda>sq. - sq_range sq) sequences)))"

section \<open>Parsed sequences\<close>

text \<open>What \<open>parse_sequences\<close> promises: a sequence depends on no tag beyond its range.\<close>

definition sound_sequence :: "int \<Rightarrow> sequence \<Rightarrow> bool" where
  "sound_sequence window_size sq \<longleftrightarrow> 1 \<le> sq_range sq \<and> (\<forall>e \<in> set (sq_elements sq). case el_type e of
     Per_Form \<Rightarrow> True
   | Per_Tag \<Rightarrow> - window_size < el_offset e \<and> el_offset e \<le> 0 \<and> - el_offset e < sq_range sq
   | Dynamic \<Rightarrow> window_size < sq_range sq)"

definition sound_sequences :: "int \<Rightarrow> sequence list \<Rightarrow> bool" where
  "sound_sequences window_size sequences \<longleftrightarrow>
     (\<forall>sq \<in> set sequences. sound_sequence window_size sq) \<and> sorted_wrt (\<lambda>a b. sq_range b \<le> sq_range a) sequences"

lemma parse_element_Inr:
  assumes "parse_element descriptions window_size token = Inr (e, desc)"
  shows "el_type e = ed_type desc" "el_type e = Per_Tag \<Longrightarrow> el_offset e \<le> 0 \<and> - window_size < el_offset e"
  using assms by (auto simp: parse_element_def split: list.splits option.splits sum.splits if_splits)

lemma sound_add_element:
  assumes "sound_sequence window_size sq" "el_type e = Per_Tag \<Longrightarrow> el_offset e \<le> 0 \<and> - window_size < el_offset e"
  shows "sound_sequence window_size (fst (add_element window_size (e, desc) (sq, b)))"
  using assms by (auto simp: sound_sequence_def add_element_def split: element_type.splits)

lemma sound_parse_elements:
  "parse_elements descriptions window_size tokens st = Inr st' \<Longrightarrow> sound_sequence window_size (fst st) \<Longrightarrow> sound_sequence window_size (fst st')"
proof (induction tokens arbitrary: st)
  case (Cons token tokens)
  then obtain e desc where "parse_element descriptions window_size token = Inr (e, desc)"
      "parse_elements descriptions window_size tokens (add_element window_size (e, desc) st) = Inr st'"
    by (auto split: sum.splits)
  then show ?case using Cons.IH Cons.prems(2) sound_add_element [of window_size "fst st" e desc "snd st"] parse_element_Inr(2) by simp
qed simp

lemma sound_parse_sequence:
  assumes "parse_sequence descriptions window_size line = Inr sq"
  shows "sound_sequence window_size sq"
proof -
  let ?start = "(\<lparr>sq_elements = [], sq_range = 1\<rparr>, False)"
  obtain st where st: "parse_elements descriptions window_size (split line CHR '','') ?start = Inr st"
      "(case st of (sq, only_current) \<Rightarrow> if only_current \<and> 1 < sq_range sq
          then Inl (''Feature sequence '' @ quoted line @ '' contains both a non-local elementary feature and exclusively-local elementary feature!'')
          else Inr sq) = Inr sq"
    using assms unfolding parse_sequence_def Let_def
    by (cases "split line CHR '','' = []"; cases "parse_elements descriptions window_size (split line CHR '','') ?start") auto
  have "fst st = sq" using st(2) by (cases st) (auto split: if_splits)
  then show ?thesis using sound_parse_elements [OF st(1)] by (simp add: sound_sequence_def)
qed

lemma sound_parse_lines:
  "parse_lines descriptions window_size sequences input = Inr sequences' \<Longrightarrow> \<forall>sq \<in> set sequences. sound_sequence window_size sq \<Longrightarrow>
    \<forall>sq \<in> set sequences'. sound_sequence window_size sq"
proof (induction descriptions window_size sequences input rule: parse_lines.induct)
  case (1 descriptions window_size sequences input)
  show ?case
  proof (cases "getline input")
    case None
    then show ?thesis using 1(2,3) by (subst (asm) parse_lines.simps) auto
  next
    case (Some p)
    obtain line rest where p: "p = (line, rest)" by (cases p)
    obtain sq where sq: "parse_sequence descriptions window_size line = Inr sq"
        "parse_lines descriptions window_size (sequences @ [sq]) rest = Inr sequences'"
      using 1(2) Some p by (subst (asm) parse_lines.simps) (auto split: sum.splits)
    have "\<forall>sq \<in> set (sequences @ [sq]). sound_sequence window_size sq" using sound_parse_sequence [OF sq(1)] 1(3) by auto
    then show ?thesis by (rule 1(1) [OF Some p [symmetric] sq])
  qed
qed

lemma parse_sequences_sound: "parse_sequences descriptions window_size input = Inr sequences \<Longrightarrow> sound_sequences window_size sequences"
  using sound_parse_lines [of descriptions window_size "[]" input]
    sorted_sort_key [of "\<lambda>sq. - sq_range sq"]
  by (auto simp: parse_sequences_def sound_sequences_def sorted_map split: option.splits sum.splits)

section \<open>The cache of scores\<close>

text \<open>The score without a cache.\<close>

definition plain_sequence_score :: "(u8 list \<Rightarrow> int) \<Rightarrow> u8 list \<Rightarrow> int" where
  "plain_sequence_score scores key = (if key = [] then 0 else scores key)"

definition plain_score :: "sequence list \<Rightarrow> (u8 list \<Rightarrow> int) list \<Rightarrow> 'a feature_cache \<Rightarrow> nat \<Rightarrow> int list \<Rightarrow> u32 list \<Rightarrow> int" where
  "plain_score sequences maps c i window dynamic =
     sum_list (map (\<lambda>(sq, scores). plain_sequence_score scores (sequence_key c i window dynamic sq)) (zip sequences maps))"

text \<open>A cache entry holds the score of its key; the total is their sum.\<close>

definition entry_ok :: "(u8 list \<Rightarrow> int) \<Rightarrow> sequence_cache \<Rightarrow> bool" where
  "entry_ok scores cache \<longleftrightarrow> sc_score cache = plain_sequence_score scores (sc_key cache)"

lemma update_cache_ok:
  "entry_ok scores cache \<Longrightarrow> entry_ok scores (update_cache scores key cache) \<and> sc_key (update_cache scores key cache) = key"
  by (auto simp: entry_ok_def update_cache_def plain_sequence_score_def)

text \<open>The loop recomputes the keys of the sequences that may have changed; \<open>P\<close> says which may be left.\<close>

lemma score_loop_keys:
  assumes "length maps = length sequences" "length caches = length sequences"
    and "list_all2 entry_ok maps caches"
    and "sorted_wrt (\<lambda>a b. sq_range b \<le> sq_range a) sequences"
    and "\<And>j. j < length sequences \<Longrightarrow> sq_range (sequences ! j) \<le> unchanged \<Longrightarrow> sc_key (caches ! j) = key (sequences ! j)"
  shows "\<exists>caches'. score_loop unchanged key sequences maps caches result =
      (result - sum_list (map sc_score caches) + sum_list (map sc_score caches'), caches') \<and>
    list_all2 entry_ok maps caches' \<and> map sc_key caches' = map key sequences"
  using assms
proof (induction sequences arbitrary: maps caches result)
  case Nil
  then show ?case by simp
next
  case (Cons sq sequences)
  obtain scores maps' cache caches' where c: "maps = scores # maps'" "caches = cache # caches'"
    using Cons.prems(1,2) by (metis length_Suc_conv)
  show ?case
  proof (cases "sq_range sq \<le> unchanged")
    case True
    have "sq_range ((sq # sequences) ! j) \<le> unchanged" if "j < length (sq # sequences)" for j
      using Cons.prems(4) that True by (cases j) (auto dest!: nth_mem dest: order_trans)
    then have "map sc_key caches = map key (sq # sequences)"
      using Cons.prems(2,5) by (intro nth_equalityI) (simp_all only: length_map nth_map)
    then show ?thesis using True Cons.prems(3) by (simp add: c)
  next
    case False
    let ?cache = "update_cache scores (key sq) cache"
    have u: "entry_ok scores ?cache" "sc_key ?cache = key sq"
      using update_cache_ok [of scores cache "key sq"] Cons.prems(3) by (auto simp: c)
    have prems: "length maps' = length sequences" "length caches' = length sequences" "list_all2 entry_ok maps' caches'"
        "sorted_wrt (\<lambda>a b. sq_range b \<le> sq_range a) sequences"
      using Cons.prems(1-4) by (simp_all add: c)
    have left: "sc_key (caches' ! j) = key (sequences ! j)" if "j < length sequences" "sq_range (sequences ! j) \<le> unchanged" for j
      using Cons.prems(5) [of "Suc j"] that by (simp add: c)
    obtain caches'' where "score_loop unchanged key sequences maps' caches' (result - sc_score cache + sc_score ?cache) =
        (result - sc_score cache + sc_score ?cache - sum_list (map sc_score caches') + sum_list (map sc_score caches''), caches'')"
        "list_all2 entry_ok maps' caches''" "map sc_key caches'' = map key sequences"
      using Cons.IH [OF prems left] by blast
    then show ?thesis using False u by (simp add: c Let_def)
  qed
qed

lemma scores_of_keys:
  assumes "list_all2 entry_ok maps caches" "map sc_key caches = map key sequences"
  shows "sum_list (map sc_score caches) = sum_list (map (\<lambda>(sq, scores). plain_sequence_score scores (key sq)) (zip sequences maps))"
  using assms
proof (induction maps caches arbitrary: sequences rule: list_all2_induct)
  case (Cons scores maps cache caches)
  then show ?case by (cases sequences) (auto simp: entry_ok_def)
qed simp

text \<open>The invariant of the cache, and that it knows a window: every sequence without dynamic features holds its key.\<close>

definition cache_ok :: "(u8 list \<Rightarrow> int) list \<Rightarrow> 'a feature_cache \<Rightarrow> bool" where
  "cache_ok maps c \<longleftrightarrow> list_all2 entry_ok maps (fc_caches c) \<and> fc_score c = sum_list (map sc_score (fc_caches c))"

definition cache_holds :: "sequence list \<Rightarrow> nat \<Rightarrow> int list \<Rightarrow> 'a feature_cache \<Rightarrow> bool" where
  "cache_holds sequences i window c \<longleftrightarrow> (\<forall>j < length sequences. Dynamic \<notin> el_type ` set (sq_elements (sequences ! j)) \<longrightarrow>
     (\<forall>dynamic. sc_key (fc_caches c ! j) = sequence_key c i window dynamic (sequences ! j)))"

lemma sequence_key_window:
  assumes "sound_sequence ws sq" "\<And>j. int j < sq_range sq \<Longrightarrow> window ! j = window' ! j" "Dynamic \<notin> el_type ` set (sq_elements sq)"
  shows "sequence_key c i window dynamic sq = sequence_key c i window' dynamic' sq"
proof -
  have "element_value c i window dynamic e = element_value c i window' dynamic' e" if "e \<in> set (sq_elements sq)" for e
  proof (cases "el_type e")
    case Per_Tag
    then have "int (nat (- el_offset e)) < sq_range sq" using assms(1) that by (auto simp: sound_sequence_def)
    then have "window ! nat (- el_offset e) = window' ! nat (- el_offset e)" by (rule assms(2))
    then show ?thesis using Per_Tag by (simp add: element_value_def Let_def)
  next
    case Dynamic
    then show ?thesis using assms(3) that by (metis imageI)
  qed (simp add: element_value_def Let_def)
  then show ?thesis by (simp add: sequence_key_def cong: map_cong)
qed

lemma element_value_update [simp]: "element_value (c\<lparr>fc_caches := x, fc_score := y\<rparr>) = element_value c"
  by (intro ext) (simp add: element_value_def Let_def split: element_type.split)

lemma sequence_key_update [simp]: "sequence_key (c\<lparr>fc_caches := x, fc_score := y\<rparr>) = sequence_key c"
  by (intro ext) (simp add: sequence_key_def)

lemma sequences_score_plain:
  assumes s: "sound_sequences (int ws) sequences" and c: "cache_ok maps c" "length maps = length sequences"
    and u: "u \<le> ws" "u = 0 \<or> (\<exists>window'. cache_holds sequences i window' c \<and> length window' = ws \<and> take u window = take u window')"
    and w: "length window = ws"
  shows "\<exists>c'. sequences_score sequences maps i window u dynamic c = (plain_score sequences maps c i window dynamic, c') \<and>
    cache_ok maps c' \<and> cache_holds sequences i window c' \<and>
    fc_forms c' = fc_forms c \<and> fc_analyses c' = fc_analyses c \<and> fc_per_form c' = fc_per_form c \<and> fc_per_tag c' = fc_per_tag c"
proof -
  let ?key = "sequence_key c i window dynamic"
  have len: "length (fc_caches c) = length sequences" using c list_all2_lengthD [of entry_ok maps "fc_caches c"] by (simp add: cache_ok_def)
  have left: "sc_key (fc_caches c ! j) = ?key (sequences ! j)" if j: "j < length sequences" "sq_range (sequences ! j) \<le> int u" for j
  proof -
    have sj: "sound_sequence (int ws) (sequences ! j)" using s j(1) by (simp add: sound_sequences_def)
    then have nd: "Dynamic \<notin> el_type ` set (sq_elements (sequences ! j))"
      using j(2) u(1) by (fastforce simp: sound_sequence_def)
    have "u \<noteq> 0" using sj j(2) by (auto simp: sound_sequence_def)
    then obtain window' where w': "cache_holds sequences i window' c" "length window' = ws" "take u window = take u window'"
      using u(2) by blast
    have "window' ! m = window ! m" if "int m < sq_range (sequences ! j)" for m
      using w'(3) that j(2) by (metis le_less_trans nth_take of_nat_less_iff less_le_trans)
    then have "sequence_key c i window' dynamic (sequences ! j) = ?key (sequences ! j)"
      by (intro sequence_key_window [OF sj _ nd]) auto
    then show ?thesis using w'(1) j(1) nd by (auto simp: cache_holds_def)
  qed
  obtain caches' where l: "score_loop (int u) ?key sequences maps (fc_caches c) (fc_score c) =
      (fc_score c - sum_list (map sc_score (fc_caches c)) + sum_list (map sc_score caches'), caches')"
      "list_all2 entry_ok maps caches'" "map sc_key caches' = map ?key sequences"
    using score_loop_keys [OF c(2) len _ _ left] s c(1) unfolding sound_sequences_def cache_ok_def by blast
  have sum: "sum_list (map sc_score caches') = plain_score sequences maps c i window dynamic"
    unfolding plain_score_def by (rule scores_of_keys [OF l(2,3)])
  have "sc_key (caches' ! j) = sequence_key c i window dynamic' (sequences ! j)"
    if "j < length sequences" "Dynamic \<notin> el_type ` set (sq_elements (sequences ! j))" for j dynamic'
  proof -
    have "length caches' = length sequences" using arg_cong [OF l(3), of length] by simp
    then have "sc_key (caches' ! j) = ?key (sequences ! j)" using arg_cong [OF l(3), of "\<lambda>x. x ! j"] that(1) by simp
    also have "\<dots> = sequence_key c i window dynamic' (sequences ! j)"
      using s that by (intro sequence_key_window) (auto simp: sound_sequences_def)
    finally show ?thesis .
  qed
  then show ?thesis using l c(1) sum by (simp add: sequences_score_def cache_ok_def cache_holds_def)
qed

section \<open>The taggers\<close>

text \<open>The orders and windows of \<open>tagger_ids.h\<close>.\<close>

datatype tagger_id = Czech2 | Czech3 | Czech2_3 | Generic2 | Generic3 | Generic4 | Generic2_3 | Conllu2 | Conllu2_3 | Conllu3

definition parse_tagger_id :: "string \<Rightarrow> tagger_id option" where
  "parse_tagger_id str = map_of
     [(''czech2'', Czech2), (''czech2_3'', Czech2_3), (''czech3'', Czech3), (''generic2'', Generic2), (''generic2_3'', Generic2_3),
      (''generic3'', Generic3), (''generic4'', Generic4), (''conllu2'', Conllu2), (''conllu2_3'', Conllu2_3), (''conllu3'', Conllu3)] str"

fun tagger_decoding_order :: "tagger_id \<Rightarrow> nat" where
  "tagger_decoding_order Czech2 = 2"
| "tagger_decoding_order Czech2_3 = 2"
| "tagger_decoding_order Czech3 = 3"
| "tagger_decoding_order Generic2 = 2"
| "tagger_decoding_order Generic2_3 = 2"
| "tagger_decoding_order Generic3 = 3"
| "tagger_decoding_order Generic4 = 4"
| "tagger_decoding_order Conllu2 = 2"
| "tagger_decoding_order Conllu2_3 = 2"
| "tagger_decoding_order Conllu3 = 3"

fun tagger_window_size :: "tagger_id \<Rightarrow> nat" where
  "tagger_window_size Czech2_3 = 3"
| "tagger_window_size Generic2_3 = 3"
| "tagger_window_size Conllu2_3 = 3"
| "tagger_window_size tagger = tagger_decoding_order tagger"

lemma tagger_order: "2 \<le> tagger_decoding_order tagger" "tagger_decoding_order tagger \<le> tagger_window_size tagger"
  by (cases tagger; simp)+

text \<open>The cache of a sentence, and the score of a window of a sentence without a cache.\<close>

definition sentence_score :: "'a elementary \<Rightarrow> sequence list \<Rightarrow> (u8 list \<Rightarrow> int) list \<Rightarrow> string list \<Rightarrow> 'a list list \<Rightarrow>
    nat \<Rightarrow> int list \<Rightarrow> u32 list \<Rightarrow> int" where
  "sentence_score el sequences maps forms analyses i window dynamic =
     plain_score sequences maps (init_sentence el forms analyses (new_feature_cache sequences)) i window dynamic"

definition tag_dynamic :: "'a elementary \<Rightarrow> string list \<Rightarrow> 'a list list \<Rightarrow> nat \<Rightarrow> int \<Rightarrow> u32 list option \<Rightarrow> u32 list" where
  "tag_dynamic el forms analyses i tag prev =
     (let (per_form, per_tag) = compute_features el forms analyses in
      compute_dynamic el (analyses ! i ! nat tag) (per_form ! i) (per_tag ! i ! nat tag) (if 0 < i then prev else None))"

definition decodable :: "tagger_id \<Rightarrow> sequence list \<Rightarrow> (u8 list \<Rightarrow> int) list \<Rightarrow> string list \<Rightarrow> 'a list list \<Rightarrow> bool" where
  "decodable tagger sequences maps forms analyses \<longleftrightarrow>
     sound_sequences (int (tagger_window_size tagger)) sequences \<and>
     length maps = length sequences \<and> (\<forall>i < length forms. 0 < length (analyses ! i))"

definition sentence_cache :: "'a elementary \<Rightarrow> tagger_id \<Rightarrow> sequence list \<Rightarrow> (u8 list \<Rightarrow> int) list \<Rightarrow> string list \<Rightarrow> 'a list list \<Rightarrow>
    'a feature_cache \<Rightarrow> bool" where
  "sentence_cache el tagger sequences maps forms analyses c \<longleftrightarrow> decodable tagger sequences maps forms analyses \<and> cache_ok maps c \<and>
     fc_forms c = length forms \<and> fc_analyses c = analyses \<and> (fc_per_form c, fc_per_tag c) = compute_features el forms analyses"

lemma plain_score_sentence:
  assumes c: "sentence_cache el tagger sequences maps forms analyses c"
  shows "plain_score sequences maps c i window dynamic = sentence_score el sequences maps forms analyses i window dynamic"
proof -
  have "element_value c i window dynamic = element_value (init_sentence el forms analyses (new_feature_cache sequences)) i window dynamic"
    using c by (intro ext, cases "compute_features el forms analyses")
      (simp add: sentence_cache_def element_value_def init_sentence_def Let_def split: element_type.split)
  then show ?thesis by (simp add: sentence_score_def plain_score_def sequence_key_def)
qed

text \<open>Sequences that look at no more tags than the decoding order, and so at no dynamic features.\<close>

definition local_sequences :: "tagger_id \<Rightarrow> sequence list \<Rightarrow> bool" where
  "local_sequences tagger sequences \<longleftrightarrow> (\<forall>sq \<in> set sequences. sq_range sq \<le> int (tagger_decoding_order tagger))"

lemma sentence_score_local:
  assumes "sound_sequences (int (tagger_window_size tagger)) sequences" "local_sequences tagger sequences"
    and "length window = tagger_window_size tagger" "length window' = tagger_window_size tagger"
    and w: "take (tagger_decoding_order tagger) window = take (tagger_decoding_order tagger) window'"
  shows "sentence_score el sequences maps forms analyses i window dynamic = sentence_score el sequences maps forms analyses i window' dynamic'"
proof -
  let ?c = "init_sentence el forms analyses (new_feature_cache sequences)"
  have nth: "window ! j = window' ! j" if "j < tagger_decoding_order tagger" for j
    using w that by (metis nth_take)
  have "sequence_key ?c i window dynamic sq = sequence_key ?c i window' dynamic' sq" if sq: "sq \<in> set sequences" for sq
  proof -
    have s: "sound_sequence (int (tagger_window_size tagger)) sq" "sq_range sq \<le> int (tagger_decoding_order tagger)"
      using assms(1,2) sq by (auto simp: sound_sequences_def local_sequences_def)
    have "Dynamic \<notin> el_type ` set (sq_elements sq)"
      using s tagger_order(2) [of tagger] by (fastforce simp: sound_sequence_def)
    then show ?thesis using s nth by (intro sequence_key_window [OF s(1)]) auto
  qed
  then show ?thesis unfolding plain_score_def sentence_score_def
    by (intro arg_cong [where f = sum_list] map_cong refl) (auto dest: set_zip_leftD)
qed

lemma sentence_cache_init:
  assumes "decodable tagger sequences maps forms analyses" "length (fc_caches c) = length sequences"
  shows "sentence_cache el tagger sequences maps forms analyses (init_sentence el forms analyses c)"
proof -
  have "list_all2 entry_ok maps (map (\<lambda>_. empty_cache) (fc_caches c))"
    using assms by (auto simp: list_all2_conv_all_nth decodable_def entry_ok_def empty_cache_def plain_sequence_score_def)
  moreover have "sum_list (map sc_score (map (\<lambda>_. empty_cache) (fc_caches c))) = 0"
    by (simp add: empty_cache_def comp_def)
  ultimately show ?thesis using assms
    by (cases "compute_features el forms analyses") (simp add: sentence_cache_def cache_ok_def init_sentence_def Let_def)
qed

lemma window_score_sentence:
  assumes c: "sentence_cache el tagger sequences maps forms analyses c" and w: "length window = tagger_window_size tagger"
    and u: "u < tagger_decoding_order tagger"
      "u = 0 \<or> (\<exists>window'. cache_holds sequences i window' c \<and> length window' = tagger_window_size tagger \<and> take u window = take u window')"
  shows "\<exists>c'. sequences_score sequences maps i window u dynamic c =
      (sentence_score el sequences maps forms analyses i window dynamic, c') \<and>
    sentence_cache el tagger sequences maps forms analyses c' \<and> cache_holds sequences i window c'"
proof -
  have d: "decodable tagger sequences maps forms analyses" "cache_ok maps c" using c by (simp_all add: sentence_cache_def)
  then have s: "sound_sequences (int (tagger_window_size tagger)) sequences" "length maps = length sequences"
    by (simp_all add: decodable_def)
  have "u \<le> tagger_window_size tagger" using u(1) tagger_order(2) [of tagger] by simp
  then show ?thesis using sequences_score_plain [OF s(1) d(2) s(2) _ u(2) w, of dynamic] c plain_score_sentence [OF c]
    by (auto simp: sentence_cache_def)
qed

text \<open>The features meet the contract of the decoder.\<close>

interpretation sequence_scores: tag_scores "sequence_features el sequences maps" "tagger_decoding_order tagger" "tagger_window_size tagger"
    "length forms" "\<lambda>i. length (analyses ! i)" "sentence_score el sequences maps forms analyses" "tag_dynamic el forms analyses"
    "sentence_cache el tagger sequences maps forms analyses"
    "\<lambda>i window c. cache_holds sequences i window c \<and> length window = tagger_window_size tagger"
  for el :: "'a elementary" and sequences maps tagger forms and analyses :: "'a list list"
proof (unfold_locales, goal_cases)
  case (4 c i t d')
  then show ?case
    by (cases "compute_features el forms analyses")
      (simp add: sequence_features_def sentence_dynamic_def tag_dynamic_def sentence_cache_def)
next
  case (5 c i w u d)
  then show ?case
    using window_score_sentence [OF 5(1) _ 5(4), of w i d] by (auto simp: sequence_features_def window_at_def)
qed (use tagger_order in \<open>auto simp: sentence_cache_def decodable_def\<close>)

section \<open>The best tags\<close>

text \<open>The score of a sequence of tags: the sum over its windows, with the dynamic features along it.\<close>

primrec tags_dynamic :: "'a elementary \<Rightarrow> string list \<Rightarrow> 'a list list \<Rightarrow> int list \<Rightarrow> nat \<Rightarrow> u32 list" where
  "tags_dynamic el forms analyses ts 0 = tag_dynamic el forms analyses 0 (ts ! 0) None"
| "tags_dynamic el forms analyses ts (Suc i) =
     tag_dynamic el forms analyses (Suc i) (ts ! Suc i) (Some (tags_dynamic el forms analyses ts i))"

definition tags_score :: "'a elementary \<Rightarrow> tagger_id \<Rightarrow> sequence list \<Rightarrow> (u8 list \<Rightarrow> int) list \<Rightarrow> string list \<Rightarrow> 'a list list \<Rightarrow>
    int list \<Rightarrow> int" where
  "tags_score el tagger sequences maps forms analyses ts =
     (\<Sum>i < length ts. sentence_score el sequences maps forms analyses i
       (window_of (tagger_window_size tagger) (rev (take (Suc i) ts))) (tags_dynamic el forms analyses ts i))"

definition tags_of :: "'a list list \<Rightarrow> nat \<Rightarrow> int list \<Rightarrow> bool" where
  "tags_of analyses n ts \<longleftrightarrow> length ts = n \<and> (\<forall>i < n. 0 \<le> ts ! i \<and> ts ! i < int (length (analyses ! i)))"

lemma valid_path_tags: "tag_scores.valid_path (\<lambda>i. length (analyses ! i)) (rev ts) \<longleftrightarrow> tags_of analyses (length ts) ts"
proof (induction ts rule: rev_induct)
  case (snoc t ts)
  show ?case unfolding rev_append by (auto simp: snoc.IH tags_of_def nth_append less_Suc_eq)
qed (simp add: tags_of_def)

abbreviation (input) path_dyn :: "'a elementary \<Rightarrow> string list \<Rightarrow> 'a list list \<Rightarrow> int list \<Rightarrow> u32 list option" where
  "path_dyn el forms analyses \<equiv> tag_scores.path_dyn (tag_dynamic el forms analyses)"

abbreviation (input) path_score :: "'a elementary \<Rightarrow> tagger_id \<Rightarrow> sequence list \<Rightarrow> (u8 list \<Rightarrow> int) list \<Rightarrow> string list \<Rightarrow> 'a list list \<Rightarrow>
    int list \<Rightarrow> int" where
  "path_score el tagger sequences maps forms analyses \<equiv>
     tag_scores.path_score (tagger_window_size tagger) (sentence_score el sequences maps forms analyses) (tag_dynamic el forms analyses)"

lemma path_dyn_tags: "i < length ts \<Longrightarrow> path_dyn el forms analyses (rev (take (Suc i) ts)) = Some (tags_dynamic el forms analyses ts i)"
proof (induction i)
  case 0
  then show ?case by (simp add: take_Suc_conv_app_nth)
next
  case (Suc i)
  then show ?case by (simp add: take_Suc_conv_app_nth [of "Suc i"])
qed

lemma tags_dynamic_append: "i < length ts \<Longrightarrow> tags_dynamic el forms analyses (ts @ us) i = tags_dynamic el forms analyses ts i"
  by (induction i) (auto simp: nth_append)

lemma path_score_tags:
  "path_score el tagger sequences maps forms analyses (rev ts) = tags_score el tagger sequences maps forms analyses ts"
proof (induction ts rule: rev_induct)
  case (snoc t ts)
  have "path_dyn el forms analyses (rev (ts @ [t])) = Some (tags_dynamic el forms analyses (ts @ [t]) (length ts))"
    using path_dyn_tags [of "length ts" "ts @ [t]"] by simp
  moreover have "(\<Sum>i<length ts. sentence_score el sequences maps forms analyses i
        (window_of (tagger_window_size tagger) (rev (take (Suc i) (ts @ [t])))) (tags_dynamic el forms analyses (ts @ [t]) i)) =
      tags_score el tagger sequences maps forms analyses ts"
    unfolding tags_score_def by (intro sum.cong) (auto simp: tags_dynamic_append)
  ultimately show ?case using snoc.IH by (simp add: tags_score_def)
qed (simp add: tags_score_def)

lemma decoder_best:
  assumes d: "decodable tagger sequences maps forms analyses" and f: "forms \<noteq> []" "length forms \<le> length analyses"
    and t: "length forms \<le> length tags" and c: "length (fc_caches (vc_features c)) = length sequences"
    and n: "all_states (tagger_decoding_order tagger) (\<lambda>i. length (analyses ! i)) (length forms) < 2 ^ 31"
  shows "\<exists>ts c'. viterbi_tag (sequence_features el sequences maps) (tagger_decoding_order tagger) (tagger_window_size tagger) forms analyses c tags =
      Some (ts @ drop (length forms) tags, c') \<and> length (fc_caches (vc_features c')) = length sequences \<and> tags_of analyses (length forms) ts \<and>
    (local_sequences tagger sequences \<longrightarrow> (\<forall>us. tags_of analyses (length forms) us \<longrightarrow>
       tags_score el tagger sequences maps forms analyses us \<le> tags_score el tagger sequences maps forms analyses ts))"
proof -
  let ?c = "init_sentence el forms analyses (vc_features c)"
  have s: "sentence_cache el tagger sequences maps forms analyses ?c" by (rule sentence_cache_init [OF d c])
  have i: "initialize_sentence (sequence_features el sequences maps) forms analyses (vc_features c) = ?c"
    by (simp add: sequence_features_def)
  have l: "tag_scores.local_scores (tagger_decoding_order tagger) (tagger_window_size tagger) (sentence_score el sequences maps forms analyses)"
    if "local_sequences tagger sequences"
    using sentence_score_local [OF _ that] d unfolding sequence_scores.local_scores_def decodable_def by blast
  obtain ts c' where "viterbi_tag (sequence_features el sequences maps) (tagger_decoding_order tagger) (tagger_window_size tagger) forms analyses c tags =
        Some (ts @ drop (length forms) tags, c')" "sentence_cache el tagger sequences maps forms analyses (vc_features c')" "length ts = length forms" "tag_scores.valid_path (\<lambda>i. length (analyses ! i)) (rev ts)"
      "\<forall>us. tag_scores.local_scores (tagger_decoding_order tagger) (tagger_window_size tagger) (sentence_score el sequences maps forms analyses) \<longrightarrow>
         length us = length forms \<longrightarrow> tag_scores.valid_path (\<lambda>i. length (analyses ! i)) (rev us) \<longrightarrow>
         path_score el tagger sequences maps forms analyses (rev us) \<le> path_score el tagger sequences maps forms analyses (rev ts)"
    using sequence_scores.viterbi_best [where formsa = forms and analysesa = analyses and forms = forms and analyses = analyses
      and tags = tags and el = el and tagger = tagger and sequences = sequences and maps = maps and c = c] f t n s unfolding i by auto
  moreover from this(2) have "length (fc_caches (vc_features c')) = length sequences"
    using list_all2_lengthD [of entry_ok maps "fc_caches (vc_features c')"] by (auto simp: sentence_cache_def cache_ok_def decodable_def)
  ultimately show ?thesis using l unfolding valid_path_tags path_score_tags
    by (intro exI [of _ ts] exI [of _ c']) (auto simp: tags_of_def)
qed

section \<open>Properties\<close>

text \<open>Calls of \<open>score\<close> one after another, each told how much of the window the last call has left, and their plain scores.\<close>

fun score_calls :: "sequence list \<Rightarrow> (u8 list \<Rightarrow> int) list \<Rightarrow> (nat \<times> int list) option \<Rightarrow> (nat \<times> int list \<times> u32 list) list \<Rightarrow>
    'a feature_cache \<Rightarrow> int list" where
  "score_calls sequences maps prev [] c = []"
| "score_calls sequences maps prev ((i, window, dynamic) # calls) c =
     (let unchanged = (case prev of None \<Rightarrow> 0 | Some (i', window') \<Rightarrow> if i' = i then common_prefix window' window else 0);
          (s, c') = sequences_score sequences maps i window unchanged dynamic c
      in s # score_calls sequences maps (Some (i, window)) calls c')"

lemma score_calls_plain:
  assumes "sound_sequences (int ws) sequences" "length maps = length sequences"
  shows "cache_ok maps c \<Longrightarrow> \<forall>(i, window, dynamic) \<in> set calls. length window = ws \<Longrightarrow>
    (\<And>i window. prev = Some (i, window) \<Longrightarrow> cache_holds sequences i window c \<and> length window = ws) \<Longrightarrow>
    fc_forms c = fc_forms c0 \<Longrightarrow> fc_per_form c = fc_per_form c0 \<Longrightarrow> fc_per_tag c = fc_per_tag c0 \<Longrightarrow>
    score_calls sequences maps prev calls c = map (\<lambda>(i, window, dynamic). plain_score sequences maps c0 i window dynamic) calls"
proof (induction calls arbitrary: prev c)
  case (Cons call calls)
  obtain i w d where call: "call = (i, w, d)" by (cases call)
  have w: "length w = ws" using Cons.prems(2) by (simp add: call)
  let ?u = "case prev of None \<Rightarrow> 0 | Some (i', w') \<Rightarrow> if i' = i then common_prefix w' w else 0"
  have u: "?u \<le> ws \<and> (?u = 0 \<or> (\<exists>w'. cache_holds sequences i w' c \<and> length w' = ws \<and> take ?u w = take ?u w'))"
  proof (cases prev)
    case (Some p)
    obtain i' w' where p: "p = (i', w')" by (cases p)
    have "cache_holds sequences i' w' c" "length w' = ws" using Cons.prems(3) Some p by auto
    then show ?thesis using le_common_prefix [of "common_prefix w' w" w' w] by (auto simp: Some p)
  qed simp
  obtain c' where c': "sequences_score sequences maps i w ?u d c = (plain_score sequences maps c i w d, c')"
      "cache_ok maps c'" "cache_holds sequences i w c'"
      "fc_forms c' = fc_forms c" "fc_per_form c' = fc_per_form c" "fc_per_tag c' = fc_per_tag c"
    using sequences_score_plain [OF assms(1) Cons.prems(1) assms(2) conjunct1 [OF u] conjunct2 [OF u] w] by blast
  have "element_value c i w d = element_value c0 i w d"
    using Cons.prems(4-6) by (intro ext) (simp add: element_value_def Let_def split: element_type.split)
  then have "plain_score sequences maps c i w d = plain_score sequences maps c0 i w d"
    by (simp add: plain_score_def sequence_key_def)
  moreover have "score_calls sequences maps (Some (i, w)) calls c' = map (\<lambda>(i, window, dynamic). plain_score sequences maps c0 i window dynamic) calls"
    using Cons.prems(2,4-6) c' w by (intro Cons.IH) auto
  ultimately show ?case using c'(1) by (simp add: call)
qed simp

text \<open>
  C14: The cache of the scores of feature sequences is invisible. Whatever templates were parsed,
  dynamic features included, and whatever windows are scored one after another at whatever positions,
  each call returns the sum of the scores of the keys of its own window: skipping the sequences whose
  range lies within the unchanged tags, and the sort by range that allows it, changes nothing.
\<close>

theorem feature_cache_invisible:
  assumes "parse_sequences descriptions (int ws) input = Inr sequences" "length maps = length sequences"
    and "length (fc_caches c) = length sequences" "\<forall>(i, window, dynamic) \<in> set calls. length window = ws"
  shows "score_calls sequences maps None calls (init_sentence el forms analyses c) =
    map (\<lambda>(i, window, dynamic). sentence_score el sequences maps forms analyses i window dynamic) calls"
proof -
  let ?c0 = "init_sentence el forms analyses (new_feature_cache sequences)"
  have s: "sound_sequences (int ws) sequences" by (rule parse_sequences_sound [OF assms(1)])
  have "cache_ok maps (init_sentence el forms analyses c)"
    using assms(2,3) by (cases "compute_features el forms analyses")
      (auto simp: cache_ok_def init_sentence_def Let_def list_all2_conv_all_nth entry_ok_def empty_cache_def plain_sequence_score_def comp_def)
  then show ?thesis
    unfolding sentence_score_def using assms(4)
    by (intro score_calls_plain [OF s assms(2)]) (auto simp: init_sentence_def Let_def split: prod.split)
qed

definition sample_descriptions :: "element_description list" where
  "sample_descriptions = [\<lparr>ed_name = ''Form'', ed_type = Per_Form, ed_range = Any_Offset, ed_index = 0\<rparr>,
     \<lparr>ed_name = ''Tag'', ed_type = Per_Tag, ed_range = Any_Offset, ed_index = 0\<rparr>]"

definition sample_input :: string where
  "sample_input = ''Tag 0'' @ [lf] @ ''Tag 0,Tag -1'' @ [lf] @ ''Tag 0,Form 1''"

definition sample_sequences :: "sequence list" where
  "sample_sequences =
    [\<lparr>sq_elements = [\<lparr>el_type = Per_Tag, el_index = 0, el_offset = 0\<rparr>, \<lparr>el_type = Per_Tag, el_index = 0, el_offset = -1\<rparr>], sq_range = 2\<rparr>,
     \<lparr>sq_elements = [\<lparr>el_type = Per_Tag, el_index = 0, el_offset = 0\<rparr>], sq_range = 1\<rparr>,
     \<lparr>sq_elements = [\<lparr>el_type = Per_Tag, el_index = 0, el_offset = 0\<rparr>, \<lparr>el_type = Per_Form, el_index = 0, el_offset = 1\<rparr>], sq_range = 1\<rparr>]"

lemma sample_templates: "parse_sequences sample_descriptions 2 sample_input = Inr sample_sequences"
  by code_simp

definition sample_elementary :: "unit elementary" where
  "sample_elementary = \<lparr>compute_features = \<lambda>_ _. ([[3], [4]], [[[5]], [[6], [7]]]), compute_dynamic = \<lambda>_ _ _ _. []\<rparr>"

definition sample_maps :: "(u8 list \<Rightarrow> int) list" where
  "sample_maps = [\<lambda>k. int (length k), \<lambda>k. if k = [6] then 2 else 1, \<lambda>k. -1]"

lemma feature_cache_invisible_witness:
  "score_calls sample_sequences sample_maps None [(0, [0, -1], []), (1, [0, 0], []), (1, [0, 1], [])]
      (init_sentence sample_elementary [''a'', ''b''] [[()], [(), ()]] (new_feature_cache sample_sequences)) =
    map (\<lambda>(i, window, dynamic). sentence_score sample_elementary sample_sequences sample_maps [''a'', ''b''] [[()], [(), ()]] i window dynamic)
      [(0, [0, -1], []), (1, [0, 0], []), (1, [0, 1], [])]"
  by (rule feature_cache_invisible [where ws = 2 and descriptions = sample_descriptions and input = sample_input])
    (use sample_templates in \<open>auto simp: sample_sequences_def sample_maps_def new_feature_cache_def\<close>)

end
