(* ===== verification/Word_Analysis.thy ===== *)
theory Word_Analysis
  imports Token Utf8 Line_Formats
begin

text \<open>
  How the model and its trainer encode the analysis of a word for the tagger:
  \<open>normalize_form\<close>, \<open>normalize_lemma\<close> and \<open>fill_word_analysis\<close> of
  \<open>src/model/model_morphodita_parsito.cpp\<close>, and \<open>combine_tag\<close>, \<open>combine_lemma\<close> and
  \<open>can_combine_tag\<close> of \<open>src/trainer/trainer_morphodita_parsito.cpp\<close>. A tagger sees a lemma and one
  tag; the trainer joins the columns UPOS, XPOS and FEATS with a separator that occurs in neither of
  the first two, and may write a lemma as a rule that mentions the form.

  The proofs show that the analysis of a word decodes what the trainer encoded, under the
  conditions the encoding needs, and that the normalization of forms is idempotent and keeps
  at least one character.
\<close>

section \<open>Model\<close>

record tagged_lemma =
  tl_lemma :: string
  tl_tag :: string

text \<open>One code point of a form: what it becomes, or \<open>None\<close> when it is dropped.\<close>

definition normalize_char :: "nat \<Rightarrow> nat \<Rightarrow> nat option" where
  "normalize_char version chr =
     (if chr = 0x640 \<or> (chr \<ge> 0x64B \<and> chr \<le> 0x657) \<or> chr = 0x670 then None
      else if chr = 0x622 then Some 0x627
      else if chr = 0x623 then Some 0x627
      else if chr = 0x624 then Some 0x648
      else if chr = 0x625 then Some 0x627
      else if chr = 0x626 then Some 0x64A
      else if chr = 0x671 then Some 0x627
      else if chr = 0x6A9 then Some 0x643
      else if chr = 0x6AA then Some 0x643
      else if chr = 0x6CC then Some 0x64A
      else if chr = 0x20 \<and> version = 2 then Some 0x01
      else if chr = 0x20 \<and> version \<ge> 3 then Some 0xA0
      else Some chr)"

definition normalize_form :: "nat \<Rightarrow> string \<Rightarrow> string" where
  "normalize_form version form =
     (if version \<le> 1 then form
      else let output = utf8_encode (List.map_filter (normalize_char version) (utf8_decode_all form))
           in if output = [] \<and> form \<noteq> [] then output @ utf8_append (fst (utf8_decode form)) else output)"

definition normalize_lemma :: "nat \<Rightarrow> string \<Rightarrow> string" where
  "normalize_lemma version lemma =
     (if version \<le> 2 then lemma
      else concat (map (\<lambda>c. if c = CHR '' '' then utf8_append 0xA0 else [c]) lemma))"

text \<open>The lemma of an analysis. Reading the first character of an empty string gives NUL.\<close>

definition first_char :: "string \<Rightarrow> char" where
  "first_char s = (if s = [] then CHR 0x00 else hd s)"

definition lemma_rule :: "nat \<Rightarrow> string \<Rightarrow> string \<Rightarrow> string" where
  "lemma_rule version form lemma =
     (if first_char lemma = CHR ''~'' then
        (case str_find (CHR ''~'') lemma 1 of None \<Rightarrow> lemma
         | Some e \<Rightarrow> if drop (e + 1) lemma = normalize_form version form then take (e - 1) (drop 1 lemma) else lemma)
      else lemma)"

fun nbsp_to_space :: "string \<Rightarrow> string" where
  "nbsp_to_space (c # d # s) =
     (if c = CHR 0xC2 \<and> d = CHR 0xA0 then CHR '' '' # nbsp_to_space s else c # nbsp_to_space (d # s))"
| "nbsp_to_space s = s"

definition restore_spaces :: "nat \<Rightarrow> string \<Rightarrow> string" where
  "restore_spaces version lemma =
     (if version = 2 then map (\<lambda>c. if c = CHR 0x01 then CHR '' '' else c) lemma
      else if version \<ge> 3 then nbsp_to_space lemma
      else lemma)"

text \<open>The columns of a tag: from a position to the next separator or the end.\<close>

definition field_end :: "char \<Rightarrow> string \<Rightarrow> nat \<Rightarrow> nat" where
  "field_end separator tag start = (case str_find separator tag start of None \<Rightarrow> length tag | Some e \<Rightarrow> e)"

definition fill_tags :: "bool \<Rightarrow> bool \<Rightarrow> bool \<Rightarrow> string \<Rightarrow> word_data \<Rightarrow> word_data" where
  "fill_tags upostag xpostag feats tag w =
     (if \<not> upostag \<and> \<not> xpostag \<and> \<not> feats then w
      else let separator = first_char tag;
               start = min 1 (length tag); stop = min (field_end separator tag 1) (length tag);
               w = (if upostag then w\<lparr>w_upostag := take (stop - start) (drop start tag)\<rparr> else w)
      in if \<not> xpostag \<and> \<not> feats then w
      else let start = min (stop + 1) (length tag); stop = field_end separator tag start;
               w = (if xpostag then w\<lparr>w_xpostag := take (stop - start) (drop start tag)\<rparr> else w)
      in if \<not> feats then w
      else let start = min (stop + 1) (length tag) in w\<lparr>w_feats := drop start tag\<rparr>)"

definition fill_word_analysis ::
  "nat \<Rightarrow> tagged_lemma \<Rightarrow> bool \<Rightarrow> bool \<Rightarrow> int \<Rightarrow> bool \<Rightarrow> bool \<Rightarrow> word_data \<Rightarrow> word_data" where
  "fill_word_analysis version analysis raw upostag lemma xpostag feats w =
     (if raw then
        let w = (if lemma \<noteq> 0 then w\<lparr>w_lemma := tl_lemma analysis\<rparr> else w)
        in if xpostag then w\<lparr>w_xpostag := tl_tag analysis\<rparr> else w
      else
        let w = (if lemma = 1 then w\<lparr>w_lemma := tl_lemma analysis\<rparr>
                 else if lemma = 2 then w\<lparr>w_lemma := lemma_rule version (tk_form w) (tl_lemma analysis)\<rparr>
                 else w);
            w = w\<lparr>w_lemma := restore_spaces version (w_lemma w)\<rparr>
        in fill_tags upostag xpostag feats (tl_tag analysis) w)"

text \<open>The trainer.\<close>

definition tag_separators :: string where
  "tag_separators = ''~!@#$%^&*()/''"

fun find_separator :: "string \<Rightarrow> word_data \<Rightarrow> char option" where
  "find_separator [] w = None"
| "find_separator (c # cs) w = (if c \<in> set (w_upostag w) \<or> c \<in> set (w_xpostag w) then find_separator cs w else Some c)"

definition can_combine_tag :: "word_data \<Rightarrow> unit result" where
  "can_combine_tag w =
     (case find_separator tag_separators w of
        None \<Rightarrow> Inl (''Cannot find tag separating character, UPOSTAG and XPOSTAG contain all of '' @ quoted tag_separators @ ''!'')
      | Some _ \<Rightarrow> Inr ())"

definition combine_tag :: "bool \<Rightarrow> bool \<Rightarrow> word_data \<Rightarrow> string" where
  "combine_tag xpostag feats w =
     (let separator = (case find_separator tag_separators w of None \<Rightarrow> hd tag_separators | Some c \<Rightarrow> c)
      in [separator] @ w_upostag w @
         (if xpostag \<or> feats then
            [separator] @ (if xpostag then w_xpostag w else []) @
            (if feats then [separator] else []) @ (if feats then w_feats w else [])
          else []))"

text \<open>The latest version of the model is the one that is trained.\<close>

definition version_latest :: nat where
  "version_latest = 3"

definition combine_lemma :: "int \<Rightarrow> string set \<Rightarrow> word_data \<Rightarrow> string" where
  "combine_lemma use_lemma flat_lemmas w =
     (let form = normalize_form version_latest (tk_form w); lemma = normalize_lemma version_latest (w_lemma w);
          flat = w_lemma w \<in> flat_lemmas \<or> lemma \<in> flat_lemmas
      in if use_lemma = 0 then form
         else if use_lemma = 1 then (if flat then form else lemma)
         else if w_lemma w = [] then ''~~'' @ form
         else if w_lemma w = ''_'' then ''~_~'' @ form
         else if flat then ''~'' @ lemma @ ''~'' @ form
         else lemma)"

section \<open>Properties\<close>

lemma map_filter_upd: "List.map_filter f (List.map_filter f xs) = List.map_filter f xs"
  if "\<And>x y. f x = Some y \<Longrightarrow> f y = Some y"
  using that by (induction xs) (auto simp: List.map_filter_simps split: option.splits)

lemma normalize_char_idem: "normalize_char version chr = Some c \<Longrightarrow> normalize_char version c = Some c"
  by (simp add: normalize_char_def split: if_splits)

lemma normalize_char_bound: "normalize_char version chr = Some c \<Longrightarrow> chr < 0x200000 \<Longrightarrow> c < 0x200000"
  by (simp add: normalize_char_def split: if_splits)

lemma map_filter_mem: "y \<in> set (List.map_filter f xs) \<Longrightarrow> \<exists>x \<in> set xs. f x = Some y"
  by (induction xs) (auto simp: List.map_filter_simps split: option.splits)

lemma utf8_encode_Nil [simp]: "utf8_encode chrs = [] \<longleftrightarrow> chrs = []"
  by (cases chrs) (simp_all add: utf8_encode_def)

lemma utf8_decode_encode: "\<forall>chr \<in> set chrs. chr < 0x200000 \<Longrightarrow> utf8_decode_all (utf8_encode chrs) = chrs"
  using utf8_decode_all_encode [of chrs "[]"] by simp

lemma normalize_form_kept:
  assumes "version > 1" "List.map_filter (normalize_char version) (utf8_decode_all form) \<noteq> [] \<or> form = []"
  shows "normalize_form version form = utf8_encode (List.map_filter (normalize_char version) (utf8_decode_all form))"
  using assms by (auto simp: normalize_form_def Let_def)

lemma normalize_form_dropped:
  assumes "version > 1" "List.map_filter (normalize_char version) (utf8_decode_all form) = []" "form \<noteq> []"
  shows "normalize_form version form = utf8_append (fst (utf8_decode form))"
  using assms by (simp add: normalize_form_def Let_def utf8_encode_def)

text \<open>
  Normalizing a form twice is normalizing it once, and a form that is not empty does not
  become empty.
\<close>

theorem normalize_form_idem:
  "normalize_form version (normalize_form version form) = normalize_form version form \<and>
   (form \<noteq> [] \<longrightarrow> normalize_form version form \<noteq> [])"
proof (cases "version \<le> 1")
  case True
  then show ?thesis by (simp add: normalize_form_def)
next
  case False
  then have v: "version > 1" by simp
  let ?chrs = "List.map_filter (normalize_char version) (utf8_decode_all form)"
  have bound: "\<forall>c \<in> set ?chrs. c < 0x200000"
  proof
    fix c assume "c \<in> set ?chrs"
    then obtain chr where "chr \<in> set (utf8_decode_all form)" "normalize_char version chr = Some c"
      using map_filter_mem [of c] by blast
    then show "c < 0x200000" using normalize_char_bound utf8_decode_all_bound by blast
  qed
  show ?thesis
  proof (cases "?chrs = [] \<and> form \<noteq> []")
    case True
    let ?first = "fst (utf8_decode form)"
    have out: "normalize_form version form = utf8_append ?first" using True v by (intro normalize_form_dropped) auto
    have "utf8_decode_all form = ?first # utf8_decode_all (snd (utf8_decode form))"
      using True by (subst utf8_decode_all.simps) (simp add: case_prod_beta)
    then have head: "List.map_filter (normalize_char version) (?first # utf8_decode_all (snd (utf8_decode form))) = []"
      using True by metis
    have none: "normalize_char version ?first = None"
    proof (rule ccontr)
      assume "normalize_char version ?first \<noteq> None"
      then obtain c where "normalize_char version ?first = Some c" by blast
      with head show False by (simp only: List.map_filter_simps option.case list.distinct)
    qed
    have first: "?first < 0x200000" by (rule utf8_decode_bound)
    have all: "utf8_decode_all (utf8_append ?first) = [?first]"
      using utf8_decode_all_append [OF first, of "[]"] by (simp only: append_Nil2 utf8_decode_all_Nil)
    have "normalize_form version (utf8_append ?first) = utf8_append (fst (utf8_decode (utf8_append ?first)))"
      using v none by (intro normalize_form_dropped) (simp_all only: all List.map_filter_simps option.case utf8_append_not_Nil not_False_eq_True)
    also have "fst (utf8_decode (utf8_append ?first)) = ?first"
      using utf8_decode_append [OF first, of "[]"] by (simp only: append_Nil2 fst_conv)
    finally show ?thesis using out utf8_append_not_Nil by metis
  next
    case no: False
    then have out: "normalize_form version form = utf8_encode ?chrs" using v by (intro normalize_form_kept) auto
    have all: "utf8_decode_all (utf8_encode ?chrs) = ?chrs" using bound by (rule utf8_decode_encode)
    have same: "List.map_filter (normalize_char version) ?chrs = ?chrs"
      by (rule map_filter_upd) (rule normalize_char_idem)
    have "normalize_form version (utf8_encode ?chrs) = utf8_encode ?chrs"
      using normalize_form_kept [OF v, of "utf8_encode ?chrs", unfolded all same] by simp
    then show ?thesis using no unfolding out by auto
  qed
qed

lemma normalize_form_idem_witness:
  "normalize_form 3 (normalize_form 3 ''a b'') = normalize_form 3 ''a b'' \<and> normalize_form 3 ''a b'' \<noteq> []"
  using normalize_form_idem [of 3 "''a b''"] by simp

text \<open>Tags: the separator is in neither of the first two columns.\<close>

lemma find_separator_Some: "find_separator cs w = Some c \<Longrightarrow> c \<notin> set (w_upostag w) \<and> c \<notin> set (w_xpostag w)"
  by (induction cs) (auto split: if_splits)

lemma field_end_sep: "c \<notin> set p \<Longrightarrow> field_end c (q @ p @ c # r) (length q) = length q + length p"
  by (simp add: field_end_def)

lemma field_end_last: "c \<notin> set p \<Longrightarrow> field_end c (q @ p) (length q) = length q + length p"
  by (simp add: field_end_def)

lemma fill_combined_tags:
  assumes sep: "find_separator tag_separators w = Some c"
  shows "fill_tags True xpostag feats (combine_tag xpostag feats w) v =
    v\<lparr>w_upostag := w_upostag w, w_xpostag := (if xpostag then w_xpostag w else w_xpostag v),
      w_feats := (if feats then w_feats w else w_feats v)\<rparr>"
proof -
  let ?u = "w_upostag w" and ?x = "if xpostag then w_xpostag w else []"
  have c: "c \<notin> set ?u" "c \<notin> set ?x" using find_separator_Some [OF sep] by auto
  show ?thesis
  proof (cases "xpostag \<or> feats")
    case False
    then have "combine_tag xpostag feats w = [c] @ ?u" by (simp add: combine_tag_def sep)
    then show ?thesis using False field_end_last [OF c(1), of "[c]"] by (simp add: fill_tags_def Let_def first_char_def)
  next
    case True
    let ?rest = "if feats then c # w_feats w else []"
    have tag: "combine_tag xpostag feats w = [c] @ ?u @ c # ?x @ ?rest"
      using True by (auto simp: combine_tag_def sep)
    define t where "t = combine_tag xpostag feats w"
    note tag = tag [folded t_def]
    have sep: "first_char t = c" by (simp add: tag first_char_def)
    have u: "min (field_end c t 1) (length t) = Suc (length ?u)"
      using field_end_sep [OF c(1), of "[c]"] by (simp add: tag)
    have x: "field_end c t (Suc (Suc (length ?u))) = Suc (Suc (length ?u)) + length ?x"
      using field_end_sep [OF c(2), of "[c] @ ?u @ [c]" "w_feats w"] field_end_last [OF c(2), of "[c] @ ?u @ [c]"]
      unfolding tag by (cases feats) (simp_all split del: if_split)
    have starts: "min 1 (length t) = 1" "min (Suc (length ?u) + 1) (length t) = Suc (Suc (length ?u))"
      "feats \<Longrightarrow> min (Suc (Suc (length ?u)) + length ?x + 1) (length t) = Suc (Suc (Suc (length ?u + length ?x)))"
      by (simp_all add: tag)
    have fields: "take (Suc (length ?u) - 1) (drop 1 t) = ?u"
      "take (Suc (Suc (length ?u)) + length ?x - Suc (Suc (length ?u))) (drop (Suc (Suc (length ?u))) t) = ?x"
      "feats \<Longrightarrow> drop (Suc (Suc (Suc (length ?u + length ?x)))) t = w_feats w"
      by (simp_all add: tag)
    show ?thesis
      unfolding t_def [symmetric] fill_tags_def Let_def sep u starts(1,2) x fields(1,2)
      using True starts(3) fields(3) by (cases feats; cases xpostag) (simp_all only: not_True_eq_False not_False_eq_True
        simp_thms if_True if_False refl, simp_all)
  qed
qed

text \<open>Lemmas: spaces come back from the no-break spaces, and rules from the form.\<close>

lemma utf8_append_nbsp [simp]: "utf8_append 160 = [CHR 0xC2, CHR 0xA0]"
  by (simp add: utf8_append_def text_simps) (simp add: char_of_def bit_0)

lemma normalize_lemma_nbsp: "version > 2 \<Longrightarrow> normalize_lemma version lemma = to_nbsp lemma"
  by (simp add: normalize_lemma_def to_nbsp_def utf8_append_nbsp cong: if_cong)

lemma nbsp_to_space_to_nbsp: "\<not> has_nbsp s \<Longrightarrow> nbsp_to_space (to_nbsp s) = s"
proof (induction s)
  case (Cons c s)
  have s: "\<not> has_nbsp s" using Cons.prems by (cases s) auto
  have next_c: "c \<noteq> CHR '' '' \<Longrightarrow> nbsp_to_space (c # to_nbsp s) = c # nbsp_to_space (to_nbsp s)"
  proof (cases s)
    case (Cons d t)
    moreover have "\<not> (c = CHR 0xC2 \<and> d = CHR 0xA0)" using \<open>\<not> has_nbsp (c # s)\<close> Cons by auto
    ultimately show ?thesis by (auto simp: to_nbsp_def)
  qed (simp add: to_nbsp_def)
  show ?case
  proof (cases "c = CHR '' ''")
    case True
    then show ?thesis using Cons.IH [OF s] by (simp add: to_nbsp_def)
  next
    case False
    then show ?thesis using Cons.IH [OF s] next_c by (simp add: to_nbsp_def)
  qed
qed (simp add: to_nbsp_def)

lemma tilde_to_nbsp: "CHR ''~'' \<in> set (to_nbsp s) \<longleftrightarrow> CHR ''~'' \<in> set s"
  by (induction s) (auto simp: to_nbsp_def)

lemma hd_to_nbsp: "CHR ''~'' \<notin> set s \<Longrightarrow> first_char (to_nbsp s) \<noteq> CHR ''~''"
  using tilde_to_nbsp [of s] by (cases "to_nbsp s") (auto simp: first_char_def)

lemma lemma_rule_plain: "first_char lemma \<noteq> CHR ''~'' \<Longrightarrow> lemma_rule version form lemma = lemma"
  by (simp add: lemma_rule_def)

lemma lemma_rule_replace:
  assumes "CHR ''~'' \<notin> set r"
  shows "lemma_rule version form (''~'' @ r @ ''~'' @ normalize_form version form) = r"
  using str_find_append [OF assms, of "''~''" "normalize_form version form"] by (simp add: lemma_rule_def first_char_def)

text \<open>
  What the trainer encodes for the tagger is what the model decodes from its answer: the
  columns UPOS, XPOS and FEATS, and the lemma, which may be empty, an underscore, or written as
  a rule on the form. The tags need a free separator; the lemma must hold no tilde and no
  no-break space.
\<close>

lemma word_analysis_roundtrip:
  assumes "can_combine_tag w = Inr ()" "CHR ''~'' \<notin> set (w_lemma w)" "\<not> has_nbsp (w_lemma w)" "tk_form v = tk_form w"
  shows "fill_word_analysis version_latest \<lparr>tl_lemma = combine_lemma 2 flat_lemmas w, tl_tag = combine_tag xpostag feats w\<rparr>
      False True 2 xpostag feats v =
    v\<lparr>w_lemma := w_lemma w, w_upostag := w_upostag w, w_xpostag := (if xpostag then w_xpostag w else w_xpostag v),
      w_feats := (if feats then w_feats w else w_feats v)\<rparr>"
proof -
  obtain c where "find_separator tag_separators w = Some c"
    using assms(1) by (auto simp: can_combine_tag_def split: option.splits)
  note tags = fill_combined_tags [OF this]
  let ?n = "normalize_lemma version_latest (w_lemma w)"
  have n: "?n = to_nbsp (w_lemma w)" by (simp add: normalize_lemma_nbsp version_latest_def)
  have tilde: "CHR ''~'' \<notin> set ?n" using assms(2) tilde_to_nbsp n by simp
  have restore: "restore_spaces version_latest ?n = w_lemma w"
    unfolding n using nbsp_to_space_to_nbsp [OF assms(3)] by (simp add: restore_spaces_def version_latest_def)
  let ?form = "normalize_form version_latest (tk_form w)"
  consider "w_lemma w = []" | "w_lemma w = ''_''"
    | "combine_lemma 2 flat_lemmas w = ''~'' @ ?n @ ''~'' @ ?form"
    | "combine_lemma 2 flat_lemmas w = ?n"
    by (cases "w_lemma w = []"; cases "w_lemma w = ''_''";
        cases "w_lemma w \<in> flat_lemmas \<or> ?n \<in> flat_lemmas") (simp_all add: combine_lemma_def Let_def)
  then have "restore_spaces version_latest (lemma_rule version_latest (tk_form w) (combine_lemma 2 flat_lemmas w)) = w_lemma w"
  proof cases
    case 1
    then have "combine_lemma 2 flat_lemmas w = ''~'' @ [] @ ''~'' @ ?form" by (simp add: combine_lemma_def)
    then show ?thesis using 1 lemma_rule_replace [of "[]"] by (simp only:) (simp add: restore_spaces_def version_latest_def)
  next
    case 2
    then have "combine_lemma 2 flat_lemmas w = ''~'' @ ''_'' @ ''~'' @ ?form" by (simp add: combine_lemma_def)
    moreover have "lemma_rule version_latest (tk_form w) (''~'' @ ''_'' @ ''~'' @ ?form) = ''_''"
      by (rule lemma_rule_replace) simp
    ultimately show ?thesis using 2 by (simp add: restore_spaces_def version_latest_def)
  next
    case 3
    then show ?thesis using lemma_rule_replace [OF tilde] restore by (simp only:)
  next
    case 4
    have "first_char ?n \<noteq> CHR ''~''" using hd_to_nbsp [OF assms(2)] n by simp
    then show ?thesis using 4 restore lemma_rule_plain [of ?n] by metis
  qed
  then show ?thesis using tags assms(4) by (simp add: fill_word_analysis_def Let_def)
qed

lemma word_analysis_roundtrip_witness:
  "let w = (mk_word 1 ''Of'')\<lparr>w_lemma := ''o f'', w_upostag := ''A~'', w_xpostag := ''IN'', w_feats := ''C=D''\<rparr>
   in fill_word_analysis version_latest \<lparr>tl_lemma = combine_lemma 2 {''o f''} w, tl_tag = combine_tag True True w\<rparr>
      False True 2 True True (mk_word 1 ''Of'') = w"
  using word_analysis_roundtrip [where w = "(mk_word 1 ''Of'')\<lparr>w_lemma := ''o f'', w_upostag := ''A~'', w_xpostag := ''IN'', w_feats := ''C=D''\<rparr>"
    and v = "mk_word 1 ''Of''" and xpostag = True and feats = True and flat_lemmas = "{''o f''}"]
  by (simp add: can_combine_tag_def tag_separators_def mk_word_def)

text \<open>
  A lemma with a tilde can be taken for a rule: the lemma \<open>~a~b\<close> of the form \<open>b\<close> is written as it
  is and read back as \<open>a\<close>.
\<close>

lemma tilde_lemma_lost:
  "fill_word_analysis version_latest \<lparr>tl_lemma = combine_lemma 2 {} ((mk_word 1 ''b'')\<lparr>w_lemma := ''~a~b''\<rparr>), tl_tag = ''~X''\<rparr>
     False True 2 False False (mk_word 1 ''b'') = (mk_word 1 ''b'')\<lparr>w_lemma := ''a'', w_upostag := ''X''\<rparr>"
  by code_simp

end
