(* ===== verification/Conllu_Features.thy ===== *)
theory Conllu_Features
  imports Feature_Sequences Word_Analysis
begin

text \<open>
  The elementary features of the taggers that UDPipe trains,
  \<open>src/morphodita/tagger/conllu_elementary_features.h\<close>. The maps from strings to values are a
  parameter of the template, a list of functions in the order of \<open>features_map\<close>; the arrays of values
  are lists in the order of the enumerations.

  The proofs show that the loop over the characters of a form, with its ring of the last eighteen
  positions, finds the prefixes and suffixes of one to nine characters, whatever the length.
\<close>

section \<open>Model\<close>

subsection \<open>Enumerations\<close>

definition map_form :: nat where "map_form = 0"
definition map_prefix :: "nat \<Rightarrow> nat" where "map_prefix n = n"
definition map_suffix :: "nat \<Rightarrow> nat" where "map_suffix n = 9 + n"
definition map_tag :: nat where "map_tag = 19"
definition map_tag_upos :: nat where "map_tag_upos = 20"
definition map_tag_case :: nat where "map_tag_case = 21"
definition map_tag_gender :: nat where "map_tag_gender = 22"
definition map_tag_number :: nat where "map_tag_number = 23"
definition map_tag_negative :: nat where "map_tag_negative = 24"
definition map_tag_person :: nat where "map_tag_person = 25"
definition map_lemma :: nat where "map_lemma = 26"

definition tag_case :: nat where "tag_case = 2"
definition tag_gender :: nat where "tag_gender = 3"
definition tag_number :: nat where "tag_number = 4"
definition tag_negative :: nat where "tag_negative = 5"
definition tag_person :: nat where "tag_person = 6"

definition described :: "string \<Rightarrow> element_type \<Rightarrow> element_range \<Rightarrow> nat \<Rightarrow> element_description" where
  "described name kind offsets index = \<lparr>ed_name = name, ed_type = kind, ed_range = offsets, ed_index = index\<rparr>"

definition conllu_descriptions :: "element_description list" where
  "conllu_descriptions =
     [described ''Form'' Per_Form Any_Offset 0, described ''FollowingVerbTag'' Per_Form Any_Offset 1,
      described ''FollowingVerbForm'' Per_Form Any_Offset 2, described ''Num'' Per_Form Only_Current 3,
      described ''Cap'' Per_Form Only_Current 4, described ''Dash'' Per_Form Only_Current 5] @
     map (\<lambda>n. described (''Prefix'' @ show_nat n) Per_Form Only_Current (5 + n)) [1..<10] @
     map (\<lambda>n. described (''Suffix'' @ show_nat n) Per_Form Only_Current (14 + n)) [1..<10] @
     [described ''Tag'' Per_Tag Any_Offset 0, described ''TagUPos'' Per_Tag Any_Offset 1,
      described ''TagCase'' Per_Tag Any_Offset 2, described ''TagGender'' Per_Tag Any_Offset 3,
      described ''TagNumber'' Per_Tag Any_Offset 4, described ''TagNegative'' Per_Tag Any_Offset 5,
      described ''TagPerson'' Per_Tag Any_Offset 6, described ''Lemma'' Per_Tag Any_Offset 7,
      described ''PreviousVerbTag'' Dynamic Any_Offset 0, described ''PreviousVerbForm'' Dynamic Any_Offset 1]"

subsection \<open>Features of a tag\<close>

text \<open>One field \<open>Name=Value\<close>: the first equal sign counts if a character follows it.\<close>

definition tag_field :: "(string \<Rightarrow> u32) list \<Rightarrow> string \<Rightarrow> u32 list \<Rightarrow> u32 list" where
  "tag_field maps field values =
     (let name = takeWhile (\<lambda>c. c \<noteq> CHR ''='') field; value = drop (length name + 1) field in
      if length name + 1 < length field then
        if name = ''Case'' then values[tag_case := (maps ! map_tag_case) value]
        else if name = ''Gender'' then values[tag_gender := (maps ! map_tag_gender) value]
        else if name = ''Number'' then values[tag_number := (maps ! map_tag_number) value]
        else if name = ''Person'' then values[tag_person := (maps ! map_tag_person) value]
        else if name = ''Negative'' then values[tag_negative := (maps ! map_tag_negative) value]
        else values
      else values)"

function tag_fields :: "(string \<Rightarrow> u32) list \<Rightarrow> string \<Rightarrow> nat \<Rightarrow> u32 list \<Rightarrow> u32 list" where
  "tag_fields maps tag i values =
     (if i < length tag then
        let len = length (takeWhile (\<lambda>c. c \<noteq> CHR ''|'') (drop i tag)) in
        tag_fields maps tag (i + len + 1) (tag_field maps (take len (drop i tag)) values)
      else values)"
  by pat_completeness auto
termination by (relation "measure (\<lambda>(_, tag, i, _). length tag - i)") auto

declare tag_fields.simps [simp del]

text \<open>The parts of a tag are separated by its first character; an empty tag has the terminating zero there.\<close>

definition tag_features :: "(string \<Rightarrow> u32) list \<Rightarrow> u32 \<Rightarrow> string \<Rightarrow> u32 list" where
  "tag_features maps lemma_value tag =
     (let separator = (if tag = [] then CHR 0x00 else hd tag);
          find = (\<lambda>i. case str_find separator tag i of None \<Rightarrow> length tag | Some j \<Rightarrow> j);
          index = find 1;
          start = (if index \<noteq> 0 then 1 else 0);
          upos = (maps ! map_tag_upos) (take (index - start) (drop start tag));
          index = (if index < length tag then index + 1 else index);
          index = (if index < length tag then find index else index);
          index = (if index < length tag then index + 1 else index)
      in tag_fields maps tag index
           [(maps ! map_tag) tag, upos, feature_empty, feature_empty, feature_empty, feature_empty, feature_empty, lemma_value])"

text \<open>The features of all tags of a form; equal lemmas one after another share their value.\<close>

fun tags_features :: "(string \<Rightarrow> u32) list \<Rightarrow> (tagged_lemma \<times> u32 list) option \<Rightarrow> tagged_lemma list \<Rightarrow> u32 list list" where
  "tags_features maps prev [] = []"
| "tags_features maps prev (t # ts) =
     (let lemma_value = (case prev of
            Some (p, values) \<Rightarrow> if tl_lemma p = tl_lemma t then values ! 7 else (maps ! map_lemma) (tl_lemma t)
          | None \<Rightarrow> (maps ! map_lemma) (tl_lemma t));
          values = tag_features maps lemma_value (tl_tag t)
      in values # tags_features maps (Some (t, values)) ts)"

fun str_less :: "string \<Rightarrow> string \<Rightarrow> bool" where
  "str_less [] t \<longleftrightarrow> t \<noteq> []"
| "str_less (c # s) [] \<longleftrightarrow> False"
| "str_less (c # s) (d # t) \<longleftrightarrow> byte_of c < byte_of d \<or> c = d \<and> str_less s t"

definition verb_tag :: "string \<Rightarrow> bool" where
  "verb_tag tag \<longleftrightarrow> 2 \<le> length tag \<and> tag ! 1 = CHR ''V''"

definition verb_candidate :: "tagged_lemma list \<Rightarrow> nat option" where
  "verb_candidate analyses = fold (\<lambda>j candidate.
     if verb_tag (tl_tag (analyses ! j)) then
       (case candidate of
          None \<Rightarrow> Some j
        | Some c \<Rightarrow>
            if str_less (tl_tag (analyses ! j)) (tl_tag (analyses ! c)) \<or>
               tl_tag (analyses ! j) = tl_tag (analyses ! c) \<and> str_less (tl_lemma (analyses ! j)) (tl_lemma (analyses ! c))
            then Some j else candidate)
     else candidate) [0..<length analyses] None"

subsection \<open>Features of a form\<close>

definition cat_Pd :: nat where "cat_Pd = unicode_bit [13]"

record orthography =
  o_indices :: "nat list"
  o_index :: nat
  o_num :: bool
  o_cap :: bool
  o_dash :: bool
  o_prefixes :: "u32 list"

definition new_orthography :: "string \<Rightarrow> orthography" where
  "new_orthography form =
     \<lparr>o_indices = 0 # replicate 9 (length form) @ replicate 8 0, o_index = 0, o_num = False, o_cap = False, o_dash = False,
      o_prefixes = replicate 9 feature_unknown\<rparr>"

definition next_character :: "unicode_tables \<Rightarrow> (string \<Rightarrow> u32) list \<Rightarrow> string \<Rightarrow> string \<Rightarrow> orthography \<Rightarrow> string \<times> orthography" where
  "next_character u maps form rest s =
     (let indices = (o_indices s)[o_index s mod 18 := length form - length rest];
          index = o_index s + 1;
          (chr, rest') = utf8_decode rest;
          prefixes = (if index = 10 \<or> rest' = [] \<and> index < 10
            then map (\<lambda>n. (maps ! map_prefix n) (take (indices ! n) form)) [1..<10] else o_prefixes s)
      in (rest', \<lparr>o_indices = indices, o_index = index, o_num = o_num s \<or> has_category u chr cat_N,
            o_cap = o_cap s \<or> has_category u chr cat_Lut, o_dash = o_dash s \<or> has_category u chr cat_Pd,
            o_prefixes = prefixes\<rparr>))"

lemma next_character_length: "rest \<noteq> [] \<Longrightarrow> length (fst (next_character u maps form rest s)) < length rest"
  by (simp add: next_character_def Let_def split_beta utf8_decode_length)

function form_loop :: "unicode_tables \<Rightarrow> (string \<Rightarrow> u32) list \<Rightarrow> string \<Rightarrow> string \<Rightarrow> orthography \<Rightarrow> orthography" where
  "form_loop u maps form rest s =
     (if rest = [] then s else case next_character u maps form rest s of (rest', s') \<Rightarrow> form_loop u maps form rest' s')"
  by pat_completeness auto
termination
  by (relation "measure (\<lambda>(_, _, _, rest, _). length rest)")
    (auto dest: next_character_length split: prod.splits, metis fst_conv next_character_length)

declare form_loop.simps [simp del]

text \<open>The 21 values after the form and the following verb.\<close>

definition form_orthography :: "unicode_tables \<Rightarrow> (string \<Rightarrow> u32) list \<Rightarrow> string \<Rightarrow> nat \<Rightarrow> u32 list" where
  "form_orthography u maps form analyses =
     (if analyses = 1 then replicate 21 feature_unknown
      else if form = [] then replicate 3 (feature_empty + 1) @ replicate 18 feature_empty
      else
        let s = form_loop u maps form form (new_orthography form);
            flag = (\<lambda>b. feature_empty + 1 + (if b then 1 else 0))
        in [flag (o_num s), flag (o_cap s), flag (o_dash s)] @ o_prefixes s @
           map (\<lambda>n. (maps ! map_suffix n) (drop (o_indices s ! ((o_index s + 18 - n) mod 18)) form)) [1..<10])"

text \<open>The sentence from its end: features of forms and tags, and the verb that follows.\<close>

fun sentence_features :: "unicode_tables \<Rightarrow> (string \<Rightarrow> u32) list \<Rightarrow> (string \<times> tagged_lemma list) list \<Rightarrow>
    u32 list list \<times> u32 list list list \<times> u32 \<times> u32" where
  "sentence_features u maps [] = ([], [], feature_empty, feature_empty)"
| "sentence_features u maps ((form, analyses) # rest) =
     (let (per_form, per_tag, following_tag, following_form) = sentence_features u maps rest;
          tags = tags_features maps None analyses;
          form_value = (maps ! map_form) form;
          values = [form_value, following_tag, following_form] @ form_orthography u maps form (length analyses);
          (following_tag, following_form) = (case verb_candidate analyses of
             None \<Rightarrow> (following_tag, following_form) | Some c \<Rightarrow> (tags ! c ! 0, form_value))
      in (values # per_form, tags # per_tag, following_tag, following_form))"

definition conllu_compute_features :: "unicode_tables \<Rightarrow> (string \<Rightarrow> u32) list \<Rightarrow> string list \<Rightarrow> tagged_lemma list list \<Rightarrow>
    u32 list list \<times> u32 list list list" where
  "conllu_compute_features u maps words analyses =
     (case sentence_features u maps (zip words analyses) of (per_form, per_tag, _, _) \<Rightarrow> (per_form, per_tag))"

text \<open>The previous verb without and with the current word.\<close>

definition conllu_compute_dynamic :: "tagged_lemma \<Rightarrow> u32 list \<Rightarrow> u32 list \<Rightarrow> u32 list option \<Rightarrow> u32 list" where
  "conllu_compute_dynamic tag per_form per_tag prev =
     (let (previous_tag, previous_form) = (case prev of Some d \<Rightarrow> (d ! 2, d ! 3) | None \<Rightarrow> (feature_empty, feature_empty)) in
      if verb_tag (tl_tag tag) then [previous_tag, previous_form, per_tag ! 0, per_form ! 0]
      else [previous_tag, previous_form, previous_tag, previous_form])"

definition conllu_elementary :: "unicode_tables \<Rightarrow> (string \<Rightarrow> u32) list \<Rightarrow> tagged_lemma elementary" where
  "conllu_elementary u maps = \<lparr>compute_features = conllu_compute_features u maps, compute_dynamic = conllu_compute_dynamic\<rparr>"


section \<open>Prefixes and suffixes\<close>

text \<open>The characters of a form, each as the bytes the decoder takes for it.\<close>

function characters :: "string \<Rightarrow> string list" where
  "characters s = (if s = [] then []
     else let n = length s - length (snd (utf8_decode s)) in take n s # characters (drop n s))"
  by pat_completeness auto
termination by (relation "measure length") (auto dest: utf8_decode_length)

declare characters.simps [simp del]

lemma cont_byte_suffix: "cont_byte s = Some (x, s') \<Longrightarrow> \<exists>c. s = c # s'"
  by (cases s) (auto split: if_splits)

lemma utf8_decode_split: "\<exists>p. s = p @ snd (utf8_decode s)"
  by (cases s) (auto simp: Let_def dest!: cont_byte_suffix split: option.splits)

lemma characters_Nil [simp]: "characters [] = []"
  by (simp add: characters.simps)

lemma characters_decode:
  assumes "s \<noteq> []"
  obtains c where "s = c @ snd (utf8_decode s)" "c \<noteq> []" "characters s = c # characters (snd (utf8_decode s))"
proof -
  obtain c where c: "s = c @ snd (utf8_decode s)" using utf8_decode_split by blast
  have n: "length s - length (snd (utf8_decode s)) = length c" using arg_cong [OF c, of length] by simp
  have "take (length c) s = c" "drop (length c) s = snd (utf8_decode s)"
    using c by (metis append_eq_conv_conj)+
  then have "characters s = c # characters (snd (utf8_decode s))"
    using assms n by (subst characters.simps) (simp add: Let_def)
  moreover have "c \<noteq> []" using c utf8_decode_length [OF assms] by auto
  ultimately show ?thesis using that c by blast
qed

lemma concat_characters: "concat (characters s) = s"
proof (induction s rule: length_induct)
  case (1 s)
  show ?case
  proof (cases "s = []")
    case False
    obtain c where "s = c @ snd (utf8_decode s)" "characters s = c # characters (snd (utf8_decode s))"
      using characters_decode [OF False] by blast
    then show ?thesis using 1 utf8_decode_length [OF False] by (metis concat.simps(2))
  qed simp
qed

definition char_start :: "string list \<Rightarrow> nat \<Rightarrow> nat" where
  "char_start cs n = length (concat (take n cs))"

lemma take_char_start: "take (char_start cs n) (concat cs) = concat (take n cs)"
  unfolding char_start_def by (subst append_take_drop_id [of n cs, symmetric], subst concat_append) simp

lemma drop_char_start: "drop (char_start cs n) (concat cs) = concat (drop n cs)"
  unfolding char_start_def by (subst (2) append_take_drop_id [of n cs, symmetric], subst concat_append) simp

text \<open>
  The state of the loop after \<open>n\<close> of the characters \<open>cs\<close> of a form: the ring holds the starts of the
  last eighteen of them, its other places their first values.
\<close>

definition ring :: "string list \<Rightarrow> nat \<Rightarrow> nat list \<Rightarrow> bool" where
  "ring cs n indices \<longleftrightarrow> length indices = 18 \<and>
     (\<forall>m < n. n \<le> m + 18 \<longrightarrow> indices ! (m mod 18) = char_start cs m) \<and>
     (\<forall>j < 18. n \<le> j \<longrightarrow> indices ! j = (if 1 \<le> j \<and> j \<le> 9 then length (concat cs) else 0))"

lemma ring_start: "ring cs 0 (0 # replicate 9 (length (concat cs)) @ replicate 8 0)"
proof -
  have "(0 # replicate 9 (length (concat cs)) @ replicate 8 0) ! j = (if 1 \<le> j \<and> j \<le> 9 then length (concat cs) else 0)" if "j < 18" for j
    using that by (auto simp: nth_Cons nth_append split: nat.splits)
  then show ?thesis by (simp add: ring_def)
qed

lemma ring_step: "ring cs n indices \<Longrightarrow> ring cs (Suc n) (indices[n mod 18 := char_start cs n])"
proof -
  assume r: "ring cs n indices"
  have "indices[n mod 18 := char_start cs n] ! (m mod 18) = char_start cs m" if "m < Suc n" "Suc n \<le> m + 18" for m
  proof (cases "m = n")
    case True
    then show ?thesis using r by (simp add: ring_def)
  next
    case False
    have "m mod 18 \<noteq> n mod 18"
    proof
      assume "m mod 18 = n mod 18"
      then have "18 dvd n - m" using that(1) by (metis mod_eq_dvd_iff_nat less_Suc_eq_le)
      then show False using False that by (auto dest!: dvd_imp_le)
    qed
    then show ?thesis using r that False by (simp add: ring_def)
  qed
  moreover have "indices[n mod 18 := char_start cs n] ! j = (if 1 \<le> j \<and> j \<le> 9 then length (concat cs) else 0)"
    if "j < 18" "Suc n \<le> j" for j
    using r that by (simp add: ring_def)
  ultimately show ?thesis using r by (simp add: ring_def)
qed

lemma ring_prefix:
  assumes "ring cs n indices" "1 \<le> j" "j < 10" "n = 10 \<or> n < 10 \<and> n = length cs"
  shows "indices ! j = char_start cs j"
proof (cases "j < n")
  case True
  then show ?thesis using assms by (auto simp: ring_def dest!: spec [of _ j])
next
  case False
  then have "n = length cs" "n \<le> j" using assms by auto
  moreover from this have "indices ! j = length (concat cs)" using assms by (auto simp: ring_def)
  ultimately show ?thesis by (simp add: char_start_def)
qed

lemma ring_suffix:
  assumes "ring cs n indices" "1 \<le> j" "j < 10" "n = length cs" "0 < n"
  shows "indices ! ((n + 18 - j) mod 18) = char_start cs (n - j)"
proof (cases "j \<le> n")
  case True
  then have "(n + 18 - j) mod 18 = (n - j) mod 18" using assms(3) by (metis Nat.add_diff_assoc2 mod_add_self2)
  then show ?thesis using assms True by (auto simp: ring_def dest!: spec [of _ "n - j"])
next
  case False
  then have "(n + 18 - j) mod 18 = n + 18 - j" "n \<le> n + 18 - j" "10 \<le> n + 18 - j" "n + 18 - j < 18" using assms(2,3,5) by auto
  then show ?thesis using assms(1) False by (simp add: ring_def char_start_def)
qed

definition prefix_values :: "(string \<Rightarrow> u32) list \<Rightarrow> string list \<Rightarrow> u32 list" where
  "prefix_values maps cs = map (\<lambda>n. (maps ! map_prefix n) (concat (take n cs))) [1..<10]"

definition suffix_values :: "(string \<Rightarrow> u32) list \<Rightarrow> string list \<Rightarrow> u32 list" where
  "suffix_values maps cs = map (\<lambda>n. (maps ! map_suffix n) (concat (drop (length cs - n) cs))) [1..<10]"

definition any_category :: "unicode_tables \<Rightarrow> nat \<Rightarrow> string \<Rightarrow> bool" where
  "any_category u cats s \<longleftrightarrow> (\<exists>chr \<in> set (utf8_decode_all s). has_category u chr cats)"

lemma any_category_decode:
  "s \<noteq> [] \<Longrightarrow> any_category u cats s \<longleftrightarrow> has_category u (fst (utf8_decode s)) cats \<or> any_category u cats (snd (utf8_decode s))"
  by (subst any_category_def, subst utf8_decode_all.simps) (simp add: any_category_def split_beta)

definition reading :: "(string \<Rightarrow> u32) list \<Rightarrow> string list \<Rightarrow> string \<Rightarrow> orthography \<Rightarrow> bool" where
  "reading maps cs rest s \<longleftrightarrow> characters rest = drop (o_index s) cs \<and> o_index s \<le> length cs \<and>
     length (concat cs) - length rest = char_start cs (o_index s) \<and> ring cs (o_index s) (o_indices s) \<and>
     (10 \<le> o_index s \<or> rest = [] \<and> 0 < o_index s \<longrightarrow> o_prefixes s = prefix_values maps cs)"

lemma next_character_reading:
  assumes r: "reading maps cs rest s" and ne: "rest \<noteq> []" and form: "form = concat cs"
    and step: "next_character u maps form rest s = (rest', s')"
  shows "reading maps cs rest' s'" "rest' = snd (utf8_decode rest)"
    "o_num s' \<longleftrightarrow> o_num s \<or> has_category u (fst (utf8_decode rest)) cat_N"
    "o_cap s' \<longleftrightarrow> o_cap s \<or> has_category u (fst (utf8_decode rest)) cat_Lut"
    "o_dash s' \<longleftrightarrow> o_dash s \<or> has_category u (fst (utf8_decode rest)) cat_Pd"
proof -
  let ?n = "o_index s"
  let ?indices = "(o_indices s)[?n mod 18 := char_start cs ?n]"
  obtain c where c: "rest = c @ snd (utf8_decode rest)" "characters rest = c # characters (snd (utf8_decode rest))"
    using characters_decode [OF ne] by blast
  have start: "length form - length rest = char_start cs ?n" using r form by (simp add: reading_def)
  show rest': "rest' = snd (utf8_decode rest)"
    "o_num s' \<longleftrightarrow> o_num s \<or> has_category u (fst (utf8_decode rest)) cat_N"
    "o_cap s' \<longleftrightarrow> o_cap s \<or> has_category u (fst (utf8_decode rest)) cat_Lut"
    "o_dash s' \<longleftrightarrow> o_dash s \<or> has_category u (fst (utf8_decode rest)) cat_Pd"
    using step by (auto simp: next_character_def Let_def split_beta)
  have s': "o_indices s' = ?indices" "o_index s' = Suc ?n"
    "o_prefixes s' = (if Suc ?n = 10 \<or> rest' = [] \<and> Suc ?n < 10
       then map (\<lambda>n. (maps ! map_prefix n) (take (?indices ! n) form)) [1..<10] else o_prefixes s)"
    using step start by (auto simp: next_character_def Let_def split_beta)
  have dn: "drop ?n cs = c # characters rest'" using r c(2) rest'(1) by (simp add: reading_def)
  then have lt: "?n < length cs" by (metis drop_all leI list.distinct(1))
  have cn: "cs ! ?n = c" "characters rest' = drop (Suc ?n) cs"
    using dn lt by (simp_all add: Cons_nth_drop_Suc [symmetric])
  have ring: "ring cs (Suc ?n) ?indices" using r by (intro ring_step) (simp add: reading_def)
  have "length (concat cs) - length rest' = char_start cs (Suc ?n)"
  proof -
    have "length rest \<le> length (concat cs)"
    proof -
      have "rest = concat (drop ?n cs)" using concat_characters [of rest] r by (simp add: reading_def)
      then have "concat cs = concat (take ?n cs) @ rest" by (metis append_take_drop_id concat_append)
      then show ?thesis by simp
    qed
    moreover have "length rest = length c + length rest'" using c(1) rest'(1) by (metis length_append)
    moreover have "char_start cs (Suc ?n) = char_start cs ?n + length c"
      using lt cn(1) by (simp add: char_start_def take_Suc_conv_app_nth)
    ultimately show ?thesis using start form by simp
  qed
  moreover have "o_prefixes s' = prefix_values maps cs" if "10 \<le> Suc ?n \<or> rest' = []"
  proof (cases "Suc ?n = 10 \<or> rest' = [] \<and> Suc ?n < 10")
    case True
    then have "Suc ?n = 10 \<or> Suc ?n < 10 \<and> Suc ?n = length cs"
      using cn(2) lt by auto
    then have "take (?indices ! j) form = concat (take j cs)" if "1 \<le> j" "j < 10" for j
      using ring_prefix [OF ring that] take_char_start [of cs j] form by simp
    then show ?thesis using True by (simp only: s'(3) if_True prefix_values_def) (intro map_cong refl, simp)
  next
    case False
    then show ?thesis using that r s'(3) by (auto simp: reading_def)
  qed
  ultimately show "reading maps cs rest' s'"
    using ring cn(2) lt by (simp add: reading_def s'(1,2))
qed

lemma form_loop_reading:
  assumes "reading maps cs rest s" "form = concat cs"
  shows "reading maps cs [] (form_loop u maps form rest s) \<and>
    (o_num (form_loop u maps form rest s) \<longleftrightarrow> o_num s \<or> any_category u cat_N rest) \<and>
    (o_cap (form_loop u maps form rest s) \<longleftrightarrow> o_cap s \<or> any_category u cat_Lut rest) \<and>
    (o_dash (form_loop u maps form rest s) \<longleftrightarrow> o_dash s \<or> any_category u cat_Pd rest)"
  using assms
proof (induction u maps form rest s rule: form_loop.induct)
  case (1 u maps form rest s)
  show ?case
  proof (cases "rest = []")
    case True
    then show ?thesis using 1(2) by (simp add: form_loop.simps any_category_def utf8_decode_all.simps)
  next
    case False
    obtain rest' s' where n: "next_character u maps form rest s = (rest', s')" by fastforce
    have l: "form_loop u maps form rest s = form_loop u maps form rest' s'"
      using False n by (subst form_loop.simps) simp
    note r = next_character_reading [OF 1(2) False 1(3) n]
    show ?thesis using 1(1) [OF False n [symmetric] r(1) 1(3)] r(2-5) any_category_decode [OF False] unfolding l by auto
  qed
qed

section \<open>Properties\<close>

text \<open>
  C15: The orthographic features of an ambiguous form are what their names say. For any bytes, the
  values of the prefixes and suffixes of one to nine characters are those of the true prefixes and
  suffixes, the whole form where it is shorter, although the loop keeps the starts of eighteen
  characters in a ring and takes the prefixes in passing; the flags tell whether some character is a
  number, is upper or title case, or is a dash.
\<close>

theorem form_affixes:
  assumes "form \<noteq> []" "analyses \<noteq> 1"
  shows "form_orthography u maps form analyses =
    map (\<lambda>cats. if any_category u cats form then 3 else 2) [cat_N, cat_Lut, cat_Pd] @
    prefix_values maps (characters form) @ suffix_values maps (characters form)"
proof -
  let ?cs = "characters form"
  let ?s = "form_loop u maps form form (new_orthography form)"
  have start: "reading maps ?cs form (new_orthography form)"
    using ring_start [of ?cs] assms(1) by (simp add: reading_def new_orthography_def concat_characters char_start_def)
  have s: "reading maps ?cs [] ?s" "o_num ?s = any_category u cat_N form" "o_cap ?s = any_category u cat_Lut form"
      "o_dash ?s = any_category u cat_Pd form"
    using form_loop_reading [OF start concat_characters [symmetric], of u] by (auto simp: new_orthography_def)
  have n: "o_index ?s = length ?cs" using s(1) by (simp add: reading_def)
  have pos: "0 < length ?cs" using characters_decode [OF assms(1)] by (metis length_greater_0_conv list.distinct(1))
  have "drop (o_indices ?s ! ((o_index ?s + 18 - j) mod 18)) form = concat (drop (length ?cs - j) ?cs)" if "1 \<le> j" "j < 10" for j
    using ring_suffix [of ?cs "length ?cs" "o_indices ?s" j] drop_char_start [of ?cs "length ?cs - j"] that s(1) n pos
    by (simp add: reading_def concat_characters)
  then have "map (\<lambda>n. (maps ! map_suffix n) (drop (o_indices ?s ! ((o_index ?s + 18 - n) mod 18)) form)) [1..<10] = suffix_values maps ?cs"
    unfolding suffix_values_def by (intro map_cong refl) simp
  moreover have "o_prefixes ?s = prefix_values maps ?cs" using s(1) n pos by (simp add: reading_def)
  ultimately show ?thesis using assms s(2-4) by (simp add: form_orthography_def Let_def)
qed

definition sample_tables :: unicode_tables where
  "sample_tables = \<lparr>category_table = \<lambda>chr. if chr = 0x2D then 13 else 2, othercase_table = \<lambda>_. 0\<rparr>"

lemma form_affixes_witness:
  "form_orthography sample_tables (replicate 27 (\<lambda>s. of_nat (length s))) ''ab-c'' 2 =
    map (\<lambda>cats. if any_category sample_tables cats ''ab-c'' then 3 else 2) [cat_N, cat_Lut, cat_Pd] @
    prefix_values (replicate 27 (\<lambda>s. of_nat (length s))) [''a'', ''b'', ''-'', ''c''] @
    suffix_values (replicate 27 (\<lambda>s. of_nat (length s))) [''a'', ''b'', ''-'', ''c'']"
proof -
  have "characters ''ab-c'' = [''a'', ''b'', ''-'', ''c'']" by code_simp
  then show ?thesis using form_affixes [of "''ab-c''" 2 sample_tables "replicate 27 (\<lambda>s. of_nat (length s))"] by simp
qed

end
