(* ===== verification/Beam_Search.thy ===== *)
theory Beam_Search
  imports Parser
begin

text \<open>
  The beam search of \<open>src/parsito/parser/parser_nn.cpp\<close>. All configurations of the beam share
  one tree: each keeps its own heads and relations, puts them into the tree before it is used
  (\<open>refresh_tree\<close>) and takes them out afterwards (\<open>save_tree\<close>). The alternatives are kept in a
  heap with the cheapest at the front; the order of the rest is left open by the library, and here
  the heap is a list sorted by cost. The mean of the logarithms that the code computes for a new
  cost is a parameter.
\<close>

section \<open>Configurations of the beam\<close>

record 'c beam_conf =
  bc_stack :: "int list"
  bc_buffer :: "int list"
  bc_heads :: "int list"
  bc_deprels :: "string list"
  bc_cost :: 'c

definition conf_of :: "bool \<Rightarrow> tree \<Rightarrow> 'c beam_conf \<Rightarrow> configuration" where
  "conf_of single_root t b = \<lparr>c_tree = t, c_stack = bc_stack b, c_buffer = bc_buffer b, c_single_root = single_root\<rparr>"

definition refresh_node :: "int list \<Rightarrow> string list \<Rightarrow> nat \<Rightarrow> tree \<Rightarrow> tree" where
  "refresh_node heads deprels i t =
     (let t = upd (int i) (\<lambda>n. n\<lparr>n_head := heads ! i, n_deprel := deprels ! i\<rparr>) t in
      if heads ! i \<ge> 0 then upd (heads ! i) (\<lambda>n. n\<lparr>n_children := n_children n @ [int i]\<rparr>) t else t)"

definition refresh_tree :: "'c beam_conf \<Rightarrow> tree \<Rightarrow> tree" where
  "refresh_tree b t = fold (refresh_node (bc_heads b) (bc_deprels b)) [0..<length t] (map (\<lambda>n. n\<lparr>n_children := []\<rparr>) t)"

text \<open>The vectors of a configuration only grow: what is behind the nodes of this tree stays.\<close>

definition save_tree :: "tree \<Rightarrow> 'c beam_conf \<Rightarrow> 'c beam_conf" where
  "save_tree t b = b\<lparr>bc_heads := map n_head t @ drop (length t) (bc_heads b),
     bc_deprels := map n_deprel t @ drop (length t) (bc_deprels b)\<rparr>"

section \<open>The table of embeddings\<close>

text \<open>For every node and extractor the value last seen and its id; a lookup is made for a new value only.\<close>

type_synonym value_table = "(string \<times> int) list list"

definition init_table :: "unicode_tables \<Rightarrow> parser_nn \<Rightarrow> tree \<Rightarrow> value_table" where
  "init_table u p t = map (\<lambda>n. map2 (\<lambda>value em. (extract_value value n, lookup_word u em (extract_value value n)))
     (pn_values p) (pn_embeddings p)) t"

definition update_row :: "unicode_tables \<Rightarrow> parser_nn \<Rightarrow> tree_node \<Rightarrow> (string \<times> int) list \<Rightarrow> (string \<times> int) list" where
  "update_row u p n row =
     map2 (\<lambda>(value, em) (seen, i). let word = extract_value value n in
         if word \<noteq> seen then (word, lookup_word u em word) else (seen, i))
       (zip (pn_values p) (pn_embeddings p)) row"

definition update_table :: "unicode_tables \<Rightarrow> parser_nn \<Rightarrow> tree \<Rightarrow> value_table \<Rightarrow> value_table" where
  "update_table u p t table = map2 (update_row u p) t table"

section \<open>Alternatives\<close>

record 'c alternative =
  al_conf :: nat
  al_transition :: int
  al_cost :: 'c

definition push_alternative :: "nat \<Rightarrow> ('c :: linorder) alternative \<Rightarrow> 'c alternative list \<Rightarrow> 'c alternative list" where
  "push_alternative beam_size a heap =
     (if length heap = beam_size then
        if al_cost a \<le> al_cost (hd heap) then heap else insort_key al_cost a (tl heap)
      else insort_key al_cost a heap)"

text \<open>
  All alternatives of one configuration: itself if it is final, or one per applicable transition.
  The result has the tree, the table and the heap, and whether the configuration is final.
\<close>

definition transition_alternatives ::
  "parser_nn \<Rightarrow> ('c \<Rightarrow> nat \<Rightarrow> 'o \<Rightarrow> ('c :: linorder)) \<Rightarrow> nat \<Rightarrow> nat \<Rightarrow> nat \<Rightarrow> 'c beam_conf \<Rightarrow> configuration \<Rightarrow> 'o list \<Rightarrow>
   'c alternative list \<Rightarrow> 'c alternative list" where
  "transition_alternatives p next_cost beam_size iteration c b conf outcomes heap =
     fold (\<lambda>i heap. if system_applicable (pn_system p) conf i
         then push_alternative beam_size \<lparr>al_conf = c, al_transition = int i, al_cost = next_cost (bc_cost b) iteration (outcomes ! i)\<rparr> heap
         else heap) [0..<length outcomes] heap"

definition add_alternatives ::
  "unicode_tables \<Rightarrow> parser_nn \<Rightarrow> (int list option list \<Rightarrow> 'o list) \<Rightarrow> ('c \<Rightarrow> nat \<Rightarrow> 'o \<Rightarrow> ('c :: linorder)) \<Rightarrow>
   nat \<Rightarrow> nat \<Rightarrow> nat \<Rightarrow> 'c beam_conf \<Rightarrow> tree \<times> value_table \<times> 'c alternative list \<Rightarrow>
   (tree \<times> value_table \<times> 'c alternative list) option" where
  "add_alternatives u p network next_cost beam_size iteration c b = (\<lambda>(t, table, heap).
     (if conf_final (conf_of (pn_single_root p) t b) then
        Some (t, table, push_alternative beam_size \<lparr>al_conf = c, al_transition = -1, al_cost = bc_cost b\<rparr> heap)
      else
        (let t = refresh_tree b t; table = update_table u p t table; conf = conf_of (pn_single_root p) t b in
         case extract_nodes conf (pn_nodes p) of None \<Rightarrow> None
         | Some nodes \<Rightarrow>
           (let outcomes = network (extracted_embeddings (map (map snd) table) nodes) in
            Some (t, table, transition_alternatives p next_cost beam_size iteration c b conf outcomes heap)))))"

fun all_alternatives ::
  "unicode_tables \<Rightarrow> parser_nn \<Rightarrow> (int list option list \<Rightarrow> 'o list) \<Rightarrow> ('c \<Rightarrow> nat \<Rightarrow> 'o \<Rightarrow> ('c :: linorder)) \<Rightarrow>
   nat \<Rightarrow> nat \<Rightarrow> nat \<Rightarrow> 'c beam_conf list \<Rightarrow> tree \<times> value_table \<times> 'c alternative list \<Rightarrow>
   (tree \<times> value_table \<times> 'c alternative list) option" where
  "all_alternatives u p network next_cost beam_size iteration c [] st = Some st"
| "all_alternatives u p network next_cost beam_size iteration c (b # bs) st =
     (case add_alternatives u p network next_cost beam_size iteration c b st of None \<Rightarrow> None
      | Some st \<Rightarrow> all_alternatives u p network next_cost beam_size iteration (c + 1) bs st)"

text \<open>The configuration of an alternative, with the shared tree as it is left.\<close>

definition apply_alternative ::
  "parser_nn \<Rightarrow> 'c beam_conf list \<Rightarrow> 'c alternative \<Rightarrow> tree \<Rightarrow> ('c beam_conf \<times> tree) option" where
  "apply_alternative p bs a t =
     (let b = (bs ! al_conf a)\<lparr>bc_cost := al_cost a\<rparr> in
      if al_transition a \<ge> 0 then
        (let t = refresh_tree b t in
         case system_perform (pn_system p) (conf_of (pn_single_root p) t b) (nat (al_transition a)) of None \<Rightarrow> None
         | Some (c, _) \<Rightarrow> Some (save_tree (c_tree c) (b\<lparr>bc_stack := c_stack c, bc_buffer := c_buffer c\<rparr>), c_tree c))
      else Some (b, t))"

fun apply_alternatives ::
  "parser_nn \<Rightarrow> 'c beam_conf list \<Rightarrow> 'c alternative list \<Rightarrow> tree \<Rightarrow> ('c beam_conf list \<times> tree) option" where
  "apply_alternatives p bs [] t = Some ([], t)"
| "apply_alternatives p bs (a # as) t =
     (case apply_alternative p bs a t of None \<Rightarrow> None
      | Some (b, t) \<Rightarrow> map_option (\<lambda>(bs', t). (b # bs', t)) (apply_alternatives p bs as t))"

definition beam_step ::
  "unicode_tables \<Rightarrow> parser_nn \<Rightarrow> (int list option list \<Rightarrow> 'o list) \<Rightarrow> ('c \<Rightarrow> nat \<Rightarrow> 'o \<Rightarrow> ('c :: linorder)) \<Rightarrow>
   nat \<Rightarrow> nat \<Rightarrow> tree \<times> value_table \<times> 'c beam_conf list \<Rightarrow> (tree \<times> value_table \<times> 'c beam_conf list) option" where
  "beam_step u p network next_cost beam_size iteration = (\<lambda>(t, table, bs).
     (case all_alternatives u p network next_cost beam_size iteration 0 bs (t, table, []) of None \<Rightarrow> None
      | Some (t, table, heap) \<Rightarrow> map_option (\<lambda>(bs, t). (t, table, bs)) (apply_alternatives p bs heap t)))"

definition beam_final :: "parser_nn \<Rightarrow> 'c beam_conf list \<Rightarrow> bool" where
  "beam_final p bs \<longleftrightarrow> (\<forall>b \<in> set bs. conf_final (conf_of (pn_single_root p) [] b))"

section \<open>Putting heads into the tree and taking them out\<close>

definition saved_node :: "'c beam_conf \<Rightarrow> nat \<Rightarrow> tree \<Rightarrow> nat \<Rightarrow> tree_node" where
  "saved_node b m t k = (let n = t ! k in
     (if k < m then n\<lparr>n_head := bc_heads b ! k, n_deprel := bc_deprels b ! k\<rparr> else n)
       \<lparr>n_children := map int (filter (\<lambda>i. bc_heads b ! i = int k) [0..<m])\<rparr>)"

definition heads_ok :: "nat \<Rightarrow> 'c beam_conf \<Rightarrow> bool" where
  "heads_ok n b \<longleftrightarrow> n \<le> length (bc_heads b) \<and> n \<le> length (bc_deprels b) \<and> (\<forall>i < n. bc_heads b ! i < int n)"

lemma refresh_prefix:
  assumes "heads_ok (length t) b" "m \<le> length t"
  shows "fold (refresh_node (bc_heads b) (bc_deprels b)) [0..<m] (map (\<lambda>n. n\<lparr>n_children := []\<rparr>) t) =
    map (saved_node b m t) [0..<length t]"
  using assms(2)
proof (induction m)
  case 0
  show ?case by (intro nth_equalityI) (simp_all add: saved_node_def)
next
  case (Suc m)
  let ?h = "bc_heads b ! m"
  let ?s = "map (saved_node b m t) [0..<length t]"
  let ?s1 = "upd (int m) (\<lambda>n. n\<lparr>n_head := ?h, n_deprel := bc_deprels b ! m\<rparr>) ?s"
  have h: "?h \<ge> 0 \<Longrightarrow> nat ?h < length t" using assms(1) Suc.prems by (auto simp: heads_ok_def nat_less_iff)
  have s: "?s ! k = saved_node b m t k" if "k < length t" for k using that by simp
  have one: "?s1 ! k = (if k = m then (?s ! k)\<lparr>n_head := ?h, n_deprel := bc_deprels b ! m\<rparr> else ?s ! k)" if "k < length t" for k
    using that by (simp add: upd_def nth_list_update)
  have "refresh_node (bc_heads b) (bc_deprels b) m ?s ! k = saved_node b (Suc m) t k" if k: "k < length t" for k
  proof (cases "?h \<ge> 0 \<and> nat ?h = k")
    case True
    then have "refresh_node (bc_heads b) (bc_deprels b) m ?s ! k = (?s1 ! k)\<lparr>n_children := n_children (?s1 ! k) @ [int m]\<rparr>"
      using k h by (simp add: refresh_node_def Let_def upd_def)
    moreover have "?h = int k" using True by auto
    ultimately show ?thesis unfolding one [OF k] s [OF k]
      by (cases "k = m"; cases "k < m") (simp_all add: saved_node_def Let_def)
  next
    case False
    then have "refresh_node (bc_heads b) (bc_deprels b) m ?s ! k = ?s1 ! k"
      using k h by (auto simp: refresh_node_def Let_def upd_def nth_list_update)
    moreover have "?h \<noteq> int k" using False by auto
    ultimately show ?thesis unfolding one [OF k] s [OF k]
      by (cases "k = m"; cases "k < m") (simp_all add: saved_node_def Let_def)
  qed
  moreover have "length (refresh_node (bc_heads b) (bc_deprels b) m ?s) = length t"
    by (simp add: refresh_node_def Let_def)
  ultimately have "refresh_node (bc_heads b) (bc_deprels b) m ?s = map (saved_node b (Suc m) t) [0..<length t]"
    by (intro nth_equalityI) simp_all
  then show ?case using Suc by simp
qed

lemma refresh_tree_nodes:
  "heads_ok (length t) b \<Longrightarrow> refresh_tree b t = map (saved_node b (length t) t) [0..<length t]"
  using refresh_prefix [of t b "length t"] by (simp add: refresh_tree_def)

lemma same_words_nth:
  "same_words t t' \<Longrightarrow> k < length t \<Longrightarrow>
   (t ! k)\<lparr>n_head := h, n_deprel := d, n_children := cs\<rparr> = (t' ! k)\<lparr>n_head := h, n_deprel := d, n_children := cs\<rparr>"
proof -
  assume s: "same_words t t'" "k < length t"
  then have len: "length t = length t'" by (simp add: same_words_length)
  have "unlink_all_nodes t ! k = unlink_all_nodes t' ! k" using s(1) by (simp add: same_words_def)
  then have "(t ! k)\<lparr>n_head := -1, n_deprel := [], n_children := []\<rparr> = (t' ! k)\<lparr>n_head := -1, n_deprel := [], n_children := []\<rparr>"
    using s(2) len by (simp add: unlink_all_nodes_def)
  then show ?thesis by (cases "t ! k"; cases "t' ! k") simp
qed

lemma same_words_sym: "same_words t t' \<Longrightarrow> same_words t' t"
  by (simp add: same_words_def)

lemma refresh_tree_same_words:
  assumes "heads_ok (length t) b" "same_words t t'"
  shows "refresh_tree b t = refresh_tree b t'"
proof -
  have "heads_ok (length t') b" using assms same_words_length by metis
  moreover have "saved_node b (length t) t k = saved_node b (length t') t' k" if "k < length t" for k
    using same_words_nth [OF assms(2) that] same_words_length [OF assms(2)] that by (simp add: saved_node_def Let_def)
  ultimately show ?thesis
    using assms(1) same_words_length [OF assms(2)] by (simp add: refresh_tree_nodes)
qed

lemma length_refresh_tree: "length (refresh_tree b t) = length t"
proof -
  have "length (fold (refresh_node hs ds) is t) = length t" for hs ds "is" t
    by (induction "is" arbitrary: t) (simp_all add: refresh_node_def Let_def)
  then show ?thesis by (simp add: refresh_tree_def)
qed

lemma same_words_refresh: "same_words (refresh_tree b t) t"
proof -
  have node: "same_words (refresh_node hs ds i t) t" for hs ds i t
    by (simp add: same_words_def refresh_node_def Let_def unlink_upd unlink_all_nodes_def [of "[_]"])
  have "same_words (fold (refresh_node hs ds) is t) t" for hs ds "is" t
  proof (induction "is" arbitrary: t)
    case (Cons i "is")
    then show ?case using same_words_trans [OF Cons.IH node] by simp
  qed (simp add: same_words_def)
  moreover have "same_words (map (\<lambda>n. n\<lparr>n_children := []\<rparr>) t) t"
    by (simp add: same_words_def unlink_all_nodes_def)
  ultimately show ?thesis unfolding refresh_tree_def using same_words_trans by blast
qed

lemma save_tree_ok: "wf_tree t \<Longrightarrow> heads_ok (length t) (save_tree t b)"
proof -
  assume wf: "wf_tree t"
  have "n_head (t ! i) < int (length t)" if "i < length t" for i
    using tree.wf_head [of t "int i"] wf that by (simp add: wf_tree_def ids_def)
  then show ?thesis by (simp add: heads_ok_def save_tree_def nth_append)
qed

text \<open>
  A tree whose heads and relations are saved in a configuration comes back from it, children
  lists included, into whatever other tree over the same words the search has made meanwhile.
\<close>

theorem refresh_saved_tree:
  assumes "wf_tree t" "same_words t t'"
  shows "refresh_tree (save_tree t b) t' = t"
proof -
  have wf: "tree.wf t" using assms(1) by (simp add: wf_tree_def)
  have "refresh_tree (save_tree t b) t' = refresh_tree (save_tree t b) t"
    using refresh_tree_same_words [OF save_tree_ok [OF assms(1)] assms(2)] by metis
  also have "\<dots> = map (saved_node (save_tree t b) (length t) t) [0..<length t]"
    by (rule refresh_tree_nodes [OF save_tree_ok [OF assms(1)]])
  also have "\<dots> = t"
  proof (rule nth_equalityI)
    fix k assume "k < length (map (saved_node (save_tree t b) (length t) t) [0..<length t])"
    then have k: "k < length t" by simp
    have "n_children (t ! k) = filter (\<lambda>j. n_head (t ! nat j) = int k) (map int [0..<length t])"
      using tree.wf_children_filter [OF wf, of "int k"] k by (simp add: ids_def)
    also have "\<dots> = map int (filter (\<lambda>i. (map n_head t @ drop (length t) (bc_heads b)) ! i = int k) [0..<length t])"
      by (auto simp: filter_map comp_def nth_append intro!: filter_cong)
    finally show "map (saved_node (save_tree t b) (length t) t) [0..<length t] ! k = t ! k"
      using k by (simp add: saved_node_def save_tree_def nth_append)
  qed simp
  finally show ?thesis .
qed

lemma refresh_saved_tree_witness:
  "refresh_tree (save_tree (tree_set_head 2 1 ''det'' (add_node ''b'' (add_node ''a'' tree_clear)))
     \<lparr>bc_stack = [], bc_buffer = [], bc_heads = [], bc_deprels = [], bc_cost = (0 :: nat)\<rparr>) (add_node ''b'' (add_node ''a'' tree_clear))
   = tree_set_head 2 1 ''det'' (add_node ''b'' (add_node ''a'' tree_clear))"
proof -
  have "wf_tree (add_node ''b'' (add_node ''a'' tree_clear))" by (intro wf_tree_add_node wf_tree_clear)
  then have "wf_tree (tree_set_head 2 1 ''det'' (add_node ''b'' (add_node ''a'' tree_clear)))"
    by (rule wf_tree_set_head) (simp_all add: ids_def add_node_def tree_clear_def)
  then show ?thesis by (rule refresh_saved_tree) (rule same_words_set_head)
qed

section \<open>One round of the search\<close>

lemma conf_of_simps [simp]:
  "c_stack (conf_of s t b) = bc_stack b" "c_buffer (conf_of s t b) = bc_buffer b"
  "c_tree (conf_of s t b) = t" "c_single_root (conf_of s t b) = s"
  by (simp_all add: conf_of_def)

lemma conf_final_conf_of: "conf_final (conf_of s t b) = conf_final (conf_of s t' b)"
  by (simp add: conf_final_def)

lemma applicable_conf_of: "applicable tr (conf_of s t b) = applicable tr (conf_of s t' b)"
  by (cases tr) simp_all

lemma system_applicable_conf_of: "system_applicable sys (conf_of s t b) tr = system_applicable sys (conf_of s t' b) tr"
  unfolding system_applicable_def using applicable_conf_of by blast

text \<open>What the alternatives in the heap promise.\<close>

definition alternative_ok :: "parser_nn \<Rightarrow> 'c beam_conf list \<Rightarrow> 'c alternative \<Rightarrow> bool" where
  "alternative_ok p bs a \<longleftrightarrow> al_conf a < length bs \<and>
     (let c = conf_of (pn_single_root p) [] (bs ! al_conf a) in
      if al_transition a \<ge> 0 then \<not> conf_final c \<and> system_applicable (pn_system p) c (nat (al_transition a))
      else conf_final c)"

lemma push_alternative_set: "set (push_alternative n a heap) \<subseteq> insert a (set heap)"
  by (cases heap) (auto simp: push_alternative_def set_insort_key)

lemma insort_key_not_Nil: "insort_key f x xs \<noteq> []"
  by (cases xs) auto

lemma push_alternative_not_Nil: "0 < n \<Longrightarrow> push_alternative n a heap \<noteq> []"
  by (auto simp: push_alternative_def insort_key_not_Nil)

lemma push_fold:
  assumes "\<forall>a \<in> set heap. P a" "\<And>i. i \<in> set js \<Longrightarrow> ok i \<Longrightarrow> P (f i)"
  shows "(\<forall>a \<in> set (fold (\<lambda>i heap. if ok i then push_alternative n (f i) heap else heap) js heap). P a) \<and>
    (0 < n \<and> (heap \<noteq> [] \<or> (\<exists>i \<in> set js. ok i)) \<longrightarrow> fold (\<lambda>i heap. if ok i then push_alternative n (f i) heap else heap) js heap \<noteq> [])"
  using assms
proof (induction js arbitrary: heap)
  case (Cons i js)
  let ?heap = "if ok i then push_alternative n (f i) heap else heap"
  have "\<forall>a \<in> set ?heap. P a" using Cons.prems push_alternative_set [of n "f i" heap] by auto
  moreover have "0 < n \<and> (heap \<noteq> [] \<or> ok i) \<Longrightarrow> ?heap \<noteq> []" using push_alternative_not_Nil [of n "f i" heap] by auto
  ultimately show ?case using Cons.IH [of ?heap] Cons.prems(2) by auto
qed simp

lemma transition_alternatives_ok:
  assumes "\<forall>a \<in> set heap. alternative_ok p bs a" "c < length bs" "bs ! c = b"
    "\<not> conf_final (conf_of (pn_single_root p) t b)"
  shows "(\<forall>a \<in> set (transition_alternatives p next_cost n iteration c b (conf_of (pn_single_root p) t b) outcomes heap).
      alternative_ok p bs a) \<and>
    (0 < n \<and> (heap \<noteq> [] \<or> (\<exists>i \<in> set [0..<length outcomes]. system_applicable (pn_system p) (conf_of (pn_single_root p) t b) i)) \<longrightarrow>
      transition_alternatives p next_cost n iteration c b (conf_of (pn_single_root p) t b) outcomes heap \<noteq> [])"
proof -
  have "alternative_ok p bs \<lparr>al_conf = c, al_transition = int i, al_cost = x\<rparr>"
    if "system_applicable (pn_system p) (conf_of (pn_single_root p) t b) i" for i x
  proof -
    have "system_applicable (pn_system p) (conf_of (pn_single_root p) [] b) i"
      using that system_applicable_conf_of by metis
    moreover have "\<not> conf_final (conf_of (pn_single_root p) [] b)" using assms(4) conf_final_conf_of by blast
    ultimately show ?thesis using assms(2,3) by (simp add: alternative_ok_def Let_def)
  qed
  then show ?thesis unfolding transition_alternatives_def by (intro push_fold assms(1))
qed

lemma final_alternative_ok:
  "c < length bs \<Longrightarrow> bs ! c = b \<Longrightarrow> conf_final (conf_of (pn_single_root p) t b) \<Longrightarrow>
   alternative_ok p bs \<lparr>al_conf = c, al_transition = -1, al_cost = x\<rparr>"
  by (simp add: alternative_ok_def Let_def conf_final_def)

lemma add_alternatives_ok:
  assumes "add_alternatives u p network next_cost n iteration c b (t, table, heap) = Some (t', table', heap')"
    "\<forall>a \<in> set heap. alternative_ok p bs a" "c < length bs" "bs ! c = b"
  shows "\<forall>a \<in> set heap'. alternative_ok p bs a"
proof (cases "conf_final (conf_of (pn_single_root p) t b)")
  case True
  then have "set heap' \<subseteq> insert \<lparr>al_conf = c, al_transition = -1, al_cost = bc_cost b\<rparr> (set heap)"
    using assms(1) push_alternative_set by (fastforce simp: add_alternatives_def)
  then show ?thesis using final_alternative_ok [OF assms(3,4) True] assms(2) by blast
next
  case False
  have "\<not> conf_final (conf_of (pn_single_root p) (refresh_tree b t) b)" using False conf_final_conf_of by blast
  note ok = conjunct1 [OF transition_alternatives_ok [OF assms(2-4) this, where n = n and next_cost = next_cost and iteration = iteration]]
  obtain nodes where "extract_nodes (conf_of (pn_single_root p) (refresh_tree b t) b) (pn_nodes p) = Some nodes"
    using assms(1) False by (auto simp: add_alternatives_def Let_def split: option.splits)
  then show ?thesis
    using assms(1) False ok [of "network (extracted_embeddings (map (map snd) (update_table u p (refresh_tree b t) table)) nodes)"]
    by (auto simp: add_alternatives_def Let_def)
qed

lemma all_alternatives_ok:
  assumes "all_alternatives u p network next_cost n iteration c bs2 (t, table, heap) = Some (t', table', heap')"
    "\<forall>a \<in> set heap. alternative_ok p (bs1 @ bs2) a" "c = length bs1"
  shows "\<forall>a \<in> set heap'. alternative_ok p (bs1 @ bs2) a"
  using assms
proof (induction bs2 arbitrary: bs1 c t table heap)
  case (Cons b bs2)
  obtain t1 table1 heap1 where add: "add_alternatives u p network next_cost n iteration c b (t, table, heap) = Some (t1, table1, heap1)"
    using Cons.prems(1) by (cases "add_alternatives u p network next_cost n iteration c b (t, table, heap)") auto
  have "\<forall>a \<in> set heap1. alternative_ok p (bs1 @ b # bs2) a"
    by (rule add_alternatives_ok [OF add Cons.prems(2)]) (simp_all add: Cons.prems(3))
  then show ?case
    using Cons.IH [of "c + 1" t1 table1 heap1 "bs1 @ [b]"] Cons.prems add by simp
qed simp

text \<open>A configuration of the next beam: the same one if it is final, or a step away from one that is not.\<close>

definition beam_successor :: "parser_nn \<Rightarrow> 'c beam_conf list \<Rightarrow> 'c beam_conf \<Rightarrow> bool" where
  "beam_successor p bs b' \<longleftrightarrow> conf_final (conf_of (pn_single_root p) [] b') \<or> (\<exists>b \<in> set bs.
     \<not> conf_final (conf_of (pn_single_root p) [] b) \<and>
     (conf_of (pn_single_root p) [] b', conf_of (pn_single_root p) [] b) \<in> conf_order)"

lemma conf_order_cong:
  "c_stack c = c_stack c1 \<Longrightarrow> c_buffer c = c_buffer c1 \<Longrightarrow> c_stack d = c_stack d1 \<Longrightarrow> c_buffer d = c_buffer d1 \<Longrightarrow>
   (c, d) \<in> conf_order \<Longrightarrow> (c1, d1) \<in> conf_order"
  by (simp add: conf_order_def pending_def)

lemma apply_alternative_successor:
  assumes "apply_alternative p bs a t = Some (b', t')" "alternative_ok p bs a"
  shows "beam_successor p bs b'"
proof -
  let ?b = "bs ! al_conf a"
  let ?s = "pn_single_root p"
  have mem: "?b \<in> set bs" using assms(2) by (simp add: alternative_ok_def)
  show ?thesis
  proof (cases "al_transition a \<ge> 0")
    case False
    then have "bc_stack b' = bc_stack ?b" "bc_buffer b' = bc_buffer ?b"
      using assms(1) by (auto simp: apply_alternative_def)
    then show ?thesis using False assms(2) mem by (auto simp: alternative_ok_def beam_successor_def conf_final_def Let_def)
  next
    case True
    let ?b1 = "?b\<lparr>bc_cost := al_cost a\<rparr>"
    let ?c = "conf_of ?s (refresh_tree ?b1 t) ?b1"
    obtain c' child where c': "system_perform (pn_system p) ?c (nat (al_transition a)) = Some (c', child)"
        "b' = save_tree (c_tree c') (?b1\<lparr>bc_stack := c_stack c', bc_buffer := c_buffer c'\<rparr>)"
      using assms(1) True by (auto simp: apply_alternative_def Let_def split: option.splits)
    then have "(c', ?c) \<in> conf_order"
      using effect_decreases by (auto simp: system_perform_Some) (metis fst_conv)
    then have "(conf_of ?s [] b', conf_of ?s [] ?b) \<in> conf_order"
      by (rule conf_order_cong [rotated 4]) (simp_all add: c'(2) save_tree_def)
    then show ?thesis using True assms(2) mem by (auto simp: alternative_ok_def beam_successor_def Let_def)
  qed
qed

lemma apply_alternatives_successors:
  "apply_alternatives p bs as t = Some (bs', t') \<Longrightarrow> \<forall>a \<in> set as. alternative_ok p bs a \<Longrightarrow> \<forall>b' \<in> set bs'. beam_successor p bs b'"
proof (induction as arbitrary: t bs' t')
  case (Cons a as)
  then show ?case using apply_alternative_successor [of p bs a t]
    by (fastforce split: option.splits prod.splits)
qed simp

definition beam_order :: "parser_nn \<Rightarrow> ('c beam_conf list \<times> 'c beam_conf list) set" where
  "beam_order p = inv_image (mult conf_order) (\<lambda>bs. mset (filter (\<lambda>c. \<not> conf_final c) (map (conf_of (pn_single_root p) []) bs)))"

lemma wf_beam_order: "wf (beam_order p)"
  by (simp add: beam_order_def wf_mult wf_conf_order)

lemma beam_step_decreases:
  assumes "beam_step u p network next_cost n iteration (t, table, bs) = Some (t', table', bs')" "\<not> beam_final p bs"
  shows "(bs', bs) \<in> beam_order p"
proof -
  obtain t1 table1 heap where all: "all_alternatives u p network next_cost n iteration 0 bs (t, table, []) = Some (t1, table1, heap)"
    using assms(1) by (auto simp: beam_step_def split: option.splits)
  then have "apply_alternatives p bs heap t1 = Some (bs', t')" using assms(1) by (auto simp: beam_step_def)
  moreover have "\<forall>a \<in> set heap. alternative_ok p bs a" using all_alternatives_ok [OF all, of "[]"] by simp
  ultimately have succ: "\<forall>b' \<in> set bs'. beam_successor p bs b'" by (rule apply_alternatives_successors)
  let ?f = "\<lambda>bs. mset (filter (\<lambda>c. \<not> conf_final c) (map (conf_of (pn_single_root p) []) bs))"
  have "?f bs \<noteq> {#}" using assms(2) by (auto simp: beam_final_def filter_empty_conv)
  moreover have "\<forall>k \<in># ?f bs'. \<exists>j \<in># ?f bs. (k, j) \<in> conf_order"
    using succ by (fastforce simp: beam_successor_def)
  ultimately have "({#} + ?f bs', {#} + ?f bs) \<in> mult conf_order" by (rule one_step_implies_mult)
  then show ?thesis by (simp add: beam_order_def)
qed

section \<open>The search\<close>

text \<open>
  The loop; the round in which all configurations are final is its last. \<open>None\<close> as in the greedy
  search, and when the beam is left without a configuration.
\<close>

definition best_conf :: "('c :: linorder) beam_conf list \<Rightarrow> nat" where
  "best_conf bs = fold (\<lambda>i best. if bc_cost (bs ! i) > bc_cost (bs ! best) then i else best) [1..<length bs] 0"

function beam_loop ::
  "unicode_tables \<Rightarrow> parser_nn \<Rightarrow> (int list option list \<Rightarrow> 'o list) \<Rightarrow> ('c \<Rightarrow> nat \<Rightarrow> 'o \<Rightarrow> ('c :: linorder)) \<Rightarrow>
   nat \<Rightarrow> nat \<Rightarrow> tree \<times> value_table \<times> 'c beam_conf list \<Rightarrow> (tree \<times> value_table \<times> 'c beam_conf list) option" where
  "beam_loop u p network next_cost n iteration st =
     (case beam_step u p network next_cost n iteration st of None \<Rightarrow> None
      | Some st' \<Rightarrow> if beam_final p (snd (snd st)) then Some st' else beam_loop u p network next_cost n (iteration + 1) st')"
  by pat_completeness auto
termination
proof (relation "inv_image (same_fst (\<lambda>_. True) beam_order) (\<lambda>(u, p, network, next_cost, n, iteration, st). (p, snd (snd st)))", goal_cases)
  case 1
  show ?case by (intro wf_inv_image wf_same_fst wf_beam_order)
next
  case (2 u p network next_cost n iteration st st')
  then show ?case using beam_step_decreases [of u p network next_cost n iteration] by (cases st; cases st') auto
qed

declare beam_loop.simps [simp del]

text \<open>The tree of the best configuration, with its cost.\<close>

definition beam_search ::
  "unicode_tables \<Rightarrow> parser_nn \<Rightarrow> (int list option list \<Rightarrow> 'o list) \<Rightarrow> ('c \<Rightarrow> nat \<Rightarrow> 'o \<Rightarrow> ('c :: linorder)) \<Rightarrow> 'c \<Rightarrow>
   nat \<Rightarrow> tree \<Rightarrow> (tree \<times> 'c) option" where
  "beam_search u p network next_cost zero n t =
     (let c = conf_init (pn_single_root p) t;
          b = save_tree (c_tree c) \<lparr>bc_stack = c_stack c, bc_buffer = c_buffer c, bc_heads = [], bc_deprels = [], bc_cost = zero\<rparr>
      in case beam_loop u p network next_cost n 0 (c_tree c, init_table u p (c_tree c), [b]) of None \<Rightarrow> None
         | Some (t, _, bs) \<Rightarrow> if bs = [] then None else Some (refresh_tree (bs ! best_conf bs) t, bc_cost (bs ! best_conf bs)))"

definition parse_beam_search ::
  "unicode_tables \<Rightarrow> parser_nn \<Rightarrow> (int list option list \<Rightarrow> 'o list) \<Rightarrow> ('c \<Rightarrow> nat \<Rightarrow> 'o \<Rightarrow> ('c :: linorder)) \<Rightarrow> 'c \<Rightarrow>
   nat \<Rightarrow> tree \<Rightarrow> tree option" where
  "parse_beam_search u p network next_cost zero n t = map_option fst (beam_search u p network next_cost zero n t)"

section \<open>The beam search returns a dependency tree\<close>

text \<open>The invariant of a configuration of the beam, over the words of the sentence \<open>t\<close>.\<close>

definition beam_conf_ok :: "parser_nn \<Rightarrow> tree \<Rightarrow> 'c beam_conf \<Rightarrow> bool" where
  "beam_conf_ok p t b \<longleftrightarrow> heads_ok (length t) b \<and> conf_inv (conf_of (pn_single_root p) (refresh_tree b t) b)"

lemma beam_conf_ok_same: "beam_conf_ok p t b \<Longrightarrow> same_words t' t \<Longrightarrow> beam_conf_ok p t' b"
proof -
  assume ok: "beam_conf_ok p t b" and same: "same_words t' t"
  have len: "length t' = length t" by (rule same_words_length [OF same])
  then have "refresh_tree b t' = refresh_tree b t"
    using ok same by (intro refresh_tree_same_words) (simp_all add: beam_conf_ok_def)
  then show ?thesis using ok by (simp add: beam_conf_ok_def len)
qed

lemma beam_conf_ok_cost: "beam_conf_ok p t (b\<lparr>bc_cost := x\<rparr>) = beam_conf_ok p t b"
  by (simp add: beam_conf_ok_def heads_ok_def refresh_tree_def conf_of_def)

lemma add_alternatives_returns:
  assumes "parser_ok nm p network" "beam_conf_ok p t b" "same_words t1 t" "0 < n"
  shows "\<exists>t' table' heap'. add_alternatives u p network next_cost n iteration c b (t1, table, heap) = Some (t', table', heap') \<and>
    same_words t' t \<and> heap' \<noteq> []"
proof (cases "conf_final (conf_of (pn_single_root p) t1 b)")
  case True
  then show ?thesis using assms(3,4) push_alternative_not_Nil by (simp add: add_alternatives_def)
next
  case False
  let ?c = "conf_of (pn_single_root p) (refresh_tree b t1) b"
  have inv: "conf_inv ?c" using beam_conf_ok_same [OF assms(2,3)] by (simp add: beam_conf_ok_def)
  then have wf: "conf_wf ?c" by (simp add: conf_inv_def)
  have nonfinal: "\<not> conf_final ?c" using False conf_final_conf_of by blast
  obtain nodes where nodes: "extract_nodes ?c (pn_nodes p) = Some nodes"
    using extract_nodes_range [OF wf, of "pn_nodes p"] assms(1) by (auto simp: parser_ok_def)
  let ?out = "network (extracted_embeddings (map (map snd) (update_table u p (refresh_tree b t1) table)) nodes)"
  have "\<exists>i < length ?out. system_applicable (pn_system p) ?c i"
    using transitions_progress [of nm "pn_labels p" "pn_system p" ?c] assms(1) wf nonfinal
    by (auto simp: parser_ok_def conf_wf_def)
  then have "transition_alternatives p next_cost n iteration c b ?c ?out heap \<noteq> []"
    using push_fold [where heap = heap and P = "\<lambda>_. True" and js = "[0..<length ?out]"
        and ok = "system_applicable (pn_system p) ?c" and n = n
        and f = "\<lambda>i. \<lparr>al_conf = c, al_transition = int i, al_cost = next_cost (bc_cost b) iteration (?out ! i)\<rparr>"] assms(4)
    unfolding transition_alternatives_def by auto
  moreover have "same_words (refresh_tree b t1) t" using same_words_refresh assms(3) same_words_trans by blast
  ultimately show ?thesis using False nodes by (simp add: add_alternatives_def Let_def)
qed

lemma all_alternatives_returns:
  assumes "parser_ok nm p network" "0 < n"
  shows "\<forall>b \<in> set bs. beam_conf_ok p t b \<Longrightarrow> same_words t1 t \<Longrightarrow>
    \<exists>t' table' heap'. all_alternatives u p network next_cost n iteration c bs (t1, table, heap) = Some (t', table', heap') \<and>
      same_words t' t \<and> (heap \<noteq> [] \<or> bs \<noteq> [] \<longrightarrow> heap' \<noteq> [])"
proof (induction bs arbitrary: c t1 table heap)
  case (Cons b bs)
  obtain t2 table2 heap2 where "add_alternatives u p network next_cost n iteration c b (t1, table, heap) = Some (t2, table2, heap2)"
      "same_words t2 t" "heap2 \<noteq> []"
    using add_alternatives_returns [OF assms(1) _ Cons.prems(2) assms(2), of b] Cons.prems(1) by fastforce
  then show ?case using Cons.IH [of t2 "c + 1" table2 heap2] Cons.prems(1) by auto
qed simp

lemma apply_alternative_returns:
  assumes "alternative_ok p bs a" "\<forall>b \<in> set bs. beam_conf_ok p t b" "same_words t1 t"
  shows "\<exists>b' t'. apply_alternative p bs a t1 = Some (b', t') \<and> same_words t' t \<and> beam_conf_ok p t b'"
proof -
  let ?s = "pn_single_root p"
  let ?old = "bs ! al_conf a" and ?b = "(bs ! al_conf a)\<lparr>bc_cost := al_cost a\<rparr>"
  have "?old \<in> set bs" using assms(1) by (simp add: alternative_ok_def)
  then have ok: "beam_conf_ok p t ?b" using assms(2) by (simp add: beam_conf_ok_cost)
  show ?thesis
  proof (cases "al_transition a \<ge> 0")
    case False
    then show ?thesis using ok assms(3) by (simp add: apply_alternative_def)
  next
    case True
    let ?t = "refresh_tree ?b t1"
    let ?c = "conf_of ?s ?t ?b" and ?tr = "pn_system p ! nat (al_transition a)"
    have inv: "conf_inv ?c" using beam_conf_ok_same [OF ok assms(3)] by (simp add: beam_conf_ok_def)
    have "system_applicable (pn_system p) (conf_of ?s [] ?old) (nat (al_transition a))"
      using assms(1) True by (simp add: alternative_ok_def Let_def)
    moreover have "conf_of ?s [] ?old = conf_of ?s [] ?b" by (simp add: conf_of_def)
    ultimately have app: "system_applicable (pn_system p) ?c (nat (al_transition a))" using system_applicable_conf_of by metis
    then have tr: "applicable ?tr ?c" by (simp add: system_applicable_def)
    obtain c' child where c': "effect ?tr ?c = (c', child)" by fastforce
    have perform: "system_perform (pn_system p) ?c (nat (al_transition a)) = Some (c', child)"
      using app c' by (simp add: system_perform_Some system_applicable_def)
    have inv': "conf_inv c'" "c_single_root c' = ?s" using effect_inv [OF tr inv] by (simp_all add: c')
    have same: "same_words (c_tree c') t"
      using same_words_effect [of ?tr ?c] same_words_refresh [of ?b t1] assms(3) by (auto simp: c' intro: same_words_trans)
    let ?b' = "save_tree (c_tree c') (?b\<lparr>bc_stack := c_stack c', bc_buffer := c_buffer c'\<rparr>)"
    have wf: "wf_tree (c_tree c')" using inv'(1) by (simp add: conf_inv_def conf_wf_def forest_def)
    have "refresh_tree ?b' t = c_tree c'" by (rule refresh_saved_tree [OF wf same])
    moreover have "conf_of ?s (c_tree c') ?b' = c'" using inv'(2) by (cases c') (simp add: conf_of_def save_tree_def)
    ultimately have "beam_conf_ok p t ?b'"
      using inv'(1) save_tree_ok [OF wf] same_words_length [OF same] unfolding beam_conf_ok_def by metis
    then show ?thesis using True perform same by (simp add: apply_alternative_def Let_def)
  qed
qed

lemma apply_alternatives_returns:
  "\<forall>a \<in> set as. alternative_ok p bs a \<Longrightarrow> \<forall>b \<in> set bs. beam_conf_ok p t b \<Longrightarrow> same_words t1 t \<Longrightarrow>
   \<exists>bs' t'. apply_alternatives p bs as t1 = Some (bs', t') \<and> same_words t' t \<and> (\<forall>b \<in> set bs'. beam_conf_ok p t b) \<and>
     length bs' = length as"
proof (induction as arbitrary: t1)
  case (Cons a as)
  obtain b' t' where "apply_alternative p bs a t1 = Some (b', t')" "same_words t' t" "beam_conf_ok p t b'"
    using apply_alternative_returns [OF bspec [OF Cons.prems(1)] Cons.prems(2,3), of a] by auto
  moreover obtain bs' t'' where "apply_alternatives p bs as t' = Some (bs', t'')" "same_words t'' t"
      "\<forall>b \<in> set bs'. beam_conf_ok p t b" "length bs' = length as"
    using Cons.IH [of t'] Cons.prems(1,2) calculation by auto
  ultimately show ?case by simp
qed simp

lemma beam_step_returns:
  assumes "parser_ok nm p network" "0 < n" "\<forall>b \<in> set bs. beam_conf_ok p t b" "same_words t1 t" "bs \<noteq> []"
  shows "\<exists>t' table' bs'. beam_step u p network next_cost n iteration (t1, table, bs) = Some (t', table', bs') \<and>
    same_words t' t \<and> (\<forall>b \<in> set bs'. beam_conf_ok p t b) \<and> bs' \<noteq> []"
proof -
  obtain t2 table2 heap where all: "all_alternatives u p network next_cost n iteration 0 bs (t1, table, []) = Some (t2, table2, heap)"
      "same_words t2 t" "heap \<noteq> []"
    using all_alternatives_returns [OF assms(1-4)] assms(5) by metis
  have "\<forall>a \<in> set heap. alternative_ok p bs a" using all_alternatives_ok [OF all(1), of "[]"] by simp
  from apply_alternatives_returns [OF this assms(3) all(2)] show ?thesis
    using all(1,3) by (auto simp: beam_step_def)
qed

lemma beam_loop_returns:
  assumes "parser_ok nm p network" "0 < n" "\<forall>b \<in> set (snd (snd st)). beam_conf_ok p t b" "same_words (fst st) t" "snd (snd st) \<noteq> []"
  shows "\<exists>t' table' bs'. beam_loop u p network next_cost n iteration st = Some (t', table', bs') \<and>
    same_words t' t \<and> (\<forall>b \<in> set bs'. beam_conf_ok p t b) \<and> bs' \<noteq> [] \<and> beam_final p bs'"
  using assms
proof (induction u p network next_cost n iteration st rule: beam_loop.induct)
  case (1 u p network next_cost n iteration st)
  obtain t1 table bs where st: "st = (t1, table, bs)" by (cases st)
  obtain t2 table2 bs2 where step: "beam_step u p network next_cost n iteration st = Some (t2, table2, bs2)"
      "same_words t2 t" "\<forall>b \<in> set bs2. beam_conf_ok p t b" "bs2 \<noteq> []"
    using beam_step_returns [of nm p network n bs t t1 u next_cost iteration table] 1(2-6) by (auto simp: st)
  show ?case
  proof (cases "beam_final p bs")
    case True
    have "beam_final p bs2"
    proof -
      obtain t3 table3 heap where all: "all_alternatives u p network next_cost n iteration 0 bs (t1, table, []) = Some (t3, table3, heap)"
        using step(1) by (auto simp: beam_step_def st split: option.splits)
      then have "apply_alternatives p bs heap t3 = Some (bs2, t2)" using step(1) by (auto simp: beam_step_def st)
      moreover have "\<forall>a \<in> set heap. alternative_ok p bs a" using all_alternatives_ok [OF all, of "[]"] by simp
      ultimately have "\<forall>b' \<in> set bs2. beam_successor p bs b'" by (rule apply_alternatives_successors)
      then show ?thesis using True by (auto simp: beam_successor_def beam_final_def)
    qed
    then show ?thesis using True step by (subst beam_loop.simps) (auto simp: st)
  next
    case False
    then have "\<exists>t' table' bs'. beam_loop u p network next_cost n (iteration + 1) (t2, table2, bs2) = Some (t', table', bs') \<and>
        same_words t' t \<and> (\<forall>b \<in> set bs'. beam_conf_ok p t b) \<and> bs' \<noteq> [] \<and> beam_final p bs'"
      using 1(1) [OF step(1)] 1(2,3) step by (simp add: st)
    then show ?thesis using False step(1) by (subst beam_loop.simps) (simp add: st)
  qed
qed

lemma best_conf_less: "bs \<noteq> [] \<Longrightarrow> best_conf bs < length bs"
proof -
  assume "bs \<noteq> []"
  moreover have "fold (\<lambda>i best. if bc_cost (bs ! i) > bc_cost (bs ! best) then i else best) js k < length bs"
    if "k < length bs" "\<forall>j \<in> set js. j < length bs" for js k
    using that by (induction js arbitrary: k) auto
  ultimately show ?thesis by (simp add: best_conf_def)
qed

text \<open>
  So does the beam search: although its configurations share one tree, with a well-formed model
  it ends for every beam and every cost, and the tree of the best configuration is a dependency
  tree over the same words, with a single root if the model asks for one.
\<close>

lemma parse_beam_search_tree:
  assumes "parser_ok nm p network" "wf_tree t" "0 < n"
  shows "\<exists>t'. parse_beam_search u p network next_cost zero n t = Some t' \<and> dependency_tree t' \<and> same_words t' t \<and>
    (pn_single_root p \<and> length t > 1 \<longrightarrow> single_rooted t')"
proof -
  let ?s = "pn_single_root p"
  let ?c = "conf_init ?s t"
  let ?b = "save_tree (c_tree ?c) \<lparr>bc_stack = c_stack ?c, bc_buffer = c_buffer ?c, bc_heads = [], bc_deprels = [], bc_cost = zero\<rparr>"
  have inv: "conf_inv ?c" "c_single_root ?c = ?s" "c_tree ?c = unlink_all_nodes t"
    using conf_init_wf [OF assms(2), of ?s] by (simp_all add: conf_inv_def conf_init_def Let_def)
  have wf: "wf_tree (c_tree ?c)" using inv(1) by (simp add: conf_inv_def conf_wf_def forest_def)
  have same: "same_words (c_tree ?c) t" by (simp add: inv(3) same_words_unlink)
  have "refresh_tree ?b t = c_tree ?c" by (rule refresh_saved_tree [OF wf same])
  moreover have "conf_of ?s (c_tree ?c) ?b = ?c" using inv(2) by (cases ?c) (simp add: conf_of_def save_tree_def)
  ultimately have ok: "beam_conf_ok p t ?b"
    using inv(1) save_tree_ok [OF wf] same_words_length [OF same] unfolding beam_conf_ok_def by metis
  obtain t1 table bs where loop: "beam_loop u p network next_cost n 0 (c_tree ?c, init_table u p (c_tree ?c), [?b]) = Some (t1, table, bs)"
      "same_words t1 t" "\<forall>b \<in> set bs. beam_conf_ok p t b" "bs \<noteq> []" "beam_final p bs"
    using beam_loop_returns [OF assms(1,3), of "(c_tree ?c, init_table u p (c_tree ?c), [?b])" t u next_cost 0] ok same by auto
  let ?best = "bs ! best_conf bs"
  have best: "?best \<in> set bs" using best_conf_less [OF loop(4)] by simp
  let ?d = "conf_of ?s (refresh_tree ?best t1) ?best"
  have d: "conf_inv ?d" using beam_conf_ok_same [OF bspec [OF loop(3) best] loop(2)] by (simp add: beam_conf_ok_def)
  have "conf_final (conf_of ?s [] ?best)" using loop(5) best by (simp add: beam_final_def)
  then have fin: "conf_final ?d" using conf_final_conf_of by blast
  have words: "same_words (refresh_tree ?best t1) t" using same_words_refresh loop(2) same_words_trans by blast
  have "parse_beam_search u p network next_cost zero n t = Some (refresh_tree ?best t1)"
    using loop(1,4) by (simp add: parse_beam_search_def beam_search_def Let_def)
  then show ?thesis
    using final_tree [OF d fin] final_single_root [OF d fin] words same_words_length [OF words] by auto
qed

lemma parse_beam_search_tree_witness:
  "\<forall>u. \<exists>t'. parse_beam_search u sample_parser (\<lambda>_. replicate 6 (0 :: nat)) (\<lambda>c i out. c + out) 0 2 (add_node ''a'' tree_clear) = Some t' \<and>
     single_rooted t'"
  using parse_beam_search_tree [OF sample_parser_ok wf_tree_add_node [OF wf_tree_clear], of 2 _ "\<lambda>c i out. c + out" 0 "''a''"]
  by (auto simp: sample_parser_def add_node_def tree_clear_def)

text \<open>\<open>parse\<close>: a beam of one configuration or none is the greedy search.\<close>

definition parse ::
  "unicode_tables \<Rightarrow> parser_nn \<Rightarrow> (int list option list \<Rightarrow> ('o :: linorder) list) \<Rightarrow> ('c \<Rightarrow> nat \<Rightarrow> 'o \<Rightarrow> ('c :: linorder)) \<Rightarrow> 'c \<Rightarrow>
   nat \<Rightarrow> tree \<Rightarrow> tree option" where
  "parse u p network next_cost zero beam_size t =
     (if beam_size > 1 then parse_beam_search u p network next_cost zero beam_size t else parse_greedy u p network t)"

lemma parse_tree:
  assumes "parser_ok nm p network" "wf_tree t"
  shows "\<exists>t'. parse u p network next_cost zero beam_size t = Some t' \<and> dependency_tree t' \<and> same_words t' t \<and>
    (pn_single_root p \<and> length t > 1 \<longrightarrow> single_rooted t')"
proof (cases "beam_size > 1")
  case True
  then show ?thesis using parse_beam_search_tree [OF assms, of beam_size u next_cost zero] by (simp add: parse_def)
next
  case False
  then show ?thesis using parse_greedy_tree [OF assms, of u] by (simp add: parse_def)
qed

end
