(* ===== verification/Pipeline.thy ===== *)
theory Pipeline
  imports Formats
begin

text \<open>
  The processing pipeline: \<open>src/model/pipeline.h\<close> and \<open>pipeline.cpp\<close>, over the interface of
  \<open>src/model/model.h\<close>. A reader gives sentences block by block, the model tags and parses them and a
  writer prints them. The tokenizer, the tagger and the parser of a model are the functions of a
  record here; readers and writers are the ones of \<open>src/sentence\<close>.

  The proofs show that a CoNLL-U document is processed sentence by sentence: what is written is the
  annotation of the sentences in their order, the first error stops the run behind the sentences
  before it, and without tagger and parser a document comes out as it went in.
\<close>

section \<open>Model\<close>

text \<open>A tokenizer is an \<open>input_format\<close>; the type \<open>'t\<close> is its state.\<close>

record 't tokenizer_ops =
  to_read_block :: "'t \<Rightarrow> string \<Rightarrow> (string \<times> string) option"
  to_reset_document :: "string \<Rightarrow> 't \<Rightarrow> 't"
  to_set_text :: "string \<Rightarrow> 't \<Rightarrow> 't"
  to_next_sentence :: "'t \<Rightarrow> (sentence option result \<times> 't) option"

record 't udpipe_model = "'t tokenizer_ops" +
  m_new_tokenizer :: "string \<Rightarrow> 't option"
  m_tag :: "sentence \<Rightarrow> string \<Rightarrow> sentence result"
  m_parse :: "sentence \<Rightarrow> string \<Rightarrow> sentence result"

subsection \<open>Readers\<close>

datatype 't document_reader =
    Tokenizer_Reader 't
  | Conllu_Reader nat string
  | Horizontal_Reader line_reader
  | Vertical_Reader line_reader

text \<open>The generic tokenizer of an input format is a parameter, given its three options.\<close>

fun reader_of :: "(bool \<Rightarrow> bool \<Rightarrow> bool \<Rightarrow> 't) \<Rightarrow> input_kind \<Rightarrow> 't document_reader" where
  "reader_of generic (Conllu_Input version) = Conllu_Reader version []"
| "reader_of generic (Generic_Tokenizer_Input normalized by_range lines) =
     Tokenizer_Reader (generic normalized by_range lines)"
| "reader_of generic Horizontal_Input = Horizontal_Reader (reset_document [])"
| "reader_of generic Vertical_Input = Vertical_Reader (reset_document [])"

fun reader_read_block :: "('t, 'm) tokenizer_ops_scheme \<Rightarrow> 't document_reader \<Rightarrow> string \<Rightarrow> (string \<times> string) option" where
  "reader_read_block m (Tokenizer_Reader t) stream = to_read_block m t stream"
| "reader_read_block m (Conllu_Reader version old) stream = getpara stream"
| "reader_read_block m (Horizontal_Reader r) stream = map_option (\<lambda>(line, stream). (line @ [lf], stream)) (getline stream)"
| "reader_read_block m (Vertical_Reader r) stream = getpara stream"

fun reader_reset :: "('t, 'm) tokenizer_ops_scheme \<Rightarrow> string \<Rightarrow> 't document_reader \<Rightarrow> 't document_reader" where
  "reader_reset m i (Tokenizer_Reader t) = Tokenizer_Reader (to_reset_document m i t)"
| "reader_reset m i (Conllu_Reader version old) = Conllu_Reader version []"
| "reader_reset m i (Horizontal_Reader r) = Horizontal_Reader (reset_document i)"
| "reader_reset m i (Vertical_Reader r) = Vertical_Reader (reset_document i)"

fun reader_put :: "('t, 'm) tokenizer_ops_scheme \<Rightarrow> string \<Rightarrow> 't document_reader \<Rightarrow> 't document_reader" where
  "reader_put m block (Tokenizer_Reader t) = Tokenizer_Reader (to_set_text m block t)"
| "reader_put m block (Conllu_Reader version old) = Conllu_Reader version block"
| "reader_put m block (Horizontal_Reader r) = Horizontal_Reader (reader_set_text block r)"
| "reader_put m block (Vertical_Reader r) = Vertical_Reader (reader_set_text block r)"

fun reader_next :: "('t, 'm) tokenizer_ops_scheme \<Rightarrow> 't document_reader \<Rightarrow> (sentence option result \<times> 't document_reader) option" where
  "reader_next m (Tokenizer_Reader t) = map_option (map_prod id Tokenizer_Reader) (to_next_sentence m t)"
| "reader_next m (Conllu_Reader version old) =
     map_option (map_prod id (Conllu_Reader version)) (conllu_next_sentence version old)"
| "reader_next m (Horizontal_Reader r) = Some (map_prod id Horizontal_Reader (horizontal_next r))"
| "reader_next m (Vertical_Reader r) = Some (map_prod id Vertical_Reader (vertical_next r))"

subsection \<open>Writers\<close>

text \<open>The state of a writer: the number of sentences, and whether nothing has been written.\<close>

type_synonym sentence_writer = "output_kind \<times> nat \<times> bool"

definition new_writer :: "output_kind \<Rightarrow> sentence_writer" where
  "new_writer kind = (kind, 0, True)"

fun write_sentence :: "sentence_writer \<Rightarrow> sentence \<Rightarrow> (string \<times> sentence_writer) option" where
  "write_sentence (Conllu_Output version, n, start) s = Some (write_conllu version s, (Conllu_Output version, n, start))"
| "write_sentence (Epe_Output, n, start) s = (case write_epe n s of (t, n) \<Rightarrow> Some (t, (Epe_Output, n, start)))"
| "write_sentence (Matxin_Output, n, start) s =
     map_option (\<lambda>(t, n). (t, (Matxin_Output, n, start))) (write_matxin (length (s_words s)) n s)"
| "write_sentence (Horizontal_Output paragraphs, n, start) s =
     Some (write_horizontal paragraphs start s, (Horizontal_Output paragraphs, n, False))"
| "write_sentence (Plaintext_Output normalized, n, start) s =
     Some (write_plaintext normalized start s, (Plaintext_Output normalized, n, False))"
| "write_sentence (Vertical_Output paragraphs, n, start) s =
     Some (write_vertical paragraphs start s, (Vertical_Output paragraphs, n, False))"

fun finish_document :: "sentence_writer \<Rightarrow> string" where
  "finish_document (Matxin_Output, n, start) = fst matxin_finish_document"
| "finish_document _ = []"

subsection \<open>The pipeline\<close>

record pipeline =
  p_input :: string
  p_tokenizer :: string
  p_tagger :: string
  p_parser :: string
  p_output :: string
  p_document_id :: string
  p_immediate :: bool

definition annotator_none :: string where
  "annotator_none = ''none''"

definition set_input :: "string \<Rightarrow> pipeline \<Rightarrow> pipeline" where
  "set_input input p =
     (let p = p\<lparr>p_tokenizer := []\<rparr> in
      if input = [] then p\<lparr>p_input := ''conllu''\<rparr>
      else if input = ''tokenize'' \<or> input = ''tokenizer'' then p\<lparr>p_input := ''tokenizer''\<rparr>
      else if take 10 input = ''tokenizer='' then p\<lparr>p_input := ''tokenizer'', p_tokenizer := drop 10 input\<rparr>
      else p\<lparr>p_input := input\<rparr>)"

definition set_output :: "string \<Rightarrow> pipeline \<Rightarrow> pipeline" where
  "set_output output p = p\<lparr>p_output := (if output = [] then ''conllu'' else output)\<rparr>"

definition new_pipeline :: "string \<Rightarrow> string \<Rightarrow> string \<Rightarrow> string \<Rightarrow> pipeline" where
  "new_pipeline input tagger parser output =
     set_output output (set_input input
       \<lparr>p_input = [], p_tokenizer = [], p_tagger = tagger, p_parser = parser, p_output = [],
        p_document_id = [], p_immediate = False\<rparr>)"

definition annotate :: "('t, 'm) udpipe_model_scheme \<Rightarrow> string \<Rightarrow> string \<Rightarrow> sentence \<Rightarrow> sentence result" where
  "annotate m tagger parser s =
     (case (if tagger \<noteq> annotator_none then m_tag m s tagger else Inr s) of Inl e \<Rightarrow> Inl e
      | Inr s \<Rightarrow> if parser \<noteq> annotator_none then m_parse m s parser else Inr s)"

text \<open>
  The loops. The text a run has written comes with its outcome; \<open>None\<close> is a run that does not end.
\<close>

partial_function (option) process_sentences ::
  "('r \<Rightarrow> (sentence option result \<times> 'r) option) \<Rightarrow> (sentence \<Rightarrow> sentence result) \<Rightarrow>
   ('w \<Rightarrow> sentence \<Rightarrow> (string \<times> 'w) option) \<Rightarrow> 'r \<Rightarrow> 'w \<Rightarrow> (string \<times> ('r \<times> 'w) result) option" where
  "process_sentences next annot write r w = Option.bind (next r) (\<lambda>(outcome, r').
     (case outcome of Inl e \<Rightarrow> Some ([], Inl e)
      | Inr found \<Rightarrow>
     (case found of None \<Rightarrow> Some ([], Inr (r', w))
      | Some s \<Rightarrow>
     (case annot s of Inl e \<Rightarrow> Some ([], Inl e)
      | Inr s' \<Rightarrow> Option.bind (write w s') (\<lambda>(t, w').
          Option.bind (process_sentences next annot write r' w') (\<lambda>(u, res). Some (t @ u, res)))))))"

partial_function (option) process_blocks ::
  "(string \<Rightarrow> (string \<times> string) option) \<Rightarrow> (string \<Rightarrow> 'r \<Rightarrow> 'r) \<Rightarrow> ('r \<Rightarrow> (sentence option result \<times> 'r) option) \<Rightarrow>
   (sentence \<Rightarrow> sentence result) \<Rightarrow> ('w \<Rightarrow> sentence \<Rightarrow> (string \<times> 'w) option) \<Rightarrow> string \<Rightarrow> 'r \<Rightarrow> 'w \<Rightarrow>
   (string \<times> 'w result) option" where
  "process_blocks read_block put next annot write stream r w =
     (case read_block stream of None \<Rightarrow> Some ([], Inr w)
      | Some (block, stream') \<Rightarrow> Option.bind (process_sentences next annot write (put block r) w) (\<lambda>(t, res).
         (case res of Inl e \<Rightarrow> Some (t, Inl e)
          | Inr (r', w') \<Rightarrow> Option.bind (process_blocks read_block put next annot write stream' r' w')
              (\<lambda>(u, res). Some (t @ u, res)))))"

declare process_sentences.simps [code] process_blocks.simps [code]

definition pipeline_reader ::
  "files \<Rightarrow> (bool \<Rightarrow> bool \<Rightarrow> bool \<Rightarrow> 't) \<Rightarrow> ('t, 'm) udpipe_model_scheme \<Rightarrow> pipeline \<Rightarrow> 't document_reader result option" where
  "pipeline_reader files generic m p =
     (if p_input p = ''tokenizer'' then
        Some (case m_new_tokenizer m (p_tokenizer p) of None \<Rightarrow> Inl ''The model does not have a tokenizer!''
              | Some t \<Rightarrow> Inr (Tokenizer_Reader t))
      else map_option (\<lambda>kind. case kind of
          None \<Rightarrow> Inl (''The requested input format '' @ quoted (p_input p) @ '' does not exist!'')
        | Some kind \<Rightarrow> Inr (reader_of generic kind)) (new_input_format files (p_input p)))"

definition process ::
  "files \<Rightarrow> (bool \<Rightarrow> bool \<Rightarrow> bool \<Rightarrow> 't) \<Rightarrow> ('t, 'm) udpipe_model_scheme \<Rightarrow> pipeline \<Rightarrow> string \<Rightarrow>
   (string \<times> unit result) option" where
  "process files generic m p stream =
     Option.bind (pipeline_reader files generic m p) (\<lambda>reader.
     (case reader of Inl e \<Rightarrow> Some ([], Inl e)
      | Inr reader \<Rightarrow>
     Option.bind (new_output_format files (p_output p)) (\<lambda>writer.
     (case writer of None \<Rightarrow> Some ([], Inl (''The requested output format '' @ quoted (p_output p) @ '' does not exist!''))
      | Some kind \<Rightarrow>
     Option.bind (process_blocks (if p_immediate p then reader_read_block m reader else getwhole) (reader_put m) (reader_next m)
         (annotate m (p_tagger p) (p_parser p)) write_sentence stream
         (reader_reset m (p_document_id p) reader) (new_writer kind)) (\<lambda>(t, res).
       Some (case res of Inl e \<Rightarrow> (t, Inl e) | Inr w \<Rightarrow> (t @ finish_document w, Inr ())))))))"

section \<open>What a run writes\<close>

text \<open>The specification: sentences are annotated in their order, up to the first error.\<close>

fun annotate_all :: "(sentence \<Rightarrow> sentence result) \<Rightarrow> sentence list \<Rightarrow> sentence list \<times> unit result" where
  "annotate_all annot [] = ([], Inr ())"
| "annotate_all annot (s # ss) =
     (case annot s of Inl e \<Rightarrow> ([], Inl e)
      | Inr s' \<Rightarrow> (case annotate_all annot ss of (ss', res) \<Rightarrow> (s' # ss', res)))"

abbreviation document :: "nat \<Rightarrow> sentence list \<Rightarrow> string" where
  "document version ss \<equiv> concat (map (write_conllu version) ss)"

lemma conllu_next_end: "conllu_next_sentence version [] = Some (Inr None, [])"
  by (simp add: conllu_next_sentence_def read_conllu_loop.simps finish_sentence_def clear_sentence_def
      link_words.simps root_word_def mk_word_def sentence_empty_def)

lemma process_sentences_conllu:
  "\<forall>s \<in> set ss. conllu_ok s \<Longrightarrow>
   process_sentences (reader_next m) annot write_sentence (Conllu_Reader 2 (document 2 ss)) (Conllu_Output v, n, b) =
   Some (document v (fst (annotate_all annot ss)),
     case snd (annotate_all annot ss) of Inl e \<Rightarrow> Inl e | Inr _ \<Rightarrow> Inr (Conllu_Reader 2 [], (Conllu_Output v, n, b)))"
proof (induction ss)
  case Nil
  then show ?case by (subst process_sentences.simps) (simp add: conllu_next_end)
next
  case (Cons s ss)
  then have "conllu_next_sentence 2 (document 2 (s # ss)) = Some (Inr (Some s), document 2 ss)"
    using conllu_reads_written [of s "document 2 ss"] by simp
  moreover obtain ss' res where "annotate_all annot ss = (ss', res)" by fastforce
  ultimately show ?case using Cons
    by (cases "annot s"; cases res) (subst process_sentences.simps; simp)+
qed

lemma new_conllu_formats:
  "new_input_format files ''conllu'' = Some (Some (Conllu_Input 2))"
  "new_output_format files ''conllu'' = Some (Some (Conllu_Output 2))"
  by (simp_all add: new_input_format_def new_output_format_def format_name_def str_find_def new_conllu_input_format_def
      new_conllu_output_format_def with_options_def nv_parse_def nv_loop.simps conllu_version_def Let_def)

text \<open>A written sentence is one paragraph: non-empty lines and an empty one.\<close>

definition lines_text :: "string \<Rightarrow> bool" where
  "lines_text t \<longleftrightarrow> (\<exists>ls. (\<forall>l \<in> set ls. l \<noteq> [] \<and> lf \<notin> set l) \<and> t = concat (map (\<lambda>l. l @ [lf]) ls))"

lemma lines_text_Nil [simp]: "lines_text []"
  unfolding lines_text_def by (rule exI [of _ "[]"]) simp

lemma lines_text_line [intro]: "l \<noteq> [] \<Longrightarrow> lf \<notin> set l \<Longrightarrow> lines_text (l @ [lf])"
  unfolding lines_text_def by (rule exI [of _ "[l]"]) simp

lemma lines_text_append [simp]: "lines_text t \<Longrightarrow> lines_text u \<Longrightarrow> lines_text (t @ u)"
  unfolding lines_text_def by (metis (no_types, lifting) Un_iff concat_append map_append set_append)

lemma lines_text_concat: "\<forall>t \<in> set ts. lines_text t \<Longrightarrow> lines_text (concat ts)"
  by (induction ts) (auto intro: lines_text_append)

lemma getline_line: "lf \<notin> set l \<Longrightarrow> getline (l @ lf # r) = Some (l, r)"
  by (simp add: getline_def)

lemma getpara_loop_lines:
  "\<forall>l \<in> set ls. l \<noteq> [] \<and> lf \<notin> set l \<Longrightarrow>
   getpara_loop para (concat (map (\<lambda>l. l @ [lf]) ls) @ lf # r) = (para @ concat (map (\<lambda>l. l @ [lf]) ls) @ [lf], r)"
proof (induction ls arbitrary: para)
  case Nil
  then show ?case using getline_line [of "[]" r] by (subst getpara_loop.simps) simp
next
  case (Cons l ls)
  then show ?case
    using getline_line [of l "concat (map (\<lambda>l. l @ [lf]) ls) @ lf # r"] by (subst getpara_loop.simps) simp
qed

lemma getpara_lines: "lines_text t \<Longrightarrow> getpara (t @ lf # r) = Some (t @ [lf], r)"
  by (auto simp: lines_text_def getpara_def getpara_loop_lines)

lemma columns_line: "\<forall>c \<in> set cols. column_ok True c \<Longrightarrow> cols \<noteq> [] \<Longrightarrow> lines_text (join tab cols @ [lf])"
proof (rule lines_text_line)
  assume cols: "\<forall>c \<in> set cols. column_ok True c" "cols \<noteq> []"
  then show "join tab cols \<noteq> []" by (cases "(tab, cols)" rule: join.cases) (auto simp: column_ok_def)
  show "lf \<notin> set (join tab cols)" using no_eol_join [OF cols(1)] by (auto simp: no_eol_def)
qed

lemma column_ok_show_int [simp]: "column_ok sp (show_int i)"
  using column_ok_show_nat [of sp "nat \<bar>i\<bar>"] by (auto simp: show_int_def column_ok_def text_ok_def)

lemma column_ok_append: "column_ok sp p \<Longrightarrow> column_ok sp q \<Longrightarrow> column_ok sp (p @ q)"
  by (auto simp: column_ok_def text_ok_def)

lemma text_column: "text_ok sp v \<Longrightarrow> v \<noteq> [] \<Longrightarrow> column_ok True v"
  by (auto simp: column_ok_def text_ok_def)

lemma opt_column: "opt_ok sp v \<Longrightarrow> column_ok True (underscore_on_empty v)"
  by (rule column_ok_spaces) (rule column_ok_opt)

lemma write_word_lines: "word_ok w \<Longrightarrow> lines_text (write_word 2 i w)"
  unfolding write_word_def
  by (rule columns_line) (auto simp: word_ok_def opt_column text_column underscore_on_empty_def [of "w_lemma w"])

lemma write_mwt_lines: "mwt_ok m \<Longrightarrow> lines_text (write_mwt 2 m)"
  unfolding write_mwt_def
proof (rule columns_line)
  assume ok: "mwt_ok m"
  have "column_ok True (show_int (mwt_id_first m) @ ''-'' @ show_int (mwt_id_last m))"
    by (intro column_ok_append) (simp_all, simp add: column_ok_def text_ok_def)
  moreover have "column_ok True (underscore_on_empty (mwt_feats m))"
    using ok by (auto simp: mwt_ok_def underscore_on_empty_def column_ok_def text_ok_def)
  ultimately show "\<forall>c \<in> set [show_int (mwt_id_first m) @ ''-'' @ show_int (mwt_id_last m), write_with_spaces 2 (tk_form m),
      ''_'', ''_'', ''_'', underscore_on_empty (mwt_feats m), ''_'', ''_'', ''_'', underscore_on_empty (tk_misc m)]. column_ok True c"
    using ok by (auto simp: mwt_ok_def opt_column text_column)
qed simp

lemma write_empty_node_lines: "empty_node_ok e \<Longrightarrow> lines_text (write_empty_node i e)"
  unfolding write_empty_node_def
proof (rule columns_line)
  assume ok: "empty_node_ok e"
  have "column_ok True (show_int i @ ''.'' @ show_int (en_index e))"
    by (intro column_ok_append) (simp_all, simp add: column_ok_def text_ok_def)
  then show "\<forall>c \<in> set [show_int i @ ''.'' @ show_int (en_index e), en_form e, underscore_on_empty (en_lemma e),
     underscore_on_empty (en_upostag e), underscore_on_empty (en_xpostag e), underscore_on_empty (en_feats e),
     ''_'', ''_'', underscore_on_empty (en_deps e), underscore_on_empty (en_misc e)]. column_ok True c"
    using ok by (auto simp: empty_node_ok_def opt_column text_column underscore_on_empty_def [of "en_lemma e"])
qed simp

lemma write_nodes_lines:
  "\<forall>w \<in> set (if i = 0 then tl ws else ws). word_ok w \<Longrightarrow> \<forall>m \<in> set ms. mwt_ok m \<Longrightarrow> \<forall>e \<in> set es. empty_node_ok e \<Longrightarrow>
   0 \<le> i \<Longrightarrow> lines_text (write_nodes 2 i ws ms es)"
proof (induction "2 :: nat" i ws ms es rule: write_nodes.induct)
  case (2 i w ws ms es)
  let ?here = "i > 0 \<and> ms \<noteq> [] \<and> i = mwt_id_first (hd ms)"
  let ?es' = "dropWhile (\<lambda>e. i = en_id e) es"
  have es: "\<forall>e \<in> set (takeWhile (\<lambda>e. i = en_id e) es). empty_node_ok e" "\<forall>e \<in> set ?es'. empty_node_ok e"
    using "2.prems"(3) by (auto dest: set_takeWhileD set_dropWhileD)
  have "lines_text (write_nodes 2 (i + 1) ws (if ?here then tl ms else ms) ?es')"
    using 2(1) [of ?here ?es'] "2.prems" es(2) by (cases ms) (auto split: if_splits)
  moreover have "lines_text (concat (map (write_empty_node i) (takeWhile (\<lambda>e. i = en_id e) es)))"
    using es(1) write_empty_node_lines by (intro lines_text_concat) auto
  moreover have "0 < i \<Longrightarrow> lines_text (write_word 2 i w)" using "2.prems"(1) write_word_lines by simp
  moreover have "?here \<Longrightarrow> lines_text (write_mwt 2 (hd ms))" using "2.prems"(2) write_mwt_lines by simp
  ultimately show ?case using "2.prems"(4) by (auto simp: Let_def)
qed simp

lemma getpara_sentence: "conllu_ok s \<Longrightarrow> getpara (write_conllu 2 s @ r) = Some (write_conllu 2 s, r)"
proof -
  assume ok: "conllu_ok s"
  have "lines_text (concat (map (\<lambda>c. c @ [lf]) (s_comments s)))"
    using ok by (intro lines_text_concat) (auto simp: conllu_ok_def comment_ok_def)
  moreover have "lines_text (write_nodes 2 0 (s_words s) (s_multiword_tokens s) (s_empty_nodes s))"
    using ok by (intro write_nodes_lines) (auto simp: conllu_ok_def)
  ultimately show ?thesis
    using getpara_lines [OF lines_text_append, of "concat (map (\<lambda>c. c @ [lf]) (s_comments s))" _ r]
    by (simp add: write_conllu_def)
qed

text \<open>The two ways to cut the input into blocks: everything at once, or paragraph by paragraph.\<close>

lemma write_conllu_end: "write_conllu v s \<noteq> []" "last (write_conllu v s) = lf"
  by (simp_all add: write_conllu_def)

lemma document_end: "ss \<noteq> [] \<Longrightarrow> document v ss \<noteq> [] \<and> last (document v ss) = lf"
proof (induction ss)
  case (Cons s ss)
  then show ?case using write_conllu_end by (cases "ss = []") (simp_all add: last_append)
qed simp

lemma process_blocks_whole:
  assumes "\<forall>s \<in> set ss. conllu_ok s"
  shows "process_blocks getwhole (reader_put m) (reader_next m) annot write_sentence (document 2 ss) (Conllu_Reader 2 old) (Conllu_Output v, n, b) =
    Some (document v (fst (annotate_all annot ss)),
      case snd (annotate_all annot ss) of Inl e \<Rightarrow> Inl e | Inr _ \<Rightarrow> Inr (Conllu_Output v, n, b))"
proof (cases "ss = []")
  case True
  then show ?thesis by (subst process_blocks.simps) (simp add: getwhole_def getwhole_loop.simps getline_def)
next
  case False
  have "getwhole (document 2 ss) = Some (document 2 ss, [])" using document_end [OF False] by (intro getwhole_lines) auto
  moreover have "process_blocks getwhole (reader_put m) (reader_next m) annot write_sentence [] r w = Some ([], Inr w)" for r w
    by (subst process_blocks.simps) (simp add: getwhole_def getwhole_loop.simps getline_def)
  ultimately show ?thesis using process_sentences_conllu [OF assms, of m annot v n b]
    by (subst process_blocks.simps) (simp split: sum.split)
qed

lemma process_blocks_paragraphs:
  assumes "\<forall>s \<in> set ss. conllu_ok s"
  shows "process_blocks getpara (reader_put m) (reader_next m) annot write_sentence (document 2 ss) (Conllu_Reader 2 old) (Conllu_Output v, n, b) =
    Some (document v (fst (annotate_all annot ss)),
      case snd (annotate_all annot ss) of Inl e \<Rightarrow> Inl e | Inr _ \<Rightarrow> Inr (Conllu_Output v, n, b))"
  using assms
proof (induction ss arbitrary: old)
  case Nil
  then show ?case by (subst process_blocks.simps) (simp add: getpara_def getpara_loop.simps getline_def)
next
  case (Cons s ss)
  have "getpara (document 2 (s # ss)) = Some (write_conllu 2 s, document 2 ss)"
    using getpara_sentence [of s "document 2 ss"] Cons.prems by simp
  moreover have "process_sentences (reader_next m) annot write_sentence (Conllu_Reader 2 (write_conllu 2 s)) (Conllu_Output v, n, b) =
      Some (document v (fst (annotate_all annot [s])),
        case snd (annotate_all annot [s]) of Inl e \<Rightarrow> Inl e | Inr _ \<Rightarrow> Inr (Conllu_Reader 2 [], (Conllu_Output v, n, b)))"
    using process_sentences_conllu [of "[s]" m annot v n b] Cons.prems by simp
  moreover obtain ss' res where "annotate_all annot ss = (ss', res)" by fastforce
  ultimately show ?case using Cons
    by (cases "annot s"; cases res) (subst process_blocks.simps; simp)+
qed

lemma process_conllu_document:
  assumes "\<forall>s \<in> set ss. conllu_ok s"
  shows "process files generic m (new_pipeline [] tagger parser []\<lparr>p_immediate := immediate\<rparr>) (document 2 ss) =
    Some (let (ss', res) = annotate_all (annotate m tagger parser) ss in (document 2 ss', res))"
proof -
  let ?p = "new_pipeline [] tagger parser []\<lparr>p_immediate := immediate\<rparr>"
  have fields: "p_input ?p = ''conllu''" "p_output ?p = ''conllu''" "p_tagger ?p = tagger" "p_parser ?p = parser"
      "p_immediate ?p = immediate"
    by (simp_all add: new_pipeline_def set_input_def set_output_def)
  have "pipeline_reader files generic m ?p = Some (Inr (Conllu_Reader 2 []))"
    by (simp add: pipeline_reader_def fields new_conllu_formats)
  moreover have "process_blocks (if immediate then reader_read_block m (Conllu_Reader 2 []) else getwhole) (reader_put m) (reader_next m)
      (annotate m tagger parser) write_sentence (document 2 ss) (Conllu_Reader 2 []) (Conllu_Output 2, 0, True) =
    Some (document 2 (fst (annotate_all (annotate m tagger parser) ss)),
      case snd (annotate_all (annotate m tagger parser) ss) of Inl e \<Rightarrow> Inl e | Inr _ \<Rightarrow> Inr (Conllu_Output 2, 0, True))"
  proof (cases immediate)
    case True
    have "reader_read_block m (Conllu_Reader 2 []) = getpara" by (rule ext) simp
    then show ?thesis using True process_blocks_paragraphs [OF assms] by (simp only: if_True)
  next
    case False
    then show ?thesis using process_blocks_whole [OF assms] by (simp only: if_False)
  qed
  moreover obtain ss' res where "annotate_all (annotate m tagger parser) ss = (ss', res)" by fastforce
  ultimately show ?thesis
    by (cases res) (simp_all add: process_def fields new_conllu_formats new_writer_def del: reader_read_block.simps)
qed

text \<open>
  C12: with CoNLL-U as input and output format the pipeline writes the tagged and parsed sentences
  of a document in their order, up to the first sentence that the model refuses, whose error it
  returns. Reading block by block or everything at once makes no difference.
\<close>

theorem pipeline_annotates:
  assumes "\<forall>s \<in> set ss. conllu_ok s"
  shows "process files generic m (new_pipeline [] tagger parser []\<lparr>p_immediate := immediate\<rparr>) (document 2 ss) =
    Some (let (ss', res) = annotate_all (annotate m tagger parser) ss in (document 2 ss', res))"
  by (rule process_conllu_document [OF assms])

definition no_model :: "unit udpipe_model" where
  "no_model = \<lparr>to_read_block = \<lambda>_. getpara, to_reset_document = \<lambda>_ t. t, to_set_text = \<lambda>_ t. t, to_next_sentence = \<lambda>t. Some (Inr None, t),
     m_new_tokenizer = \<lambda>_. None, m_tag = \<lambda>s _. Inl ''No tagger defined for the UDPipe model!'', m_parse = \<lambda>s _. Inr s\<rparr>"

lemma pipeline_annotates_witness:
  "\<forall>files generic. process files generic no_model (new_pipeline [] [] annotator_none []\<lparr>p_immediate := True\<rparr>) (document 2 [sample_sentence]) =
    Some ([], Inl ''No tagger defined for the UDPipe model!'')"
  using pipeline_annotates [where ss = "[sample_sentence]" and m = no_model and parser = annotator_none and immediate = True and tagger = "[]"] sample_ok
  by (simp add: annotate_def annotator_none_def no_model_def)

end
