(* ===== verification/Joint_Tokenizer.thy ===== *)
theory Joint_Tokenizer
  imports Pipeline
begin

text \<open>
  Sentence segmentation by parsing: the class \<open>joint_with_parsing_tokenizer\<close> of
  \<open>src/model/model_morphodita_parsito.cpp\<close>. The sentences of a paragraph are joined and cut
  anew: dynamic programming over the token boundaries finds the segmentation with the best sum of
  parse costs and boundary penalties. Costs are exact here (an ordered group), minus infinity is
  \<open>None\<close>; the cost of parsing a sentence is a parameter.

  The proofs show that the sentences found are a segmentation of the words of the paragraph whose
  score no other segmentation exceeds, and that the backward pass loops for ever when there is
  none, as with a maximal sentence length of zero.
\<close>

section \<open>Model\<close>

record 'c joint_options =
  jo_max_sentence_len :: int
  jo_change_boundary :: 'c
  jo_sentence :: 'c

text \<open>The joined paragraph: its words behind a root, its multiword tokens and the two kinds of boundaries.\<close>

record joined =
  j_words :: "word_data list"
  j_multiword_tokens :: "multiword_token list"
  j_sentence_boundary :: "bool list"
  j_token_boundary :: "bool list"

definition no_words :: joined where
  "no_words = \<lparr>j_words = s_words clear_sentence, j_multiword_tokens = [], j_sentence_boundary = [True], j_token_boundary = [True]\<rparr>"

definition join_multiword :: "int \<Rightarrow> multiword_token \<Rightarrow> joined \<Rightarrow> joined" where
  "join_multiword offset m j =
     (let m = m\<lparr>mwt_id_first := mwt_id_first m + offset, mwt_id_last := mwt_id_last m + offset\<rparr>
      in j\<lparr>j_multiword_tokens := j_multiword_tokens j @ [m],
           j_token_boundary := fold (\<lambda>i bs. bs[nat i := False]) [mwt_id_first m..mwt_id_last m - 1] (j_token_boundary j)\<rparr>)"

definition join_sentence :: "sentence \<Rightarrow> joined \<Rightarrow> joined" where
  "join_sentence s j =
     (let offset = int (length (j_words j)) - 1; n = length (s_words s) - 1;
          j = j\<lparr>j_words := j_words j @ map (\<lambda>w. w\<lparr>w_id := w_id w + offset\<rparr>) (tl (s_words s)),
                j_sentence_boundary := j_sentence_boundary j @ map (\<lambda>i. i + 1 = n) [0..<n],
                j_token_boundary := j_token_boundary j @ replicate n True\<rparr>
      in fold (join_multiword offset) (s_multiword_tokens s) j)"

text \<open>A candidate sentence: the words between two boundaries, without heads.\<close>

definition plain_word :: "int \<Rightarrow> word_data \<Rightarrow> word_data" where
  "plain_word offset w = w\<lparr>w_id := w_id w - offset, w_head := -1, w_children := []\<rparr>"

definition candidate :: "joined \<Rightarrow> nat \<Rightarrow> nat \<Rightarrow> sentence" where
  "candidate j start stop = clear_sentence\<lparr>s_words :=
     s_words clear_sentence @ map (plain_word (int start - 1)) (take (stop - start) (drop start (j_words j)))\<rparr>"

definition candidate_cost ::
  "(sentence \<Rightarrow> 'c result) \<Rightarrow> ('c :: linordered_ab_group_add) joint_options \<Rightarrow> joined \<Rightarrow> nat \<Rightarrow> nat \<Rightarrow> 'c result" where
  "candidate_cost parse_cost jo j start stop =
     (case parse_cost (candidate j start stop) of Inl e \<Rightarrow> Inl e
      | Inr cost \<Rightarrow> Inr (cost + (jo_sentence jo +
          ((if j_sentence_boundary j ! (start - 1) then 0 else jo_change_boundary jo) +
           (if j_sentence_boundary j ! (stop - 1) then 0 else jo_change_boundary jo)))))"

text \<open>The table: for every boundary the best score of a segmentation up to it, and its last length.\<close>

type_synonym 'c scores = "'c option list \<times> nat list"

definition relax :: "nat \<Rightarrow> nat \<Rightarrow> ('c :: linordered_ab_group_add) \<Rightarrow> 'c scores \<Rightarrow> 'c scores" where
  "relax start stop cost = (\<lambda>(best, len).
     (case best ! (start - 1) of None \<Rightarrow> (best, len)
      | Some b \<Rightarrow>
        if (case best ! (stop - 1) of None \<Rightarrow> True | Some v \<Rightarrow> b + cost > v)
        then (best[stop - 1 := Some (b + cost)], len[stop - 1 := stop - start])
        else (best, len)))"

fun try_stops ::
  "(nat \<Rightarrow> nat \<Rightarrow> ('c :: linordered_ab_group_add) result) \<Rightarrow> bool list \<Rightarrow> nat \<Rightarrow> nat list \<Rightarrow> 'c scores \<Rightarrow> 'c scores result" where
  "try_stops cost boundary start [] t = Inr t"
| "try_stops cost boundary start (stop # stops) t =
     (if \<not> boundary ! (stop - 1) then try_stops cost boundary start stops t
      else case cost start stop of Inl e \<Rightarrow> Inl e
      | Inr c \<Rightarrow> try_stops cost boundary start stops (relax start stop c t))"

fun try_starts ::
  "(nat \<Rightarrow> nat \<Rightarrow> ('c :: linordered_ab_group_add) result) \<Rightarrow> bool list \<Rightarrow> nat \<Rightarrow> nat \<Rightarrow> nat list \<Rightarrow> 'c scores \<Rightarrow> 'c scores result" where
  "try_starts cost boundary n max_len [] t = Inr t"
| "try_starts cost boundary n max_len (start # starts) t =
     (if \<not> boundary ! (start - 1) then try_starts cost boundary n max_len starts t
      else case try_stops cost boundary start [start + 1..<min n (start + max_len) + 1] t of Inl e \<Rightarrow> Inl e
      | Inr t \<Rightarrow> try_starts cost boundary n max_len starts t)"

definition score_table ::
  "(nat \<Rightarrow> nat \<Rightarrow> ('c :: linordered_ab_group_add) result) \<Rightarrow> bool list \<Rightarrow> nat \<Rightarrow> nat \<Rightarrow> 'c scores result" where
  "score_table cost boundary n max_len =
     try_starts cost boundary n max_len [1..<n] ((replicate n None)[0 := Some 0], replicate n 0)"

text \<open>The way back, last sentence first; \<open>None\<close> is a loop that does not end.\<close>

partial_function (option) sentence_lengths :: "nat list \<Rightarrow> nat \<Rightarrow> nat list option" where
  "sentence_lengths len stop =
     (if stop > 1 then Option.bind (sentence_lengths len (stop - len ! (stop - 1))) (\<lambda>ls. Some (ls @ [len ! (stop - 1)]))
      else Some [])"

declare sentence_lengths.simps [code]

fun cut_sentences :: "word_data list \<Rightarrow> multiword_token list \<Rightarrow> nat \<Rightarrow> nat list \<Rightarrow> sentence list" where
  "cut_sentences ws ms start [] = []"
| "cut_sentences ws ms start (l # ls) =
     (let stop = l + start; before = (\<lambda>m. mwt_id_first m < int stop);
          shift = (\<lambda>m. m\<lparr>mwt_id_first := mwt_id_first m - (int start - 1), mwt_id_last := mwt_id_last m - (int start - 1)\<rparr>)
      in clear_sentence\<lparr>s_words := s_words clear_sentence @ map (plain_word (int start - 1)) (take (stop - start) (drop start ws)),
           s_multiword_tokens := map shift (takeWhile before ms)\<rparr>
         # cut_sentences ws (dropWhile before ms) stop ls)"

text \<open>The sentences of a paragraph, and the mark of a new document in the state.\<close>

definition to_unsigned :: "int \<Rightarrow> nat" where
  "to_unsigned i = nat (i mod 2 ^ 32)"

definition parse_paragraph ::
  "(sentence \<Rightarrow> 'c result) \<Rightarrow> ('c :: linordered_ab_group_add) joint_options \<Rightarrow> string \<Rightarrow> bool \<Rightarrow> sentence list \<Rightarrow>
   (sentence list \<times> bool) result option" where
  "parse_paragraph parse_cost jo document_id new_document paragraph =
     (let j = fold join_sentence paragraph no_words; n = length (j_words j)
      in case score_table (candidate_cost parse_cost jo j) (j_token_boundary j) n (to_unsigned (jo_max_sentence_len jo)) of
           Inl e \<Rightarrow> Some (Inl e)
         | Inr (best, len) \<Rightarrow>
           map_option (\<lambda>ls. Inr
             (case cut_sentences (j_words j) (j_multiword_tokens j) 1 ls of
                [] \<Rightarrow> ([], new_document)
              | s # ss \<Rightarrow> (set_new_par True [] (if new_document then set_new_doc True document_id s else s) # ss, False)))
             (sentence_lengths len n))"

text \<open>The tokenizer around it.\<close>

record 't joint_tokenizer =
  jt_tokenizer :: 't
  jt_text :: string
  jt_new_document :: bool
  jt_document_id :: string
  jt_sentences :: "sentence list"

definition joint_read_block :: "string \<Rightarrow> (string \<times> string) option" where
  "joint_read_block = getwhole"

definition joint_reset_document :: "string \<Rightarrow> 't joint_tokenizer \<Rightarrow> 't joint_tokenizer" where
  "joint_reset_document i jt = jt\<lparr>jt_new_document := True, jt_document_id := i, jt_text := [], jt_sentences := []\<rparr>"

definition joint_set_text :: "string \<Rightarrow> 't joint_tokenizer \<Rightarrow> 't joint_tokenizer" where
  "joint_set_text t jt = jt\<lparr>jt_text := t\<rparr>"

text \<open>The paragraphs of a text: the error if any, the sentences found, the mark and the tokenizer.\<close>

partial_function (option) joint_paragraphs ::
  "('t \<Rightarrow> (sentence option result \<times> 't) option) \<Rightarrow> (bool \<Rightarrow> sentence list \<Rightarrow> (sentence list \<times> bool) result option) \<Rightarrow>
   't \<Rightarrow> bool \<Rightarrow> sentence list \<Rightarrow> sentence list \<Rightarrow> (string option \<times> sentence list \<times> bool \<times> 't) option" where
  "joint_paragraphs next par t new_document found paragraph =
     Option.bind (next t) (\<lambda>(outcome, t').
     (case outcome of Inl e \<Rightarrow> Some (Some e, found, new_document, t')
      | Inr read \<Rightarrow>
     (case read of
        None \<Rightarrow>
          if paragraph = [] then Some (None, found, new_document, t')
          else Option.bind (par new_document paragraph) (\<lambda>res.
            (case res of Inl e \<Rightarrow> Some (Some e, found, new_document, t')
             | Inr (ss, new_document) \<Rightarrow> Some (None, found @ ss, new_document, t')))
      | Some s \<Rightarrow>
          if get_new_par s \<noteq> None \<and> paragraph \<noteq> [] then
            Option.bind (par new_document paragraph) (\<lambda>res.
            (case res of Inl e \<Rightarrow> Some (Some e, found, new_document, t')
             | Inr (ss, new_document) \<Rightarrow> joint_paragraphs next par t' new_document (found @ ss) [s]))
          else joint_paragraphs next par t' new_document found (paragraph @ [s]))))"

declare joint_paragraphs.simps [code]

text \<open>The text is marked as read only when no error came up, so an error is met again.\<close>

definition joint_next_sentence ::
  "('t, 'm) tokenizer_ops_scheme \<Rightarrow> (sentence \<Rightarrow> 'c result) \<Rightarrow> ('c :: linordered_ab_group_add) joint_options \<Rightarrow> 't joint_tokenizer \<Rightarrow>
   (sentence option result \<times> 't joint_tokenizer) option" where
  "joint_next_sentence m parse_cost jo jt =
     Option.bind
       (if jt_text jt \<noteq> [] then
          Option.bind (joint_paragraphs (to_next_sentence m) (parse_paragraph parse_cost jo (jt_document_id jt))
              (to_set_text m (jt_text jt) (jt_tokenizer jt)) (jt_new_document jt) [] []) (\<lambda>(e, ss, new_document, t).
            (let jt = jt\<lparr>jt_tokenizer := t, jt_new_document := new_document, jt_sentences := ss\<rparr>
             in Some (e, if e = None then jt\<lparr>jt_text := []\<rparr> else jt)))
        else Some (None, jt)) (\<lambda>(e, jt).
       Some (case e of Some e \<Rightarrow> (Inl e, jt)
         | None \<Rightarrow> (case jt_sentences jt of [] \<Rightarrow> (Inr None, jt) | s # ss \<Rightarrow> (Inr (Some s), jt\<lparr>jt_sentences := ss\<rparr>))))"

section \<open>Segmentations\<close>

text \<open>
  The specification: lists of sentence lengths from a position on, within the limits, from token
  boundary to token boundary; and their scores.
\<close>

definition piece_ok :: "bool list \<Rightarrow> nat \<Rightarrow> nat \<Rightarrow> nat \<Rightarrow> nat \<Rightarrow> bool" where
  "piece_ok boundary n max_len start stop \<longleftrightarrow> 1 \<le> start \<and> start < stop \<and> stop \<le> n \<and> stop \<le> start + max_len \<and>
     boundary ! (start - 1) \<and> boundary ! (stop - 1)"

fun pieces_ok :: "(nat \<Rightarrow> nat \<Rightarrow> bool) \<Rightarrow> nat \<Rightarrow> nat list \<Rightarrow> bool" where
  "pieces_ok ok start [] \<longleftrightarrow> True"
| "pieces_ok ok start (l # ls) \<longleftrightarrow> ok start (start + l) \<and> pieces_ok ok (start + l) ls"

fun pieces_score :: "(nat \<Rightarrow> nat \<Rightarrow> 'c :: linordered_ab_group_add) \<Rightarrow> nat \<Rightarrow> nat list \<Rightarrow> 'c" where
  "pieces_score k start [] = 0"
| "pieces_score k start (l # ls) = k start (start + l) + pieces_score k (start + l) ls"

lemma pieces_append:
  "pieces_ok ok start (ls @ ks) \<longleftrightarrow> pieces_ok ok start ls \<and> pieces_ok ok (start + sum_list ls) ks"
  "pieces_score k start (ls @ ks) = pieces_score k start ls + pieces_score k (start + sum_list ls) ks"
  by (induction ls arbitrary: start) (simp_all add: add.assoc)

text \<open>One start: every stop is relaxed once, from the score at the start.\<close>

definition relaxed :: "nat \<Rightarrow> nat \<Rightarrow> ('c :: linordered_ab_group_add) \<Rightarrow> 'c scores \<Rightarrow> 'c option \<times> nat" where
  "relaxed start stop cost t = (case relax start stop cost t of (best, len) \<Rightarrow> (best ! (stop - 1), len ! (stop - 1)))"

lemma relax_nth:
  assumes "i < length (fst t)" "length (snd t) = length (fst t)" "1 \<le> stop"
  shows "(fst (relax start stop cost t) ! i, snd (relax start stop cost t) ! i) =
    (if i = stop - 1 then relaxed start stop cost t else (fst t ! i, snd t ! i))"
  using assms by (cases t) (auto simp: relaxed_def relax_def split: option.split)

lemma relax_length [simp]:
  "length (fst (relax start stop cost t)) = length (fst t)" "length (snd (relax start stop cost t)) = length (snd t)"
  by (cases t; simp add: relax_def split: option.split)+

lemma relaxed_cong:
  "fst t ! (start - 1) = fst t' ! (start - 1) \<Longrightarrow> fst t ! (stop - 1) = fst t' ! (stop - 1) \<Longrightarrow> snd t ! (stop - 1) = snd t' ! (stop - 1) \<Longrightarrow>
   length (fst t) = length (fst t') \<Longrightarrow> length (snd t) = length (snd t') \<Longrightarrow> stop - 1 < length (fst t) \<Longrightarrow> stop - 1 < length (snd t) \<Longrightarrow>
   relaxed start stop cost t = relaxed start stop cost t'"
  by (cases t; cases t') (auto simp: relaxed_def relax_def split: option.split)

lemma try_stops_nth:
  assumes "distinct stops" "\<forall>stop \<in> set stops. start < stop \<and> stop \<le> length (fst t)" "1 \<le> start"
    and "length (snd t) = length (fst t)" "\<And>stop. cost start stop = Inr (k start stop)"
  shows "\<exists>t'. try_stops cost boundary start stops t = Inr t' \<and> length (fst t') = length (fst t) \<and> length (snd t') = length (fst t) \<and>
    (\<forall>i < length (fst t). (fst t' ! i, snd t' ! i) =
       (if Suc i \<in> set stops \<and> boundary ! i then relaxed start (Suc i) (k start (Suc i)) t else (fst t ! i, snd t ! i)))"
  using assms(1,2,4)
proof (induction stops arbitrary: t)
  case (Cons stop stops)
  let ?t = "if boundary ! (stop - 1) then relax start stop (k start stop) t else t"
  have len: "length (fst ?t) = length (fst t)" "length (snd ?t) = length (snd t)" by auto
  have step: "try_stops cost boundary start (stop # stops) t = try_stops cost boundary start stops ?t"
    using assms(5) by simp
  obtain t' where t': "try_stops cost boundary start stops ?t = Inr t'" "length (fst t') = length (fst ?t)" "length (snd t') = length (fst ?t)"
    and nth: "\<And>i. i < length (fst ?t) \<Longrightarrow> (fst t' ! i, snd t' ! i) =
       (if Suc i \<in> set stops \<and> boundary ! i then relaxed start (Suc i) (k start (Suc i)) ?t else (fst ?t ! i, snd ?t ! i))"
    using Cons.IH [of ?t] Cons.prems len by auto
  have old: "(fst ?t ! i, snd ?t ! i) = (if Suc i = stop \<and> boundary ! i then relaxed start stop (k start stop) t else (fst t ! i, snd t ! i))"
    if "i < length (fst t)" for i
    using relax_nth [of i t stop start "k start stop"] that Cons.prems by auto
  have "(fst t' ! i, snd t' ! i) =
      (if Suc i \<in> set (stop # stops) \<and> boundary ! i then relaxed start (Suc i) (k start (Suc i)) t else (fst t ! i, snd t ! i))"
    if i: "i < length (fst t)" for i
  proof (cases "Suc i \<in> set stops \<and> boundary ! i")
    case True
    then have ne: "Suc i \<noteq> stop" "start < Suc i" using Cons.prems by auto
    have "start - 1 < length (fst t)" using ne i by simp
    then have "relaxed start (Suc i) (k start (Suc i)) ?t = relaxed start (Suc i) (k start (Suc i)) t"
      using old [of i] old [of "start - 1"] ne i assms(3) Cons.prems(2,3) len by (intro relaxed_cong) auto
    then show ?thesis using nth [of i] True i len by simp
  next
    case False
    then show ?thesis using nth [of i] old [OF i] i len by auto
  qed
  then show ?case using step t' len by auto
qed simp

text \<open>
  The invariant: scores come from their last pieces, no piece from a start that is done improves a
  score, and boundaries that are not reached have no length.
\<close>

definition table_inv ::
  "(nat \<Rightarrow> nat \<Rightarrow> bool) \<Rightarrow> (nat \<Rightarrow> nat \<Rightarrow> 'c :: linordered_ab_group_add) \<Rightarrow> nat \<Rightarrow> nat \<Rightarrow> 'c scores \<Rightarrow> bool" where
  "table_inv ok k n s t \<longleftrightarrow> length (fst t) = n \<and> length (snd t) = n \<and> fst t ! 0 = Some 0 \<and>
     (\<forall>stop v. 1 < stop \<and> stop \<le> n \<and> fst t ! (stop - 1) = Some v \<longrightarrow>
        (\<exists>start u. snd t ! (stop - 1) = stop - start \<and> ok start stop \<and> start < s \<and> fst t ! (start - 1) = Some u \<and> v = u + k start stop)) \<and>
     (\<forall>start stop u. start < s \<and> ok start stop \<and> fst t ! (start - 1) = Some u \<longrightarrow>
        (\<exists>v. fst t ! (stop - 1) = Some v \<and> u + k start stop \<le> v)) \<and>
     (\<forall>i < n. fst t ! i = None \<longrightarrow> snd t ! i = 0)"

lemma table_inv_init:
  assumes "1 \<le> n" "\<And>start stop. ok start stop \<Longrightarrow> 1 \<le> start"
  shows "table_inv ok k n 1 ((replicate n None)[0 := Some 0], replicate n 0)"
  using assms by (auto simp: table_inv_def nth_list_update split: if_splits)

lemma relaxed_eq:
  assumes "stop - 1 < length (fst t)" "length (snd t) = length (fst t)"
  shows "relaxed start stop cost t =
    (case fst t ! (start - 1) of None \<Rightarrow> (fst t ! (stop - 1), snd t ! (stop - 1))
     | Some u \<Rightarrow> if (case fst t ! (stop - 1) of None \<Rightarrow> True | Some v \<Rightarrow> u + cost > v) then (Some (u + cost), stop - start)
         else (fst t ! (stop - 1), snd t ! (stop - 1)))"
  using assms by (cases t) (auto simp: relaxed_def relax_def split: option.split)

lemma table_inv_step:
  assumes inv: "table_inv ok k n s t" and s: "1 \<le> s" "s < n"
    and new: "length (fst t') = n" "length (snd t') = n"
      "\<forall>i < n. (fst t' ! i, snd t' ! i) =
        (if ok s (Suc i) then relaxed s (Suc i) (k s (Suc i)) t else (fst t ! i, snd t ! i))"
    and ok: "\<And>start stop. ok start stop \<Longrightarrow> 1 \<le> start \<and> start < stop \<and> stop \<le> n"
  shows "table_inv ok k n (Suc s) t'"
proof -
  have len: "length (fst t) = n" "length (snd t) = n" and start: "fst t ! 0 = Some 0"
    and a: "\<And>stop v. 1 < stop \<Longrightarrow> stop \<le> n \<Longrightarrow> fst t ! (stop - 1) = Some v \<Longrightarrow>
        \<exists>start u. snd t ! (stop - 1) = stop - start \<and> ok start stop \<and> start < s \<and> fst t ! (start - 1) = Some u \<and> v = u + k start stop"
    and b: "\<And>start stop u. start < s \<Longrightarrow> ok start stop \<Longrightarrow> fst t ! (start - 1) = Some u \<Longrightarrow>
        \<exists>v. fst t ! (stop - 1) = Some v \<and> u + k start stop \<le> v"
    and c: "\<And>i. i < n \<Longrightarrow> fst t ! i = None \<Longrightarrow> snd t ! i = 0"
    using inv unfolding table_inv_def by blast+
  have change: "(fst t' ! (stop - 1) = fst t ! (stop - 1) \<and> snd t' ! (stop - 1) = snd t ! (stop - 1) \<and>
        (\<forall>u. ok s stop \<and> fst t ! (s - 1) = Some u \<longrightarrow> (\<exists>v. fst t ! (stop - 1) = Some v \<and> u + k s stop \<le> v))) \<or>
      (\<exists>u. ok s stop \<and> fst t ! (s - 1) = Some u \<and> fst t' ! (stop - 1) = Some (u + k s stop) \<and> snd t' ! (stop - 1) = stop - s \<and>
        (\<forall>v. fst t ! (stop - 1) = Some v \<longrightarrow> v < u + k s stop))"
    if stop: "1 \<le> stop" "stop \<le> n" for stop
  proof -
    have "Suc (stop - 1) = stop" "stop - 1 < n" using stop by simp_all
    then have "(fst t' ! (stop - 1), snd t' ! (stop - 1)) =
        (if ok s stop then relaxed s stop (k s stop) t else (fst t ! (stop - 1), snd t ! (stop - 1)))"
      using new(3) by metis
    moreover have "relaxed s stop (k s stop) t =
      (case fst t ! (s - 1) of None \<Rightarrow> (fst t ! (stop - 1), snd t ! (stop - 1))
       | Some u \<Rightarrow> if (case fst t ! (stop - 1) of None \<Rightarrow> True | Some v \<Rightarrow> u + k s stop > v) then (Some (u + k s stop), stop - s)
           else (fst t ! (stop - 1), snd t ! (stop - 1)))"
      using stop len by (intro relaxed_eq) auto
    ultimately show ?thesis by (auto split: if_splits option.splits)
  qed
  have before: "fst t' ! (start - 1) = fst t ! (start - 1)" if "1 \<le> start" "start \<le> s" for start
    using change [of start] ok [of s start] that s by auto
  have a': "\<exists>start u. snd t' ! (stop - 1) = stop - start \<and> ok start stop \<and> start < Suc s \<and> fst t' ! (start - 1) = Some u \<and> v = u + k start stop"
    if stop: "1 < stop" "stop \<le> n" "fst t' ! (stop - 1) = Some v" for stop v
  proof -
    consider "fst t' ! (stop - 1) = fst t ! (stop - 1)" "snd t' ! (stop - 1) = snd t ! (stop - 1)"
      | u where "ok s stop" "fst t ! (s - 1) = Some u" "fst t' ! (stop - 1) = Some (u + k s stop)" "snd t' ! (stop - 1) = stop - s"
      using change [of stop] stop by auto
    then show ?thesis
    proof cases
      case 1
      then obtain start u where "snd t ! (stop - 1) = stop - start" "ok start stop" "start < s" "fst t ! (start - 1) = Some u" "v = u + k start stop"
        using a [of stop v] stop by auto
      then show ?thesis using 1(2) before [of start] ok [of start stop] by (intro exI [of _ start] exI [of _ u]) auto
    next
      case (2 u)
      then show ?thesis using before [of s] s(1) stop(3) by (intro exI [of _ s] exI [of _ u]) auto
    qed
  qed
  have b': "\<exists>v. fst t' ! (stop - 1) = Some v \<and> u + k start stop \<le> v"
    if p: "start < Suc s" "ok start stop" "fst t' ! (start - 1) = Some u" for start stop u
  proof -
    have old: "fst t ! (start - 1) = Some u" using before [of start] ok [OF p(2)] p(1,3) by simp
    have stop: "1 \<le> stop" "stop \<le> n" using ok [OF p(2)] by auto
    show ?thesis
    proof (cases "start = s")
      case True
      then show ?thesis using change [OF stop] p(2) old by auto
    next
      case False
      then obtain v where "fst t ! (stop - 1) = Some v" "u + k start stop \<le> v" using b [of start stop u] p old by auto
      then show ?thesis using change [OF stop] by fastforce
    qed
  qed
  have c': "snd t' ! i = 0" if "i < n" "fst t' ! i = None" for i
    using change [of "Suc i"] c [of i] that by auto
  have "fst t' ! 0 = Some 0" using before [of 1] s(1) start by simp
  then show ?thesis unfolding table_inv_def using new(1,2) a' b' c' by blast
qed

lemma try_starts_inv:
  assumes "\<And>start stop. cost start stop = Inr (k start stop)" "1 \<le> s" "s \<le> n"
    and "table_inv (piece_ok boundary n max_len) k n s t"
  shows "\<exists>t'. try_starts cost boundary n max_len [s..<n] t = Inr t' \<and> table_inv (piece_ok boundary n max_len) k n n t'"
  using assms(2-4)
proof (induction "n - s" arbitrary: s t)
  case 0
  then show ?case by auto
next
  case (Suc d)
  let ?ok = "piece_ok boundary n max_len"
  have sn: "s < n" "[s..<n] = s # [Suc s..<n]" using Suc.hyps(2) by (simp_all add: upt_conv_Cons)
  have ok: "?ok start stop \<Longrightarrow> 1 \<le> start \<and> start < stop \<and> stop \<le> n" for start stop by (simp add: piece_ok_def)
  have len: "length (fst t) = n" "length (snd t) = n" using Suc.prems(3) by (simp_all add: table_inv_def)
  show ?case
  proof (cases "boundary ! (s - 1)")
    case False
    have none: "\<not> ?ok s stop" for stop using False by (simp add: piece_ok_def)
    have "table_inv ?ok k n (Suc s) t"
    proof (rule table_inv_step [OF Suc.prems(3,1) sn(1) len])
      show "\<forall>i < n. (fst t ! i, snd t ! i) = (if ?ok s (Suc i) then relaxed s (Suc i) (k s (Suc i)) t else (fst t ! i, snd t ! i))"
        by (simp add: none)
    qed (rule ok)
    then have "\<exists>t'. try_starts cost boundary n max_len [Suc s..<n] t = Inr t' \<and> table_inv ?ok k n n t'"
      using Suc.hyps sn by (intro Suc.hyps(1)) auto
    then show ?thesis using False sn(2) by simp
  next
    case True
    let ?stops = "[s + 1..<min n (s + max_len) + 1]"
    have stops: "\<forall>stop \<in> set ?stops. s < stop \<and> stop \<le> length (fst t)" using len by auto
    obtain t1 where t1: "try_stops cost boundary s ?stops t = Inr t1" "length (fst t1) = n" "length (snd t1) = n"
      and nth: "\<forall>i < n. (fst t1 ! i, snd t1 ! i) =
        (if Suc i \<in> set ?stops \<and> boundary ! i then relaxed s (Suc i) (k s (Suc i)) t else (fst t ! i, snd t ! i))"
      using try_stops_nth [where boundary = boundary and cost = cost and k = k, OF distinct_upt stops Suc.prems(1) _ assms(1)] unfolding len by blast
    have "Suc i \<in> set ?stops \<and> boundary ! i \<longleftrightarrow> ?ok s (Suc i)" if "i < n" for i
      using that True Suc.prems(1) by (auto simp: piece_ok_def)
    then have "\<forall>i < n. (fst t1 ! i, snd t1 ! i) = (if ?ok s (Suc i) then relaxed s (Suc i) (k s (Suc i)) t else (fst t ! i, snd t ! i))"
      using nth by auto
    then have "table_inv ?ok k n (Suc s) t1"
      by (rule table_inv_step [OF Suc.prems(3,1) sn(1) t1(2,3) _ ok])
    then have "\<exists>t'. try_starts cost boundary n max_len [Suc s..<n] t1 = Inr t' \<and> table_inv ?ok k n n t'"
      using Suc.hyps sn by (intro Suc.hyps(1)) auto
    then show ?thesis using True sn(2) t1(1) by simp
  qed
qed

lemma score_table_inv:
  assumes "\<And>start stop. cost start stop = Inr (k start stop)" "1 \<le> n"
  shows "\<exists>t. score_table cost boundary n max_len = Inr t \<and> table_inv (piece_ok boundary n max_len) k n n t"
  unfolding score_table_def
  using table_inv_init [of n "piece_ok boundary n max_len" k] assms
  by (intro try_starts_inv) (auto simp: piece_ok_def)

text \<open>Reading the table: no segmentation scores higher, and the way back finds one with the score.\<close>

lemma table_upper:
  assumes inv: "table_inv ok k n n t" and ok: "\<And>start stop. ok start stop \<Longrightarrow> 1 \<le> start \<and> start < stop \<and> stop \<le> n"
  shows "pieces_ok ok start ls \<Longrightarrow> fst t ! (start - 1) = Some u \<Longrightarrow>
    \<exists>v. fst t ! (start + sum_list ls - 1) = Some v \<and> u + pieces_score k start ls \<le> v"
proof (induction ls arbitrary: start u)
  case (Cons l ls)
  have "ok start (start + l)" "start < n" using Cons.prems(1) ok [of start "start + l"] by auto
  then obtain v where v: "fst t ! (start + l - 1) = Some v" "u + k start (start + l) \<le> v"
    using inv Cons.prems(2) unfolding table_inv_def by blast
  obtain w where w: "fst t ! (start + l + sum_list ls - 1) = Some w" "v + pieces_score k (start + l) ls \<le> w"
    using Cons.IH [OF _ v(1)] Cons.prems(1) by auto
  have "u + (k start (start + l) + pieces_score k (start + l) ls) \<le> v + pieces_score k (start + l) ls"
    using v(2) by (simp add: add.assoc [symmetric])
  then have "u + (k start (start + l) + pieces_score k (start + l) ls) \<le> w" using w(2) by (rule order.trans)
  then show ?case using w(1) by (simp add: add.assoc)
qed simp

lemma table_back:
  assumes inv: "table_inv ok k n n t" and ok: "\<And>start stop. ok start stop \<Longrightarrow> 1 \<le> start \<and> start < stop \<and> stop \<le> n"
  shows "1 \<le> stop \<Longrightarrow> stop \<le> n \<Longrightarrow> fst t ! (stop - 1) = Some v \<Longrightarrow>
    \<exists>ls. sentence_lengths (snd t) stop = Some ls \<and> pieces_ok ok 1 ls \<and> 1 + sum_list ls = stop \<and> pieces_score k 1 ls = v"
proof (induction stop arbitrary: v rule: less_induct)
  case (less stop)
  show ?case
  proof (cases "stop = 1")
    case True
    moreover have "fst t ! 0 = Some 0" using inv by (simp add: table_inv_def)
    ultimately show ?thesis using less.prems(3) by (subst sentence_lengths.simps) simp
  next
    case False
    then have "1 < stop" using less.prems(1) by simp
    then obtain start u where p: "snd t ! (stop - 1) = stop - start" "ok start stop" "fst t ! (start - 1) = Some u" "v = u + k start stop"
      using inv less.prems(2,3) unfolding table_inv_def by blast
    have s: "1 \<le> start" "start < stop" using ok [OF p(2)] by auto
    obtain ls where ls: "sentence_lengths (snd t) start = Some ls" "pieces_ok ok 1 ls" "1 + sum_list ls = start" "pieces_score k 1 ls = u"
      using less.IH [OF s(2,1) _ p(3)] less.prems(2) s(2) by auto
    have "sentence_lengths (snd t) stop = Some (ls @ [stop - start])"
      using p(1) ls(1) s(2) \<open>1 < stop\<close> by (subst sentence_lengths.simps) simp
    moreover have "pieces_ok ok 1 (ls @ [stop - start])" "pieces_score k 1 (ls @ [stop - start]) = v"
      using ls p(2,4) s(2) by (simp_all add: pieces_append)
    ultimately show ?thesis using ls(3) s(2) by auto
  qed
qed

lemma sentence_lengths_stuck:
  assumes "len ! (stop - 1) = 0" "1 < stop"
  shows "sentence_lengths len stop = None"
proof -
  have "\<not> (l = len \<and> e = stop)" if loop: "sentence_lengths l e = Some res" for l e res
  proof (rule sentence_lengths.raw_induct [OF _ loop, where P = "\<lambda>l e res. \<not> (l = len \<and> e = stop)"], goal_cases)
    case (1 f l e res)
    show ?case
    proof
      assume eq: "l = len \<and> e = stop"
      then obtain ls where "f l e = Some ls" using 1(2) assms by (auto simp: bind_eq_Some_conv)
      from 1(1) [OF this] eq show False by blast
    qed
  qed
  then show ?thesis by (cases "sentence_lengths len stop") auto
qed

section \<open>Paragraphs\<close>

definition joined_paragraph :: "sentence list \<Rightarrow> joined" where
  "joined_paragraph paragraph = fold join_sentence paragraph no_words"

definition sentence_forms :: "sentence \<Rightarrow> string list" where
  "sentence_forms s = map tk_form (tl (s_words s))"

lemma join_multiword_words [simp]: "j_words (fold (join_multiword offset) ms j) = j_words j"
  by (induction ms arbitrary: j) (simp_all add: join_multiword_def Let_def)

lemma join_sentence_words: "j_words (join_sentence s j) = j_words j @ map (\<lambda>w. w\<lparr>w_id := w_id w + (int (length (j_words j)) - 1)\<rparr>) (tl (s_words s))"
  by (simp add: join_sentence_def Let_def)

lemma joined_forms_from:
  "map tk_form (j_words (fold join_sentence paragraph j)) = map tk_form (j_words j) @ concat (map sentence_forms paragraph)"
  by (induction "paragraph" arbitrary: j) (simp_all add: join_sentence_words sentence_forms_def)

lemma joined_forms: "map tk_form (j_words (joined_paragraph paragraph)) = tk_form root_word # concat (map sentence_forms paragraph)"
  by (simp add: joined_paragraph_def joined_forms_from no_words_def clear_sentence_def)

lemma joined_nonempty: "1 \<le> length (j_words (joined_paragraph paragraph))"
proof -
  have "length (map tk_form (j_words (joined_paragraph paragraph))) \<ge> 1" unfolding joined_forms by simp
  then show ?thesis by simp
qed

text \<open>Cutting keeps the words and has the lengths asked for.\<close>

lemma cut_sentences_forms:
  "1 \<le> start \<Longrightarrow> start + sum_list ls \<le> length ws \<Longrightarrow>
   concat (map sentence_forms (cut_sentences ws ms start ls)) = map tk_form (take (sum_list ls) (drop start ws)) \<and>
   map (\<lambda>s. length (sentence_forms s)) (cut_sentences ws ms start ls) = ls"
proof (induction ls arbitrary: start ms)
  case (Cons l ls)
  have "take (l + sum_list ls) (drop start ws) = take l (drop start ws) @ take (sum_list ls) (drop (start + l) ws)"
    by (simp add: take_add add.commute)
  moreover have "concat (map sentence_forms (cut_sentences ws ms' (start + l) ls)) = map tk_form (take (sum_list ls) (drop (start + l) ws)) \<and>
      map (\<lambda>s. length (sentence_forms s)) (cut_sentences ws ms' (start + l) ls) = ls" for ms'
    using Cons by (intro Cons.IH) auto
  moreover have "sentence_forms (clear_sentence\<lparr>s_words := s_words clear_sentence @ map (plain_word k) us, s_multiword_tokens := ms'\<rparr>) =
      map tk_form us" for k us ms'
    by (simp add: sentence_forms_def clear_sentence_def plain_word_def comp_def)
  ultimately show ?case
    using Cons.prems by (simp add: Let_def add.commute [of l start])
qed simp

lemma sentence_forms_comments [simp]:
  "sentence_forms (set_new_par b v s) = sentence_forms s" "sentence_forms (set_new_doc b v s) = sentence_forms s"
  by (simp_all add: sentence_forms_def set_new_par_def set_new_doc_def Let_def)

text \<open>A parser that always succeeds gives every candidate a score.\<close>

definition candidate_score ::
  "(sentence \<Rightarrow> 'c) \<Rightarrow> ('c :: linordered_ab_group_add) joint_options \<Rightarrow> joined \<Rightarrow> nat \<Rightarrow> nat \<Rightarrow> 'c" where
  "candidate_score cost jo j start stop = cost (candidate j start stop) + (jo_sentence jo +
     ((if j_sentence_boundary j ! (start - 1) then 0 else jo_change_boundary jo) +
      (if j_sentence_boundary j ! (stop - 1) then 0 else jo_change_boundary jo)))"

text \<open>The lengths of a segmentation of the whole paragraph.\<close>

definition segmentation :: "'c joint_options \<Rightarrow> joined \<Rightarrow> nat list \<Rightarrow> bool" where
  "segmentation jo j ls \<longleftrightarrow>
     pieces_ok (piece_ok (j_token_boundary j) (length (j_words j)) (to_unsigned (jo_max_sentence_len jo))) 1 ls \<and>
     1 + sum_list ls = length (j_words j)"

lemma parse_paragraph_cases:
  fixes jo :: "('c :: linordered_ab_group_add) joint_options"
  assumes "j = joined_paragraph paragraph"
  shows "(\<exists>ls. segmentation jo j ls \<and> (\<forall>ks. segmentation jo j ks \<longrightarrow>
       pieces_score (candidate_score cost jo j) 1 ks \<le> pieces_score (candidate_score cost jo j) 1 ls) \<and>
     (\<exists>ss new. parse_paragraph (\<lambda>s. Inr (cost s)) jo document_id new_document paragraph = Some (Inr (ss, new)) \<and>
       map (\<lambda>s. length (sentence_forms s)) ss = ls \<and> concat (map sentence_forms ss) = concat (map sentence_forms paragraph))) \<or>
   parse_paragraph (\<lambda>s. Inr (cost s)) jo document_id new_document paragraph = None \<and> (\<nexists>ls. segmentation jo j ls)"
proof -
  let ?n = "length (j_words j)" and ?k = "candidate_score cost jo j"
  let ?ok = "piece_ok (j_token_boundary j) ?n (to_unsigned (jo_max_sentence_len jo))"
  have n: "1 \<le> ?n" unfolding assms by (rule joined_nonempty)
  have ok: "?ok start stop \<Longrightarrow> 1 \<le> start \<and> start < stop \<and> stop \<le> ?n" for start stop by (simp add: piece_ok_def)
  have "\<exists>t. score_table (candidate_cost (\<lambda>s. Inr (cost s)) jo j) (j_token_boundary j) ?n (to_unsigned (jo_max_sentence_len jo)) = Inr t \<and>
      table_inv ?ok ?k ?n ?n t"
    by (rule score_table_inv [OF _ n]) (simp add: candidate_cost_def candidate_score_def)
  then obtain t where t: "score_table (candidate_cost (\<lambda>s. Inr (cost s)) jo j) (j_token_boundary j) ?n (to_unsigned (jo_max_sentence_len jo)) = Inr t"
    and inv: "table_inv ?ok ?k ?n ?n t"
    by blast
  have start: "fst t ! (1 - 1) = Some 0" using inv by (simp add: table_inv_def)
  have upper: "\<exists>v. fst t ! (?n - 1) = Some v \<and> pieces_score ?k 1 ks \<le> v" if seg: "segmentation jo j ks" for ks
  proof -
    have p: "pieces_ok ?ok 1 ks" "1 + sum_list ks = ?n" using seg by (simp_all add: segmentation_def)
    show ?thesis using table_upper [OF inv ok p(1) start] unfolding p(2) by simp
  qed
  show ?thesis
  proof (cases "fst t ! (?n - 1)")
    case None
    then have "snd t ! (?n - 1) = 0" using inv n by (simp add: table_inv_def)
    moreover have "?n \<noteq> 1" using None start by auto
    ultimately have "sentence_lengths (snd t) ?n = None" using n by (intro sentence_lengths_stuck) auto
    then have "parse_paragraph (\<lambda>s. Inr (cost s)) jo document_id new_document paragraph = None"
      using t by (cases t) (simp add: parse_paragraph_def assms joined_paragraph_def Let_def)
    moreover have "\<not> segmentation jo j ls" for ls
      using upper [of ls] None by auto
    ultimately show ?thesis by blast
  next
    case (Some v)
    obtain ls where ls: "sentence_lengths (snd t) ?n = Some ls" "pieces_ok ?ok 1 ls" "1 + sum_list ls = ?n" "pieces_score ?k 1 ls = v"
      using table_back [OF inv ok n order.refl Some] by blast
    have best: "pieces_score ?k 1 ks \<le> v" if "segmentation jo j ks" for ks
      using upper [OF that] Some by simp
    let ?ss = "cut_sentences (j_words j) (j_multiword_tokens j) 1 ls"
    let ?res = "case ?ss of [] \<Rightarrow> ([], new_document)
      | s # ss \<Rightarrow> (set_new_par True [] (if new_document then set_new_doc True document_id s else s) # ss, False)"
    have "parse_paragraph (\<lambda>s. Inr (cost s)) jo document_id new_document paragraph = Some (Inr ?res)"
      using t ls(1) by (cases t) (simp add: parse_paragraph_def assms joined_paragraph_def Let_def)
    moreover have "map sentence_forms (fst ?res) = map sentence_forms ?ss" by (auto split: list.split)
    moreover have "concat (map sentence_forms ?ss) = map tk_form (take (sum_list ls) (drop 1 (j_words j))) \<and>
        map (\<lambda>s. length (sentence_forms s)) ?ss = ls"
      using ls(3) by (intro cut_sentences_forms) auto
    moreover have "map tk_form (take (sum_list ls) (drop 1 (j_words j))) = concat (map sentence_forms paragraph)"
      using ls(3) joined_forms [of "paragraph"] by (simp add: assms drop_Suc map_tl)
    moreover have "map (\<lambda>s. length (sentence_forms s)) (fst ?res) = map length (map sentence_forms (fst ?res))" by (simp add: comp_def)
    ultimately show ?thesis
      using ls(2,3,4) best
      by (intro disjI1 exI [of _ ls] conjI exI [of _ "fst ?res"] exI [of _ "snd ?res"]) (auto simp: segmentation_def comp_def)
  qed
qed

text \<open>
  C8: When some segmentation of a paragraph respects multiword tokens and the maximal length, joint
  parsing returns sentences with exactly the paragraph's words, in order, cut at a segmentation
  whose score (parse costs and penalties) no other segmentation exceeds.
\<close>

theorem joint_parsing_optimal:
  fixes jo :: "('c :: linordered_ab_group_add) joint_options"
  assumes "segmentation jo (joined_paragraph paragraph) any"
  shows "\<exists>ss new ls. parse_paragraph (\<lambda>s. Inr (cost s)) jo document_id new_document paragraph = Some (Inr (ss, new)) \<and>
     concat (map sentence_forms ss) = concat (map sentence_forms paragraph) \<and>
     map (\<lambda>s. length (sentence_forms s)) ss = ls \<and> segmentation jo (joined_paragraph paragraph) ls \<and>
     (\<forall>ks. segmentation jo (joined_paragraph paragraph) ks \<longrightarrow>
        pieces_score (candidate_score cost jo (joined_paragraph paragraph)) 1 ks \<le>
        pieces_score (candidate_score cost jo (joined_paragraph paragraph)) 1 ls)"
  using parse_paragraph_cases [OF refl, of jo "paragraph" cost document_id new_document] assms by blast

definition two_words :: sentence where
  "two_words = clear_sentence\<lparr>s_words := add_word ''b'' (add_word ''a'' (s_words clear_sentence))\<rparr>"

definition two_long :: "int joint_options" where
  "two_long = \<lparr>jo_max_sentence_len = 2, jo_change_boundary = -1, jo_sentence = -1\<rparr>"

lemma two_words_segmentation: "segmentation two_long (joined_paragraph [two_words]) [2]"
  by (simp add: segmentation_def two_long_def two_words_def joined_paragraph_def join_sentence_def no_words_def clear_sentence_def
      add_word_def mk_word_def piece_ok_def to_unsigned_def Let_def upt_rec)

lemma joint_parsing_optimal_witness:
  "\<exists>ss new ls. parse_paragraph (\<lambda>s. Inr (- int (length (s_words s)))) two_long [] True [two_words] = Some (Inr (ss, new)) \<and>
     concat (map sentence_forms ss) = concat (map sentence_forms [two_words]) \<and> map (\<lambda>s. length (sentence_forms s)) ss = ls \<and>
     segmentation two_long (joined_paragraph [two_words]) ls"
  using joint_parsing_optimal [OF two_words_segmentation, of "\<lambda>s. - int (length (s_words s))" "[]" True] by blast

text \<open>
  C33: Joint parsing loops for ever exactly on the paragraphs without a segmentation: a maximal
  sentence length of zero, or a multiword token longer than it, hangs the tokenizer.
\<close>

theorem joint_parsing_hangs:
  "parse_paragraph (\<lambda>s. Inr (cost s)) jo document_id new_document paragraph = None \<longleftrightarrow>
     (\<nexists>ls. segmentation jo (joined_paragraph paragraph) ls)"
  using parse_paragraph_cases [OF refl, of jo "paragraph" cost document_id new_document] by auto

end
