(* ===== verification/Gru_Tokenizer.thy ===== *)
theory Gru_Tokenizer
  imports Utf8 Line_Formats
begin

text \<open>
  The tokenizer of MorphoDiTa that UDPipe models use: \<open>src/morphodita/tokenizer/gru_tokenizer.cpp\<close>
  over \<open>unicode_tokenizer.cpp\<close>. The network, which classifies a window of characters, and the
  generated recognizer of URLs and e-mail addresses are parameters.

  The proofs show that the tokenizer ends and never reads outside its vectors when the window is
  not empty, that it gives non-empty tokens in the order of the text with only spaces between
  them, and that without spaces in tokens and with windows of ten characters no token has a space.
\<close>

section \<open>Characters\<close>

text \<open>Spaces of every tokenizer: separators, carriage returns, line feeds and tabs.\<close>

definition unicode_space :: "unicode_tables \<Rightarrow> nat \<Rightarrow> bool" where
  "unicode_space u chr \<longleftrightarrow> has_category u chr cat_Zs \<or> chr = byte_of cr \<or> chr = byte_of lf \<or> chr = byte_of tab"

text \<open>The code points of a text with the offsets of their bytes.\<close>

function read_chars :: "nat \<Rightarrow> string \<Rightarrow> (nat \<times> nat) list" where
  "read_chars pos s =
     (if s = [] then []
      else (case utf8_decode s of (chr, s') \<Rightarrow> (chr, pos) # read_chars (pos + (length s - length s')) s'))"
  by pat_completeness auto
termination
  by (relation "measure (length \<circ> snd)") (auto dest!: utf8_decode_length, metis snd_conv)

declare read_chars.simps [simp del]

section \<open>Model\<close>

datatype outcome = No_Split | End_Of_Token | End_Of_Sentence

text \<open>
  The window holds the entries of the network that are not used yet: the offset of each character,
  the offset behind it and the outcome.
\<close>

record gru_tokenizer =
  gt_chars :: "(nat \<times> nat) list"
  gt_bytes :: nat
  gt_current :: nat
  gt_window :: "(nat \<times> nat \<times> outcome) list"

record gru_model =
  gm_tables :: unicode_tables
  gm_segment :: nat
  gm_allow_spaces :: bool
  gm_url :: "nat list \<Rightarrow> nat \<Rightarrow> nat option"
  gm_classify :: "(nat \<times> nat) list \<Rightarrow> nat \<Rightarrow> outcome"

definition chr_at :: "(nat \<times> nat) list \<Rightarrow> nat \<Rightarrow> nat" where
  "chr_at chars i = fst (chars ! i)"

text \<open>The offset in bytes; behind the characters stands a sentinel at the end of the text.\<close>

definition str_at :: "gru_tokenizer \<Rightarrow> nat \<Rightarrow> nat" where
  "str_at st i = (if i < length (gt_chars st) then snd (gt_chars st ! i) else gt_bytes st)"

definition space_at :: "gru_model \<Rightarrow> (nat \<times> nat) list \<Rightarrow> nat \<Rightarrow> bool" where
  "space_at m chars i \<longleftrightarrow> unicode_space (gm_tables m) (chr_at chars i)"

definition gru_set_text :: "string \<Rightarrow> gru_tokenizer \<Rightarrow> gru_tokenizer" where
  "gru_set_text t st = st\<lparr>gt_chars := read_chars 0 t, gt_bytes := length t, gt_current := 0\<rparr>"

text \<open>The characters of a window, where a run of spaces is one character.\<close>

definition chunk_end :: "gru_model \<Rightarrow> (nat \<times> nat) list \<Rightarrow> nat \<Rightarrow> nat" where
  "chunk_end m chars i =
     (if space_at m chars i then i + length (takeWhile (\<lambda>(chr, _). unicode_space (gm_tables m) chr) (drop i chars)) else i + 1)"

fun chunks :: "gru_model \<Rightarrow> (nat \<times> nat) list \<Rightarrow> nat \<Rightarrow> nat \<Rightarrow> (nat \<times> nat) list" where
  "chunks m chars i 0 = []"
| "chunks m chars i (Suc k) =
     (if i < length chars then (i, chunk_end m chars i) # chunks m chars (chunk_end m chars i) k else [])"

definition network_chars :: "gru_model \<Rightarrow> (nat \<times> nat) list \<Rightarrow> (nat \<times> nat) list \<Rightarrow> (nat \<times> nat) list" where
  "network_chars m chars cs =
     (let ncs = map (\<lambda>(i, _). if space_at m chars i then (32, cat_Zs)
          else (chr_at chars i, unicode_category (gm_tables m) (chr_at chars i))) cs
      in if length cs < gm_segment m \<and> fst (last ncs) \<noteq> 32 then ncs @ [(32, cat_Zs)] else ncs)"

text \<open>Two line feeds, plain or with carriage returns, in the space between two offsets.\<close>

definition empty_line :: "(nat \<times> nat) list \<Rightarrow> nat \<Rightarrow> nat \<Rightarrow> bool" where
  "empty_line chars i e \<longleftrightarrow> (\<exists>j \<in> set [i..<e - 1].
     chr_at chars j = byte_of lf \<and> chr_at chars (j + 1) = byte_of lf \<or>
     j + 3 < e \<and> chr_at chars j = byte_of cr \<and> chr_at chars (j + 1) = byte_of lf \<and>
       chr_at chars (j + 2) = byte_of cr \<and> chr_at chars (j + 3) = byte_of lf)"

text \<open>The outcome of an entry, corrected when a space follows it in the window.\<close>

definition spacing_break :: "gru_model \<Rightarrow> (nat \<times> nat) list \<Rightarrow> (nat \<times> nat) list \<Rightarrow> (nat \<Rightarrow> outcome) \<Rightarrow> nat \<Rightarrow> outcome" where
  "spacing_break m chars cs raw k =
     (if k + 1 < length cs \<and> space_at m chars (fst (cs ! (k + 1))) then
        (if raw (k + 1) = End_Of_Sentence \<or> k + 2 = length cs \<or> empty_line chars (fst (cs ! (k + 1))) (snd (cs ! (k + 1)))
         then End_Of_Sentence
         else if raw k = No_Split \<and> (\<not> gm_allow_spaces m \<or> raw (k + 1) = End_Of_Token) then End_Of_Token
         else raw k)
      else raw k)"

text \<open>A full window ends at a suitable break in its second half.\<close>

fun cut_window :: "(nat \<Rightarrow> outcome) \<Rightarrow> nat \<Rightarrow> nat \<Rightarrow> nat" where
  "cut_window outcome half 0 = 0"
| "cut_window outcome half (Suc l) =
     (if Suc l > half then (if outcome l \<noteq> No_Split then l else cut_window outcome half l) else Suc l)"

definition window_length :: "gru_model \<Rightarrow> (nat \<Rightarrow> outcome) \<Rightarrow> nat \<Rightarrow> nat" where
  "window_length m outcome l =
     (if l = gm_segment m \<and> l \<ge> 10 then cut_window outcome (gm_segment m div 2) (l - 5) else l)"

definition classify_window :: "gru_model \<Rightarrow> (nat \<times> nat) list \<Rightarrow> nat \<Rightarrow> (nat \<times> nat \<times> outcome) list" where
  "classify_window m chars current =
     (let cs = chunks m chars current (gm_segment m);
          outcome = spacing_break m chars cs (gm_classify m (network_chars m chars cs))
      in map (\<lambda>k. (fst (cs ! k), snd (cs ! k), outcome k)) [0..<window_length m outcome (length cs)])"

text \<open>\<open>None\<close>: the window is empty, and the code would read outside of its vectors.\<close>

definition next_outcome :: "gru_model \<Rightarrow> gru_tokenizer \<Rightarrow> (outcome \<times> gru_tokenizer) option" where
  "next_outcome m st =
     (case (if gt_window st = [] then classify_window m (gt_chars st) (gt_current st) else gt_window st) of
        [] \<Rightarrow> None
      | (_, next, out) # win \<Rightarrow> Some (out, st\<lparr>gt_current := next, gt_window := win\<rparr>))"

text \<open>The three loops; \<open>None\<close> would be a loop that does not end.\<close>

partial_function (option) skip_spaces :: "gru_model \<Rightarrow> bool \<Rightarrow> gru_tokenizer \<Rightarrow> gru_tokenizer option" where
  "skip_spaces m some st =
     (if gt_current st < length (gt_chars st) \<and> space_at m (gt_chars st) (gt_current st) then
        Option.bind (next_outcome m st) (\<lambda>(out, st). if out = End_Of_Sentence \<and> some then Some st else skip_spaces m some st)
      else Some st)"

partial_function (option) slurp :: "gru_model \<Rightarrow> gru_tokenizer \<Rightarrow> (outcome \<times> gru_tokenizer) option" where
  "slurp m st =
     Option.bind (next_outcome m st) (\<lambda>(out, st).
       if out \<noteq> No_Split \<or> \<not> gt_current st < length (gt_chars st) then Some (out, st) else slurp m st)"

definition cat_P :: nat where "cat_P = unicode_bit [12, 13, 14, 15, 16, 17, 18]"
definition cat_Po :: nat where "cat_Po = unicode_bit [18]"

definition emergency_split :: "gru_model \<Rightarrow> (nat \<times> nat) list \<Rightarrow> (nat \<times> nat) list \<Rightarrow> bool" where
  "emergency_split m chars tokens \<longleftrightarrow> length tokens \<ge> 500 \<or>
     length tokens \<ge> 450 \<and> has_category (gm_tables m) (chr_at chars (fst (last tokens))) cat_P \<or>
     length tokens \<ge> 400 \<and> has_category (gm_tables m) (chr_at chars (fst (last tokens))) cat_Po"

text \<open>The entries of the characters of a URL are used up; a sentence may end with them.\<close>

definition pass_url :: "nat \<Rightarrow> gru_tokenizer \<Rightarrow> bool \<times> gru_tokenizer" where
  "pass_url e st =
     (let before = (\<lambda>(i, _). i < e)
      in (\<exists>(_, _, out) \<in> set (takeWhile before (gt_window st)). out = End_Of_Sentence,
          st\<lparr>gt_current := e, gt_window := dropWhile before (gt_window st)\<rparr>))"

partial_function (option) gru_tokens ::
  "gru_model \<Rightarrow> (nat \<times> nat) list \<Rightarrow> bool \<Rightarrow> gru_tokenizer \<Rightarrow> ((nat \<times> nat) list \<times> gru_tokenizer) option" where
  "gru_tokens m tokens eos st =
     (if eos \<or> emergency_split m (gt_chars st) tokens then Some (tokens, st)
      else Option.bind (skip_spaces m (tokens \<noteq> []) st) (\<lambda>st.
        if gt_current st \<ge> length (gt_chars st) then Some (tokens, st)
        else (case gm_url m (map fst (gt_chars st)) (gt_current st) of
            Some e \<Rightarrow> (case pass_url e st of (eos, st') \<Rightarrow> gru_tokens m (tokens @ [(gt_current st, e - gt_current st)]) eos st')
          | None \<Rightarrow> Option.bind (slurp m st) (\<lambda>(out, st').
              gru_tokens m (tokens @ [(gt_current st, gt_current st' - gt_current st)]) (out = End_Of_Sentence) st'))))"

declare skip_spaces.simps [code] slurp.simps [code] gru_tokens.simps [code]

text \<open>The forms, as offset and length in bytes, and the tokens in characters.\<close>

definition token_form :: "gru_tokenizer \<Rightarrow> nat \<times> nat \<Rightarrow> nat \<times> nat" where
  "token_form st = (\<lambda>(start, len). (str_at st start, str_at st (start + len) - str_at st start))"

definition gru_next_sentence ::
  "gru_model \<Rightarrow> gru_tokenizer \<Rightarrow> (((nat \<times> nat) list \<times> (nat \<times> nat) list) option \<times> gru_tokenizer) option" where
  "gru_next_sentence m st =
     (if gt_current st \<ge> length (gt_chars st) then Some (None, st)
      else map_option (\<lambda>(tokens, st). (if tokens = [] then None else Some (map (token_form st) tokens, tokens), st))
        (gru_tokens m [] False (if gt_current st = 0 then st\<lparr>gt_window := []\<rparr> else st)))"

section \<open>Windows\<close>

lemma chunk_end_space:
  assumes "i < length chars" "space_at m chars i"
  shows "i < chunk_end m chars i" "chunk_end m chars i \<le> length chars"
    "\<forall>j. i \<le> j \<and> j < chunk_end m chars i \<longrightarrow> space_at m chars j"
    "chunk_end m chars i < length chars \<longrightarrow> \<not> space_at m chars (chunk_end m chars i)"
proof -
  let ?P = "\<lambda>(chr :: nat, _ :: nat). unicode_space (gm_tables m) chr" and ?d = "drop i chars"
  have e: "chunk_end m chars i = i + length (takeWhile ?P ?d)" using assms(2) by (simp add: chunk_end_def)
  have hd: "?d \<noteq> []" "?P (hd ?d)" using assms by (auto simp: hd_drop_conv_nth space_at_def chr_at_def case_prod_beta)
  have "takeWhile ?P ?d \<noteq> []" using hd by (cases ?d) auto
  then show "i < chunk_end m chars i" unfolding e by simp
  have le: "length (takeWhile ?P ?d) \<le> length ?d" by (rule length_takeWhile_le)
  then show "chunk_end m chars i \<le> length chars" unfolding e using assms(1) by simp
  show "\<forall>j. i \<le> j \<and> j < chunk_end m chars i \<longrightarrow> space_at m chars j"
  proof (intro allI impI)
    fix j assume j: "i \<le> j \<and> j < chunk_end m chars i"
    then have k: "j - i < length (takeWhile ?P ?d)" unfolding e by auto
    then have "?P (takeWhile ?P ?d ! (j - i))" using nth_mem set_takeWhileD by metis
    moreover have "takeWhile ?P ?d ! (j - i) = chars ! j" using k le j assms(1) by (simp add: takeWhile_nth)
    ultimately show "space_at m chars j" by (simp add: space_at_def chr_at_def case_prod_beta)
  qed
  show "chunk_end m chars i < length chars \<longrightarrow> \<not> space_at m chars (chunk_end m chars i)"
  proof
    assume lt: "chunk_end m chars i < length chars"
    then have "length (takeWhile ?P ?d) < length ?d" unfolding e by simp
    then have "\<not> ?P (?d ! length (takeWhile ?P ?d))" by (rule nth_length_takeWhile)
    then show "\<not> space_at m chars (chunk_end m chars i)" using lt unfolding e by (simp add: space_at_def chr_at_def case_prod_beta)
  qed
qed

lemma chunk_end_char: "\<not> space_at m chars i \<Longrightarrow> chunk_end m chars i = i + 1"
  by (simp add: chunk_end_def)

lemma chunk_end_bounds: "i < length chars \<Longrightarrow> i < chunk_end m chars i \<and> chunk_end m chars i \<le> length chars"
  using chunk_end_space(1,2) chunk_end_char by (cases "space_at m chars i") fastforce+

lemma chunks_length: "length (chunks m chars i k) \<le> k"
  by (induction k arbitrary: i) auto

lemma chunks_nonempty: "i < length chars \<Longrightarrow> 1 \<le> k \<Longrightarrow> 1 \<le> length (chunks m chars i k)"
  by (cases k) auto

text \<open>A window that is shorter than the segment reaches the end of the text.\<close>

lemma chunks_all:
  "length (chunks m chars i k) < k \<Longrightarrow> i < length chars \<Longrightarrow> snd (last (chunks m chars i k)) = length chars"
proof (induction k arbitrary: i)
  case (Suc k)
  let ?e = "chunk_end m chars i"
  have e: "i < ?e" "?e \<le> length chars" using chunk_end_bounds [OF Suc.prems(2)] by auto
  show ?case
  proof (cases "?e < length chars")
    case True
    then have "snd (last (chunks m chars ?e k)) = length chars" using Suc by simp
    moreover have "chunks m chars ?e k \<noteq> []" using True Suc.prems by (cases k) auto
    ultimately show ?thesis using Suc.prems(2) by simp
  next
    case False
    then have "chunks m chars ?e k = []" by (cases k) auto
    then show ?thesis using False e Suc.prems(2) by simp
  qed
qed simp

text \<open>The entries of a window follow each other from the current character on.\<close>

fun linked :: "gru_model \<Rightarrow> (nat \<times> nat) list \<Rightarrow> nat \<Rightarrow> (nat \<times> nat \<times> outcome) list \<Rightarrow> bool" where
  "linked m chars i [] \<longleftrightarrow> True"
| "linked m chars i ((j, e, _) # win) \<longleftrightarrow> j = i \<and> i < length chars \<and> e = chunk_end m chars i \<and> linked m chars e win"

lemma chunks_link:
  "k < length cs \<Longrightarrow> cs = chunks m chars i n \<Longrightarrow>
   fst (cs ! k) < length chars \<and> snd (cs ! k) = chunk_end m chars (fst (cs ! k)) \<and>
   (k + 1 < length cs \<longrightarrow> fst (cs ! (k + 1)) = snd (cs ! k)) \<and> fst (cs ! 0) = i"
proof (induction n arbitrary: i k cs)
  case (Suc n)
  let ?e = "chunk_end m chars i"
  have i: "i < length chars" "cs = (i, ?e) # chunks m chars ?e n" using Suc.prems by (auto split: if_splits)
  show ?case
  proof (cases k)
    case 0
    show ?thesis
    proof (cases n)
      case (Suc l)
      then show ?thesis using 0 i by (cases "?e < length chars") auto
    qed (use 0 i in simp)
  next
    case (Suc l)
    then show ?thesis using Suc.IH [of l "chunks m chars ?e n" ?e] Suc.prems i by simp
  qed
qed simp

lemma linked_map_upt:
  assumes "\<forall>k < l. fst (cs ! k) < length chars \<and> snd (cs ! k) = chunk_end m chars (fst (cs ! k)) \<and>
      (k + 1 < l \<longrightarrow> fst (cs ! (k + 1)) = snd (cs ! k))" "b \<le> l"
  shows "b < l \<longrightarrow> linked m chars (fst (cs ! b)) (map (\<lambda>k. (fst (cs ! k), snd (cs ! k), f k)) [b..<l])"
  using assms(2)
proof (induction "l - b" arbitrary: b)
  case (Suc d)
  then have b: "b < l" "[b..<l] = b # [Suc b..<l]" by (auto simp: upt_conv_Cons)
  have "linked m chars (snd (cs ! b)) (map (\<lambda>k. (fst (cs ! k), snd (cs ! k), f k)) [Suc b..<l])"
  proof (cases "Suc b < l")
    case True
    then have "linked m chars (fst (cs ! Suc b)) (map (\<lambda>k. (fst (cs ! k), snd (cs ! k), f k)) [Suc b..<l])"
      using Suc.hyps by simp
    then show ?thesis using assms(1) True b(1) by simp
  qed simp
  then show ?case using assms(1) b by simp
qed simp

text \<open>Windows of at least ten characters and no spaces in tokens: no token runs into a space.\<close>

definition strict :: "gru_model \<Rightarrow> bool" where
  "strict m \<longleftrightarrow> \<not> gm_allow_spaces m \<and> 10 \<le> gm_segment m"

definition stops_at_space :: "gru_model \<Rightarrow> (nat \<times> nat) list \<Rightarrow> (nat \<times> nat \<times> outcome) list \<Rightarrow> bool" where
  "stops_at_space m chars win \<longleftrightarrow>
     (strict m \<longrightarrow> (\<forall>(i, e, out) \<in> set win. e < length chars \<and> space_at m chars e \<longrightarrow> out \<noteq> No_Split))"

lemma cut_window_bounds: "cut_window outcome half l \<le> l \<and> min half l \<le> cut_window outcome half l"
  by (induction l) auto

lemma window_length_bounds:
  assumes "1 \<le> l"
  shows "1 \<le> window_length m outcome l \<and> window_length m outcome l \<le> l \<and>
    (window_length m outcome l = l \<longrightarrow> \<not> (l = gm_segment m \<and> l \<ge> 10))"
  using assms cut_window_bounds [of outcome "gm_segment m div 2" "l - 5"] by (auto simp: window_length_def)

lemma classify_window_ok:
  assumes "i < length chars" "1 \<le> gm_segment m"
  shows "classify_window m chars i \<noteq> [] \<and> linked m chars i (classify_window m chars i) \<and>
    stops_at_space m chars (classify_window m chars i)"
proof -
  let ?cs = "chunks m chars i (gm_segment m)"
  let ?out = "spacing_break m chars ?cs (gm_classify m (network_chars m chars ?cs))"
  let ?l = "window_length m ?out (length ?cs)"
  have len: "1 \<le> length ?cs" "length ?cs \<le> gm_segment m" using chunks_nonempty [OF assms] chunks_length by auto
  note wl = window_length_bounds [OF len(1), of m ?out]
  have win: "classify_window m chars i = map (\<lambda>k. (fst (?cs ! k), snd (?cs ! k), ?out k)) [0..<?l]"
    by (simp add: classify_window_def Let_def)
  have link: "fst (?cs ! k) < length chars \<and> snd (?cs ! k) = chunk_end m chars (fst (?cs ! k)) \<and>
      (k + 1 < length ?cs \<longrightarrow> fst (?cs ! (k + 1)) = snd (?cs ! k)) \<and> fst (?cs ! 0) = i" if "k < length ?cs" for k
    by (rule chunks_link [OF that refl])
  have first: "fst (?cs ! 0) = i" using link [of 0] len(1) by linarith
  have "0 < ?l \<longrightarrow> linked m chars (fst (?cs ! 0)) (map (\<lambda>k. (fst (?cs ! k), snd (?cs ! k), ?out k)) [0..<?l])"
    by (rule linked_map_upt) (use link wl in auto)
  then have "linked m chars i (classify_window m chars i)" using wl first unfolding win by simp
  moreover have "stops_at_space m chars (classify_window m chars i)"
    unfolding stops_at_space_def win
  proof (intro impI ballI, clarsimp)
    fix k assume s: "strict m" and k: "k < ?l" and e: "snd (?cs ! k) < length chars" "space_at m chars (snd (?cs ! k))"
      and no: "?out k = No_Split"
    show False
    proof (cases "k + 1 < length ?cs")
      case True
      then have "fst (?cs ! (k + 1)) = snd (?cs ! k)" using link [of k] by simp
      then show False using True s e(2) no by (auto simp: spacing_break_def strict_def split: if_splits)
    next
      case False
      then have l: "?l = length ?cs" "k = length ?cs - 1" using k wl by auto
      then have "length ?cs < gm_segment m" using wl s len(2) by (auto simp: strict_def)
      then have "snd (last ?cs) = length chars" using chunks_all [OF _ assms(1)] by blast
      moreover have "last ?cs = ?cs ! k" using l(2) len(1) by (subst last_conv_nth) auto
      ultimately show False using e(1) by simp
    qed
  qed
  moreover have "classify_window m chars i \<noteq> []" using wl by (simp add: win)
  ultimately show ?thesis by blast
qed

section \<open>The loops\<close>

text \<open>What the loops keep: the window belongs to the text in front of the tokenizer.\<close>

definition state_ok :: "gru_model \<Rightarrow> gru_tokenizer \<Rightarrow> bool" where
  "state_ok m st \<longleftrightarrow> gt_current st \<le> length (gt_chars st) \<and> linked m (gt_chars st) (gt_current st) (gt_window st) \<and>
     stops_at_space m (gt_chars st) (gt_window st)"

definition same_text :: "gru_tokenizer \<Rightarrow> gru_tokenizer \<Rightarrow> bool" where
  "same_text st st' \<longleftrightarrow> gt_chars st' = gt_chars st \<and> gt_bytes st' = gt_bytes st"

text \<open>A URL has at least one character and no spaces.\<close>

definition model_ok :: "gru_model \<Rightarrow> bool" where
  "model_ok m \<longleftrightarrow> 1 \<le> gm_segment m \<and>
     (\<forall>chars i e. gm_url m (map fst chars) i = Some e \<longrightarrow> i < e \<and> e \<le> length chars \<and> (\<forall>j. i \<le> j \<and> j < e \<longrightarrow> \<not> space_at m chars j))"

lemma next_outcome_ok:
  assumes "1 \<le> gm_segment m" "state_ok m st" "gt_current st < length (gt_chars st)"
  shows "\<exists>out st'. next_outcome m st = Some (out, st') \<and> state_ok m st' \<and> same_text st st' \<and>
    gt_current st' = chunk_end m (gt_chars st) (gt_current st) \<and>
    (strict m \<and> gt_current st' < length (gt_chars st) \<and> space_at m (gt_chars st) (gt_current st') \<longrightarrow> out \<noteq> No_Split)"
proof -
  let ?w = "if gt_window st = [] then classify_window m (gt_chars st) (gt_current st) else gt_window st"
  have w: "?w \<noteq> []" "linked m (gt_chars st) (gt_current st) ?w" "stops_at_space m (gt_chars st) ?w"
    using classify_window_ok [OF assms(3,1)] assms(2) by (auto simp: state_ok_def)
  then obtain i e out win where e: "?w = (i, e, out) # win" by (cases ?w) auto
  have l: "e = chunk_end m (gt_chars st) (gt_current st)" "linked m (gt_chars st) e win" using w(2) unfolding e by auto
  have "next_outcome m st = Some (out, st\<lparr>gt_current := e, gt_window := win\<rparr>)"
    unfolding next_outcome_def using e by (simp cong: if_cong)
  then show ?thesis
    using l w(3) chunk_end_bounds [OF assms(3), of m] unfolding e
    by (auto simp: state_ok_def same_text_def stops_at_space_def)
qed

lemma skip_spaces_ok:
  assumes "1 \<le> gm_segment m"
  shows "state_ok m st \<Longrightarrow> \<exists>st'. skip_spaces m some st = Some st' \<and> state_ok m st' \<and> same_text st st' \<and>
    gt_current st \<le> gt_current st' \<and> (\<forall>i. gt_current st \<le> i \<and> i < gt_current st' \<longrightarrow> space_at m (gt_chars st) i) \<and>
    (gt_current st' < length (gt_chars st) \<longrightarrow> \<not> space_at m (gt_chars st) (gt_current st'))"
proof (induction "length (gt_chars st) - gt_current st" arbitrary: st rule: less_induct)
  case less
  show ?case
  proof (cases "gt_current st < length (gt_chars st) \<and> space_at m (gt_chars st) (gt_current st)")
    case False
    then show ?thesis using less.prems by (subst skip_spaces.simps) (auto simp: same_text_def)
  next
    case True
    obtain out st1 where n: "next_outcome m st = Some (out, st1)" "state_ok m st1" "same_text st st1"
      "gt_current st1 = chunk_end m (gt_chars st) (gt_current st)"
      using next_outcome_ok [OF assms less.prems] True by blast
    note c = chunk_end_space [of "gt_current st" "gt_chars st" m, folded n(4)]
    show ?thesis
    proof (cases "out = End_Of_Sentence \<and> some")
      case e: True
      then have "skip_spaces m some st = Some st1" using True n(1) by (subst skip_spaces.simps) simp
      then show ?thesis using n c True by (intro exI [of _ st1]) auto
    next
      case e: False
      then have step: "skip_spaces m some st = skip_spaces m some st1" using True n(1) by (subst skip_spaces.simps) (simp only: if_False if_True simp_thms bind.simps prod.case)
      have s: "gt_chars st1 = gt_chars st" using n(3) by (simp add: same_text_def)
      have less1: "length (gt_chars st1) - gt_current st1 < length (gt_chars st) - gt_current st" using c(1) s True by auto
      obtain st2 where "skip_spaces m some st1 = Some st2" "state_ok m st2" "same_text st1 st2"
        "gt_current st1 \<le> gt_current st2" "\<forall>i. gt_current st1 \<le> i \<and> i < gt_current st2 \<longrightarrow> space_at m (gt_chars st) i"
        "gt_current st2 < length (gt_chars st) \<longrightarrow> \<not> space_at m (gt_chars st) (gt_current st2)"
        using less.hyps [OF less1 n(2)] unfolding s by blast
      moreover have "space_at m (gt_chars st) i" if "gt_current st \<le> i" "i < gt_current st2" for i
        using that c(3) True \<open>\<forall>i. gt_current st1 \<le> i \<and> _ \<longrightarrow> _\<close> by (cases "i < gt_current st1") auto
      moreover have "same_text st st2" "gt_current st \<le> gt_current st2"
        using n(3) c(1) True \<open>same_text st1 st2\<close> \<open>gt_current st1 \<le> gt_current st2\<close> by (auto simp: same_text_def)
      ultimately show ?thesis unfolding step by (intro exI [of _ st2]) simp
    qed
  qed
qed

lemma slurp_ok:
  assumes "1 \<le> gm_segment m"
  shows "state_ok m st \<Longrightarrow> gt_current st < length (gt_chars st) \<Longrightarrow>
    \<exists>out st'. slurp m st = Some (out, st') \<and> state_ok m st' \<and> same_text st st' \<and> gt_current st < gt_current st' \<and>
    (strict m \<and> \<not> space_at m (gt_chars st) (gt_current st) \<longrightarrow>
       (\<forall>i. gt_current st \<le> i \<and> i < gt_current st' \<longrightarrow> \<not> space_at m (gt_chars st) i))"
proof (induction "length (gt_chars st) - gt_current st" arbitrary: st rule: less_induct)
  case less
  obtain out st1 where n: "next_outcome m st = Some (out, st1)" "state_ok m st1" "same_text st st1"
    "gt_current st1 = chunk_end m (gt_chars st) (gt_current st)"
    "strict m \<and> gt_current st1 < length (gt_chars st) \<and> space_at m (gt_chars st) (gt_current st1) \<longrightarrow> out \<noteq> No_Split"
    using next_outcome_ok [OF assms less.prems] by blast
  have c: "gt_current st < gt_current st1" using chunk_end_bounds [OF less.prems(2), of m] n(4) by simp
  have s: "gt_chars st1 = gt_chars st" using n(3) by (simp add: same_text_def)
  have one: "\<not> space_at m (gt_chars st) (gt_current st) \<Longrightarrow> gt_current st1 = gt_current st + 1" using n(4) by (simp add: chunk_end_char)
  show ?case
  proof (cases "out \<noteq> No_Split \<or> \<not> gt_current st1 < length (gt_chars st)")
    case True
    then have "slurp m st = Some (out, st1)" using n(1) s by (subst slurp.simps) auto
    moreover have "\<not> space_at m (gt_chars st) i"
      if "\<not> space_at m (gt_chars st) (gt_current st)" "gt_current st \<le> i" "i < gt_current st1" for i
      using that one by (cases "i = gt_current st") auto
    ultimately show ?thesis using n(2,3) c by blast
  next
    case False
    then have step: "slurp m st = slurp m st1" using n(1) s by (subst slurp.simps) auto
    have next_char: "\<not> space_at m (gt_chars st) (gt_current st1)" if "strict m" using n(5) that False by blast
    have less1: "length (gt_chars st1) - gt_current st1 < length (gt_chars st) - gt_current st" using c s False less.prems(2) by auto
    obtain out2 st2 where t: "slurp m st1 = Some (out2, st2)" "state_ok m st2" "same_text st1 st2" "gt_current st1 < gt_current st2"
      "strict m \<and> \<not> space_at m (gt_chars st) (gt_current st1) \<longrightarrow>
        (\<forall>i. gt_current st1 \<le> i \<and> i < gt_current st2 \<longrightarrow> \<not> space_at m (gt_chars st) i)"
      using less.hyps [OF less1 n(2)] False unfolding s by blast
    have inside: "\<not> space_at m (gt_chars st) i"
      if "strict m" "\<not> space_at m (gt_chars st) (gt_current st)" "gt_current st \<le> i" "i < gt_current st2" for i
    proof (cases "i = gt_current st")
      case False
      then have "gt_current st1 \<le> i" using one [OF that(2)] that(3) by simp
      then show ?thesis using t(5) that(1,4) next_char [OF that(1)] by blast
    qed (use that in simp)
    have "same_text st st2" "gt_current st < gt_current st2" using t(3,4) n(3) c by (auto simp: same_text_def)
    then show ?thesis unfolding step using t(1,2) inside by (intro exI [of _ out2] exI [of _ st2]) simp
  qed
qed

lemma linked_url:
  assumes "\<forall>j. i \<le> j \<and> j < e \<longrightarrow> \<not> space_at m chars j"
  shows "linked m chars i win \<Longrightarrow> i \<le> e \<Longrightarrow> linked m chars e (dropWhile (\<lambda>(j, _). j < e) win)"
  using assms
proof (induction win arbitrary: i)
  case (Cons x win)
  obtain j e' out where x: "x = (j, e', out)" by (cases x)
  show ?case
  proof (cases "i = e")
    case True
    then show ?thesis using Cons.prems(1) by (auto simp: x)
  next
    case False
    have j: "j = i" "e' = chunk_end m chars i" "linked m chars e' win" using Cons.prems(1) by (auto simp: x)
    have "e' = i + 1" using Cons.prems False j(2) by (simp add: chunk_end_char)
    then have "linked m chars e (dropWhile (\<lambda>(j, _). j < e) win)" using Cons.IH [of e'] j(3) Cons.prems False by auto
    then show ?thesis using Cons.prems(2) False j(1) by (simp add: x)
  qed
qed simp

text \<open>
  Tokens cover the characters from a position to another but for spaces: they are in order, not
  empty, and start with no space; in strict models they have no spaces at all.
\<close>

fun covered :: "gru_model \<Rightarrow> (nat \<times> nat) list \<Rightarrow> nat \<Rightarrow> (nat \<times> nat) list \<Rightarrow> nat \<Rightarrow> bool" where
  "covered m chars i [] e \<longleftrightarrow> i \<le> e \<and> (\<forall>j. i \<le> j \<and> j < e \<longrightarrow> space_at m chars j)"
| "covered m chars i ((start, len) # ts) e \<longleftrightarrow> i \<le> start \<and> (\<forall>j. i \<le> j \<and> j < start \<longrightarrow> space_at m chars j) \<and>
     0 < len \<and> start + len \<le> length chars \<and> \<not> space_at m chars start \<and>
     (strict m \<longrightarrow> (\<forall>j. start \<le> j \<and> j < start + len \<longrightarrow> \<not> space_at m chars j)) \<and> covered m chars (start + len) ts e"

lemma stops_at_space_subset: "stops_at_space m chars win \<Longrightarrow> set win' \<subseteq> set win \<Longrightarrow> stops_at_space m chars win'"
  by (auto simp: stops_at_space_def)

lemma set_dropWhile_subset: "set (dropWhile P xs) \<subseteq> set xs"
  by (induction xs) auto

lemma pass_url_ok:
  assumes "state_ok m st" "gt_current st < e" "e \<le> length (gt_chars st)"
    "\<forall>j. gt_current st \<le> j \<and> j < e \<longrightarrow> \<not> space_at m (gt_chars st) j" "pass_url e st = (eos, st')"
  shows "state_ok m st'" "same_text st st'" "gt_current st' = e"
proof -
  have st': "st' = st\<lparr>gt_current := e, gt_window := dropWhile (\<lambda>(i, _). i < e) (gt_window st)\<rparr>"
    using assms(5) by (auto simp: pass_url_def Let_def)
  have "linked m (gt_chars st) e (dropWhile (\<lambda>(i, _). i < e) (gt_window st))"
    by (rule linked_url [OF assms(4)]) (use assms(1,2) in \<open>simp_all add: state_ok_def\<close>)
  moreover have "stops_at_space m (gt_chars st) (dropWhile (\<lambda>(i, _). i < e) (gt_window st))"
    by (rule stops_at_space_subset [of m _ "gt_window st"]) (use assms(1) in \<open>simp_all add: state_ok_def set_dropWhile_subset\<close>)
  ultimately show "state_ok m st'" "same_text st st'" "gt_current st' = e"
    using assms(3) by (simp_all add: st' state_ok_def same_text_def)
qed

lemma gru_tokens_ok:
  assumes "model_ok m"
  shows "state_ok m st \<Longrightarrow> \<exists>ts st'. gru_tokens m tokens eos st = Some (tokens @ ts, st') \<and> state_ok m st' \<and> same_text st st' \<and>
    covered m (gt_chars st) (gt_current st) ts (gt_current st') \<and>
    (\<not> eos \<and> tokens = [] \<and> ts = [] \<longrightarrow> gt_current st' = length (gt_chars st))"
proof (induction "length (gt_chars st) - gt_current st" arbitrary: st tokens eos rule: less_induct)
  case less
  have seg: "1 \<le> gm_segment m" using assms by (simp add: model_ok_def)
  show ?case
  proof (cases "eos \<or> emergency_split m (gt_chars st) tokens")
    case True
    then have "gru_tokens m tokens eos st = Some (tokens, st)" by (subst gru_tokens.simps) simp
    moreover have "\<not> eos \<Longrightarrow> tokens \<noteq> []" using True by (auto simp: emergency_split_def)
    ultimately show ?thesis using less.prems by (intro exI [of _ "[]"] exI [of _ st]) (auto simp: same_text_def)
  next
    case False
    obtain st1 where k: "skip_spaces m (tokens \<noteq> []) st = Some st1" "state_ok m st1" "same_text st st1" "gt_current st \<le> gt_current st1"
      "\<forall>i. gt_current st \<le> i \<and> i < gt_current st1 \<longrightarrow> space_at m (gt_chars st) i"
      "gt_current st1 < length (gt_chars st) \<longrightarrow> \<not> space_at m (gt_chars st) (gt_current st1)"
      using skip_spaces_ok [OF seg less.prems] by blast
    have s: "gt_chars st1 = gt_chars st" using k(3) by (simp add: same_text_def)
    show ?thesis
    proof (cases "gt_current st1 \<ge> length (gt_chars st)")
      case True
      then have "gru_tokens m tokens eos st = Some (tokens, st1)" using False k(1) s by (subst gru_tokens.simps) simp
      moreover have "gt_current st1 = length (gt_chars st)" using True k(2) s by (simp add: state_ok_def)
      ultimately show ?thesis using k by (intro exI [of _ "[]"] exI [of _ st1]) simp
    next
      case lt: False
      text \<open>One more token, from \<open>st1\<close> to a later state.\<close>
      have token: "\<exists>eos' st2. gru_tokens m tokens eos st =
            gru_tokens m (tokens @ [(gt_current st1, gt_current st2 - gt_current st1)]) eos' st2 \<and>
          state_ok m st2 \<and> same_text st st2 \<and> gt_current st1 < gt_current st2 \<and>
          (strict m \<longrightarrow> (\<forall>j. gt_current st1 \<le> j \<and> j < gt_current st2 \<longrightarrow> \<not> space_at m (gt_chars st) j))"
      proof (cases "gm_url m (map fst (gt_chars st)) (gt_current st1)")
        case None
        obtain out st2 where t: "slurp m st1 = Some (out, st2)" "state_ok m st2" "same_text st1 st2" "gt_current st1 < gt_current st2"
          "strict m \<and> \<not> space_at m (gt_chars st1) (gt_current st1) \<longrightarrow>
            (\<forall>i. gt_current st1 \<le> i \<and> i < gt_current st2 \<longrightarrow> \<not> space_at m (gt_chars st1) i)"
          using slurp_ok [OF seg k(2)] lt s by auto
        have "gru_tokens m tokens eos st =
            gru_tokens m (tokens @ [(gt_current st1, gt_current st2 - gt_current st1)]) (out = End_Of_Sentence) st2"
          using False k(1) lt None t(1) s by (subst gru_tokens.simps) simp
        then show ?thesis using t(2-5) k(3,6) lt s by (intro exI [of _ "out = End_Of_Sentence"] exI [of _ st2]) (auto simp: same_text_def)
      next
        case (Some e)
        then have e: "gt_current st1 < e" "e \<le> length (gt_chars st)" "\<forall>j. gt_current st1 \<le> j \<and> j < e \<longrightarrow> \<not> space_at m (gt_chars st) j"
          using assms by (auto simp: model_ok_def)
        obtain eos' st2 where p: "pass_url e st1 = (eos', st2)" by (cases "pass_url e st1")
        note ok = pass_url_ok [OF k(2) e(1) _ _ p, unfolded s, OF e(2,3)]
        have "gru_tokens m tokens eos st = gru_tokens m (tokens @ [(gt_current st1, e - gt_current st1)]) eos' st2"
          using False k(1) lt Some p s by (subst gru_tokens.simps) simp
        then show ?thesis using ok e k(3) by (intro exI [of _ eos'] exI [of _ st2]) (auto simp: same_text_def)
      qed
      then obtain eos' st2 where t: "gru_tokens m tokens eos st =
            gru_tokens m (tokens @ [(gt_current st1, gt_current st2 - gt_current st1)]) eos' st2"
          "state_ok m st2" "same_text st st2" "gt_current st1 < gt_current st2"
          "strict m \<longrightarrow> (\<forall>j. gt_current st1 \<le> j \<and> j < gt_current st2 \<longrightarrow> \<not> space_at m (gt_chars st) j)"
        by blast
      have s2: "gt_chars st2 = gt_chars st" using t(3) by (simp add: same_text_def)
      have bound: "gt_current st2 \<le> length (gt_chars st)" using t(2) s2 by (simp add: state_ok_def)
      have less2: "length (gt_chars st2) - gt_current st2 < length (gt_chars st) - gt_current st" using t(4) k(4) bound s2 by auto
      obtain ts st3 where r: "gru_tokens m (tokens @ [(gt_current st1, gt_current st2 - gt_current st1)]) eos' st2 =
            Some ((tokens @ [(gt_current st1, gt_current st2 - gt_current st1)]) @ ts, st3)"
          "state_ok m st3" "same_text st2 st3" "covered m (gt_chars st) (gt_current st2) ts (gt_current st3)"
        using less.hyps [OF less2 t(2)] unfolding s2 by blast
      let ?ts = "(gt_current st1, gt_current st2 - gt_current st1) # ts"
      have "covered m (gt_chars st) (gt_current st) ?ts (gt_current st3)"
        using k(4-6) lt t(4,5) bound r(4) by simp
      moreover have "same_text st st3" using t(3) r(3) by (simp add: same_text_def)
      ultimately show ?thesis using t(1) r(1,2) by (intro exI [of _ ?ts] exI [of _ st3]) (simp del: covered.simps)
    qed
  qed
qed

section \<open>Sentences\<close>

text \<open>The window of an old text is dropped at the start of a new one.\<close>

definition gru_ok :: "gru_model \<Rightarrow> gru_tokenizer \<Rightarrow> bool" where
  "gru_ok m st \<longleftrightarrow> gt_current st = 0 \<or> state_ok m st"

lemma gru_set_text_ok: "gru_ok m (gru_set_text t st)"
  by (simp add: gru_ok_def gru_set_text_def)

lemma gru_next_ok:
  assumes "model_ok m" "gru_ok m st"
  shows "\<exists>ts st'. gru_next_sentence m st = Some (if ts = [] then None else Some (map (token_form st) ts, ts), st') \<and>
    gru_ok m st' \<and> same_text st st' \<and> covered m (gt_chars st) (gt_current st) ts (gt_current st') \<and>
    (ts = [] \<longrightarrow> gt_current st' \<ge> length (gt_chars st))"
proof (cases "gt_current st \<ge> length (gt_chars st)")
  case True
  then show ?thesis using assms(2) by (intro exI [of _ "[]"] exI [of _ st]) (auto simp: gru_next_sentence_def same_text_def)
next
  case False
  let ?st = "if gt_current st = 0 then st\<lparr>gt_window := []\<rparr> else st"
  have same: "gt_chars ?st = gt_chars st" "gt_current ?st = gt_current st" "same_text st ?st" by (auto simp: same_text_def)
  have "state_ok m ?st" using assms(2) by (auto simp: gru_ok_def state_ok_def stops_at_space_def)
  from gru_tokens_ok [OF assms(1) this, of "[]" False]
  obtain ts st' where t: "gru_tokens m [] False ?st = Some (ts, st')" "state_ok m st'" "same_text ?st st'"
    "covered m (gt_chars st) (gt_current st) ts (gt_current st')" "ts = [] \<longrightarrow> gt_current st' = length (gt_chars st)"
    unfolding same by auto
  have "token_form st' = token_form st" using t(3) same by (auto simp: same_text_def token_form_def str_at_def fun_eq_iff split: if_splits)
  then have "gru_next_sentence m st = Some (if ts = [] then None else Some (map (token_form st) ts, ts), st')"
    using False t(1) by (simp add: gru_next_sentence_def cong: if_cong)
  then show ?thesis using t same by (intro exI [of _ ts] exI [of _ st']) (auto simp: gru_ok_def same_text_def)
qed

text \<open>
  C9: With a window of at least one character, the tokenizer always returns: either the tokens of
  a sentence, in the order of the text, not empty, starting with no space and with only spaces
  between them, or the answer that only spaces were left. When spaces in tokens are not allowed
  and windows have ten characters, no token has a space.
\<close>

theorem gru_sentence_covers:
  assumes "model_ok m" "gru_ok m st"
  shows "\<exists>ts st'. gru_next_sentence m st = Some (if ts = [] then None else Some (map (token_form st) ts, ts), st') \<and>
    gru_ok m st' \<and> gt_chars st' = gt_chars st \<and> covered m (gt_chars st) (gt_current st) ts (gt_current st') \<and>
    (ts = [] \<longrightarrow> gt_current st' \<ge> length (gt_chars st))"
  using gru_next_ok [OF assms] unfolding same_text_def by blast

text \<open>A network that sees the end of a sentence at every dot, and no URLs.\<close>

definition dot_model :: "unicode_tables \<Rightarrow> gru_model" where
  "dot_model u = \<lparr>gm_tables = u, gm_segment = 50, gm_allow_spaces = False, gm_url = (\<lambda>_ _. None),
     gm_classify = (\<lambda>cs i. if fst (cs ! i) = byte_of (CHR ''.'') then End_Of_Sentence else No_Split)\<rparr>"

definition fresh_gru :: gru_tokenizer where
  "fresh_gru = \<lparr>gt_chars = [], gt_bytes = 0, gt_current = 0, gt_window = []\<rparr>"

lemma gru_sentence_covers_witness:
  "\<forall>u. \<exists>ts st'. gru_next_sentence (dot_model u) (gru_set_text ''a b.'' fresh_gru) =
      Some (if ts = [] then None else Some (map (token_form (gru_set_text ''a b.'' fresh_gru)) ts, ts), st') \<and>
    strict (dot_model u) \<and> gru_ok (dot_model u) st' \<and>
    covered (dot_model u) (gt_chars (gru_set_text ''a b.'' fresh_gru)) 0 ts (gt_current st')"
proof
  fix u
  have "model_ok (dot_model u)" "strict (dot_model u)" by (simp_all add: model_ok_def dot_model_def strict_def)
  then show "\<exists>ts st'. gru_next_sentence (dot_model u) (gru_set_text ''a b.'' fresh_gru) =
      Some (if ts = [] then None else Some (map (token_form (gru_set_text ''a b.'' fresh_gru)) ts, ts), st') \<and>
    strict (dot_model u) \<and> gru_ok (dot_model u) st' \<and>
    covered (dot_model u) (gt_chars (gru_set_text ''a b.'' fresh_gru)) 0 ts (gt_current st')"
    using gru_sentence_covers [OF _ gru_set_text_ok, of "dot_model u" "''a b.''" fresh_gru]
    unfolding gru_set_text_def by (auto simp del: covered.simps)
qed

end
