(* ===== verification/Multiword_Splitter.thy ===== *)
theory Multiword_Splitter
  imports Line_Formats Utf8 Binary
begin

text \<open>
  The splitter of multiword tokens, \<open>src/tokenizer/multiword_splitter.cpp\<close>: full rules and suffix
  rules map the reversed lowercase form, or an end of it, to the words of a token. The decompressor
  of \<open>utils/compressor\<close> is a parameter.

  The proofs show that the tables of a loaded splitter are closed under prefixes, so that the
  incremental search for a suffix finds the longest one, and that a token is appended as one
  surface token with its own form and MISC field, whatever words it is split to.
\<close>

section \<open>Model\<close>

type_synonym rules = "string \<rightharpoonup> string list"

record multiword_splitter =
  sp_version :: nat
  sp_full_rules :: rules
  sp_suffix_rules :: rules

text \<open>
  The loop over ever longer suffixes, the first \<open>k\<close> characters of the reversed form; found are the
  words of the last rule and the length of the prefix in front of its suffix.
\<close>

function suffix_search :: "rules \<Rightarrow> string \<Rightarrow> nat \<Rightarrow> (string list \<times> nat) option \<Rightarrow> (string list \<times> nat) option" where
  "suffix_search rules buffer k found =
     (if k + 1 < length buffer then
        (case rules (take (k + 1) buffer) of None \<Rightarrow> found
         | Some ws \<Rightarrow> suffix_search rules buffer (k + 1) (if ws \<noteq> [] then Some (ws, length buffer - (k + 1)) else found))
      else found)"
  by pat_completeness auto
termination by (relation "measure (\<lambda>(_, buffer, k, _). length buffer - k)") auto

declare suffix_search.simps [simp del]

definition find_rule :: "multiword_splitter \<Rightarrow> string \<Rightarrow> (string list \<times> nat) option" where
  "find_rule sp buffer =
     (case sp_full_rules sp buffer of Some ws \<Rightarrow> Some (ws, 0)
      | None \<Rightarrow> if sp_version sp \<ge> 2 then suffix_search (sp_suffix_rules sp) buffer 0 None else None)"

datatype casing = Upper_First | Upper_All | Upper_Other

definition cat_not_upper :: nat where
  "cat_not_upper = unicode_bit [2, 4, 5]"

definition token_casing :: "unicode_tables \<Rightarrow> string \<Rightarrow> casing" where
  "token_casing u form =
     (if has_category u (fst (utf8_decode form)) cat_Lut then
        (if \<exists>chr \<in> set (utf8_decode_all form). has_category u chr cat_not_upper then Upper_First else Upper_All)
      else Upper_Other)"

text \<open>The form without its first characters, whose lowercase variants have at least \<open>n\<close> bytes.\<close>

function skip_prefix :: "unicode_tables \<Rightarrow> nat \<Rightarrow> nat \<Rightarrow> string \<Rightarrow> string" where
  "skip_prefix u n k s =
     (if k < n \<and> s \<noteq> [] then
        skip_prefix u n (k + length (utf8_append (unicode_lowercase u (fst (utf8_decode s))))) (snd (utf8_decode s))
      else s)"
  by pat_completeness auto
termination by (relation "measure (\<lambda>(_, _, _, s). length s)") (auto dest: utf8_decode_length)

declare skip_prefix.simps [simp del]

definition first_word :: "unicode_tables \<Rightarrow> casing \<Rightarrow> string \<Rightarrow> string \<Rightarrow> string" where
  "first_word u casing prefix word =
     fold (\<lambda>chr form. form @ utf8_append (if casing = Upper_All \<or> casing = Upper_First \<and> form = [] then unicode_uppercase u chr else chr))
       (utf8_decode_cstr word) prefix"

definition other_word :: "unicode_tables \<Rightarrow> casing \<Rightarrow> string \<Rightarrow> string" where
  "other_word u casing word = (if casing \<noteq> Upper_All then word else utf8_map_cstr (unicode_uppercase u) word)"

text \<open>
  The rules found have words; an empty list, which the code would index, is only in the tables of
  suffixes, where the search skips it.
\<close>

definition append_token :: "unicode_tables \<Rightarrow> multiword_splitter \<Rightarrow> string \<Rightarrow> string \<Rightarrow> sentence \<Rightarrow> sentence" where
  "append_token u sp form misc s =
     (case find_rule sp (rev (utf8_map (unicode_lowercase u) form)) of
        None \<Rightarrow> s\<lparr>s_words := s_words s @ [(mk_word (int (length (s_words s))) form)\<lparr>tk_misc := misc\<rparr>]\<rparr>
      | Some (ws, prefix_len) \<Rightarrow>
          (let casing = token_casing u form;
               n = int (length (s_words s));
               prefix = (if prefix_len > 0 then take (length form - length (skip_prefix u prefix_len 0 form)) form else [])
           in s\<lparr>s_words := fold (\<lambda>w ws. add_word (other_word u casing w) ws) (tl ws)
                  (add_word (first_word u casing prefix (hd ws)) (s_words s)),
                s_multiword_tokens := s_multiword_tokens s @ [mk_multiword_token n (n + int (length ws) - 1) form misc]\<rparr>))"

text \<open>Loading.\<close>

fun load_rule_words :: "nat \<Rightarrow> string list \<Rightarrow> binary_decoder \<Rightarrow> (string list \<times> binary_decoder) result" where
  "load_rule_words 0 ws d = Inr (ws, d)"
| "load_rule_words (Suc n) ws d = (case bd_next_str d of Inl e \<Rightarrow> Inl e | Inr (w, d) \<Rightarrow> load_rule_words n (ws @ [w]) d)"

definition rule_words :: "rules \<Rightarrow> string \<Rightarrow> string list" where
  "rule_words rules key = (case rules key of None \<Rightarrow> [] | Some ws \<Rightarrow> ws)"

definition load_rule :: "rules \<Rightarrow> binary_decoder \<Rightarrow> (string \<times> string list \<times> binary_decoder) result" where
  "load_rule rules d =
     (case bd_next_str d of Inl e \<Rightarrow> Inl e | Inr (rule, d) \<Rightarrow>
     (case bd_next_1B d of Inl e \<Rightarrow> Inl e | Inr (n, d) \<Rightarrow>
     (case load_rule_words (unat n) (rule_words rules (rev rule)) d of Inl e \<Rightarrow> Inl e | Inr (ws, d) \<Rightarrow>
        if ws = [] then Inl ''no words'' else Inr (rev rule, ws, d))))"

fun load_full_rules :: "nat \<Rightarrow> rules \<Rightarrow> binary_decoder \<Rightarrow> (rules \<times> binary_decoder) result" where
  "load_full_rules 0 rules d = Inr (rules, d)"
| "load_full_rules (Suc n) rules d =
     (case load_rule rules d of Inl e \<Rightarrow> Inl e | Inr (rule, ws, d) \<Rightarrow> load_full_rules n (rules(rule \<mapsto> ws)) d)"

text \<open>The prefixes of a rule, longest first, get an empty entry unless they have one.\<close>

definition add_prefix :: "string \<Rightarrow> rules \<Rightarrow> rules" where
  "add_prefix key rules = (if rules key = None then rules(key \<mapsto> []) else rules)"

definition add_prefixes :: "string \<Rightarrow> rules \<Rightarrow> rules" where
  "add_prefixes rule rules = fold (\<lambda>k. add_prefix (take k rule)) (rev [1..<length rule]) rules"

fun load_suffix_rules :: "nat \<Rightarrow> rules \<Rightarrow> binary_decoder \<Rightarrow> (rules \<times> binary_decoder) result" where
  "load_suffix_rules 0 rules d = Inr (rules, d)"
| "load_suffix_rules (Suc n) rules d =
     (case load_rule rules d of Inl e \<Rightarrow> Inl e
      | Inr (rule, ws, d) \<Rightarrow> load_suffix_rules n (add_prefixes rule (rules(rule \<mapsto> ws))) d)"

definition load_rules :: "nat \<Rightarrow> binary_decoder \<Rightarrow> (multiword_splitter \<times> binary_decoder) result" where
  "load_rules version d =
     (case bd_next_4B d of Inl e \<Rightarrow> Inl e | Inr (n, d) \<Rightarrow>
     (case load_full_rules (unat n) Map.empty d of Inl e \<Rightarrow> Inl e | Inr (full, d) \<Rightarrow>
     (case (if version \<ge> 2 then
              (case bd_next_4B d of Inl e \<Rightarrow> Inl e | Inr (n, d) \<Rightarrow> load_suffix_rules (unat n) Map.empty d)
            else Inr (Map.empty, d)) of Inl e \<Rightarrow> Inl e
      | Inr (suffix, d) \<Rightarrow> Inr (\<lparr>sp_version = version, sp_full_rules = full, sp_suffix_rules = suffix\<rparr>, d))))"

definition splitter_latest :: nat where
  "splitter_latest = 2"

definition load_splitter :: "(u8 list \<Rightarrow> (u8 list \<times> u8 list) option) \<Rightarrow> u8 list \<Rightarrow> (multiword_splitter \<times> u8 list) option" where
  "load_splitter decompress bytes =
     (case bytes of [] \<Rightarrow> None
      | v # bytes \<Rightarrow>
        if \<not> (1 \<le> unat v \<and> unat v \<le> splitter_latest) then None
        else (case decompress bytes of None \<Rightarrow> None
          | Some (data, left) \<Rightarrow>
            (case load_rules (unat v) (bd_fill data) of Inl _ \<Rightarrow> None
             | Inr (sp, d) \<Rightarrow> if bd_is_end d then Some (sp, left) else None)))"

section \<open>Tables\<close>

definition rules_filled :: "rules \<Rightarrow> bool" where
  "rules_filled rules \<longleftrightarrow> (\<forall>key ws. rules key = Some ws \<longrightarrow> ws \<noteq> [])"

definition prefixes_closed :: "rules \<Rightarrow> bool" where
  "prefixes_closed rules \<longleftrightarrow> (\<forall>key k. rules key \<noteq> None \<and> 0 < k \<and> k < length key \<longrightarrow> rules (take k key) \<noteq> None)"

definition splitter_ok :: "multiword_splitter \<Rightarrow> bool" where
  "splitter_ok sp \<longleftrightarrow> rules_filled (sp_full_rules sp) \<and> prefixes_closed (sp_suffix_rules sp)"

lemma load_rule_words_nonempty: "load_rule rules d = Inr (rule, ws, d') \<Longrightarrow> ws \<noteq> []"
  by (auto simp: load_rule_def split: sum.splits prod.splits if_splits)

lemma load_full_rules_filled:
  "load_full_rules n rules d = Inr (rules', d') \<Longrightarrow> rules_filled rules \<Longrightarrow> rules_filled rules'"
proof (induction n arbitrary: rules d)
  case (Suc n)
  then obtain rule ws e where "load_rule rules d = Inr (rule, ws, e)" "load_full_rules n (rules(rule \<mapsto> ws)) e = Inr (rules', d')"
    by (auto split: sum.splits)
  moreover have "rules_filled (rules(rule \<mapsto> ws))"
    using Suc.prems(2) load_rule_words_nonempty [OF \<open>load_rule rules d = _\<close>] by (simp add: rules_filled_def)
  ultimately show ?case using Suc.IH by blast
qed simp

lemma add_prefix_dom: "add_prefix key rules k \<noteq> None \<longleftrightarrow> k = key \<or> rules k \<noteq> None"
  by (auto simp: add_prefix_def)

lemma fold_add_prefix_dom:
  "fold (\<lambda>k. add_prefix (take k rule)) ks rules key \<noteq> None \<longleftrightarrow> rules key \<noteq> None \<or> (\<exists>k \<in> set ks. key = take k rule)"
proof (induction ks arbitrary: rules)
  case (Cons k ks)
  then show ?case using add_prefix_dom [of "take k rule" rules key] by auto
qed simp

lemma add_prefixes_dom:
  "add_prefixes rule rules key \<noteq> None \<longleftrightarrow> rules key \<noteq> None \<or> (\<exists>k. 0 < k \<and> k < length rule \<and> key = take k rule)"
  unfolding add_prefixes_def fold_add_prefix_dom by (auto simp: Suc_le_eq Bex_def)

lemma add_prefixes_closed:
  assumes "prefixes_closed rules"
  shows "prefixes_closed (add_prefixes rule (rules(rule \<mapsto> ws)))"
proof -
  have dom: "add_prefixes rule (rules(rule \<mapsto> ws)) key \<noteq> None \<longleftrightarrow>
      rules key \<noteq> None \<or> key = rule \<or> (\<exists>k. 0 < k \<and> k < length rule \<and> key = take k rule)" for key
    unfolding add_prefixes_dom by auto
  show ?thesis unfolding prefixes_closed_def dom
  proof (intro allI impI, elim conjE disjE exE, goal_cases)
    case (1 key k)
    then show ?case using assms by (auto simp: prefixes_closed_def)
  next
    case (2 key k)
    then show ?case by auto
  next
    case (3 key k l)
    then have "take k key = take k rule" "k < length rule" by (auto simp: min_def)
    then show ?case using 3 by blast
  qed
qed

lemma load_suffix_rules_closed:
  "load_suffix_rules n rules d = Inr (rules', d') \<Longrightarrow> prefixes_closed rules \<Longrightarrow> prefixes_closed rules'"
proof (induction n arbitrary: rules d)
  case (Suc n)
  then obtain rule ws e where "load_suffix_rules n (add_prefixes rule (rules(rule \<mapsto> ws))) e = Inr (rules', d')"
    by (auto split: sum.splits)
  then show ?case using Suc.IH add_prefixes_closed [OF Suc.prems(2)] by blast
qed simp

lemma load_rules_ok:
  assumes "load_rules version d = Inr (sp, d')"
  shows "splitter_ok sp"
proof -
  have "rules_filled Map.empty" "prefixes_closed Map.empty" by (simp_all add: rules_filled_def prefixes_closed_def)
  then show ?thesis
    using assms
    by (auto simp: load_rules_def splitter_ok_def split: if_splits sum.splits
        dest!: load_full_rules_filled load_suffix_rules_closed)
qed

lemma load_splitter_ok:
  assumes "load_splitter decompress bytes = Some (sp, left)"
  shows "splitter_ok sp"
proof -
  obtain version d d' where "load_rules version d = Inr (sp, d')"
    using assms by (auto simp: load_splitter_def split: list.splits if_splits option.splits sum.splits)
  then show ?thesis by (rule load_rules_ok)
qed

section \<open>The search\<close>

definition has_words :: "rules \<Rightarrow> string \<Rightarrow> bool" where
  "has_words rules key \<longleftrightarrow> (case rules key of None \<Rightarrow> False | Some ws \<Rightarrow> ws \<noteq> [])"

text \<open>The reference: the longest proper suffix of at least one character that has words.\<close>

definition longest_from :: "rules \<Rightarrow> string \<Rightarrow> nat \<Rightarrow> (string list \<times> nat) option \<Rightarrow> (string list \<times> nat) option" where
  "longest_from rules buffer k found =
     (case filter (\<lambda>n. has_words rules (take n buffer)) (rev [k + 1..<length buffer]) of [] \<Rightarrow> found
      | n # _ \<Rightarrow> Some (rule_words rules (take n buffer), length buffer - n))"

lemma suffix_search_longest:
  "prefixes_closed rules \<Longrightarrow> suffix_search rules buffer k found = longest_from rules buffer k found"
proof (induction rules buffer k found rule: suffix_search.induct)
  case (1 rules buffer k found)
  show ?case
  proof (cases "k + 1 < length buffer")
    case False
    then show ?thesis by (subst suffix_search.simps) (simp add: longest_from_def)
  next
    case True
    show ?thesis
    proof (cases "rules (take (k + 1) buffer)")
      case None
      have "\<not> has_words rules (take n buffer)" if "n \<in> set [k + 1..<length buffer]" for n
      proof
        assume "has_words rules (take n buffer)"
        then have key: "rules (take n buffer) \<noteq> None" by (auto simp: has_words_def split: option.splits)
        have "n \<noteq> k + 1" using key None by auto
        then have "rules (take (k + 1) (take n buffer)) \<noteq> None"
          using "1.prems" [unfolded prefixes_closed_def, rule_format, of "take n buffer" "k + 1"] key that by simp
        then show False using None that by (simp add: min_def)
      qed
      then have "filter (\<lambda>n. has_words rules (take n buffer)) (rev [k + 1..<length buffer]) = []"
        by (auto simp: filter_empty_conv)
      then show ?thesis using True None by (subst suffix_search.simps) (simp add: longest_from_def)
    next
      case (Some ws)
      have "suffix_search rules buffer k found =
          longest_from rules buffer (k + 1) (if ws \<noteq> [] then Some (ws, length buffer - (k + 1)) else found)"
        using True Some "1.IH" [OF True Some "1.prems"] by (subst suffix_search.simps) simp
      also have "\<dots> = longest_from rules buffer k found"
      proof -
        have "[k + 1..<length buffer] = (k + 1) # [k + 1 + 1..<length buffer]" using True by (simp add: upt_conv_Cons)
        then show ?thesis
          using Some by (auto simp: longest_from_def has_words_def rule_words_def split: list.split)
      qed
      finally show ?thesis .
    qed
  qed
qed

lemma find_rule_longest:
  "splitter_ok sp \<Longrightarrow> find_rule sp buffer =
     (case sp_full_rules sp buffer of Some ws \<Rightarrow> Some (ws, 0)
      | None \<Rightarrow> if sp_version sp \<ge> 2 then longest_from (sp_suffix_rules sp) buffer 0 None else None)"
  by (cases "sp_full_rules sp buffer") (simp_all add: find_rule_def splitter_ok_def suffix_search_longest)

lemma longest_from_words: "longest_from rules buffer k None = Some (ws, n) \<Longrightarrow> ws \<noteq> []"
proof (cases "filter (\<lambda>n. has_words rules (take n buffer)) (rev [k + 1..<length buffer])")
  case (Cons l ls)
  then have "l \<in> set (filter (\<lambda>n. has_words rules (take n buffer)) (rev [k + 1..<length buffer]))" by simp
  then have "has_words rules (take l buffer)" by simp
  then show "longest_from rules buffer k None = Some (ws, n) \<Longrightarrow> ws \<noteq> []"
    using Cons by (auto simp: longest_from_def has_words_def rule_words_def split: option.splits)
qed (simp add: longest_from_def)

lemma find_rule_words: "splitter_ok sp \<Longrightarrow> find_rule sp buffer = Some (ws, n) \<Longrightarrow> ws \<noteq> []"
  by (auto simp: find_rule_longest splitter_ok_def rules_filled_def longest_from_words split: option.splits if_splits)

section \<open>Surface tokens\<close>


lemma fold_add_word:
  "fold (\<lambda>w ws. add_word (f w) ws) ws vs = vs @ map (\<lambda>k. mk_word (int (length vs + k)) (f (ws ! k))) [0..<length ws]"
proof (induction ws arbitrary: vs)
  case (Cons w ws)
  have "map (\<lambda>k. mk_word (int (length vs + k)) (f ((w # ws) ! k))) [0..<length (w # ws)] =
      mk_word (int (length vs)) (f w) # map (\<lambda>k. mk_word (int (length vs + Suc k)) (f (ws ! k))) [0..<length ws]"
    by (simp add: upt_conv_Cons del: upt_Suc of_nat_add of_nat_Suc flip: map_Suc_upt)
  moreover have "map (\<lambda>k. mk_word (int (length vs + Suc k)) (f (ws ! k))) [0..<length ws] =
      map (\<lambda>k. mk_word (int (length (add_word (f w) vs) + k)) (f (ws ! k))) [0..<length ws]"
    by (simp add: add_word_def del: of_nat_add of_nat_Suc)
  ultimately show ?case using Cons.IH [of "add_word (f w) vs"] by (simp add: add_word_def)
qed simp

lemma surface_tokens_end: "length ws \<le> i \<Longrightarrow> surface_tokens ws i ms = []"
  by (simp add: surface_tokens.simps)

lemma surface_tokens_word:
  "i < length ws \<Longrightarrow> \<not> (ms \<noteq> [] \<and> mwt_id_first (hd ms) = int i) \<Longrightarrow>
   surface_tokens ws i ms = (token.truncate (ws ! i), i, i) # surface_tokens ws (i + 1) ms"
  by (subst surface_tokens.simps) auto

lemma surface_tokens_mwt:
  assumes "i < length ws" "mwt_id_first m = int i" "int i \<le> mwt_id_last m" "mwt_id_last m < 2 ^ 63"
  shows "surface_tokens ws i (m # ms) = (token.truncate m, i, nat (mwt_id_last m)) # surface_tokens ws (nat (mwt_id_last m) + 1) ms"
proof -
  have "u64 (mwt_id_last m) = nat (mwt_id_last m)" "(nat (mwt_id_last m) + 1) mod 2 ^ 64 = nat (mwt_id_last m) + 1"
    using assms(3,4) by (auto simp: u64_small)
  then show ?thesis using assms(1,2) by (subst surface_tokens.simps) simp
qed

text \<open>The multiword tokens are in order, from position \<open>i\<close>, inside the words.\<close>

definition mwts_inside :: "sentence \<Rightarrow> bool" where
  "mwts_inside s \<longleftrightarrow> s_words s \<noteq> [] \<and> mwts_from 0 (s_multiword_tokens s) \<and>
     mwts_end 0 (s_multiword_tokens s) < int (length (s_words s))"

lemma surface_tokens_append:
  assumes "length (ws @ vs) < 2 ^ 63" "0 < i" "i \<le> length ws"
    "mwts_from (int i - 1) ms" "mwts_end (int i - 1) ms < int (length ws)"
    "ns = [] \<or> int (length ws) \<le> mwt_id_first (hd ns)"
  shows "surface_tokens (ws @ vs) i (ms @ ns) = surface_tokens ws i ms @ surface_tokens (ws @ vs) (length ws) ns"
  using assms
proof (induction ws i ms rule: surface_tokens.induct)
  case (1 ws i ms)
  show ?case
  proof (cases "i < length ws")
    case False
    then have i: "i = length ws" using "1.prems" by simp
    have "ms = []"
    proof (rule ccontr)
      assume "ms \<noteq> []"
      then have "mwt_id_last (last ms) < int (length ws)" "mwts_from (int i - 1) ms" using "1.prems" by (simp_all add: mwts_end_def)
      moreover have "last ms \<in> set ms" using \<open>ms \<noteq> []\<close> by simp
      ultimately show False using mwts_from_bounds [of "int i - 1" ms] i by fastforce
    qed
    then show ?thesis using i by (simp add: surface_tokens.simps [of ws "length ws"])
  next
    case True
    show ?thesis
    proof (cases "ms \<noteq> [] \<and> mwt_id_first (hd ms) = int i")
      case t: True
      then obtain m ms' where ms: "ms = m # ms'" by (cases ms) auto
      have m: "int i \<le> mwt_id_last m" "mwts_from (mwt_id_last m) ms'" "mwt_id_first m = int i" using "1.prems"(4) t by (auto simp: ms)
      have end_le: "mwts_end (mwt_id_last m) ms' < int (length ws)" using "1.prems"(5) by (simp add: ms mwts_end_def split: if_splits)
      have lt: "mwt_id_last m < int (length ws)" using mwts_end_ge [OF m(2)] end_le by simp
      have small: "mwt_id_last m < 2 ^ 63" using lt "1.prems"(1) by simp
      have next_i: "(u64 (mwt_id_last m) + 1) mod 2 ^ 64 = nat (mwt_id_last m) + 1" using small m(1) by (simp add: u64_small)
      note ih = "1.IH"(1) [OF True t, unfolded ms list.sel, unfolded next_i]
      have "surface_tokens (ws @ vs) (nat (mwt_id_last m) + 1) (ms' @ ns) =
          surface_tokens ws (nat (mwt_id_last m) + 1) ms' @ surface_tokens (ws @ vs) (length ws) ns"
        using "1.prems"(1,6) m lt end_le by (intro ih) auto
      then show ?thesis
        using True m(1,3) small by (simp add: ms surface_tokens_mwt)
    next
      case f: False
      have "surface_tokens (ws @ vs) (i + 1) (ms @ ns) = surface_tokens ws (i + 1) ms @ surface_tokens (ws @ vs) (length ws) ns"
        using "1.prems" True f by (intro "1.IH"(2)) (cases ms; auto simp: mwts_end_def)+
      moreover have "\<not> (ms @ ns \<noteq> [] \<and> mwt_id_first (hd (ms @ ns)) = int i)"
        using f True "1.prems"(6) by (cases ms) auto
      ultimately show ?thesis
        using True f by (simp add: surface_tokens_word nth_append)
    qed
  qed
qed

lemma append_token_words:
  assumes "splitter_ok sp"
  shows "\<exists>vs ns. s_words (append_token u sp form misc s) = s_words s @ vs \<and>
    s_multiword_tokens (append_token u sp form misc s) = s_multiword_tokens s @ ns \<and> vs \<noteq> [] \<and>
    (ns = [] \<and> (\<exists>w. vs = [w] \<and> tk_form w = form \<and> tk_misc w = misc) \<or>
     ns = [mk_multiword_token (int (length (s_words s))) (int (length (s_words s)) + int (length vs) - 1) form misc])"
proof (cases "find_rule sp (rev (utf8_map (unicode_lowercase u) form))")
  case None
  then show ?thesis by (simp add: append_token_def mk_word_def)
next
  case (Some r)
  then obtain ws n where r: "r = (ws, n)" "ws \<noteq> []" using find_rule_words [OF assms] by (cases r) auto
  then show ?thesis using Some by (simp add: append_token_def Let_def fold_add_word) (simp add: add_word_def)
qed

lemma append_token_inside:
  assumes "splitter_ok sp" "mwts_inside s"
  shows "mwts_inside (append_token u sp form misc s)"
proof -
  obtain vs ns where p: "s_words (append_token u sp form misc s) = s_words s @ vs"
    "s_multiword_tokens (append_token u sp form misc s) = s_multiword_tokens s @ ns" "vs \<noteq> []"
    "ns = [] \<or> ns = [mk_multiword_token (int (length (s_words s))) (int (length (s_words s)) + int (length vs) - 1) form misc]"
    using append_token_words [OF assms(1)] by blast
  have "1 \<le> length vs" using p(3) by (cases vs) auto
  then show ?thesis using assms(2) p
    by (auto simp: mwts_inside_def mwts_from_append mk_multiword_token_def)
qed

lemma append_token_tokens:
  assumes "splitter_ok sp" "mwts_inside s" "length (s_words (append_token u sp form misc s)) < 2 ^ 63"
  shows "map fst (sentence_tokens (append_token u sp form misc s)) = map fst (sentence_tokens s) @ [mk_token form misc]"
proof -
  let ?s = "append_token u sp form misc s" and ?n = "length (s_words s)"
  obtain vs ns where p: "s_words ?s = s_words s @ vs" "s_multiword_tokens ?s = s_multiword_tokens s @ ns" "vs \<noteq> []"
    "ns = [] \<and> (\<exists>w. vs = [w] \<and> tk_form w = form \<and> tk_misc w = misc) \<or>
     ns = [mk_multiword_token (int ?n) (int ?n + int (length vs) - 1) form misc]"
    using append_token_words [OF assms(1), of u form misc s] by (elim exE conjE) (rule that)
  have len: "length (s_words s @ vs) < 2 ^ 63" "1 \<le> length vs" using assms(3) p(1,3) by (cases vs; simp)+
  have "sentence_tokens ?s = sentence_tokens s @ surface_tokens (s_words s @ vs) ?n ns"
    unfolding sentence_tokens_def p(1,2) using assms(2) len(1) p(4)
    by (intro surface_tokens_append) (auto simp: mwts_inside_def mk_multiword_token_def Suc_le_eq)
  moreover have "map fst (surface_tokens (s_words s @ vs) ?n ns) = [mk_token form misc]"
    using p(4)
  proof
    assume "ns = [] \<and> (\<exists>w. vs = [w] \<and> tk_form w = form \<and> tk_misc w = misc)"
    then show ?thesis
      by (auto simp: surface_tokens_word surface_tokens_end mk_token_def token.defs)
  next
    assume ns: "ns = [mk_multiword_token (int ?n) (int ?n + int (length vs) - 1) form misc]"
    have "nat (int ?n + int (length vs) - 1) + 1 = ?n + length vs" "int ?n + int (length vs) - 1 < 2 ^ 63" using len by auto
    then show ?thesis unfolding ns using len(2) p(3)
      by (subst surface_tokens_mwt) (simp_all add: surface_tokens_end mk_multiword_token_def mk_token_def token.defs)
  qed
  ultimately show ?thesis by simp
qed

section \<open>Loaded splitters\<close>

text \<open>
  C27: With the tables of a loaded splitter, the incremental search finds what the reference search
  finds: the full rule, or else the longest proper suffix that has a rule, and always some words.
\<close>

theorem find_rule_loaded:
  assumes "load_splitter decompress bytes = Some (sp, left)"
  shows "find_rule sp buffer =
     (case sp_full_rules sp buffer of Some ws \<Rightarrow> Some (ws, 0)
      | None \<Rightarrow> if sp_version sp \<ge> 2 then longest_from (sp_suffix_rules sp) buffer 0 None else None) \<and>
   (\<forall>ws n. find_rule sp buffer = Some (ws, n) \<longrightarrow> ws \<noteq> [])"
  using find_rule_longest find_rule_words load_splitter_ok [OF assms] by blast

text \<open>The suffix rule that splits \<open>du\<close> to \<open>de\<close> and \<open>u\<close>, in version 2.\<close>

definition sample_rules :: "u8 list" where
  "sample_rules = [2, 0, 0, 0, 0, 1, 0, 0, 0, 2, 100, 117, 2, 2, 100, 101, 1, 117]"

definition sample_splitter :: multiword_splitter where
  "sample_splitter = \<lparr>sp_version = 2, sp_full_rules = Map.empty, sp_suffix_rules = [''ud'' \<mapsto> [''de'', ''u''], ''u'' \<mapsto> []]\<rparr>"

lemma load_two: "load_rule_words 2 = load_rule_words (Suc (Suc 0))" "load_full_rules 0 rules d = Inr (rules, d)"
  by (simp_all add: numeral_2_eq_2)

lemma load_sample: "load_splitter (\<lambda>data. Some (data, [])) sample_rules = Some (sample_splitter, [])"
  by (simp add: load_splitter_def sample_rules_def splitter_latest_def load_rules_def bd_fill_def bd_next_4B_def bd_next_1B_def
      bd_next_str_def bd_next_def load_rule_def rule_words_def add_prefixes_def add_prefix_def bd_is_end_def sample_splitter_def
      char8_def load_two) (simp add: char_of_def bit_0)

lemma find_rule_loaded_witness:
  "find_rule sample_splitter ''uda'' = Some ([''de'', ''u''], 1) \<and>
   find_rule sample_splitter ''uda'' = longest_from (sp_suffix_rules sample_splitter) ''uda'' 0 None"
  using find_rule_loaded [OF load_sample, of "''uda''"]
  by (simp add: sample_splitter_def longest_from_def has_words_def rule_words_def upt_rec)

text \<open>
  C28: Whatever a loaded splitter splits it to, a token is appended to a sentence as one surface
  token that has its form and its MISC field, and the surface tokens before it stay as they were.
\<close>

theorem append_token_surface:
  assumes "load_splitter decompress bytes = Some (sp, left)" "mwts_inside s"
    "length (s_words (append_token u sp form misc s)) < 2 ^ 63"
  shows "map fst (sentence_tokens (append_token u sp form misc s)) = map fst (sentence_tokens s) @ [mk_token form misc]"
  using append_token_tokens [OF load_splitter_ok [OF assms(1)] assms(2,3)] .

definition plain_tables :: unicode_tables where
  "plain_tables = \<lparr>category_table = (\<lambda>_. 0), othercase_table = (\<lambda>_. 0)\<rparr>"

lemma sample_rule: "find_rule sample_splitter (rev (utf8_map (unicode_lowercase plain_tables) ''adu'')) = Some ([''de'', ''u''], 1)"
proof -
  have "utf8_map (unicode_lowercase plain_tables) ''adu'' = ''adu''"
    by (simp add: utf8_map.simps plain_tables_def unicode_lowercase_def other_type_def utf8_append_def unicode_chars_def text_simps)
      (simp add: char_of_def bit_0)
  then show ?thesis
    using find_rule_longest [OF load_splitter_ok [OF load_sample], of "''uda''"]
    by (simp add: sample_splitter_def longest_from_def has_words_def rule_words_def upt_rec)
qed

lemma append_token_surface_witness:
  "map fst (sentence_tokens (append_token plain_tables sample_splitter ''adu'' ''SpaceAfter=No'' clear_sentence)) =
     [mk_token ''adu'' ''SpaceAfter=No''] \<and>
   length (s_words (append_token plain_tables sample_splitter ''adu'' ''SpaceAfter=No'' clear_sentence)) = 3"
proof -
  have len: "length (s_words (append_token plain_tables sample_splitter ''adu'' ''SpaceAfter=No'' clear_sentence)) = 3"
    using sample_rule by (simp add: append_token_def Let_def clear_sentence_def add_word_def)
  have "mwts_inside clear_sentence" by (simp add: mwts_inside_def clear_sentence_def mwts_end_def)
  moreover have "sentence_tokens clear_sentence = []" by (simp add: sentence_tokens_def surface_tokens.simps clear_sentence_def)
  ultimately show ?thesis
    using append_token_surface [OF load_sample, of clear_sentence plain_tables "''adu''" "''SpaceAfter=No''"] len by simp
qed

end
