(* ===== verification/Presegmented.thy ===== *)
theory Presegmented
  imports Line_Formats
begin

text \<open>
  \<open>input_format_presegmented_tokenizer\<close> (\<open>src/sentence/input_format.cpp\<close>): one sentence per
  line, tokenized by another reader. That reader is a parameter, its \<open>set_text\<close> and its
  \<open>next_sentence\<close> over a state of its own. A call may not return, so it gives an option.
\<close>

record 't presegmented =
  ps_text :: string
  ps_new_document :: bool
  ps_document_id :: string
  ps_newlines :: nat
  ps_sentence_id :: nat
  ps_tokenizer :: 't

definition ps_reset_document :: "('t \<Rightarrow> 't) \<Rightarrow> string \<Rightarrow> 't presegmented \<Rightarrow> 't presegmented" where
  "ps_reset_document reset i r = r\<lparr>ps_text := [], ps_new_document := True, ps_document_id := i,
     ps_newlines := 2, ps_sentence_id := 1, ps_tokenizer := reset (ps_tokenizer r)\<rparr>"

definition ps_set_text :: "string \<Rightarrow> 't presegmented \<Rightarrow> 't presegmented" where
  "ps_set_text t r = r\<lparr>ps_text := t\<rparr>"

text \<open>
  The next line, with the line ends around it, the newlines in front of it and behind it, and the
  text left.
\<close>

definition segment_line :: "string \<Rightarrow> string \<times> nat \<times> nat \<times> string" where
  "segment_line t =
     (let before = takeWhile (\<lambda>c. \<not> no_eol c) t; t1 = dropWhile (\<lambda>c. \<not> no_eol c) t;
          line = takeWhile no_eol t1; t2 = dropWhile no_eol t1;
          after = takeWhile (\<lambda>c. \<not> no_eol c) t2
      in (before @ line @ after, count_newlines before, count_newlines after, dropWhile (\<lambda>c. \<not> no_eol c) t2))"

text \<open>
  A part of a sentence is appended: ids and heads move behind the words already there.
\<close>

definition append_part :: "sentence \<Rightarrow> sentence \<Rightarrow> sentence" where
  "append_part part s =
     (let n = int (length (s_words s)) - 1 in
      s\<lparr>s_words := s_words s @ map (\<lambda>w. w\<lparr>w_id := w_id w + n, w_head := (if w_head w > 0 then w_head w + n else w_head w)\<rparr>)
            (tl (s_words part)),
        s_multiword_tokens := s_multiword_tokens s @
            map (\<lambda>m. m\<lparr>mwt_id_first := mwt_id_first m + n, mwt_id_last := mwt_id_last m + n\<rparr>) (s_multiword_tokens part),
        s_empty_nodes := s_empty_nodes s @ map (\<lambda>e. e\<lparr>en_id := en_id e + n\<rparr>) (s_empty_nodes part)\<rparr>)"

text \<open>All sentences that the tokenizer finds in a line; \<open>Some\<close> of an error stops the loop.\<close>

partial_function (option) append_loop ::
  "('t \<Rightarrow> (sentence option result \<times> 't) option) \<Rightarrow> 't \<Rightarrow> sentence \<Rightarrow> (sentence \<times> string option \<times> 't) option" where
  "append_loop tokenize t s = Option.bind (tokenize t) (\<lambda>(outcome, t').
     (case outcome of Inl e \<Rightarrow> Some (s, Some e, t')
      | Inr found \<Rightarrow> (case found of None \<Rightarrow> Some (s, None, t')
          | Some part \<Rightarrow> append_loop tokenize t' (append_part part s))))"

declare append_loop.simps [code]

text \<open>The loop over the lines, as long as there is no word; the last argument is \<open>following_newlines\<close>.\<close>

partial_function (option) segment_loop ::
  "(string \<Rightarrow> 't \<Rightarrow> 't) \<Rightarrow> ('t \<Rightarrow> (sentence option result \<times> 't) option) \<Rightarrow> 't presegmented \<Rightarrow> sentence \<Rightarrow> nat \<Rightarrow>
   (sentence \<times> string option \<times> 't presegmented \<times> nat) option" where
  "segment_loop put tokenize r s following =
     (if ps_text r \<noteq> [] \<and> sentence_empty s then
        (case segment_line (ps_text r) of (line, before, after, left) \<Rightarrow>
         Option.bind (append_loop tokenize (put line (ps_tokenizer r)) s) (\<lambda>(s, e, t).
           (let preceding = u32_plus (ps_newlines r) before;
                following = u32_plus following after;
                r = r\<lparr>ps_text := left, ps_newlines := preceding, ps_tokenizer := t\<rparr>
            in if e \<noteq> None then Some (s, e, r, following)
            else if sentence_empty s then
              segment_loop put tokenize (r\<lparr>ps_newlines := u32_plus preceding following\<rparr>) s 0
            else segment_loop put tokenize r s following)))
      else Some (s, None, r, following))"

declare segment_loop.simps [code]

definition text_comment :: "sentence \<Rightarrow> string" where
  "text_comment s = ''# text = '' @ concat (map (\<lambda>(tok, _, i). tk_form tok @
     (if (i + 1) mod 2 ^ 64 < length (s_words s) \<and> get_space_after tok then '' '' else [])) (sentence_tokens s))"

definition presegmented_next ::
  "(string \<Rightarrow> 't \<Rightarrow> 't) \<Rightarrow> ('t \<Rightarrow> (sentence option result \<times> 't) option) \<Rightarrow> 't presegmented \<Rightarrow>
   (sentence option result \<times> 't presegmented) option" where
  "presegmented_next put tokenize r =
     map_option (\<lambda>(s, e, r, following).
       (case e of Some e \<Rightarrow> (Inl e, r)
        | None \<Rightarrow>
          if sentence_empty s then (Inr None, r)
          else
            (let s = (if ps_new_document r then set_new_doc True (ps_document_id r) s else s);
                 s = (if ps_newlines r \<ge> 2 then set_new_par True [] s else s);
                 s = set_sent_id (show_nat (ps_sentence_id r)) s;
                 s = s\<lparr>s_comments := s_comments s @ [text_comment s]\<rparr>
             in (Inr (Some s), r\<lparr>ps_new_document := False, ps_newlines := following,
                   ps_sentence_id := u32_plus (ps_sentence_id r) 1\<rparr>))))
       (segment_loop put tokenize r clear_sentence 0)"

section \<open>The lines of the text\<close>

lemma segment_line_shorter: "segment_line t = (line, b, a, left) \<Longrightarrow> t \<noteq> [] \<Longrightarrow> length left < length t"
proof -
  assume seg: "segment_line t = (line, b, a, left)" and ne: "t \<noteq> []"
  let ?t1 = "dropWhile (\<lambda>c. \<not> no_eol c) t"
  have left: "left = dropWhile (\<lambda>c. \<not> no_eol c) (dropWhile no_eol ?t1)"
    using seg by (simp add: segment_line_def Let_def)
  obtain c u where t: "t = c # u" using ne by (cases t) auto
  have le: "length left \<le> length (dropWhile no_eol ?t1)" unfolding left by (rule length_dropWhile_le)
  show ?thesis
  proof (cases "no_eol c")
    case True
    then show ?thesis using le length_dropWhile_le [of no_eol u] by (simp add: t)
  next
    case False
    then have "length ?t1 \<le> length u" using length_dropWhile_le [of _ u] by (simp add: t)
    then show ?thesis using le length_dropWhile_le [of no_eol ?t1] by (simp add: t)
  qed
qed

text \<open>Nothing of the text is lost: the line and what is left are the text.\<close>

lemma segment_line_text: "segment_line t = (line, b, a, left) \<Longrightarrow> line @ left = t"
  by (auto simp: segment_line_def Let_def)

section \<open>A reader over a reader\<close>

text \<open>
  When the tokenizer keeps the contract of a reader on every text it is given, so does the
  presegmented reader over it.
\<close>

locale line_tokenizer = sentence_reader tokenize ok size
  for tokenize :: "'t \<Rightarrow> (sentence option result \<times> 't) option" and ok :: "'t \<Rightarrow> bool" and size :: "'t \<Rightarrow> nat" +
  fixes put :: "string \<Rightarrow> 't \<Rightarrow> 't"
  assumes put_ok: "ok (put line t)"
begin

lemma append_loop_returns: "ok t \<Longrightarrow> \<exists>s' e t'. append_loop tokenize t s = Some (s', e, t')"
proof (induction "size t" arbitrary: t s rule: less_induct)
  case less
  obtain outcome t' where step: "tokenize t = Some (outcome, t')" "ok t'"
    and smaller: "\<And>p. outcome = Inr (Some p) \<Longrightarrow> size t' < size t"
    using returns [OF less.prems] by blast
  consider e where "outcome = Inl e" | "outcome = Inr None" | p where "outcome = Inr (Some p)"
    by (cases outcome) (auto intro: option.exhaust)
  then show ?case
  proof cases
    case 3
    then have "\<exists>s' e t''. append_loop tokenize t' (append_part p s) = Some (s', e, t'')"
      using less.hyps [OF smaller step(2)] by blast
    then show ?thesis using step(1) 3 by (subst append_loop.simps) simp
  qed (use step(1) in \<open>subst append_loop.simps, simp\<close>)+
qed

lemma segment_loop_returns:
  "\<exists>s' e r' n. segment_loop put tokenize r s following = Some (s', e, r', n) \<and>
     (sentence_empty s \<and> \<not> sentence_empty s' \<longrightarrow> length (ps_text r') < length (ps_text r))"
proof (induction "length (ps_text r)" arbitrary: r s following rule: less_induct)
  case less
  show ?case
  proof (cases "ps_text r \<noteq> [] \<and> sentence_empty s")
    case False
    then show ?thesis by (subst segment_loop.simps) auto
  next
    case True
    obtain line b a left where seg: "segment_line (ps_text r) = (line, b, a, left)"
      by (metis prod_cases4)
    have shorter: "length left < length (ps_text r)" using segment_line_shorter [OF seg] True by simp
    obtain s1 e t1 where app: "append_loop tokenize (put line (ps_tokenizer r)) s = Some (s1, e, t1)"
      using append_loop_returns [OF put_ok] by blast
    let ?r = "r\<lparr>ps_text := left, ps_newlines := u32_plus (ps_newlines r) b, ps_tokenizer := t1\<rparr>"
    have rec: "\<exists>s' e r' n. segment_loop put tokenize (?r\<lparr>ps_newlines := m\<rparr>) s1 k = Some (s', e, r', n) \<and>
        (sentence_empty s1 \<and> \<not> sentence_empty s' \<longrightarrow> length (ps_text r') < length left)" for m k
      using less.hyps [of "?r\<lparr>ps_newlines := m\<rparr>" s1 k] shorter by simp
    note unfold = segment_loop.simps [of put tokenize r s following]
    show ?thesis
    proof (cases "e \<noteq> None \<or> \<not> sentence_empty s1")
      case stop: True
      then have "segment_loop put tokenize r s following = Some (s1, e, ?r, u32_plus following a)"
        using True seg app by (subst unfold) (auto simp: Let_def segment_loop.simps [of put tokenize ?r s1])
      then show ?thesis using shorter by simp
    next
      case False
      then have "segment_loop put tokenize r s following =
          segment_loop put tokenize (?r\<lparr>ps_newlines := u32_plus (u32_plus (ps_newlines r) b) (u32_plus following a)\<rparr>) s1 0"
        using True seg app by (subst unfold) (simp add: Let_def)
      moreover obtain s' e' r' n where "segment_loop put tokenize
          (?r\<lparr>ps_newlines := u32_plus (u32_plus (ps_newlines r) b) (u32_plus following a)\<rparr>) s1 0 = Some (s', e', r', n)"
          "sentence_empty s1 \<and> \<not> sentence_empty s' \<longrightarrow> length (ps_text r') < length left"
        using rec by blast
      ultimately show ?thesis using False shorter by auto
    qed
  qed
qed

lemma presegmented_returns:
  "\<exists>outcome r'. presegmented_next put tokenize r = Some (outcome, r') \<and>
      (\<forall>s. outcome = Inr (Some s) \<longrightarrow> length (ps_text r') < length (ps_text r))"
proof -
  have "sentence_empty clear_sentence" by (simp add: sentence_empty_def clear_sentence_def)
  then obtain s e r' n where "segment_loop put tokenize r clear_sentence 0 = Some (s, e, r', n)"
      "\<not> sentence_empty s \<longrightarrow> length (ps_text r') < length (ps_text r)"
    using segment_loop_returns [of r clear_sentence 0] by blast
  then show ?thesis
    by (cases e) (auto simp: presegmented_next_def Let_def)
qed

end

sublocale line_tokenizer \<subseteq> presegmented: sentence_reader "presegmented_next put tokenize" "\<lambda>_. True" "\<lambda>r. length (ps_text r)"
  by unfold_locales (use presegmented_returns in simp)

context line_tokenizer
begin

lemma drain_presegmented: "\<exists>ss e. drain (presegmented_next put tokenize) r = Some (ss, e) \<and> length ss \<le> length (ps_text r)"
  by (rule presegmented.drain_returns) simp

end

interpretation presegmented_vertical: line_tokenizer "\<lambda>r. Some (vertical_next r)" "\<lambda>_. True" "\<lambda>r. length (lr_text r)" reader_set_text
  by unfold_locales simp

text \<open>
  Over a tokenizer whose calls return and whose sentences consume its text, the loop that
  reads a document line by line ends, with at most one sentence per character.
\<close>

theorem presegmented_ends:
  assumes "\<And>t. ok t \<Longrightarrow> \<exists>outcome t'. tokenize t = Some (outcome, t') \<and> ok t' \<and> (\<forall>s. outcome = Inr (Some s) \<longrightarrow> (m t' :: nat) < m t)"
    and "\<And>line t. ok (put line t)"
  shows "\<exists>ss e. drain (presegmented_next put tokenize) r = Some (ss, e) \<and> length ss \<le> length (ps_text r)"
  using assms by (intro line_tokenizer.drain_presegmented line_tokenizer.intro sentence_reader.intro line_tokenizer_axioms.intro)

definition sample_segments :: "line_reader presegmented" where
  "sample_segments = \<lparr>ps_text = ''a b'' @ [lf], ps_new_document = True, ps_document_id = [],
     ps_newlines = 2, ps_sentence_id = 1, ps_tokenizer = reset_document []\<rparr>"

lemma presegmented_ends_witness:
  "\<exists>ss e. drain (presegmented_next reader_set_text (\<lambda>r. Some (horizontal_next r))) sample_segments = Some (ss, e) \<and> length ss \<le> 4"
proof -
  have "\<exists>outcome t'. Some (horizontal_next t) = Some (outcome, t') \<and> True \<and>
      (\<forall>s. outcome = Inr (Some s) \<longrightarrow> length (lr_text t') < length (lr_text t))" for t
    by (cases "horizontal_next t") (auto simp: horizontal_next_progress)
  from presegmented_ends [where ok = "\<lambda>_. True", OF this, of reader_set_text sample_segments]
  show ?thesis by (simp add: sample_segments_def numeral_eq_Suc)
qed

end
