(* ===== verification/Tokenizer.thy ===== *)
theory Tokenizer
  imports Gru_Tokenizer Multiword_Splitter Presegmented
begin

text \<open>
  \<open>src/tokenizer/morphodita_tokenizer_wrapper.cpp\<close>: the tokenizer of a model as an input format.
  It turns the forms of the tokenizer, which are pieces of the text, to words and multiword tokens
  and keeps all spaces in the MISC fields. Pieces are offsets and lengths in the text given last.

  The proofs show that nothing of a text is lost: written as plain text, its sentences and the
  spaces kept for the next text are the text again.
\<close>

section \<open>Model\<close>

record tokenizer_options =
  tz_tables :: unicode_tables
  tz_splitter :: "multiword_splitter option"
  tz_normalized_spaces :: bool
  tz_token_ranges :: bool

record 't tokenizer_wrapper =
  tw_tokenizer :: 't
  tw_new_document :: bool
  tw_document_id :: string
  tw_newlines :: nat
  tw_sentence_id :: nat
  tw_text :: string
  tw_pos :: nat
  tw_unicode_offset :: nat
  tw_unicode_length :: nat
  tw_saved_spaces :: string
  tw_token :: token

definition new_tokenizer_wrapper :: "'t \<Rightarrow> 't tokenizer_wrapper" where
  "new_tokenizer_wrapper t = \<lparr>tw_tokenizer = t, tw_new_document = True, tw_document_id = [], tw_newlines = 2,
     tw_sentence_id = 1, tw_text = [], tw_pos = 0, tw_unicode_offset = 0, tw_unicode_length = 0, tw_saved_spaces = [],
     tw_token = mk_token [] []\<rparr>"

text \<open>The number of leading spaces and the rest.\<close>

function leading_spaces :: "unicode_tables \<Rightarrow> string \<Rightarrow> nat \<times> string" where
  "leading_spaces u s =
     (if s \<noteq> [] \<and> unicode_space u (fst (utf8_decode s)) then
        (case leading_spaces u (snd (utf8_decode s)) of (n, r) \<Rightarrow> (n + 1, r))
      else (0, s))"
  by pat_completeness auto
termination by (relation "measure (length \<circ> snd)") (auto dest: utf8_decode_length)

declare leading_spaces.simps [simp del]

definition spaces_of :: "unicode_tables \<Rightarrow> string \<Rightarrow> string" where
  "spaces_of u s = take (length s - length (snd (leading_spaces u s))) s"

definition tw_set_text :: "(string \<Rightarrow> 't \<Rightarrow> 't) \<Rightarrow> unicode_tables \<Rightarrow> string \<Rightarrow> 't tokenizer_wrapper \<Rightarrow> 't tokenizer_wrapper" where
  "tw_set_text put u t w =
     (case leading_spaces u t of (n, rest) \<Rightarrow>
        w\<lparr>tw_saved_spaces := tw_saved_spaces w @ spaces_of u t,
          tw_unicode_offset := tw_unicode_offset w + n + tw_unicode_length w,
          tw_unicode_length := length (utf8_decode_all rest),
          tw_text := rest, tw_pos := 0, tw_tokenizer := put rest (tw_tokenizer w)\<rparr>)"

definition tw_reset_document ::
  "(string \<Rightarrow> 't \<Rightarrow> 't) \<Rightarrow> unicode_tables \<Rightarrow> string \<Rightarrow> 't tokenizer_wrapper \<Rightarrow> 't tokenizer_wrapper" where
  "tw_reset_document put u i w =
     (tw_set_text put u [] (w\<lparr>tw_new_document := True, tw_document_id := i, tw_newlines := 2, tw_sentence_id := 1\<rparr>))
       \<lparr>tw_unicode_offset := 0, tw_unicode_length := 0, tw_saved_spaces := []\<rparr>"

text \<open>Trimming a piece.\<close>

definition ascii_space :: "char \<Rightarrow> bool" where
  "ascii_space c \<longleftrightarrow> c = cr \<or> c = lf \<or> c = tab \<or> c = CHR '' ''"

fun trim_start :: "string \<Rightarrow> nat \<Rightarrow> nat \<Rightarrow> nat \<times> nat" where
  "trim_start t p 0 = (p, 0)"
| "trim_start t p (Suc n) = (if ascii_space (t ! p) then trim_start t (p + 1) n else (p, Suc n))"

fun trim_end :: "string \<Rightarrow> nat \<Rightarrow> nat \<Rightarrow> nat" where
  "trim_end t p 0 = 0"
| "trim_end t p (Suc n) = (if ascii_space (t ! (p + n)) then trim_end t p n else Suc n)"

definition trim_piece :: "string \<Rightarrow> nat \<times> nat \<Rightarrow> nat \<times> nat" where
  "trim_piece t f = (case f of (p, n) \<Rightarrow> (case trim_start t p n of (p, n) \<Rightarrow> (p, trim_end t p n)))"

definition trim_pieces :: "string \<Rightarrow> (nat \<times> nat) list \<Rightarrow> (nat \<times> nat) list" where
  "trim_pieces t fs = filter (\<lambda>(_, n). n \<noteq> 0) (map (trim_piece t) fs)"

definition between :: "string \<Rightarrow> nat \<Rightarrow> nat \<Rightarrow> string" where
  "between t p q = take (q - p) (drop p t)"

text \<open>The form of a piece, without line ends and tabs and with single spaces.\<close>

fun clean_form :: "string \<Rightarrow> string \<Rightarrow> string" where
  "clean_form form [] = form"
| "clean_form form (c # s) =
     (let c = (if c = cr \<or> c = lf \<or> c = tab then CHR '' '' else c)
      in clean_form (if c \<noteq> CHR '' '' \<or> form = [] \<or> last form \<noteq> CHR '' '' then form @ [c] else form) s)"

text \<open>
  The token of a piece: \<open>before\<close> and \<open>after\<close> are the spaces around it. The token of the wrapper is
  used again for every piece, so what is not set stays.
\<close>

definition piece_token :: "tokenizer_options \<Rightarrow> string \<Rightarrow> string \<Rightarrow> string \<Rightarrow> token \<Rightarrow> token" where
  "piece_token opts before piece after tok =
     (let tok = tok\<lparr>tk_form := clean_form [] piece\<rparr>
      in if tz_normalized_spaces opts then set_space_after (after \<noteq> []) tok
         else set_spaces_after after
           (set_spaces_in_token (if length (clean_form [] piece) \<noteq> length piece then piece else []) (set_spaces_before before tok)))"

definition add_token :: "tokenizer_options \<Rightarrow> token \<Rightarrow> sentence \<Rightarrow> sentence" where
  "add_token opts tok s =
     (case tz_splitter opts of Some sp \<Rightarrow> append_token (tz_tables opts) sp (tk_form tok) (tk_misc tok) s
      | None \<Rightarrow> s\<lparr>s_words := s_words s @ [(mk_word (int (length (s_words s))) (tk_form tok))\<lparr>tk_misc := tk_misc tok\<rparr>]\<rparr>)"

definition range_token :: "tokenizer_options \<Rightarrow> nat \<Rightarrow> (nat \<times> nat) list \<Rightarrow> token \<Rightarrow> token" where
  "range_token opts offset ranges tok =
     (if tz_token_ranges opts then set_token_range (offset + fst (hd ranges)) (offset + fst (hd ranges) + snd (hd ranges)) tok else tok)"

text \<open>
  The pieces of a sentence; \<open>trailing\<close> are the spaces behind the last one. The ranges are those of
  all tokens, in order.
\<close>

fun add_pieces ::
  "tokenizer_options \<Rightarrow> string \<Rightarrow> nat \<Rightarrow> string \<Rightarrow> (nat \<times> nat) list \<Rightarrow> string \<Rightarrow> (nat \<times> nat) list \<Rightarrow> token \<Rightarrow> sentence \<Rightarrow>
   token \<times> sentence" where
  "add_pieces opts t offset trailing ranges before [] tok s = (tok, s)"
| "add_pieces opts t offset trailing ranges before ((p, n) # fs) tok s =
     (let after = (case fs of [] \<Rightarrow> trailing | (q, _) # _ \<Rightarrow> between t (p + n) q);
          tok = range_token opts offset ranges (piece_token opts before (take n (drop p t)) after tok)
      in add_pieces opts t offset trailing (tl ranges) [] fs tok (add_token opts tok s))"

definition tw_sentence ::
  "tokenizer_options \<Rightarrow> (nat \<times> nat) list \<Rightarrow> (nat \<times> nat) list \<Rightarrow> 't tokenizer_wrapper \<Rightarrow> sentence \<times> 't tokenizer_wrapper" where
  "tw_sentence opts fs ranges w =
     (let t = tw_text w;
          before = tw_saved_spaces w @ between t (tw_pos w) (fst (hd fs));
          newlines = u32_plus (tw_newlines w) (count_newlines before);
          e = fst (last fs) + snd (last fs);
          trailing = spaces_of (tz_tables opts) (drop e t);
          (tok, s) = add_pieces opts t (tw_unicode_offset w) trailing ranges before fs (tw_token w) clear_sentence;
          s = (if tw_new_document w then set_new_doc True (tw_document_id w) s else s);
          s = (if newlines \<ge> 2 then set_new_par True [] s else s);
          s = set_sent_id (show_nat (tw_sentence_id w)) s
      in (s\<lparr>s_comments := s_comments s @ [text_comment s]\<rparr>,
          w\<lparr>tw_token := tok, tw_new_document := False, tw_newlines := u32_plus 0 (count_newlines trailing),
            tw_sentence_id := u32_plus (tw_sentence_id w) 1, tw_pos := e + length trailing, tw_saved_spaces := []\<rparr>))"

text \<open>\<open>None\<close>: the tokenizer does not return, or returns empty sentences for ever.\<close>

partial_function (option) tw_next_sentence ::
  "('t \<Rightarrow> (((nat \<times> nat) list \<times> (nat \<times> nat) list) option \<times> 't) option) \<Rightarrow> tokenizer_options \<Rightarrow> 't tokenizer_wrapper \<Rightarrow>
   (sentence option result \<times> 't tokenizer_wrapper) option" where
  "tw_next_sentence next opts w =
     Option.bind (next (tw_tokenizer w)) (\<lambda>(found, t).
       (let w = w\<lparr>tw_tokenizer := t\<rparr> in
        case found of
          Some (fs, ranges) \<Rightarrow>
            if trim_pieces (tw_text w) fs = [] then tw_next_sentence next opts w
            else (case tw_sentence opts (trim_pieces (tw_text w) fs) ranges w of (s, w) \<Rightarrow> Some (Inr (Some s), w))
        | None \<Rightarrow>
            Some (Inr None, w\<lparr>tw_saved_spaces := tw_saved_spaces w @ drop (tw_pos w) (tw_text w), tw_pos := length (tw_text w)\<rparr>)))"

declare tw_next_sentence.simps [code]

section \<open>Pieces\<close>

text \<open>A piece has no line ends and tabs, and no space at its ends; other spaces may be inside.\<close>

definition piece_clean :: "string \<Rightarrow> bool" where
  "piece_clean piece \<longleftrightarrow> piece \<noteq> [] \<and> (\<forall>c \<in> set piece. c \<noteq> cr \<and> c \<noteq> lf \<and> c \<noteq> tab) \<and>
     \<not> ascii_space (hd piece) \<and> \<not> ascii_space (last piece)"

text \<open>Pieces follow each other from a position on with nothing but spaces in front of each.\<close>

fun pieces :: "unicode_tables \<Rightarrow> string \<Rightarrow> nat \<Rightarrow> (nat \<times> nat) list \<Rightarrow> bool" where
  "pieces u t p [] \<longleftrightarrow> True"
| "pieces u t p ((a, n) # fs) \<longleftrightarrow> p \<le> a \<and> snd (leading_spaces u (drop p t)) = drop a t \<and> a + n \<le> length t \<and>
     piece_clean (take n (drop a t)) \<and> pieces u t (a + n) fs"

definition pieces_end :: "nat \<Rightarrow> (nat \<times> nat) list \<Rightarrow> nat" where
  "pieces_end p fs = (if fs = [] then p else fst (last fs) + snd (last fs))"

lemma trim_piece_clean:
  assumes "piece_clean (take n (drop p t))" "p + n \<le> length t"
  shows "trim_piece t (p, n) = (p, n)" "n \<noteq> 0"
proof -
  show n: "n \<noteq> 0" using assms(1) by (auto simp: piece_clean_def)
  have "hd (take n (drop p t)) = t ! p" "last (take n (drop p t)) = t ! (p + (n - 1))"
    using n assms(2) by (simp_all add: hd_conv_nth last_conv_nth)
  then show "trim_piece t (p, n) = (p, n)"
    using n assms(1) by (cases n) (auto simp: trim_piece_def piece_clean_def)
qed

lemma trim_pieces_clean: "pieces u t p fs \<Longrightarrow> trim_pieces t fs = fs"
proof (induction u t p fs rule: pieces.induct)
  case (2 u t p a n fs)
  then show ?case using trim_piece_clean [of n a t] by (simp add: trim_pieces_def)
qed (simp add: trim_pieces_def)

lemma clean_form_length:
  "\<forall>c \<in> set s. c \<noteq> cr \<and> c \<noteq> lf \<and> c \<noteq> tab \<Longrightarrow>
   length (clean_form form s) \<le> length form + length s \<and>
   (length (clean_form form s) = length form + length s \<longrightarrow> clean_form form s = form @ s)"
proof (induction s arbitrary: form)
  case (Cons c s)
  let ?f = "if c \<noteq> CHR '' '' \<or> form = [] \<or> last form \<noteq> CHR '' '' then form @ [c] else form"
  have "clean_form form (c # s) = clean_form ?f s" using Cons.prems by (simp add: Let_def)
  moreover have "length (clean_form ?f s) \<le> length ?f + length s \<and>
      (length (clean_form ?f s) = length ?f + length s \<longrightarrow> clean_form ?f s = ?f @ s)"
    by (rule Cons.IH) (use Cons.prems in auto)
  ultimately show ?case by (auto split: if_splits)
qed simp

text \<open>What the plain text writer shows of a token.\<close>

definition token_text :: "token \<Rightarrow> string" where
  "token_text tok = get_spaces_before tok @
     (if get_spaces_in_token tok \<noteq> [] then get_spaces_in_token tok else tk_form tok) @ get_spaces_after tok"

definition surface_text :: "sentence \<Rightarrow> string" where
  "surface_text s = concat (map token_text (map fst (sentence_tokens s)))"

lemma write_plaintext_surface: "write_plaintext False start s = surface_text s"
  by (simp add: write_plaintext_def surface_text_def token_text_def comp_def case_prod_unfold)

lemma spaces_form [simp]:
  "get_spaces_before (t\<lparr>tk_form := f\<rparr>) = get_spaces_before t" "get_spaces_after (t\<lparr>tk_form := f\<rparr>) = get_spaces_after t"
  "get_spaces_in_token (t\<lparr>tk_form := f\<rparr>) = get_spaces_in_token t"
  by (simp_all add: getter_defs get_misc_field_def)

lemma form_setters [simp]:
  "tk_form (set_spaces_before v t) = tk_form t" "tk_form (set_spaces_after v t) = tk_form t"
  "tk_form (set_spaces_in_token v t) = tk_form t" "tk_form (set_token_range a e t) = tk_form t"
  by (simp_all add: setter_defs Let_def start_misc_field_def remove_misc_field_def)

lemma spaces_range:
  "get_spaces_before (set_token_range a e t) = get_spaces_before t \<and> get_spaces_after (set_token_range a e t) = get_spaces_after t \<and>
   get_spaces_in_token (set_token_range a e t) = get_spaces_in_token t"
proof -
  have "bar \<notin> set (show_nat a @ CHR '':'' # show_nat e)" by (simp add: is_digit_def)
  then show ?thesis by (simp add: getter_defs setter_defs store_laws)
qed

lemma spaces_set:
  "get_spaces_before (set_spaces_after a (set_spaces_in_token i (set_spaces_before b t))) = b \<and>
   get_spaces_in_token (set_spaces_after a (set_spaces_in_token i (set_spaces_before b t))) = i \<and>
   get_spaces_after (set_spaces_after a (set_spaces_in_token i (set_spaces_before b t))) = a"
  by (simp add: getter_defs setter_defs store_laws unescape_escape)

lemma piece_token_text:
  assumes "\<not> tz_normalized_spaces opts" "piece_clean piece"
  shows "token_text (range_token opts offset ranges (piece_token opts before piece after tok)) = before @ piece @ after"
proof -
  note len = clean_form_length [of piece "[]"]
  have "clean_form [] piece = piece" if "length (clean_form [] piece) = length piece"
    using len that assms(2) by (simp add: piece_clean_def)
  moreover have "piece \<noteq> []" using assms(2) by (simp add: piece_clean_def)
  ultimately have "token_text (piece_token opts before piece after tok) = before @ piece @ after"
    using assms(1) by (auto simp: token_text_def piece_token_def Let_def spaces_set)
  moreover have "token_text (range_token opts offset ranges t) = token_text t" for t
    by (simp add: range_token_def token_text_def spaces_range)
  ultimately show ?thesis by simp
qed

text \<open>
  A tab inside a form becomes a space, which does not change the length, so the original is not
  kept and the text is not the same.
\<close>

lemma tab_in_form_lost:
  assumes "\<not> tz_normalized_spaces opts"
  shows "token_text (piece_token opts [] (''a'' @ tab # ''b'') '' '' tok) = ''a b ''"
  using assms by (simp add: token_text_def piece_token_def Let_def spaces_set)

section \<open>Sentences\<close>

definition options_ok :: "tokenizer_options \<Rightarrow> bool" where
  "options_ok opts \<longleftrightarrow> \<not> tz_normalized_spaces opts \<and> (\<forall>sp. tz_splitter opts = Some sp \<longrightarrow> splitter_ok sp) \<and>
     unicode_space (tz_tables opts) (byte_of (CHR '' ''))"

lemma add_token_words:
  assumes "options_ok opts"
  shows "length (s_words s) \<le> length (s_words (add_token opts tok s))"
proof (cases "tz_splitter opts")
  case (Some sp)
  then have "splitter_ok sp" using assms by (simp add: options_ok_def)
  then obtain vs where "s_words (append_token (tz_tables opts) sp (tk_form tok) (tk_misc tok) s) = s_words s @ vs"
    using append_token_words by blast
  then show ?thesis using Some by (simp add: add_token_def)
qed (simp add: add_token_def)

lemma token_eta: "mk_token (tk_form tok) (tk_misc tok) = tok"
  by (simp add: mk_token_def)

lemma add_token_surface:
  assumes "options_ok opts" "mwts_inside s" "length (s_words (add_token opts tok s)) < 2 ^ 63"
  shows "surface_text (add_token opts tok s) = surface_text s @ token_text tok \<and> mwts_inside (add_token opts tok s)"
proof -
  have "map fst (sentence_tokens (add_token opts tok s)) = map fst (sentence_tokens s) @ [tok] \<and> mwts_inside (add_token opts tok s)"
  proof (cases "tz_splitter opts")
    case (Some sp)
    then have "splitter_ok sp" using assms by (simp add: options_ok_def)
    then show ?thesis
      using append_token_tokens [of sp s "tz_tables opts" "tk_form tok" "tk_misc tok"]
        append_token_inside [of sp s "tz_tables opts" "tk_form tok" "tk_misc tok"] assms(2,3) Some
      by (simp add: add_token_def token_eta)
  next
    case None
    let ?w = "(mk_word (int (length (s_words s))) (tk_form tok))\<lparr>tk_misc := tk_misc tok\<rparr>"
    have "surface_tokens (s_words s @ [?w]) 1 (s_multiword_tokens s @ []) =
        surface_tokens (s_words s) 1 (s_multiword_tokens s) @ surface_tokens (s_words s @ [?w]) (length (s_words s)) []"
      using assms(2,3) None by (intro surface_tokens_append) (auto simp: mwts_inside_def add_token_def Suc_le_eq)
    moreover have "surface_tokens (s_words s @ [?w]) (length (s_words s)) [] = [(tok, length (s_words s), length (s_words s))]"
      by (simp add: surface_tokens_word surface_tokens_end token.defs mk_word_def)
    ultimately show ?thesis using None assms(2) by (auto simp: add_token_def sentence_tokens_def mwts_inside_def)
  qed
  then show ?thesis by (simp add: surface_text_def)
qed

lemma add_pieces_words:
  "options_ok opts \<Longrightarrow> length (s_words s) \<le> length (s_words (snd (add_pieces opts t offset trailing ranges before fs tok s)))"
proof (induction fs arbitrary: ranges before tok s)
  case (Cons f fs)
  then show ?case using add_token_words [OF Cons.prems] order.trans by (cases f) (fastforce simp: Let_def)
qed simp

lemma between_join: "p \<le> q \<Longrightarrow> q \<le> r \<Longrightarrow> between t p q @ between t q r = between t p r"
proof -
  assume pq: "p \<le> q" "q \<le> r"
  then have "take (q - p) (drop p t) @ take (r - q) (drop (q - p) (drop p t)) = take (q - p + (r - q)) (drop p t)"
    by (simp only: take_add)
  moreover have "drop (q - p) (drop p t) = drop q t" "q - p + (r - q) = r - p" using pq by simp_all
  ultimately show ?thesis by (simp add: between_def)
qed

lemma pieces_end_le: "pieces u t p fs \<Longrightarrow> p \<le> length t \<Longrightarrow> p \<le> pieces_end p fs \<and> pieces_end p fs \<le> length t"
proof (induction u t p fs rule: pieces.induct)
  case (2 u t p a n fs)
  then show ?case by (auto simp: pieces_end_def)
qed (simp add: pieces_end_def)

lemma add_pieces_text:
  assumes "options_ok opts"
  shows "pieces u t p fs \<Longrightarrow> fs \<noteq> [] \<Longrightarrow> mwts_inside s \<Longrightarrow>
    length (s_words (snd (add_pieces opts t offset trailing ranges before fs tok s))) < 2 ^ 63 \<Longrightarrow>
    surface_text (snd (add_pieces opts t offset trailing ranges before fs tok s)) =
      surface_text s @ before @ between t (fst (hd fs)) (pieces_end p fs) @ trailing"
proof (induction fs arbitrary: p ranges before tok s)
  case (Cons f fs)
  obtain a n where f: "f = (a, n)" by (cases f)
  let ?after = "case fs of [] \<Rightarrow> trailing | (q, _) # _ \<Rightarrow> between t (a + n) q"
  let ?tok = "range_token opts offset ranges (piece_token opts before (take n (drop a t)) ?after tok)"
  let ?s = "add_token opts ?tok s"
  have step: "add_pieces opts t offset trailing ranges before (f # fs) tok s =
      add_pieces opts t offset trailing (tl ranges) [] fs ?tok ?s" by (simp add: f Let_def)
  have len: "length (s_words ?s) < 2 ^ 63"
    using Cons.prems(4) add_pieces_words [OF assms, of ?s t offset trailing "tl ranges" "[]" fs ?tok] unfolding step by simp
  have clean: "piece_clean (take n (drop a t))" "pieces u t (a + n) fs" using Cons.prems(1) by (simp_all add: f)
  have "token_text ?tok = before @ take n (drop a t) @ ?after"
    using assms clean(1) by (intro piece_token_text) (simp_all add: options_ok_def)
  then have one: "surface_text ?s = surface_text s @ before @ take n (drop a t) @ ?after" "mwts_inside ?s"
    using add_token_surface [OF assms Cons.prems(3) len] by simp_all
  show ?case
  proof (cases fs)
    case Nil
    then show ?thesis unfolding step using one by (simp add: f pieces_end_def between_def)
  next
    case (Cons g gs)
    obtain q l where g: "g = (q, l)" by (cases g)
    have "surface_text (snd (add_pieces opts t offset trailing (tl ranges) [] fs ?tok ?s)) =
        surface_text ?s @ [] @ between t (fst (hd fs)) (pieces_end (a + n) fs) @ trailing"
      using Cons.prems(4) unfolding step by (intro Cons.IH clean(2) one(2)) (simp_all add: Cons)
    moreover have "pieces_end p (f # fs) = pieces_end (a + n) fs" by (simp add: pieces_end_def Cons)
    moreover have q: "a + n \<le> q" "q \<le> pieces_end (a + n) fs"
      using clean(2) pieces_end_le [of u t "q + l" gs] by (auto simp: Cons g pieces_end_def split: if_splits)
    moreover have "between t a (a + n) @ between t (a + n) q @ between t q (pieces_end (a + n) fs) = between t a (pieces_end (a + n) fs)"
      using q by (simp add: between_join)
    moreover have "take n (drop a t) = between t a (a + n)" by (simp add: between_def)
    ultimately show ?thesis unfolding step using one(1) by (simp add: Cons f g)
  qed
qed simp

text \<open>Comments do not change the text of the tokens.\<close>

lemma surface_text_comments [simp]:
  "surface_text (set_new_doc b v s) = surface_text s" "surface_text (set_new_par b v s) = surface_text s"
  "surface_text (set_sent_id v s) = surface_text s" "surface_text (s\<lparr>s_comments := cs\<rparr>) = surface_text s"
  by (simp_all add: surface_text_def sentence_tokens_def set_new_doc_def set_new_par_def set_sent_id_def Let_def)

lemma words_comments [simp]:
  "s_words (set_new_doc b v s) = s_words s" "s_words (set_new_par b v s) = s_words s" "s_words (set_sent_id v s) = s_words s"
  by (simp_all add: set_new_doc_def set_new_par_def set_sent_id_def Let_def)

text \<open>The part of the input that is not in a sentence yet.\<close>

definition pending :: "'t tokenizer_wrapper \<Rightarrow> string" where
  "pending w = tw_saved_spaces w @ drop (tw_pos w) (tw_text w)"

lemma cont_byte_drop: "cont_byte s = Some (x, s') \<Longrightarrow> \<exists>c. s = c # s' \<and> utf8_cont c"
  by (cases s) (auto split: if_splits)

text \<open>Decoding takes one byte and continuation bytes behind it, none behind an ASCII character.\<close>

lemma utf8_decode_bytes:
  "\<exists>k \<le> length s. snd (utf8_decode (c # s)) = drop k s \<and> (\<forall>x \<in> set (take k s). utf8_cont x) \<and>
     (byte_of c < 0x80 \<longrightarrow> k = 0 \<and> fst (utf8_decode (c # s)) = byte_of c)"
proof -
  have zero: "snd (utf8_decode (c # s)) = s \<Longrightarrow> (byte_of c < 0x80 \<Longrightarrow> fst (utf8_decode (c # s)) = byte_of c) \<Longrightarrow> ?thesis"
    by (intro exI [of _ 0]) simp
  show ?thesis
  proof (cases "byte_of c < 0xC0 \<or> cont_byte s = None")
    case True
    then show ?thesis by (intro zero) (auto simp: Let_def)
  next
    case False
    then obtain x1 s1 where "cont_byte s = Some (x1, s1)" by auto
    then obtain c1 where s: "cont_byte s = Some (x1, s1)" "s = c1 # s1" "utf8_cont c1" using cont_byte_drop by blast
    have one: "snd (utf8_decode (c # s)) = s1 \<Longrightarrow> ?thesis" using False s(2,3) by (intro exI [of _ 1]) simp
    show ?thesis
    proof (cases "byte_of c < 0xE0 \<or> byte_of c \<ge> 0xF8 \<or> cont_byte s1 = None")
      case True
      then show ?thesis using False s(1) zero one by (auto simp: Let_def)
    next
      case e: False
      then obtain x2 s2 where "cont_byte s1 = Some (x2, s2)" by auto
      then obtain c2 where s1: "cont_byte s1 = Some (x2, s2)" "s1 = c2 # s2" "utf8_cont c2" using cont_byte_drop by blast
      have two: "snd (utf8_decode (c # s)) = s2 \<Longrightarrow> ?thesis"
        using False s(2,3) s1(2,3) by (intro exI [of _ 2]) (simp add: numeral_2_eq_2)
      show ?thesis
      proof (cases "byte_of c < 0xF0 \<or> cont_byte s2 = None")
        case True
        then show ?thesis using False e s(1) s1(1) two by (auto simp: Let_def)
      next
        case f: False
        then obtain x3 s3 where "cont_byte s2 = Some (x3, s3)" by auto
        then obtain c3 where s2: "cont_byte s2 = Some (x3, s3)" "s2 = c3 # s3" "utf8_cont c3" using cont_byte_drop by blast
        have "snd (utf8_decode (c # s)) = s3" using False e f s(1) s1(1) s2(1) by (simp add: Let_def)
        then show ?thesis using False s(2,3) s1(2,3) s2(2,3) by (intro exI [of _ 3]) (simp add: numeral_3_eq_3)
      qed
    qed
  qed
qed

lemma utf8_decode_suffix: "\<exists>k. snd (utf8_decode s) = drop k s"
proof (cases s)
  case (Cons c s')
  then obtain k where "snd (utf8_decode s) = drop k s'" using utf8_decode_bytes [of s' c] by blast
  then show ?thesis using Cons by (intro exI [of _ "Suc k"]) simp
qed simp

lemma leading_spaces_length: "length (snd (leading_spaces u s)) \<le> length s"
proof (induction u s rule: leading_spaces.induct)
  case (1 u s)
  show ?case
  proof (cases "s \<noteq> [] \<and> unicode_space u (fst (utf8_decode s))")
    case True
    then have "length (snd (utf8_decode s)) < length s" by (simp add: utf8_decode_length)
    then show ?thesis using 1 [OF True] True by (subst leading_spaces.simps) (simp add: case_prod_unfold)
  next
    case False
    then show ?thesis by (subst leading_spaces.simps) auto
  qed
qed

lemma leading_spaces_suffix: "snd (leading_spaces u s) = drop (length s - length (snd (leading_spaces u s))) s"
proof (induction u s rule: leading_spaces.induct)
  case (1 u s)
  show ?case
  proof (cases "s \<noteq> [] \<and> unicode_space u (fst (utf8_decode s))")
    case True
    let ?s = "snd (utf8_decode s)"
    obtain k where k: "?s = drop k s" using utf8_decode_suffix [of s] by blast
    have r: "snd (leading_spaces u s) = snd (leading_spaces u ?s)" using True by (subst leading_spaces.simps) (simp add: case_prod_unfold)
    have le: "length (snd (leading_spaces u ?s)) \<le> length ?s" by (rule leading_spaces_length)
    have len: "length ?s = length s - k" by (simp add: k)
    have "drop (length ?s - length (snd (leading_spaces u ?s))) ?s =
        drop (k + (length ?s - length (snd (leading_spaces u ?s)))) s" by (simp add: k add.commute)
    moreover have "k + (length ?s - length (snd (leading_spaces u ?s))) = length s - length (snd (leading_spaces u ?s)) \<or> length s \<le> k"
      using le len by linarith
    ultimately show ?thesis using 1 [OF True] unfolding r using k by auto
  next
    case False
    then show ?thesis by (subst (1 2) leading_spaces.simps) auto
  qed
qed

lemma spaces_of_rest: "spaces_of u s @ snd (leading_spaces u s) = s"
  unfolding spaces_of_def by (subst (2) leading_spaces_suffix) simp

lemma leading_spaces_again: "snd (leading_spaces u (snd (leading_spaces u s))) = snd (leading_spaces u s)"
proof (induction u s rule: leading_spaces.induct)
  case (1 u s)
  show ?case
  proof (cases "s \<noteq> [] \<and> unicode_space u (fst (utf8_decode s))")
    case True
    then have "snd (leading_spaces u s) = snd (leading_spaces u (snd (utf8_decode s)))"
      by (subst leading_spaces.simps) (simp add: case_prod_unfold)
    then show ?thesis using 1 [OF True] by simp
  next
    case False
    then have "leading_spaces u s = (0, s)" by (subst leading_spaces.simps) auto
    then show ?thesis by simp
  qed
qed

lemma surface_clear: "surface_text clear_sentence = []"
  by (simp add: surface_text_def sentence_tokens_def clear_sentence_def surface_tokens_end)

lemma tw_sentence_text:
  assumes opts: "options_ok opts" and fs: "pieces (tz_tables opts) (tw_text w) p fs" "fs \<noteq> []" "p \<le> length (tw_text w)"
    and pos: "tw_pos w = fst (hd fs)" and s: "tw_sentence opts fs ranges w = (s, w')"
  shows "(length (s_words s) < 2 ^ 63 \<longrightarrow> pending w = surface_text s @ pending w') \<and> tw_saved_spaces w' = [] \<and> tw_text w' = tw_text w \<and>
    tw_tokenizer w' = tw_tokenizer w \<and> tw_pos w' \<le> length (tw_text w) \<and> pieces_end p fs \<le> tw_pos w' \<and>
    snd (leading_spaces (tz_tables opts) (drop (pieces_end p fs) (tw_text w))) = drop (tw_pos w') (tw_text w)"
proof -
  let ?u = "tz_tables opts" and ?t = "tw_text w" and ?e = "pieces_end p fs"
  let ?trailing = "spaces_of ?u (drop ?e ?t)" and ?before = "tw_saved_spaces w"
  let ?p = "add_pieces opts ?t (tw_unicode_offset w) ?trailing ranges ?before fs (tw_token w) clear_sentence"
  have e: "fst (last fs) + snd (last fs) = ?e" using fs(2) by (simp add: pieces_end_def)
  have before: "tw_saved_spaces w @ between ?t (tw_pos w) (fst (hd fs)) = ?before" by (simp add: between_def pos)
  have surface: "surface_text s = surface_text (snd ?p)" and words: "s_words s = s_words (snd ?p)"
    and w': "w' = w\<lparr>tw_token := tw_token w', tw_new_document := tw_new_document w', tw_newlines := tw_newlines w',
      tw_sentence_id := tw_sentence_id w', tw_pos := ?e + length ?trailing, tw_saved_spaces := []\<rparr>"
    using s unfolding tw_sentence_def Let_def before e by (auto simp: case_prod_unfold)
  have "surface_text (snd ?p) = surface_text clear_sentence @ ?before @ between ?t (fst (hd fs)) ?e @ ?trailing"
    if "length (s_words s) < 2 ^ 63"
    using that unfolding words
    by (rule add_pieces_text [OF opts fs(1,2), rotated]) (simp add: mwts_inside_def clear_sentence_def mwts_end_def)
  then have shown: "surface_text s = ?before @ between ?t (fst (hd fs)) ?e @ ?trailing" if "length (s_words s) < 2 ^ 63"
    using that surface_clear by (simp add: surface)
  have le: "?e \<le> length ?t" "fst (hd fs) \<le> ?e"
    using pieces_end_le [OF fs(1,3)] fs(1,2) pieces_end_le [of ?u ?t "fst (hd fs) + snd (hd fs)" "tl fs"]
    by (cases fs; auto simp: pieces_end_def split: if_splits)+
  have split: "?trailing @ snd (leading_spaces ?u (drop ?e ?t)) = drop ?e ?t" by (rule spaces_of_rest)
  have rest: "snd (leading_spaces ?u (drop ?e ?t)) = drop (?e + length ?trailing) ?t"
    using arg_cong [OF split, of "drop (length ?trailing)"] by (simp add: add.commute)
  have "length ?trailing \<le> length ?t - ?e" using arg_cong [OF split, of length] by simp
  then have bound: "?e + length ?trailing \<le> length ?t" using le(1) by simp
  have "drop (fst (hd fs)) ?t = between ?t (fst (hd fs)) ?e @ drop ?e ?t"
    using append_take_drop_id [of "?e - fst (hd fs)" "drop (fst (hd fs)) ?t"] le(2) by (simp add: between_def)
  then have "pending w = surface_text s @ drop (?e + length ?trailing) ?t" if "length (s_words s) < 2 ^ 63"
    using split unfolding pending_def pos shown [OF that] rest by simp
  moreover have "tw_pos w' = ?e + length ?trailing" "tw_saved_spaces w' = []" "tw_text w' = ?t" "tw_tokenizer w' = tw_tokenizer w"
    by (subst w', simp)+
  ultimately show ?thesis using rest bound by (simp add: pending_def)
qed

section \<open>The contract of a tokenizer\<close>

text \<open>
  What the wrapper relies on: a tokenizer that is somewhere in a text returns, with clean pieces
  that only spaces precede, or with the answer that only spaces are left.
\<close>

locale piece_tokenizer =
  fixes put :: "string \<Rightarrow> 't \<Rightarrow> 't"
    and step :: "'t \<Rightarrow> (((nat \<times> nat) list \<times> (nat \<times> nat) list) option \<times> 't) option"
    and u :: unicode_tables
    and at :: "'t \<Rightarrow> string \<Rightarrow> nat \<Rightarrow> bool"
  assumes put_at: "at tok s p \<Longrightarrow> at (put t tok) t 0"
    and step_at: "at tok t p \<Longrightarrow> p \<le> length t \<Longrightarrow>
      (\<exists>fs ranges tok'. step tok = Some (Some (fs, ranges), tok') \<and> fs \<noteq> [] \<and> pieces u t p fs \<and> at tok' t (pieces_end p fs)) \<or>
      (\<exists>tok'. step tok = Some (None, tok') \<and> snd (leading_spaces u (drop p t)) = [])"
begin

text \<open>The tokenizer is at the position of the wrapper but for spaces.\<close>

definition in_text :: "'t tokenizer_wrapper \<Rightarrow> bool" where
  "in_text w \<longleftrightarrow> tw_pos w \<le> length (tw_text w) \<and>
     (\<exists>p \<le> tw_pos w. at (tw_tokenizer w) (tw_text w) p \<and> snd (leading_spaces u (drop p (tw_text w))) = drop (tw_pos w) (tw_text w))"

lemma set_text_in:
  assumes "at (tw_tokenizer w) s p"
  shows "in_text (tw_set_text put u t w)" "pending (tw_set_text put u t w) = tw_saved_spaces w @ t"
proof -
  obtain n rest where l: "leading_spaces u t = (n, rest)" by (cases "leading_spaces u t")
  show "in_text (tw_set_text put u t w)" using put_at [OF assms] leading_spaces_again [of u t] by (simp add: in_text_def tw_set_text_def l)
  show "pending (tw_set_text put u t w) = tw_saved_spaces w @ t"
    using spaces_of_rest [of u t] by (simp add: pending_def tw_set_text_def l)
qed

lemma next_sentence_text:
  assumes opts: "options_ok opts" "tz_tables opts = u" and w: "in_text w"
  shows "(\<exists>s w'. tw_next_sentence step opts w = Some (Inr (Some s), w') \<and> in_text w' \<and> tw_text w' = tw_text w \<and>
      tw_pos w < tw_pos w' \<and> tw_saved_spaces w' = [] \<and> (length (s_words s) < 2 ^ 63 \<longrightarrow> pending w = surface_text s @ pending w')) \<or>
    (\<exists>w'. tw_next_sentence step opts w = Some (Inr None, w') \<and> pending w = tw_saved_spaces w)"
proof -
  let ?t = "tw_text w"
  obtain p where p: "p \<le> tw_pos w" "tw_pos w \<le> length ?t" "at (tw_tokenizer w) ?t p" "snd (leading_spaces u (drop p ?t)) = drop (tw_pos w) ?t"
    using w by (auto simp: in_text_def)
  from step_at [OF p(3) order.trans [OF p(1,2)]] show ?thesis
  proof (elim disjE exE conjE)
    fix fs ranges tok
    assume r: "step (tw_tokenizer w) = Some (Some (fs, ranges), tok)" "fs \<noteq> []" "pieces u ?t p fs" "at tok ?t (pieces_end p fs)"
    let ?w = "w\<lparr>tw_tokenizer := tok\<rparr>"
    obtain a n gs where fs: "fs = (a, n) # gs" using r(2) by (cases fs) auto
    have a: "drop a ?t = drop (tw_pos w) ?t" "a + n \<le> length ?t" "piece_clean (take n (drop a ?t))" "pieces u ?t (a + n) gs"
      using r(3) p(4) by (simp_all add: fs)
    have "a = tw_pos w" using arg_cong [OF a(1), of length] a(2) p(2) by simp
    have "0 < n" using a(3) by (cases n) (simp_all add: piece_clean_def)
    obtain s w' where s: "tw_sentence opts fs ranges ?w = (s, w')" by (cases "tw_sentence opts fs ranges ?w")
    have next_eq: "tw_next_sentence step opts w = Some (Inr (Some s), w')"
      using r(1,2) trim_pieces_clean [OF r(3)] s by (subst tw_next_sentence.simps) (simp add: Let_def)
    have res: "(length (s_words s) < 2 ^ 63 \<longrightarrow> pending ?w = surface_text s @ pending w') \<and> tw_saved_spaces w' = [] \<and>
      tw_text w' = tw_text ?w \<and> tw_tokenizer w' = tw_tokenizer ?w \<and> tw_pos w' \<le> length (tw_text ?w) \<and> pieces_end p fs \<le> tw_pos w' \<and>
      snd (leading_spaces (tz_tables opts) (drop (pieces_end p fs) (tw_text ?w))) = drop (tw_pos w') (tw_text ?w)"
      using opts(2) r(2,3) p(1,2) \<open>a = tw_pos w\<close> by (intro tw_sentence_text [OF opts(1) _ _ _ _ s]) (simp_all add: fs)
    have "a + n \<le> pieces_end p fs" using pieces_end_le [OF a(4,2)] by (auto simp: fs pieces_end_def split: if_splits)
    then have "tw_pos w < tw_pos w'" using res \<open>0 < n\<close> \<open>a = tw_pos w\<close> by simp
    moreover have "in_text w'" unfolding in_text_def
      using res opts(2) r(4) by (intro conjI exI [of _ "pieces_end p fs"]) auto
    ultimately show ?thesis using next_eq res by (auto simp: pending_def)
  next
    fix tok
    assume r: "step (tw_tokenizer w) = Some (None, tok)" "snd (leading_spaces u (drop p ?t)) = []"
    then have "drop (tw_pos w) ?t = []" using p(4) by simp
    moreover have "tw_next_sentence step opts w =
        Some (Inr None, w\<lparr>tw_tokenizer := tok, tw_saved_spaces := tw_saved_spaces w @ drop (tw_pos w) ?t, tw_pos := length ?t\<rparr>)"
      using r(1) by (subst tw_next_sentence.simps) (simp add: Let_def)
    ultimately show ?thesis unfolding pending_def by auto
  qed
qed

text \<open>All sentences of a text.\<close>

lemma drain_text:
  assumes opts: "options_ok opts" "tz_tables opts = u"
  shows "in_text w \<Longrightarrow> \<exists>ss. drain (tw_next_sentence step opts) w = Some (ss, None) \<and>
    ((\<forall>s \<in> set ss. length (s_words s) < 2 ^ 63) \<longrightarrow> pending w = concat (map surface_text ss) @ (if ss = [] then tw_saved_spaces w else []))"
proof (induction "length (tw_text w) - tw_pos w" arbitrary: w rule: less_induct)
  case less
  from next_sentence_text [OF opts less.prems] show ?case
  proof (elim disjE exE conjE)
    fix s w'
    assume r: "tw_next_sentence step opts w = Some (Inr (Some s), w')" "in_text w'" "tw_text w' = tw_text w" "tw_pos w < tw_pos w'"
      "tw_saved_spaces w' = []" "length (s_words s) < 2 ^ 63 \<longrightarrow> pending w = surface_text s @ pending w'"
    have "tw_pos w' \<le> length (tw_text w)" using r(2,3) by (simp add: in_text_def)
    then have "length (tw_text w') - tw_pos w' < length (tw_text w) - tw_pos w" using r(3,4) by (simp add: diff_less_mono2)
    from less.hyps [OF this r(2)] obtain ss where ss: "drain (tw_next_sentence step opts) w' = Some (ss, None)"
      "(\<forall>s \<in> set ss. length (s_words s) < 2 ^ 63) \<longrightarrow> pending w' = concat (map surface_text ss) @ (if ss = [] then tw_saved_spaces w' else [])"
      by blast
    have "drain (tw_next_sentence step opts) w = Some (s # ss, None)" using r(1) ss(1) by (subst drain.simps) simp
    then show ?thesis using r(5,6) ss(2) by (intro exI [of _ "s # ss"]) auto
  next
    fix w'
    assume r: "tw_next_sentence step opts w = Some (Inr None, w')" "pending w = tw_saved_spaces w"
    then show ?thesis by (intro exI [of _ "[]"]) (subst drain.simps, simp)
  qed
qed

end

section \<open>The GRU tokenizer keeps the contract\<close>

text \<open>The bytes of the characters: where each begins, and what is decoded there.\<close>

definition byte_at :: "(nat \<times> nat) list \<Rightarrow> nat \<Rightarrow> nat \<Rightarrow> nat" where
  "byte_at chars bytes i = (if i < length chars then snd (chars ! i) else bytes)"

lemma read_chars_bytes:
  "i < length (read_chars q s) \<Longrightarrow>
    q \<le> byte_at (read_chars q s) (q + length s) i \<and>
    byte_at (read_chars q s) (q + length s) i < byte_at (read_chars q s) (q + length s) (i + 1) \<and>
    byte_at (read_chars q s) (q + length s) (i + 1) \<le> q + length s \<and>
    utf8_decode (drop (byte_at (read_chars q s) (q + length s) i - q) s) =
      (fst (read_chars q s ! i), drop (byte_at (read_chars q s) (q + length s) (i + 1) - q) s)"
proof (induction q s arbitrary: i rule: read_chars.induct)
  case (1 q s)
  have ne: "s \<noteq> []" using "1.prems" by (auto simp: read_chars.simps)
  obtain chr s' where d: "utf8_decode s = (chr, s')" by (cases "utf8_decode s")
  obtain k where k: "s' = drop k s" using utf8_decode_suffix [of s] d by auto
  have less: "length s' < length s" using utf8_decode_length [OF ne] d by simp
  define l where "l = length s - length s'"
  have "s' = drop l s" unfolding l_def k by (cases "k \<le> length s") auto
  then have k': "s' = drop l s" "0 < l" "l \<le> length s" "q + l + length s' = q + length s" using less by (auto simp: l_def)
  have chars: "read_chars q s = (chr, q) # read_chars (q + l) s'" unfolding l_def using ne d by (subst read_chars.simps) simp
  show ?case
  proof (cases i)
    case 0
    have "byte_at (read_chars q s) (q + length s) 1 = q + l"
    proof (cases "s' = []")
      case True
      then show ?thesis using chars k'(4) by (simp add: byte_at_def read_chars.simps)
    next
      case False
      then have "read_chars (q + l) s' \<noteq> [] \<and> snd (read_chars (q + l) s' ! 0) = q + l"
        by (subst (1 2) read_chars.simps) (simp add: case_prod_unfold)
      then show ?thesis using chars by (simp add: byte_at_def)
    qed
    moreover have "byte_at (read_chars q s) (q + length s) 0 = q" using chars by (simp add: byte_at_def)
    ultimately show ?thesis using 0 d k' chars by simp
  next
    case (Suc j)
    have j: "j < length (read_chars (q + l) s')" using "1.prems" Suc chars by simp
    have b: "byte_at (read_chars q s) (q + length s) (Suc x) = byte_at (read_chars (q + l) s') (q + length s) x" for x
      using chars by (simp add: byte_at_def)
    note ih = "1.IH" [OF ne d [symmetric], folded l_def, OF j, unfolded k'(4)]
    have "drop (x - (q + l)) s' = drop (x - q) s" if "q + l \<le> x" for x
      using that by (subst k'(1)) (simp add: add.commute)
    then show ?thesis using ih b [of j] b [of "Suc j"] chars Suc by auto
  qed
qed

text \<open>A text and its characters.\<close>

abbreviation text_byte :: "string \<Rightarrow> nat \<Rightarrow> nat" where
  "text_byte t i \<equiv> byte_at (read_chars 0 t) (length t) i"

lemma text_bytes:
  assumes "i < length (read_chars 0 t)"
  shows "text_byte t i < text_byte t (i + 1)" "text_byte t (i + 1) \<le> length t"
    "utf8_decode (drop (text_byte t i) t) = (chr_at (read_chars 0 t) i, drop (text_byte t (i + 1)) t)"
  using read_chars_bytes [OF assms] by (simp_all add: chr_at_def)

lemma text_byte_end: "length (read_chars 0 t) \<le> i \<Longrightarrow> text_byte t i = length t"
  by (simp add: byte_at_def)

lemma text_byte_0: "text_byte t 0 = 0"
  by (cases "t = []") (auto simp: byte_at_def read_chars.simps [of 0] case_prod_unfold)

lemma text_byte_mono: "i \<le> j \<Longrightarrow> text_byte t i \<le> text_byte t j \<and> text_byte t j \<le> length t"
proof (induction "j - i" arbitrary: i)
  case 0
  then show ?case using text_bytes(1,2) [of i t] text_byte_end [of t i] by (cases "i < length (read_chars 0 t)") auto
next
  case (Suc d)
  then have "text_byte t (i + 1) \<le> text_byte t j \<and> text_byte t j \<le> length t" by (intro Suc.hyps(1)) simp_all
  moreover have "text_byte t i \<le> text_byte t (i + 1)"
    using text_bytes(1) [of i t] by (cases "i < length (read_chars 0 t)") (simp_all add: text_byte_end)
  ultimately show ?case by simp
qed

text \<open>Skipping spaces in bytes is skipping them in characters.\<close>

lemma leading_spaces_chars:
  assumes "\<forall>j. i \<le> j \<and> j < e \<longrightarrow> space_at m (read_chars 0 t) j" "i \<le> e" "e \<le> length (read_chars 0 t)"
    "e = length (read_chars 0 t) \<or> \<not> space_at m (read_chars 0 t) e"
  shows "snd (leading_spaces (gm_tables m) (drop (text_byte t i) t)) = drop (text_byte t e) t"
  using assms
proof (induction "e - i" arbitrary: i)
  case 0
  then have "i = e" by simp
  show ?case
  proof (cases "e = length (read_chars 0 t)")
    case True
    then show ?thesis unfolding \<open>i = e\<close> by (subst leading_spaces.simps) (simp add: text_byte_end)
  next
    case False
    then have "\<not> space_at m (read_chars 0 t) e" "e < length (read_chars 0 t)" using 0 by auto
    then have "\<not> unicode_space (gm_tables m) (fst (utf8_decode (drop (text_byte t e) t)))"
      by (simp add: text_bytes(3) space_at_def)
    then show ?thesis unfolding \<open>i = e\<close> by (subst leading_spaces.simps) simp
  qed
next
  case (Suc d)
  then have i: "i < e" "i < length (read_chars 0 t)" by auto
  have space: "unicode_space (gm_tables m) (fst (utf8_decode (drop (text_byte t i) t)))"
    using Suc.prems(1) i by (simp add: text_bytes(3) space_at_def)
  have "drop (text_byte t i) t \<noteq> []" using text_bytes(1,2) [OF i(2)] by simp
  then have "snd (leading_spaces (gm_tables m) (drop (text_byte t i) t)) =
      snd (leading_spaces (gm_tables m) (drop (text_byte t (i + 1)) t))"
    using space by (subst leading_spaces.simps) (simp add: text_bytes(3) [OF i(2)] case_prod_unfold)
  also have "\<dots> = drop (text_byte t e) t"
    using Suc.hyps(2) Suc.prems i by (intro Suc.hyps(1)) auto
  finally show ?case .
qed

text \<open>The bytes of a character that is no space are no ASCII spaces.\<close>

lemma no_ascii_space:
  assumes "unicode_space (gm_tables m) (byte_of (CHR '' ''))" "i < length (read_chars 0 t)" "\<not> space_at m (read_chars 0 t) i"
    "c \<in> set (between t (text_byte t i) (text_byte t (i + 1)))"
  shows "\<not> ascii_space c"
proof -
  note b = text_bytes [OF assms(2)]
  let ?d = "drop (text_byte t i) t"
  obtain x s where d: "?d = x # s" using b(1,2) by (cases ?d) auto
  obtain k where k: "k \<le> length s" "snd (utf8_decode (x # s)) = drop k s" "\<forall>y \<in> set (take k s). utf8_cont y"
    "byte_of x < 0x80 \<longrightarrow> k = 0 \<and> fst (utf8_decode (x # s)) = byte_of x"
    using utf8_decode_bytes [of s x] by blast
  have "drop k s = drop (text_byte t (i + 1)) t" using b(3) k(2) unfolding d by (metis snd_conv)
  then have "length (drop k s) = length t - text_byte t (i + 1)" by (metis length_drop)
  moreover have "length s + 1 = length t - text_byte t i" using arg_cong [OF d, of length] by simp
  ultimately have "text_byte t (i + 1) - text_byte t i = Suc k" using k(1) b(1,2) by simp
  then have "between t (text_byte t i) (text_byte t (i + 1)) = x # take k s" by (simp add: between_def d)
  then consider "c = x" | "utf8_cont c" using assms(4) k(3) by auto
  then show ?thesis
  proof cases
    case 1
    show ?thesis
    proof
      assume sp: "ascii_space c"
      then have "byte_of x < 0x80" using 1 by (auto simp: ascii_space_def)
      then have "chr_at (read_chars 0 t) i = byte_of x" using k(4) b(3) d by simp
      then show False using assms(1,3) sp 1 by (auto simp: space_at_def ascii_space_def unicode_space_def)
    qed
  next
    case 2
    then show ?thesis by (auto simp: utf8_cont_def ascii_space_def)
  qed
qed

lemma no_ascii_spaces:
  assumes "unicode_space (gm_tables m) (byte_of (CHR '' ''))" "i \<le> e" "e \<le> length (read_chars 0 t)"
    "\<forall>j. i \<le> j \<and> j < e \<longrightarrow> \<not> space_at m (read_chars 0 t) j"
  shows "\<forall>c \<in> set (between t (text_byte t i) (text_byte t e)). \<not> ascii_space c"
  using assms(2-4)
proof (induction "e - i" arbitrary: i)
  case 0
  then show ?case by (simp add: between_def)
next
  case (Suc d)
  then have i: "i < e" "i < length (read_chars 0 t)" by auto
  have "text_byte t i \<le> text_byte t (i + 1)" "text_byte t (i + 1) \<le> text_byte t e" using text_byte_mono [of i "i + 1" t] text_byte_mono [of "i + 1" e t] i by auto
  then have "between t (text_byte t i) (text_byte t e) =
      between t (text_byte t i) (text_byte t (i + 1)) @ between t (text_byte t (i + 1)) (text_byte t e)"
    by (simp add: between_join)
  moreover have "\<forall>c \<in> set (between t (text_byte t (i + 1)) (text_byte t e)). \<not> ascii_space c"
    using Suc.hyps(2) Suc.prems i by (intro Suc.hyps(1)) auto
  ultimately show ?case using no_ascii_space [OF assms(1) i(2)] Suc.prems(3) i(1) by auto
qed

text \<open>The tokens of a strict model are clean pieces with only spaces in front of them.\<close>

definition gru_form :: "string \<Rightarrow> nat \<times> nat \<Rightarrow> nat \<times> nat" where
  "gru_form t = (\<lambda>(start, len). (text_byte t start, text_byte t (start + len) - text_byte t start))"

lemma covered_pieces:
  assumes "unicode_space (gm_tables m) (byte_of (CHR '' ''))" "strict m"
  shows "covered m (read_chars 0 t) i ts e \<Longrightarrow> e \<le> length (read_chars 0 t) \<Longrightarrow>
    pieces (gm_tables m) t (text_byte t i) (map (gru_form t) ts) \<and> 
    (\<exists>j. j \<le> e \<and> pieces_end (text_byte t i) (map (gru_form t) ts) = text_byte t j \<and>
       (\<forall>l. j \<le> l \<and> l < e \<longrightarrow> space_at m (read_chars 0 t) l) \<and> (ts = [] \<longrightarrow> j = i))"
proof (induction ts arbitrary: i)
  case Nil
  then show ?case by (auto simp: pieces_end_def)
next
  case (Cons tok ts)
  obtain start len where tok: "tok = (start, len)" by (cases tok)
  let ?a = "text_byte t start" and ?b = "text_byte t (start + len)"
  have c: "i \<le> start" "\<forall>j. i \<le> j \<and> j < start \<longrightarrow> space_at m (read_chars 0 t) j" "0 < len" "start + len \<le> length (read_chars 0 t)"
    "\<not> space_at m (read_chars 0 t) start" "\<forall>j. start \<le> j \<and> j < start + len \<longrightarrow> \<not> space_at m (read_chars 0 t) j"
    using Cons.prems assms(2) by (auto simp: tok)
  note mono = text_byte_mono [OF c(1), of t] text_byte_mono [of start "start + len" t]
  have "?a < text_byte t (start + 1)" using text_bytes(1) [of start t] c(3,4) by simp
  also have "\<dots> \<le> ?b" using text_byte_mono [of "start + 1" "start + len" t] c(3) by simp
  finally have less: "?a < ?b" .
  have skip: "snd (leading_spaces (gm_tables m) (drop (text_byte t i) t)) = drop ?a t"
    by (rule leading_spaces_chars) (use c in auto)
  have none: "\<forall>x \<in> set (between t ?a ?b). \<not> ascii_space x"
    by (rule no_ascii_spaces) (use assms(1) c in auto)
  have ne: "between t ?a ?b \<noteq> []" using less mono by (simp add: between_def)
  then have "hd (between t ?a ?b) \<in> set (between t ?a ?b)" "last (between t ?a ?b) \<in> set (between t ?a ?b)" by simp_all
  then have clean: "piece_clean (between t ?a ?b)" using none ne by (auto simp: piece_clean_def ascii_space_def)
  have ih: "pieces (gm_tables m) t ?b (map (gru_form t) ts) \<and>
    (\<exists>j. j \<le> e \<and> pieces_end ?b (map (gru_form t) ts) = text_byte t j \<and>
       (\<forall>l. j \<le> l \<and> l < e \<longrightarrow> space_at m (read_chars 0 t) l) \<and> (ts = [] \<longrightarrow> j = start + len))"
    using Cons by (simp add: tok)
  have "pieces_end (text_byte t i) (map (gru_form t) ((start, len) # ts)) = pieces_end ?b (map (gru_form t) ts)"
    using less by (cases ts) (simp_all add: pieces_end_def gru_form_def)
  then show ?case using ih skip clean mono less by (auto simp: tok gru_form_def between_def)
qed

lemma covered_left:
  "covered m chars i ts e \<Longrightarrow> j \<le> i \<Longrightarrow> \<forall>l. j \<le> l \<and> l < i \<longrightarrow> space_at m chars l \<Longrightarrow> covered m chars j ts e"
  by (cases ts) (auto, (metis linorder_not_le)+)

text \<open>A tokenizer is at a position of its text but for spaces in front of its current character.\<close>

definition gru_at :: "gru_model \<Rightarrow> gru_tokenizer \<Rightarrow> string \<Rightarrow> nat \<Rightarrow> bool" where
  "gru_at m tok t p \<longleftrightarrow> gt_chars tok = read_chars 0 t \<and> gt_bytes tok = length t \<and> gru_ok m tok \<and>
     (\<exists>j \<le> gt_current tok. p = text_byte t j \<and> (\<forall>l. j \<le> l \<and> l < gt_current tok \<longrightarrow> space_at m (read_chars 0 t) l))"

definition strict_model :: "gru_model \<Rightarrow> bool" where
  "strict_model m \<longleftrightarrow> model_ok m \<and> strict m \<and> unicode_space (gm_tables m) (byte_of (CHR '' ''))"

lemma gru_step_at:
  assumes "strict_model m" "gru_at m tok t p"
  shows "(\<exists>fs ranges tok'. gru_next_sentence m tok = Some (Some (fs, ranges), tok') \<and> fs \<noteq> [] \<and>
      pieces (gm_tables m) t p fs \<and> gru_at m tok' t (pieces_end p fs)) \<or>
    (\<exists>tok'. gru_next_sentence m tok = Some (None, tok') \<and> snd (leading_spaces (gm_tables m) (drop p t)) = [])"
proof -
  let ?c = "read_chars 0 t"
  have m: "model_ok m" "strict m" "unicode_space (gm_tables m) (byte_of (CHR '' ''))" using assms(1) by (simp_all add: strict_model_def)
  obtain j where at: "gt_chars tok = ?c" "gt_bytes tok = length t" "gru_ok m tok" "j \<le> gt_current tok" "p = text_byte t j"
    "\<forall>l. j \<le> l \<and> l < gt_current tok \<longrightarrow> space_at m ?c l"
    using assms(2) by (auto simp: gru_at_def)
  obtain ts tok' where n: "gru_next_sentence m tok = Some (if ts = [] then None else Some (map (token_form tok) ts, ts), tok')"
    "gru_ok m tok'" "same_text tok tok'" "covered m ?c (gt_current tok) ts (gt_current tok')"
    "ts = [] \<longrightarrow> gt_current tok' \<ge> length ?c"
    using gru_next_ok [OF m(1) at(3)] unfolding at(1) by blast
  have cov: "covered m ?c j ts (gt_current tok')" by (rule covered_left [OF n(4) at(4,6)])
  have chars: "gt_chars tok' = ?c" "gt_bytes tok' = length t" using n(3) at(1,2) by (simp_all add: same_text_def)
  have bound: "gt_current tok' \<le> length ?c" using n(2) chars by (auto simp: gru_ok_def state_ok_def)
  have form: "token_form tok = gru_form t" using at(1,2) by (simp add: fun_eq_iff token_form_def gru_form_def str_at_def byte_at_def)
  show ?thesis
  proof (cases "ts = []")
    case True
    then have "gt_current tok' = length ?c" using n(5) bound by simp
    then have "\<forall>l. j \<le> l \<and> l < length ?c \<longrightarrow> space_at m ?c l" "j \<le> length ?c" using cov True by auto
    then have "snd (leading_spaces (gm_tables m) (drop p t)) = drop (text_byte t (length ?c)) t"
      unfolding at(5) by (intro leading_spaces_chars) auto
    then show ?thesis using n(1) True by (simp add: text_byte_end)
  next
    case False
    obtain l where l: "pieces (gm_tables m) t p (map (gru_form t) ts)" "l \<le> gt_current tok'"
      "pieces_end p (map (gru_form t) ts) = text_byte t l" "\<forall>k. l \<le> k \<and> k < gt_current tok' \<longrightarrow> space_at m ?c k"
      using covered_pieces [OF m(3,2) cov bound] unfolding at(5) by blast
    then have "gru_at m tok' t (pieces_end p (map (gru_form t) ts))" using n(2) chars by (auto simp: gru_at_def)
    then show ?thesis using n(1) False l(1) form by auto
  qed
qed

lemma gru_set_text_at: "gru_at m (gru_set_text t tok) t 0"
  by (auto simp: gru_at_def gru_set_text_def gru_ok_def text_byte_0)

text \<open>The contract of the wrapper, for the models that keep it.\<close>

definition strict_at :: "gru_model \<Rightarrow> gru_tokenizer \<Rightarrow> string \<Rightarrow> nat \<Rightarrow> bool" where
  "strict_at m tok t p \<longleftrightarrow> strict_model m \<and> gru_at m tok t p"

interpretation gru: piece_tokenizer gru_set_text "gru_next_sentence m" "gm_tables m" "strict_at m" for m
proof
  show "strict_at m (gru_set_text t tok) t 0" if "strict_at m tok s p" for tok s p t
    using that gru_set_text_at by (simp add: strict_at_def)
  show "(\<exists>fs ranges tok'. gru_next_sentence m tok = Some (Some (fs, ranges), tok') \<and> fs \<noteq> [] \<and>
      pieces (gm_tables m) t p fs \<and> strict_at m tok' t (pieces_end p fs)) \<or>
    (\<exists>tok'. gru_next_sentence m tok = Some (None, tok') \<and> snd (leading_spaces (gm_tables m) (drop p t)) = [])"
    if "strict_at m tok t p" "p \<le> length t" for tok t p
    using gru_step_at [of m tok t p] that by (auto simp: strict_at_def)
qed

section \<open>Tokenizing keeps the text\<close>

definition gru_options :: "gru_model \<Rightarrow> multiword_splitter option \<Rightarrow> bool \<Rightarrow> tokenizer_options" where
  "gru_options m splitter ranges = \<lparr>tz_tables = gm_tables m, tz_splitter = splitter, tz_normalized_spaces = False, tz_token_ranges = ranges\<rparr>"

lemma fresh_gru_at: "gru_at m fresh_gru [] 0"
  by (auto simp: gru_at_def fresh_gru_def gru_ok_def read_chars.simps byte_at_def)

text \<open>
  Tokenizing loses nothing. With a model without spaces in tokens and with any loaded splitter
  of multiword tokens, the loop over the sentences of a text ends without an error, and the plain
  texts of its sentences one after another are the text; there is no sentence only when the text
  has nothing but spaces.
\<close>

lemma tokenizer_keeps_text:
  assumes "strict_model m" "splitter = None \<or> (\<exists>decompress bytes sp left. splitter = Some sp \<and> load_splitter decompress bytes = Some (sp, left))"
  shows "\<exists>ss. drain (tw_next_sentence (gru_next_sentence m) (gru_options m splitter ranges))
      (tw_set_text gru_set_text (gm_tables m) t (new_tokenizer_wrapper fresh_gru)) = Some (ss, None) \<and>
    ((\<forall>s \<in> set ss. length (s_words s) < 2 ^ 63) \<longrightarrow>
       (ss \<noteq> [] \<longrightarrow> concat (map (write_plaintext False start) ss) = t) \<and> (ss = [] \<longrightarrow> snd (leading_spaces (gm_tables m) t) = []))"
proof -
  let ?w = "tw_set_text gru_set_text (gm_tables m) t (new_tokenizer_wrapper fresh_gru)" and ?o = "gru_options m splitter ranges"
  have opts: "options_ok ?o" "tz_tables ?o = gm_tables m"
    using assms load_splitter_ok by (auto simp: options_ok_def gru_options_def strict_model_def)
  have "strict_at m (tw_tokenizer (new_tokenizer_wrapper fresh_gru)) [] 0"
    using assms(1) fresh_gru_at by (simp add: strict_at_def new_tokenizer_wrapper_def)
  note start = gru.set_text_in [OF this, of t]
  obtain ss where ss: "drain (tw_next_sentence (gru_next_sentence m) ?o) ?w = Some (ss, None)"
    "(\<forall>s \<in> set ss. length (s_words s) < 2 ^ 63) \<longrightarrow> pending ?w = concat (map surface_text ss) @ (if ss = [] then tw_saved_spaces ?w else [])"
    using gru.drain_text [OF opts start(1)] by blast
  have "pending ?w = t" using start(2) by (simp add: new_tokenizer_wrapper_def)
  moreover have "tw_saved_spaces ?w = spaces_of (gm_tables m) t"
    by (simp add: tw_set_text_def new_tokenizer_wrapper_def case_prod_unfold)
  moreover have "write_plaintext False start = surface_text" by (simp add: fun_eq_iff write_plaintext_surface)
  ultimately show ?thesis using ss spaces_of_rest [of "gm_tables m" t] by (intro exI [of _ ss]) auto
qed

text \<open>Tables in which the space is a separator, and letters have no other case.\<close>

definition space_tables :: unicode_tables where
  "space_tables = \<lparr>category_table = (\<lambda>chr. if chr = 32 then 23 else 5), othercase_table = (\<lambda>_. 0)\<rparr>"

lemma dot_model_strict: "strict_model (dot_model space_tables)"
  by (simp add: strict_model_def model_ok_def strict_def dot_model_def unicode_space_def has_category_def unicode_category_def
      space_tables_def unicode_chars_def cat_Zs_def unicode_bit_def)

lemma tokenizer_keeps_text_witness:
  "\<exists>ss. drain (tw_next_sentence (gru_next_sentence (dot_model space_tables)) (gru_options (dot_model space_tables) (Some sample_splitter) True))
      (tw_set_text gru_set_text space_tables ''adu  b.'' (new_tokenizer_wrapper fresh_gru)) = Some (ss, None) \<and>
    ((\<forall>s \<in> set ss. length (s_words s) < 2 ^ 63) \<longrightarrow> ss \<noteq> [] \<longrightarrow> concat (map (write_plaintext False True) ss) = ''adu  b.'')"
proof -
  have "gm_tables (dot_model space_tables) = space_tables" by (simp add: dot_model_def)
  then show ?thesis
    using tokenizer_keeps_text [OF dot_model_strict, of "Some sample_splitter" True "''adu  b.''" True] load_sample by auto
qed

end
