(* ===== verification/Udpipe_Model.thy ===== *)
theory Udpipe_Model
  imports Beam_Search Joint_Tokenizer Word_Analysis Tokenizer
begin

text \<open>
  Tagging and parsing with a model: \<open>tag\<close> and \<open>parse\<close> of \<open>src/model/model_morphodita_parsito.cpp\<close>.
  A model has a version, taggers and a parser, which may be missing. Tagging writes the analyses of the taggers into the words, parsing builds the tree of
  the parser, has it parsed and copies the heads back.

  The taggers of MorphoDiTa are parameters: a tagger maps the normalized forms of a sentence to
  their analyses. So is the network of the parser. An outer
  \<open>None\<close> is a run that does not end or leaves what C++ defines; \<open>Inl\<close> is the error the code reports.
\<close>

section \<open>Model\<close>

text \<open>A tagger that is missing is a null pointer; the guesser is there when the tagger has a morphology.\<close>

record tagger_model =
  tm_raw :: bool
  tm_upostag :: bool
  tm_lemma :: int
  tm_xpostag :: bool
  tm_feats :: bool
  tm_tagger :: "(string list \<Rightarrow> tagged_lemma list) option"
  tm_guessed :: "(string \<Rightarrow> bool) option"

record ('o, 'c) morphodita_parsito =
  mp_version :: nat
  mp_taggers :: "tagger_model list"
  mp_parser :: "parser_nn option"
  mp_tables :: unicode_tables
  mp_network :: "int list option list \<Rightarrow> 'o list"
  mp_next_cost :: "'c \<Rightarrow> nat \<Rightarrow> 'o \<Rightarrow> 'c"
  mp_zero :: 'c

subsection \<open>Tagging\<close>

definition no_tagger_error :: string where
  "no_tagger_error = ''No tagger defined for the UDPipe model!''"

definition clear_analysis :: "word_data \<Rightarrow> word_data" where
  "clear_analysis w = w\<lparr>w_lemma := ''_'', w_upostag := [], w_xpostag := [], w_feats := []\<rparr>"

definition fill_word :: "nat \<Rightarrow> tagger_model \<Rightarrow> tagged_lemma \<Rightarrow> word_data \<Rightarrow> word_data" where
  "fill_word version tm analysis w =
     fill_word_analysis version analysis (tm_raw tm) (tm_upostag tm) (tm_lemma tm) (tm_xpostag tm) (tm_feats tm) w"

text \<open>Fewer analyses than words leave the last words alone, more of them are written behind the sentence.\<close>

definition fill_words :: "nat \<Rightarrow> tagger_model \<Rightarrow> tagged_lemma list \<Rightarrow> word_data list \<Rightarrow> word_data list option" where
  "fill_words version tm analyses ws =
     (if length analyses > length ws then None
      else Some (map2 (fill_word version tm) analyses ws @ drop (length analyses) ws))"

fun apply_taggers :: "nat \<Rightarrow> string list \<Rightarrow> tagger_model list \<Rightarrow> word_data list \<Rightarrow> word_data list result option" where
  "apply_taggers version fms [] ws = Some (Inr ws)"
| "apply_taggers version fms (tm # tms) ws =
     (case tm_tagger tm of None \<Rightarrow> Some (Inl no_tagger_error)
      | Some tagger \<Rightarrow>
        Option.bind (fill_words version tm (tagger fms) ws) (apply_taggers version fms tms))"

definition mark_guessed :: "(string \<Rightarrow> bool) \<Rightarrow> string \<Rightarrow> word_data \<Rightarrow> word_data" where
  "mark_guessed guessed form w =
     (if guessed form then w\<lparr>tk_misc := tk_misc w @ (if tk_misc w = [] then [] else ''|'') @ ''MorphoGuesser=Yes''\<rparr> else w)"

definition mark_words :: "tagger_model list \<Rightarrow> string list \<Rightarrow> word_data list \<Rightarrow> word_data list" where
  "mark_words taggers fms ws =
     (case taggers of
        [tm] \<Rightarrow> (case tm_guessed tm of Some guessed \<Rightarrow> if tm_raw tm then map2 (mark_guessed guessed) fms ws else ws | None \<Rightarrow> ws)
      | _ \<Rightarrow> ws)"

definition tag_sentence :: "('o, 'c) morphodita_parsito \<Rightarrow> sentence \<Rightarrow> sentence result option" where
  "tag_sentence m s =
     (if mp_taggers m = [] then Some (Inl no_tagger_error)
      else if sentence_empty s then Some (Inr s)
      else
        let ws = tl (s_words s);
            fms = map (\<lambda>w. normalize_form (mp_version m) (tk_form w)) ws
        in map_option (map_sum id (\<lambda>ws. s\<lparr>s_words := hd (s_words s) # mark_words (mp_taggers m) fms ws\<rparr>))
             (apply_taggers (mp_version m) fms (mp_taggers m) (map clear_analysis ws)))"

subsection \<open>Parsing\<close>

definition no_parser_error :: string where
  "no_parser_error = ''No parser defined for the UDPipe model!''"

definition parser_node :: "nat \<Rightarrow> word_data \<Rightarrow> tree_node \<Rightarrow> tree_node" where
  "parser_node version w n =
     n\<lparr>n_form := normalize_form version (tk_form w), n_lemma := normalize_lemma version (w_lemma w),
       n_upostag := w_upostag w, n_xpostag := w_xpostag w, n_feats := w_feats w, n_deps := w_deps w, n_misc := tk_misc w\<rparr>"

definition add_parser_node :: "nat \<Rightarrow> word_data \<Rightarrow> tree \<Rightarrow> tree" where
  "add_parser_node version w t = upd (int (length t)) (parser_node version w) (add_node [] t)"

definition parser_tree :: "nat \<Rightarrow> sentence \<Rightarrow> tree" where
  "parser_tree version s = fold (add_parser_node version) (tl (s_words s)) tree_clear"

text \<open>The links of the tree go to the words, one after another.\<close>

definition link_step :: "tree \<Rightarrow> nat \<Rightarrow> word_data list \<Rightarrow> word_data list" where
  "link_step t i = set_head (int i) (n_head (t ! i)) (n_deprel (t ! i))"

definition copy_links :: "tree \<Rightarrow> word_data list \<Rightarrow> word_data list" where
  "copy_links t ws = fold (link_step t) [1..<length ws] ws"

text \<open>The beam is an \<open>int\<close> that the parser takes as \<open>unsigned\<close>.\<close>

definition beam_option :: "values_map \<Rightarrow> int result" where
  "beam_option opts = (case opts ''beam_search'' of None \<Rightarrow> Inr 5 | Some v \<Rightarrow> parse_int v ''beam_search'')"

definition parse_sentence ::
  "files \<Rightarrow> ('o :: linorder, 'c :: linorder) morphodita_parsito \<Rightarrow> string \<Rightarrow> sentence \<Rightarrow> sentence result option" where
  "parse_sentence files m options s =
     (case mp_parser m of None \<Rightarrow> Some (Inl no_parser_error)
      | Some p \<Rightarrow>
        if sentence_empty s then Some (Inr s)
        else Option.bind (nv_parse files options) (\<lambda>opts.
          (case opts of Inl e \<Rightarrow> Some (Inl e)
           | Inr opts \<Rightarrow>
          (case beam_option opts of Inl e \<Rightarrow> Some (Inl e)
           | Inr beam \<Rightarrow>
             map_option (\<lambda>t. Inr (s\<lparr>s_words := copy_links t (s_words s)\<rparr>))
               (parse (mp_tables m) p (mp_network m) (mp_next_cost m) (mp_zero m) (to_unsigned beam)
                 (parser_tree (mp_version m) s))))))"

section \<open>Parsing gives a tree\<close>

text \<open>A word without its links.\<close>

definition bare_word :: "word_data \<Rightarrow> word_data" where
  "bare_word w = w\<lparr>w_head := -1, w_deprel := [], w_children := []\<rparr>"

lemma bare_set_head: "map bare_word (set_head i h d ws) = map bare_word ws"
  by (simp add: set_head_def Let_def map_upd_same bare_word_def)

lemma length_set_head [simp]: "length (set_head i h d ws) = length ws"
  by (simp add: set_head_def Let_def)

lemma head_set_head:
  assumes "wf_words ws" "i \<in> ids ws" "-1 \<le> h" "h < int (length ws)" "j \<in> ids ws"
  shows "w_head (set_head i h d ws ! nat j) = (if j = i then h else w_head (ws ! nat j))"
  using words.head_sh [of ws i h j d] assms by (simp add: wf_words_def word_link_def)

lemma deprel_set_head:
  assumes "wf_words ws" "i \<in> ids ws" "-1 \<le> h" "h < int (length ws)" "j \<in> ids ws"
  shows "w_deprel (set_head i h d ws ! nat j) = (if j = i then d else w_deprel (ws ! nat j))"
proof -
  have old: "0 \<le> w_head (ws ! nat i) \<Longrightarrow> w_head (ws ! nat i) \<in> ids ws"
    using words.wf_head_ids [of ws i] assms(1,2) by (simp add: wf_words_def word_link_def)
  have "h \<ge> 0 \<Longrightarrow> h \<in> ids ws" using assms(4) by (simp add: ids_def)
  then show ?thesis using assms(2,5) old by (simp add: set_head_def Let_def nth_upd)
qed

lemma link_steps:
  assumes "wf_words ws" "\<And>i. i < length ws \<Longrightarrow> -1 \<le> n_head (t ! i) \<and> n_head (t ! i) < int (length ws)" "k \<le> length ws"
  shows "wf_words (fold (link_step t) [1..<k] ws) \<and> map bare_word (fold (link_step t) [1..<k] ws) = map bare_word ws \<and>
    length (fold (link_step t) [1..<k] ws) = length ws \<and>
    (\<forall>j. 1 \<le> j \<and> j < k \<longrightarrow> w_head (fold (link_step t) [1..<k] ws ! j) = n_head (t ! j) \<and>
      w_deprel (fold (link_step t) [1..<k] ws ! j) = n_deprel (t ! j))"
  using assms(3)
proof (induction k)
  case (Suc k)
  let ?r = "fold (link_step t) [1..<k] ws"
  have IH: "wf_words ?r" "map bare_word ?r = map bare_word ws" "length ?r = length ws"
    "\<And>j. 1 \<le> j \<Longrightarrow> j < k \<Longrightarrow> w_head (?r ! j) = n_head (t ! j) \<and> w_deprel (?r ! j) = n_deprel (t ! j)"
    using Suc by auto
  show ?case
  proof (cases "k = 0")
    case False
    then have fold: "fold (link_step t) [1..<Suc k] ws = link_step t k ?r" by simp
    have k: "int k \<in> ids ?r" "-1 \<le> n_head (t ! k)" "n_head (t ! k) < int (length ?r)"
      using Suc.prems assms(2) [of k] IH(3) by (simp_all add: ids_def)
    have other: "w_head (link_step t k ?r ! j) = n_head (t ! j) \<and> w_deprel (link_step t k ?r ! j) = n_deprel (t ! j)"
      if j: "1 \<le> j" "j < Suc k" for j
    proof -
      have "int j \<in> ids ?r" using j Suc.prems IH(3) by (simp add: ids_def)
      from head_set_head [OF IH(1) k this] deprel_set_head [OF IH(1) k this]
      show ?thesis using IH(4) [of j] j by (auto simp: link_step_def)
    qed
    show ?thesis
      unfolding fold using wf_words_set_head [OF IH(1) k] bare_set_head IH(2,3) other by (simp add: link_step_def)
  qed (use assms(1) in simp)
qed (use assms(1) in simp)

lemma wf_tree_upd:
  assumes "wf_tree t" "\<And>n. n_id (f n) = n_id n" "\<And>n. node_link (f n) = node_link n"
  shows "wf_tree (upd i f t)"
proof -
  have "upd i f t \<noteq> []" using assms(1) by (metis length_0_conv length_upd wf_tree_def)
  then show ?thesis using assms by (simp add: wf_tree_def map_upd_same tree.wf_def)
qed

lemma add_parser_node_wf: "wf_tree t \<Longrightarrow> wf_tree (add_parser_node version w t)"
  unfolding add_parser_node_def
  by (rule wf_tree_upd [OF wf_tree_add_node]) (simp_all add: parser_node_def node_link_def)

lemma parser_tree_wf: "wf_tree (parser_tree version s)"
  unfolding parser_tree_def by (rule fold_invariant [where Q = "\<lambda>_. True"]) (simp_all add: wf_tree_clear add_parser_node_wf)

lemma length_parser_tree: "s_words s \<noteq> [] \<Longrightarrow> length (parser_tree version s) = length (s_words s)"
proof -
  have "length (fold (add_parser_node version) ws t) = length t + length ws" for ws t
    by (induction ws arbitrary: t) (simp_all add: add_parser_node_def add_node_def)
  moreover have "length tree_clear = 1" by (simp add: tree_clear_def add_node_def)
  moreover assume "s_words s \<noteq> []"
  ultimately show ?thesis by (cases "s_words s") (simp_all add: parser_tree_def)
qed

lemma same_head_range:
  assumes "dependency_tree t" "i < length t"
  shows "-1 \<le> n_head (t ! i) \<and> n_head (t ! i) < int (length t)"
  using tree.wf_head [of t "int i"] assms by (simp add: dependency_tree_def wf_tree_def ids_def)

text \<open>The words of a sentence bear the links of a tree.\<close>

definition bears_tree :: "tree \<Rightarrow> word_data list \<Rightarrow> bool" where
  "bears_tree t ws \<longleftrightarrow> length t = length ws \<and>
     (\<forall>i. 1 \<le> i \<and> i < length ws \<longrightarrow> w_head (ws ! i) = n_head (t ! i) \<and> w_deprel (ws ! i) = n_deprel (t ! i))"

lemma copy_links_tree:
  assumes "wf_words ws" "dependency_tree t" "length t = length ws"
  shows "wf_words (copy_links t ws) \<and> map bare_word (copy_links t ws) = map bare_word ws \<and> bears_tree t (copy_links t ws)"
  using link_steps [OF assms(1), of t "length ws"] same_head_range [OF assms(2)] assms(3)
  by (auto simp: copy_links_def bears_tree_def)

definition parsed :: "bool \<Rightarrow> sentence \<Rightarrow> sentence \<Rightarrow> bool" where
  "parsed single_root s s' \<longleftrightarrow> wf_words (s_words s') \<and> map bare_word (s_words s') = map bare_word (s_words s) \<and>
     s' = s\<lparr>s_words := s_words s'\<rparr> \<and> (\<not> sentence_empty s \<longrightarrow>
       (\<exists>t. bears_tree t (s_words s') \<and> dependency_tree t \<and> (single_root \<longrightarrow> single_rooted t)))"

text \<open>Options that the parser takes: they end, and a beam in them is a number.\<close>

definition parser_options_ok :: "files \<Rightarrow> string \<Rightarrow> bool" where
  "parser_options_ok files options \<longleftrightarrow> (\<exists>opts beam. nv_parse files options = Some (Inr opts) \<and> beam_option opts = Inr beam)"

lemma parse_sentence_parsed:
  assumes "mp_parser m = Some p" "parser_ok nm p (mp_network m)" "wf_words (s_words s)" "parser_options_ok files options"
  shows "\<exists>s'. parse_sentence files m options s = Some (Inr s') \<and> parsed (pn_single_root p) s s'"
proof (cases "sentence_empty s")
  case True
  then show ?thesis using assms by (simp add: parse_sentence_def parsed_def)
next
  case False
  obtain opts beam where opts: "nv_parse files options = Some (Inr opts)" "beam_option opts = Inr beam"
    using assms(4) by (auto simp: parser_options_ok_def)
  have ne: "s_words s \<noteq> []" using assms(3) by (simp add: wf_words_def)
  let ?t = "parser_tree (mp_version m) s"
  obtain t where t: "parse (mp_tables m) p (mp_network m) (mp_next_cost m) (mp_zero m) (to_unsigned beam) ?t = Some t"
      "dependency_tree t" "same_words t ?t" "pn_single_root p \<and> length ?t > 1 \<longrightarrow> single_rooted t"
    using parse_tree [OF assms(2) parser_tree_wf] by metis
  have len: "length t = length (s_words s)" "length ?t = length (s_words s)"
    using same_words_length [OF t(3)] length_parser_tree [OF ne] by simp_all
  have "length (s_words s) > 1" using False ne by (cases "s_words s") (auto simp: sentence_empty_def)
  then have "single_rooted t" if "pn_single_root p" using t(4) len that by simp
  moreover have "parse_sentence files m options s = Some (Inr (s\<lparr>s_words := copy_links t (s_words s)\<rparr>))"
    using False assms(1) opts t(1) by (simp add: parse_sentence_def)
  ultimately show ?thesis
    using copy_links_tree [OF assms(3) t(2) len(1)] t(2) by (auto simp: parsed_def)
qed

text \<open>
  C5: With a parser that is well formed, parsing a sentence always returns, whatever the network
  says and whatever the beam is: the words keep everything but their links, the children agree with
  the heads, and the heads are those of a dependency tree, with one word under the root if the
  model asks for that.
\<close>

theorem udpipe_parse_tree:
  assumes "mp_parser m = Some p" "parser_ok nm p (mp_network m)" "wf_words (s_words s)"
    "nv_parse files options = Some (Inr opts)" "beam_option opts = Inr beam"
  shows "\<exists>s'. parse_sentence files m options s = Some (Inr s') \<and> wf_words (s_words s') \<and>
    map bare_word (s_words s') = map bare_word (s_words s) \<and> s' = s\<lparr>s_words := s_words s'\<rparr> \<and>
    (\<not> sentence_empty s \<longrightarrow>
      (\<exists>t. bears_tree t (s_words s') \<and> dependency_tree t \<and> (pn_single_root p \<longrightarrow> single_rooted t)))"
  using parse_sentence_parsed [OF assms(1-3), of files options] assms(4,5) by (auto simp: parser_options_ok_def parsed_def)

definition sample_model :: "(nat, nat) morphodita_parsito" where
  "sample_model = \<lparr>mp_version = 3,
     mp_taggers = [\<lparr>tm_raw = False, tm_upostag = True, tm_lemma = 2, tm_xpostag = True, tm_feats = True,
       tm_tagger = Some (map (\<lambda>form. \<lparr>tl_lemma = form, tl_tag = ''~X''\<rparr>)), tm_guessed = None\<rparr>],
     mp_parser = Some sample_parser, mp_tables = space_tables, mp_network = (\<lambda>_. replicate 6 0),
     mp_next_cost = (\<lambda>c i out. c + out), mp_zero = 0\<rparr>"

lemma no_options: "nv_parse files [] = Some (Inr Map.empty)"
  unfolding nv_parse_def by (subst nv_loop.simps) simp

lemma udpipe_parse_tree_witness:
  "\<forall>files. \<exists>s'. parse_sentence files sample_model [] (clear_sentence\<lparr>s_words := add_word ''a'' (s_words clear_sentence)\<rparr>) = Some (Inr s') \<and>
     (\<exists>t. bears_tree t (s_words s') \<and> single_rooted t)"
proof
  fix files
  let ?s = "clear_sentence\<lparr>s_words := add_word ''a'' (s_words clear_sentence)\<rparr>"
  have "\<not> sentence_empty ?s" by (simp add: sentence_empty_def add_word_def clear_sentence_def)
  then show "\<exists>s'. parse_sentence files sample_model [] ?s = Some (Inr s') \<and> (\<exists>t. bears_tree t (s_words s') \<and> single_rooted t)"
    using udpipe_parse_tree [of sample_model sample_parser "''swap''" ?s files "[]" Map.empty 5] sample_parser_ok
      wf_words_add [OF wf_words_clear, of "''a''"]
    by (auto simp: sample_model_def no_options beam_option_def sample_parser_def)
qed

section \<open>Tagging\<close>

text \<open>A word without its analysis.\<close>

definition untagged :: "word_data \<Rightarrow> word_data" where
  "untagged w = w\<lparr>w_lemma := [], w_upostag := [], w_xpostag := [], w_feats := []\<rparr>"

lemma untagged_ops [simp]:
  "untagged (clear_analysis w) = untagged w" "untagged (fill_word version tm a w) = untagged w"
  by (simp_all add: untagged_def clear_analysis_def fill_word_def fill_word_analysis_def fill_tags_def Let_def)

text \<open>What tagging adds to MISC: a single raw tagger notes there that it has guessed.\<close>

definition guess_note :: "('o, 'c) morphodita_parsito \<Rightarrow> word_data \<Rightarrow> string" where
  "guess_note m w =
     (case mp_taggers m of
        [tm] \<Rightarrow>
          (case tm_guessed tm of
             Some guessed \<Rightarrow>
               if tm_raw tm \<and> guessed (normalize_form (mp_version m) (tk_form w))
               then (if tk_misc w = [] then [] else ''|'') @ ''MorphoGuesser=Yes'' else []
           | None \<Rightarrow> [])
      | _ \<Rightarrow> [])"

definition noted :: "('o, 'c) morphodita_parsito \<Rightarrow> word_data \<Rightarrow> word_data" where
  "noted m w = w\<lparr>tk_misc := tk_misc w @ guess_note m w\<rparr>"

lemma untagged_noted: "untagged (noted m w) = noted m (untagged w)"
  by (simp add: untagged_def noted_def guess_note_def split: list.split option.split)

lemma map2_self: "map2 f (map g ws) ws = map (\<lambda>w. f (g w) w) ws"
  by (induction ws) simp_all

lemma mark_words_noted:
  "mark_words (mp_taggers m) (map (\<lambda>w. normalize_form (mp_version m) (tk_form w)) ws) ws = map (noted m) ws"
  by (auto simp: mark_words_def noted_def guess_note_def mark_guessed_def map2_self intro!: map_idI [symmetric] split: list.split option.split)

lemma map_map2: "(\<And>a w. f (g a w) = f w) \<Longrightarrow> length xs \<le> length ws \<Longrightarrow> map f (map2 g xs ws) = map f (take (length xs) ws)"
  by (induction xs ws rule: list_induct2') auto

lemma fill_words_untagged: "fill_words version tm as ws = Some ws' \<Longrightarrow> map untagged ws' = map untagged ws"
proof -
  assume "fill_words version tm as ws = Some ws'"
  then have "length as \<le> length ws" "ws' = map2 (fill_word version tm) as ws @ drop (length as) ws"
    by (auto simp: fill_words_def split: if_splits)
  moreover have "map untagged (map2 (fill_word version tm) as ws) = map untagged (take (length as) ws)"
    using calculation(1) by (intro map_map2) simp_all
  ultimately show ?thesis by (simp add: map_append [symmetric])
qed

definition taggers_ok :: "tagger_model list \<Rightarrow> bool" where
  "taggers_ok tms \<longleftrightarrow> (\<forall>tm \<in> set tms. \<exists>tagger. tm_tagger tm = Some tagger \<and> (\<forall>fs. length (tagger fs) \<le> length fs))"

lemma apply_taggers_returns:
  assumes "taggers_ok tms" "length fs = length ws"
  shows "\<exists>ws'. apply_taggers version fs tms ws = Some (Inr ws') \<and> map untagged ws' = map untagged ws"
  using assms
proof (induction tms arbitrary: ws)
  case (Cons tm tms)
  obtain tagger where t: "tm_tagger tm = Some tagger" "length (tagger fs) \<le> length fs"
    using Cons.prems(1) by (auto simp: taggers_ok_def)
  then obtain ws1 where ws1: "fill_words version tm (tagger fs) ws = Some ws1" using Cons.prems(2) by (simp add: fill_words_def)
  then have same: "map untagged ws1 = map untagged ws" by (rule fill_words_untagged)
  then have "length ws1 = length ws" using map_eq_imp_length_eq by blast
  then obtain ws' where "apply_taggers version fs tms ws1 = Some (Inr ws')" "map untagged ws' = map untagged ws1"
    using Cons.IH [of ws1] Cons.prems by (auto simp: taggers_ok_def)
  then show ?case using t(1) ws1 same by simp
qed simp

lemma untagged_parts:
  "w_id (untagged w) = w_id w" "word_link (untagged w) = word_link w" "tk_form (untagged w) = tk_form w"
  "w_id (noted m w) = w_id w" "word_link (noted m w) = word_link w"
  by (simp_all add: untagged_def noted_def word_link_def)

lemma untagged_map: "map untagged ws = map untagged vs \<Longrightarrow> (\<And>w. f (untagged w) = f w) \<Longrightarrow> map f ws = map f vs"
  by (metis (mono_tags, lifting) comp_apply list.map_comp map_eq_conv)

lemma tag_sentence_returns:
  assumes "mp_taggers m \<noteq> []" "taggers_ok (mp_taggers m)" "s_words s \<noteq> []"
  shows "\<exists>s'. tag_sentence m s = Some (Inr s') \<and> s' = s\<lparr>s_words := s_words s'\<rparr> \<and> s_words s' \<noteq> [] \<and>
    hd (s_words s') = hd (s_words s) \<and> map untagged (tl (s_words s')) = map (\<lambda>w. untagged (noted m w)) (tl (s_words s))"
proof (cases "sentence_empty s")
  case True
  then have "tl (s_words s) = []" using assms(3) by (cases "s_words s") (auto simp: sentence_empty_def)
  then show ?thesis using True assms by (simp add: tag_sentence_def)
next
  case False
  let ?ws = "tl (s_words s)" and ?norm = "\<lambda>w. normalize_form (mp_version m) (tk_form w)"
  let ?fs = "map ?norm ?ws"
  obtain ws where ws: "apply_taggers (mp_version m) ?fs (mp_taggers m) (map clear_analysis ?ws) = Some (Inr ws)"
      "map untagged ws = map untagged (map clear_analysis ?ws)"
    using apply_taggers_returns [OF assms(2), of ?fs "map clear_analysis ?ws"] by auto
  have same: "map untagged ws = map untagged ?ws" using ws(2) by (simp add: comp_def)
  then have "map ?norm ws = ?fs" by (rule untagged_map) (simp add: untagged_parts)
  then have marked: "mark_words (mp_taggers m) ?fs ws = map (noted m) ws" using mark_words_noted [of m ws] by simp
  have "map untagged (map (noted m) ws) = map (noted m) (map untagged ws)" by (simp add: untagged_noted)
  also have "\<dots> = map (\<lambda>w. untagged (noted m w)) ?ws" unfolding same by (simp add: untagged_noted)
  finally have "map untagged (map (noted m) ws) = map (\<lambda>w. untagged (noted m w)) ?ws" .
  then show ?thesis
    using assms(1,3) False ws(1) marked by (simp add: tag_sentence_def Let_def)
qed

lemma wf_words_same:
  assumes "map w_id ws = map w_id vs" "map word_link ws = map word_link vs" "wf_words vs"
  shows "wf_words ws"
  using assms map_eq_imp_length_eq [OF assms(1)] by (auto simp: wf_words_def words.wf_def)

text \<open>The columns of a gold word, on another word.\<close>

definition copy_analysis :: "word_data \<Rightarrow> word_data \<Rightarrow> word_data" where
  "copy_analysis g w = w\<lparr>w_lemma := w_lemma g, w_upostag := w_upostag g, w_xpostag := w_xpostag g, w_feats := w_feats g\<rparr>"

text \<open>What the trainer shows a tagger of one word: the lemma with its rules and the combined tag.\<close>

definition gold_analysis :: "string set \<Rightarrow> word_data \<Rightarrow> tagged_lemma" where
  "gold_analysis flat w = \<lparr>tl_lemma = combine_lemma 2 flat w, tl_tag = combine_tag True True w\<rparr>"

definition encodable :: "word_data \<Rightarrow> bool" where
  "encodable w \<longleftrightarrow> can_combine_tag w = Inr () \<and> CHR ''~'' \<notin> set (w_lemma w) \<and> \<not> has_nbsp (w_lemma w)"

lemma fill_gold_word:
  assumes "encodable g" "tk_form w = tk_form g" "\<not> tm_raw tm" "tm_upostag tm" "tm_lemma tm = 2" "tm_xpostag tm" "tm_feats tm"
  shows "fill_word version_latest tm (gold_analysis flat g) (clear_analysis w) = copy_analysis g w"
proof -
  have "tk_form (clear_analysis w) = tk_form g" using assms(2) by (simp add: clear_analysis_def)
  from word_analysis_roundtrip [OF _ _ _ this, of flat True True] show ?thesis
    using assms by (simp add: fill_word_def gold_analysis_def encodable_def clear_analysis_def copy_analysis_def)
qed

lemma fill_gold_words:
  assumes "\<not> tm_raw tm" "tm_upostag tm" "tm_lemma tm = 2" "tm_xpostag tm" "tm_feats tm"
  shows "\<forall>g \<in> set gs. encodable g \<Longrightarrow> map tk_form ws = map tk_form gs \<Longrightarrow>
    fill_words version_latest tm (map (gold_analysis flat) gs) (map clear_analysis ws) = Some (map2 copy_analysis gs ws)"
proof (induction gs arbitrary: ws)
  case (Cons g gs)
  then obtain w ws' where ws: "ws = w # ws'" by (cases ws) auto
  have "fill_words version_latest tm (map (gold_analysis flat) gs) (map clear_analysis ws') = Some (map2 copy_analysis gs ws')"
    using Cons ws by simp
  then show ?case
    using fill_gold_word [of g w tm flat] Cons.prems assms by (auto simp: ws fill_words_def split: if_splits)
qed (simp add: fill_words_def)

text \<open>
  C10: Training and tagging fit together. If the tagger of a model answers for a sentence what the
  trainer showed it for the gold words, the tagged sentence has exactly the lemmas, the tags and the
  features of the gold words and everything else as before; the gold words need a free separator
  and lemmas without a tilde or a no-break space.
\<close>

theorem tagger_restores_gold:
  assumes "mp_version m = version_latest" "mp_taggers m = [tm]" "\<not> tm_raw tm" "tm_upostag tm" "tm_lemma tm = 2" "tm_xpostag tm"
    "tm_feats tm" "tm_tagger tm = Some tagger" "map tk_form (tl (s_words s)) = map tk_form gs" "s_words s \<noteq> []"
    "\<forall>g \<in> set gs. encodable g" "tagger (map (\<lambda>g. normalize_form version_latest (tk_form g)) gs) = map (gold_analysis flat) gs"
  shows "tag_sentence m s = Some (Inr (s\<lparr>s_words := hd (s_words s) # map2 copy_analysis gs (tl (s_words s))\<rparr>))"
proof (cases "sentence_empty s")
  case True
  then show ?thesis using assms(2,9) by (cases "s_words s") (auto simp: tag_sentence_def sentence_empty_def)
next
  case False
  let ?ws = "tl (s_words s)"
  have "map (normalize_form version_latest) (map tk_form ?ws) = map (normalize_form version_latest) (map tk_form gs)"
    by (simp only: assms(9))
  then have "map (\<lambda>w. normalize_form version_latest (tk_form w)) ?ws = map (\<lambda>g. normalize_form version_latest (tk_form g)) gs"
    by (simp add: comp_def)
  then show ?thesis
    using False fill_gold_words [OF assms(3-7) assms(11,9), of flat] assms(1-3,8,12)
    by (simp add: tag_sentence_def Let_def mark_words_def split: option.split)
qed

lemma tagger_restores_gold_witness:
  "let g = (mk_word 1 ''Of'')\<lparr>w_lemma := ''o f'', w_upostag := ''A~'', w_xpostag := ''IN'', w_feats := ''C=D''\<rparr>;
       m = sample_model\<lparr>mp_taggers := [(hd (mp_taggers sample_model))\<lparr>tm_tagger := Some (\<lambda>_. [gold_analysis {} g])\<rparr>]\<rparr>;
       s = clear_sentence\<lparr>s_words := add_word ''Of'' (s_words clear_sentence)\<rparr>
   in tag_sentence m s = Some (Inr (clear_sentence\<lparr>s_words := s_words clear_sentence @ [g]\<rparr>))"
proof -
  define g where "g = (mk_word 1 ''Of'')\<lparr>w_lemma := ''o f'', w_upostag := ''A~'', w_xpostag := ''IN'', w_feats := ''C=D''\<rparr>"
  define tm where "tm = (hd (mp_taggers sample_model))\<lparr>tm_tagger := Some (\<lambda>_. [gold_analysis {} g])\<rparr>"
  let ?m = "sample_model\<lparr>mp_taggers := [tm]\<rparr>" and ?s = "clear_sentence\<lparr>s_words := add_word ''Of'' (s_words clear_sentence)\<rparr>"
  have g: "encodable g" by (simp add: encodable_def g_def can_combine_tag_def tag_separators_def mk_word_def)
  have "tag_sentence ?m ?s = Some (Inr (?s\<lparr>s_words := hd (s_words ?s) # map2 copy_analysis [g] (tl (s_words ?s))\<rparr>))"
    by (rule tagger_restores_gold [where tm = tm and tagger = "\<lambda>_. [gold_analysis {} g]" and flat = "{}"])
      (use g in \<open>simp_all add: tm_def sample_model_def version_latest_def add_word_def clear_sentence_def g_def mk_word_def\<close>)
  then show ?thesis
    by (simp add: Let_def tm_def g_def add_word_def clear_sentence_def copy_analysis_def mk_word_def)
qed

section \<open>The pipeline with a model\<close>

text \<open>The model as the pipeline sees it. Runs that the code does not define have no place there.\<close>

definition model_ops ::
  "files \<Rightarrow> 't tokenizer_ops \<Rightarrow> (string \<Rightarrow> 't option) \<Rightarrow> ('o :: linorder, 'c :: linorder) morphodita_parsito \<Rightarrow> 't udpipe_model" where
  "model_ops files ops new_tokenizer m = tokenizer_ops.extend ops
     (udpipe_model.fields new_tokenizer (\<lambda>s options. the (tag_sentence m s)) (\<lambda>s options. the (parse_sentence files m options s)))"

lemma model_ops_simps [simp]:
  "m_tag (model_ops files ops new_tokenizer m) s options = the (tag_sentence m s)"
  "m_parse (model_ops files ops new_tokenizer m) s options = the (parse_sentence files m options s)"
  by (simp_all add: model_ops_def tokenizer_ops.extend_def udpipe_model.fields_def)

text \<open>
  The columns that tagging and parsing leave as they are. MISC may get a note at its end; the others
  are those that the taggers and the parser fill.
\<close>

definition kept :: "('o, 'c) morphodita_parsito \<Rightarrow> word_data \<Rightarrow> word_data \<Rightarrow> bool" where
  "kept m w w' \<longleftrightarrow> w_id w' = w_id w \<and> tk_form w' = tk_form w \<and> w_deps w' = w_deps w \<and> tk_misc w' = tk_misc w @ guess_note m w"

definition analysed :: "('o, 'c) morphodita_parsito \<Rightarrow> bool \<Rightarrow> sentence \<Rightarrow> sentence \<Rightarrow> bool" where
  "analysed m single_root s s' \<longleftrightarrow> wf_words (s_words s') \<and> s' = s\<lparr>s_words := s_words s'\<rparr> \<and>
     bare_word (hd (s_words s')) = bare_word (hd (s_words s)) \<and> list_all2 (kept m) (tl (s_words s)) (tl (s_words s')) \<and>
     (\<not> sentence_empty s \<longrightarrow>
       (\<exists>t. bears_tree t (s_words s') \<and> dependency_tree t \<and> (single_root \<longrightarrow> single_rooted t)))"

lemma kept_parts: "untagged (bare_word w') = untagged (bare_word (noted m w)) \<Longrightarrow> kept m w w'"
proof -
  assume same: "untagged (bare_word w') = untagged (bare_word (noted m w))"
  show ?thesis
    using arg_cong [OF same, of w_id] arg_cong [OF same, of tk_form] arg_cong [OF same, of w_deps] arg_cong [OF same, of tk_misc]
    by (simp add: kept_def untagged_def bare_word_def noted_def)
qed

lemma annotate_analysed:
  assumes "mp_taggers m \<noteq> []" "taggers_ok (mp_taggers m)" "mp_parser m = Some p" "parser_ok nm p (mp_network m)"
    "parser_options_ok files parser" "tagger \<noteq> ''none''" "parser \<noteq> ''none''" "wf_words (s_words s)"
  shows "\<exists>s'. annotate (model_ops files ops new_tokenizer m) tagger parser s = Inr s' \<and> analysed m (pn_single_root p) s s'"
proof -
  have ne: "s_words s \<noteq> []" using assms(8) by (simp add: wf_words_def)
  then obtain s1 where s1: "tag_sentence m s = Some (Inr s1)" "s1 = s\<lparr>s_words := s_words s1\<rparr>" "s_words s1 \<noteq> []"
      "hd (s_words s1) = hd (s_words s)" "map untagged (tl (s_words s1)) = map (\<lambda>w. untagged (noted m w)) (tl (s_words s))"
    using tag_sentence_returns [OF assms(1,2)] by blast
  have fields: "map f (s_words s1) = map f (s_words s)" if "\<And>w. f (untagged w) = f w" "\<And>w. f (noted m w) = f w" for f :: "word_data \<Rightarrow> 'x"
  proof -
    have "map f (tl (s_words s1)) = map f (map (noted m) (tl (s_words s)))"
      by (rule untagged_map) (use s1(5) that in \<open>simp_all add: comp_def\<close>)
    then have "map f (hd (s_words s1) # tl (s_words s1)) = map f (hd (s_words s) # tl (s_words s))"
      using that(2) s1(4) by (simp add: comp_def)
    then show ?thesis using ne s1(3) by simp
  qed
  have wf: "wf_words (s_words s1)"
    by (rule wf_words_same [OF fields fields assms(8)]) (simp_all add: untagged_parts)
  have e: "sentence_empty s1 = sentence_empty s"
    using map_eq_imp_length_eq [OF fields [of w_id]] by (simp add: sentence_empty_def untagged_parts)
  obtain s2 where s2: "parse_sentence files m parser s1 = Some (Inr s2)" "parsed (pn_single_root p) s1 s2"
    using parse_sentence_parsed [OF assms(3,4) wf assms(5)] by blast
  have bare: "map bare_word (s_words s2) = map bare_word (s_words s1)" and ne2: "s_words s2 \<noteq> []"
    using s2(2) s1(3) by (auto simp: parsed_def wf_words_def)
  then have root: "bare_word (hd (s_words s2)) = bare_word (hd (s_words s))"
    using s1(3,4) by (metis list.map_sel(1))
  have "map (\<lambda>w. untagged (bare_word w)) (tl (s_words s2)) = map (\<lambda>w. untagged (bare_word w)) (tl (s_words s1))"
    using arg_cong [OF bare, of "\<lambda>ws. map untagged (tl ws)"] by (simp add: map_tl [symmetric] comp_def)
  also have "\<dots> = map bare_word (map untagged (tl (s_words s1)))"
    by (simp add: untagged_def bare_word_def)
  also have "\<dots> = map (\<lambda>w. untagged (bare_word (noted m w))) (tl (s_words s))"
    unfolding s1(5) by (simp add: untagged_def bare_word_def)
  finally have "list_all2 (kept m) (tl (s_words s)) (tl (s_words s2))"
    by (intro list_all2_all_nthI) (auto intro!: kept_parts dest: map_eq_imp_length_eq simp: list_eq_iff_nth_eq)
  moreover have "s2 = s1\<lparr>s_words := s_words s2\<rparr>" using s2(2) by (simp add: parsed_def)
  then have "s2 = s\<lparr>s_words := s_words s2\<rparr>" by (subst (asm) s1(2)) simp
  ultimately have "analysed m (pn_single_root p) s s2"
    using s2(2) e root by (simp add: analysed_def parsed_def)
  then show ?thesis using s1(1) s2(1) assms(6,7) by (simp add: annotate_def annotator_none_def)
qed

lemma annotate_all_ok:
  "(\<And>s. s \<in> set ss \<Longrightarrow> \<exists>s'. annot s = Inr s' \<and> R s s') \<Longrightarrow> \<exists>ss'. annotate_all annot ss = (ss', Inr ()) \<and> list_all2 R ss ss'"
proof (induction ss)
  case (Cons s ss)
  obtain s' where "annot s = Inr s'" "R s s'" using Cons.prems [of s] by auto
  moreover obtain ss' where "annotate_all annot ss = (ss', Inr ())" "list_all2 R ss ss'" using Cons by auto
  ultimately show ?case by simp
qed simp

text \<open>
  C1: The whole program on a CoNLL-U document. With a model whose parser is well formed and whose
  taggers give no more analyses than there are words, the pipeline reads the document to its end
  and writes as many sentences, in order and without an error. Each has its comments, multiword tokens
  and empty nodes and, for every word, the ID, the FORM, the DEPS and the MISC column of its original
  (a raw tagger may add a note at the end of MISC); its heads are those of a dependency tree.
\<close>

theorem udpipe_analyses_document:
  assumes "mp_taggers m \<noteq> []" "taggers_ok (mp_taggers m)" "mp_parser m = Some p" "parser_ok nm p (mp_network m)"
    "parser_options_ok files parser" "tagger \<noteq> ''none''" "parser \<noteq> ''none''" "\<forall>s \<in> set ss. conllu_ok s"
  shows "\<exists>ss'. process files generic (model_ops files ops new_tokenizer m)
      (new_pipeline [] tagger parser []\<lparr>p_immediate := immediate\<rparr>) (document 2 ss) = Some (document 2 ss', Inr ()) \<and>
    list_all2 (analysed m (pn_single_root p)) ss ss'"
proof -
  have "wf_words (s_words s)" if "s \<in> set ss" for s using assms(8) that by (auto simp: conllu_ok_def wf_sentence_def)
  then have "\<exists>ss'. annotate_all (annotate (model_ops files ops new_tokenizer m) tagger parser) ss = (ss', Inr ()) \<and>
      list_all2 (analysed m (pn_single_root p)) ss ss'"
    using annotate_analysed [OF assms(1-7)] by (intro annotate_all_ok) blast
  then show ?thesis using process_conllu_document [OF assms(8)] by (metis (no_types, lifting) case_prod_conv)
qed

lemma udpipe_analyses_document_witness:
  "\<forall>files generic ops new_tokenizer. \<exists>ss'. process files generic (model_ops files (ops :: unit tokenizer_ops) new_tokenizer sample_model)
      (new_pipeline [] [] [] []\<lparr>p_immediate := True\<rparr>) (document 2 [sample_sentence]) = Some (document 2 ss', Inr ()) \<and>
    list_all2 (analysed sample_model True) [sample_sentence] ss'"
proof (intro allI)
  fix files generic new_tokenizer and ops :: "unit tokenizer_ops"
  have taggers: "mp_taggers sample_model \<noteq> []" "taggers_ok (mp_taggers sample_model)"
    by (simp_all add: sample_model_def taggers_ok_def)
  have parser: "mp_parser sample_model = Some sample_parser" "parser_ok ''swap'' sample_parser (mp_network sample_model)"
    using sample_parser_ok by (simp_all add: sample_model_def)
  have "parser_options_ok files []" by (simp add: parser_options_ok_def no_options beam_option_def)
  from udpipe_analyses_document [OF taggers parser this, of "[]" "[sample_sentence]" generic ops new_tokenizer True]
  show "\<exists>ss'. process files generic (model_ops files ops new_tokenizer sample_model)
      (new_pipeline [] [] [] []\<lparr>p_immediate := True\<rparr>) (document 2 [sample_sentence]) = Some (document 2 ss', Inr ()) \<and>
    list_all2 (analysed sample_model True) [sample_sentence] ss'"
    using sample_ok by (simp add: sample_parser_def)
qed

end
