(* ===== verification/Perceptron_Tagger.thy ===== *)
theory Perceptron_Tagger
  imports Conllu_Features Udpipe_Model
begin

text \<open>
  The taggers, \<open>src/morphodita/tagger/perceptron_tagger.h\<close>: a morphology gives the possible analyses
  of each word, and the decoder picks one of them for each. The morphology is an abstract class, a
  record of its functions here. The cache a call pops from its stack is an argument and a result.

  The proofs show that a tagger always returns one of the analyses of each word, whatever its
  features, and the best of all choices when its features look at no more tags than it decodes.
\<close>

section \<open>Model\<close>

datatype guesser_mode = No_Guesser | Guesser

record morphology =
  raw_form_len :: "string \<Rightarrow> nat"
  analyze :: "string \<Rightarrow> guesser_mode \<Rightarrow> tagged_lemma list"

record perceptron_tagger =
  pt_id :: tagger_id
  pt_dict :: "morphology option"
  pt_use_guesser :: bool
  pt_elementary :: "tagged_lemma elementary"
  pt_sequences :: "sequence list"
  pt_maps :: "(u8 list \<Rightarrow> int) list"

record tagger_cache =
  tc_tags :: "int list"
  tc_decoder :: "tagged_lemma feature_cache viterbi_cache"

definition new_tagger_cache :: "perceptron_tagger \<Rightarrow> tagger_cache" where
  "new_tagger_cache pt = \<lparr>tc_tags = [], tc_decoder = \<lparr>vc_nodes = 0, vc_features = new_feature_cache (pt_sequences pt)\<rparr>\<rparr>"

definition decode :: "perceptron_tagger \<Rightarrow> string list \<Rightarrow> tagged_lemma list list \<Rightarrow>
    tagged_lemma feature_cache viterbi_cache \<Rightarrow> int list \<Rightarrow> (int list \<times> tagged_lemma feature_cache viterbi_cache) option" where
  "decode pt = viterbi_tag (sequence_features (pt_elementary pt) (pt_sequences pt) (pt_maps pt))
     (tagger_decoding_order (pt_id pt)) (tagger_window_size (pt_id pt))"

text \<open>An unspecified guesser is \<open>None\<close>; choosing an analysis that is not there is a failure.\<close>

definition perceptron_tag :: "perceptron_tagger \<Rightarrow> string list \<Rightarrow> guesser_mode option \<Rightarrow> tagger_cache \<Rightarrow>
    (tagged_lemma list \<times> tagger_cache) option" where
  "perceptron_tag pt wds guesser c =
     (case pt_dict pt of
        None \<Rightarrow> Some ([], c)
      | Some dict \<Rightarrow>
          let raw = map (\<lambda>w. take (raw_form_len dict w) w) wds;
              mode = (case guesser of Some g \<Rightarrow> g | None \<Rightarrow> if pt_use_guesser pt then Guesser else No_Guesser);
              analyses = map (\<lambda>w. analyze dict w mode) wds;
              tags = (if length (tc_tags c) < length wds
                then tc_tags c @ replicate (length wds * 2 - length (tc_tags c)) 0 else tc_tags c)
          in case decode pt raw analyses (tc_decoder c) tags of
              None \<Rightarrow> None
            | Some (tags', decoder) \<Rightarrow>
                if \<forall>i < length wds. 0 \<le> tags' ! i \<and> tags' ! i < int (length (analyses ! i))
                then Some (map (\<lambda>i. analyses ! i ! nat (tags' ! i)) [0..<length wds], \<lparr>tc_tags = tags', tc_decoder = decoder\<rparr>)
                else None)"

definition tag_analyzed :: "perceptron_tagger \<Rightarrow> string list \<Rightarrow> tagged_lemma list list \<Rightarrow> tagger_cache \<Rightarrow> (int list \<times> tagger_cache) option" where
  "tag_analyzed pt wds analyses c =
     (case decode pt wds analyses (tc_decoder c) (replicate (length wds) 0) of
        None \<Rightarrow> None | Some (tags, decoder) \<Rightarrow> Some (tags, c\<lparr>tc_decoder := decoder\<rparr>))"

section \<open>Trained taggers\<close>

text \<open>
  A tagger whose templates were parsed for its window, with a map for each sequence, a cache that was
  made for it, and a sentence whose states an \<open>int\<close> can count.
\<close>

definition trained_tagger :: "perceptron_tagger \<Rightarrow> bool" where
  "trained_tagger pt \<longleftrightarrow> length (pt_maps pt) = length (pt_sequences pt) \<and>
     (\<exists>descriptions templates. parse_sequences descriptions (int (tagger_window_size (pt_id pt))) templates = Inr (pt_sequences pt))"

definition tagger_cache_ok :: "perceptron_tagger \<Rightarrow> tagger_cache \<Rightarrow> bool" where
  "tagger_cache_ok pt c \<longleftrightarrow> length (fc_caches (vc_features (tc_decoder c))) = length (pt_sequences pt)"

definition enough_memory :: "perceptron_tagger \<Rightarrow> 'a list list \<Rightarrow> bool" where
  "enough_memory pt analyses \<longleftrightarrow> all_states (tagger_decoding_order (pt_id pt)) (\<lambda>i. length (analyses ! i)) (length analyses) < 2 ^ 31"

definition choice_score :: "perceptron_tagger \<Rightarrow> string list \<Rightarrow> tagged_lemma list list \<Rightarrow> int list \<Rightarrow> int" where
  "choice_score pt = tags_score (pt_elementary pt) (pt_id pt) (pt_sequences pt) (pt_maps pt)"

lemma tagger_cache_new: "tagger_cache_ok pt (new_tagger_cache pt)"
  by (simp add: tagger_cache_ok_def new_tagger_cache_def new_feature_cache_def)

lemma decode_best:
  assumes t: "trained_tagger pt" and a: "length analyses = length wds" "[] \<notin> set analyses" "enough_memory pt analyses"
    and tags: "length wds \<le> length tags" and c: "length (fc_caches (vc_features c)) = length (pt_sequences pt)"
  shows "\<exists>ts c'. decode pt wds analyses c tags = Some (ts @ drop (length wds) tags, c') \<and>
    length (fc_caches (vc_features c')) = length (pt_sequences pt) \<and> tags_of analyses (length wds) ts \<and>
    (local_sequences (pt_id pt) (pt_sequences pt) \<longrightarrow>
      (\<forall>us. tags_of analyses (length wds) us \<longrightarrow> choice_score pt wds analyses us \<le> choice_score pt wds analyses ts))"
proof (cases "wds = []")
  case True
  then show ?thesis using a(1) c
    by (intro exI [of _ "[]"] exI [of _ c]) (auto simp: decode_def viterbi_tag_def tags_of_def Let_def)
next
  case False
  have "0 < length (analyses ! i)" if "i < length wds" for i
    using a(1,2) that by (metis length_greater_0_conv nth_mem)
  then have "decodable (pt_id pt) (pt_sequences pt) (pt_maps pt) wds analyses"
    using t parse_sequences_sound by (auto simp: decodable_def trained_tagger_def)
  from decoder_best [OF this False _ tags c, of "pt_elementary pt"] a(1,3) show ?thesis
    unfolding decode_def choice_score_def by (simp add: enough_memory_def)
qed

section \<open>Properties\<close>

text \<open>
  C2: A trained tagger chooses the best analyses, as long as the states of its search can be counted.
  For words that all have at least one analysis and for which there are less than \<open>2 ^ 31\<close> states,
  and with any cache earlier calls have left, the tagger returns without running over the memory it
  allocates for the nodes, its result is one of the analyses of each word in order, and the cache can
  be used again; if no feature looks at more tags than the decoding order, no other choice of
  analyses has a higher score. With more states the counters of the code overflow.
\<close>

theorem perceptron_tag_best:
  assumes "trained_tagger pt" "tagger_cache_ok pt c" "pt_dict pt = Some dict"
    and "analyses = map (\<lambda>w. analyze dict w (case guesser of Some g \<Rightarrow> g | None \<Rightarrow> if pt_use_guesser pt then Guesser else No_Guesser)) wds"
    and "[] \<notin> set analyses" "enough_memory pt analyses"
  shows "\<exists>ts c'. perceptron_tag pt wds guesser c = Some (map (\<lambda>i. analyses ! i ! nat (ts ! i)) [0..<length wds], c') \<and>
    tagger_cache_ok pt c' \<and> tags_of analyses (length wds) ts \<and>
    (local_sequences (pt_id pt) (pt_sequences pt) \<longrightarrow> (\<forall>us. tags_of analyses (length wds) us \<longrightarrow>
       choice_score pt (map (\<lambda>w. take (raw_form_len dict w) w) wds) analyses us \<le>
       choice_score pt (map (\<lambda>w. take (raw_form_len dict w) w) wds) analyses ts))"
proof -
  let ?raw = "map (\<lambda>w. take (raw_form_len dict w) w) wds"
  let ?tags = "if length (tc_tags c) < length wds then tc_tags c @ replicate (length wds * 2 - length (tc_tags c)) 0 else tc_tags c"
  obtain ts d where d: "decode pt ?raw analyses (tc_decoder c) ?tags = Some (ts @ drop (length wds) ?tags, d)"
      "length (fc_caches (vc_features d)) = length (pt_sequences pt)" "tags_of analyses (length wds) ts"
      "local_sequences (pt_id pt) (pt_sequences pt) \<longrightarrow>
        (\<forall>us. tags_of analyses (length wds) us \<longrightarrow> choice_score pt ?raw analyses us \<le> choice_score pt ?raw analyses ts)"
  proof -
    have "length analyses = length ?raw" "length ?raw \<le> length ?tags" by (simp_all add: assms(4))
    from decode_best [OF assms(1) this(1) assms(5,6) this(2) assms(2) [unfolded tagger_cache_ok_def]] show ?thesis
      using that unfolding length_map by blast
  qed
  have nth: "(ts @ r) ! i = ts ! i" if "i < length wds" for i r
    using d(3) that by (simp add: tags_of_def nth_append)
  have "perceptron_tag pt wds guesser c = Some (map (\<lambda>i. analyses ! i ! nat (ts ! i)) [0..<length wds],
      \<lparr>tc_tags = ts @ drop (length wds) ?tags, tc_decoder = d\<rparr>)"
    using d(1,3) nth unfolding perceptron_tag_def assms(3) option.case Let_def assms(4) [symmetric]
    by (auto simp: tags_of_def)
  then show ?thesis using d(2-4)
    by (intro exI [of _ ts] exI [of _ "\<lparr>tc_tags = ts @ drop (length wds) ?tags, tc_decoder = d\<rparr>"]) (simp add: tagger_cache_ok_def)
qed

definition sample_tagger :: perceptron_tagger where
  "sample_tagger = \<lparr>pt_id = Conllu2,
     pt_dict = Some \<lparr>raw_form_len = length, analyze = (\<lambda>w _. [\<lparr>tl_lemma = w, tl_tag = ''~N''\<rparr>, \<lparr>tl_lemma = w, tl_tag = ''~V''\<rparr>])\<rparr>,
     pt_use_guesser = False, pt_elementary = conllu_elementary sample_tables (replicate 27 (\<lambda>s. of_nat (length s))),
     pt_sequences = sample_sequences, pt_maps = sample_maps\<rparr>"

lemma sample_tagger_trained: "trained_tagger sample_tagger" "local_sequences (pt_id sample_tagger) (pt_sequences sample_tagger)"
  using sample_templates by (auto simp: trained_tagger_def sample_tagger_def sample_maps_def sample_sequences_def local_sequences_def)

lemma perceptron_tag_best_witness:
  "\<exists>ts c'. perceptron_tag sample_tagger [''a'', ''b''] None (new_tagger_cache sample_tagger) =
      Some (map (\<lambda>i. [[\<lparr>tl_lemma = ''a'', tl_tag = ''~N''\<rparr>, \<lparr>tl_lemma = ''a'', tl_tag = ''~V''\<rparr>],
        [\<lparr>tl_lemma = ''b'', tl_tag = ''~N''\<rparr>, \<lparr>tl_lemma = ''b'', tl_tag = ''~V''\<rparr>]] ! i ! nat (ts ! i)) [0..<2], c') \<and>
     (\<forall>us. length us = 2 \<and> (\<forall>i < 2. us ! i \<in> {0, 1}) \<longrightarrow>
       choice_score sample_tagger [''a'', ''b''] [[\<lparr>tl_lemma = ''a'', tl_tag = ''~N''\<rparr>, \<lparr>tl_lemma = ''a'', tl_tag = ''~V''\<rparr>],
        [\<lparr>tl_lemma = ''b'', tl_tag = ''~N''\<rparr>, \<lparr>tl_lemma = ''b'', tl_tag = ''~V''\<rparr>]] us \<le>
       choice_score sample_tagger [''a'', ''b''] [[\<lparr>tl_lemma = ''a'', tl_tag = ''~N''\<rparr>, \<lparr>tl_lemma = ''a'', tl_tag = ''~V''\<rparr>],
        [\<lparr>tl_lemma = ''b'', tl_tag = ''~N''\<rparr>, \<lparr>tl_lemma = ''b'', tl_tag = ''~V''\<rparr>]] ts)"
proof -
  let ?an = "[[\<lparr>tl_lemma = ''a'', tl_tag = ''~N''\<rparr>, \<lparr>tl_lemma = ''a'', tl_tag = ''~V''\<rparr>], [\<lparr>tl_lemma = ''b'', tl_tag = ''~N''\<rparr>, \<lparr>tl_lemma = ''b'', tl_tag = ''~V''\<rparr>]]"
  let ?dict = "\<lparr>raw_form_len = length, analyze = (\<lambda>w _. [\<lparr>tl_lemma = w, tl_tag = ''~N''\<rparr>, \<lparr>tl_lemma = w, tl_tag = ''~V''\<rparr>])\<rparr>"
  have "all_states 2 (\<lambda>i. length (?an ! i)) 2 = 4"
    by (simp add: all_states_def states_at_def numeral_2_eq_2)
  moreover have "length ?an = 2" "tagger_decoding_order (pt_id sample_tagger) = 2" by (simp_all add: sample_tagger_def)
  ultimately have m: "enough_memory sample_tagger ?an"
    unfolding enough_memory_def by (simp only:) simp
  have tags: "tags_of ?an 2 us" if "length us = 2" "\<forall>i < 2. us ! i \<in> {0, 1}" for us
    using that by (auto simp: tags_of_def less_2_cases_iff)
  show ?thesis
    using perceptron_tag_best [OF sample_tagger_trained(1) tagger_cache_new, of ?dict ?an None "[''a'', ''b'']"] m sample_tagger_trained(2) tags
    by (simp add: sample_tagger_def numeral_2_eq_2) blast
qed

text \<open>A tagger in a model returns no more analyses than it was given words.\<close>

lemma perceptron_tag_length: "perceptron_tag pt wds guesser c = Some (result, c') \<Longrightarrow> length result \<le> length wds"
  by (auto simp: perceptron_tag_def Let_def split: option.splits prod.splits if_splits)

end
