(* ===== verification/Hash_Map.thy ===== *)
theory Hash_Map
  imports Embedding "HOL-Library.Multiset"
begin

text \<open>
  The persistent hash map of the models, \<open>src/morphodita/morpho/persistent_unordered_map.h\<close>,
  \<open>persistent_unordered_map_encoder.h\<close> and \<open>small_stringops.h\<close>: one table for each length of a key,
  whose \<open>hash\<close> gives the ends of the buckets in one block of bytes. Keys and entries are bytes; a key
  is shorter than \<open>2 ^ 31\<close>, so its length is an \<open>int\<close>. A pointer into the block is the list of the
  bytes from there to the end of the block, as for \<open>pointer_decoder\<close>. The load factors the program
  uses are whole numbers.
\<close>

section \<open>Model\<close>

subsection \<open>Small operations on strings\<close>

fun small_memeq :: "u8 list \<Rightarrow> u8 list \<Rightarrow> nat \<Rightarrow> bool option" where
  "small_memeq a b 0 = Some True"
| "small_memeq (x # a) (y # b) (Suc len) = (if x \<noteq> y then Some False else small_memeq a b len)"
| "small_memeq _ _ (Suc len) = None"

text \<open>Bytes copied over a block at a position; \<open>None\<close> when they do not fit.\<close>

definition splice_at :: "nat \<Rightarrow> 'a list \<Rightarrow> 'a list \<Rightarrow> 'a list" where
  "splice_at pos bytes block = take pos block @ bytes @ drop (pos + length bytes) block"

definition small_memcpy :: "nat \<Rightarrow> u8 list \<Rightarrow> u8 list \<Rightarrow> u8 list option" where
  "small_memcpy pos bytes block =
     (if pos + length bytes > length block then None else Some (splice_at pos bytes block))"

subsection \<open>One table\<close>

record fnv_hash =
  fh_mask :: u32
  fh_hash :: "u32 list"
  fh_data :: "u8 list"

text \<open>The loop does not end when \<open>num\<close> is above \<open>2 ^ 31\<close>: the mask becomes zero and stays so.\<close>

partial_function (option) double_mask :: "u32 \<Rightarrow> u32 \<Rightarrow> u32 option" where
  "double_mask num m = (if m < num then double_mask num (push_bit 1 m) else Some m)"

definition new_fnv_hash :: "u32 \<Rightarrow> fnv_hash option" where
  "new_fnv_hash num =
     (case double_mask num 1 of None \<Rightarrow> None
      | Some m \<Rightarrow> Some \<lparr>fh_mask = m - 1, fh_hash = replicate (unat (m + 1)) 0, fh_data = []\<rparr>)"

definition fnv_index :: "u32 \<Rightarrow> u8 list \<Rightarrow> nat" where
  "fnv_index m str =
     (case str of
        [] \<Rightarrow> 0
      | [b] \<Rightarrow> unat b
      | [b0, b1] \<Rightarrow> unat (ucast b0 OR push_bit 8 (ucast b1) :: u32)
      | _ \<Rightarrow> unat (fold (\<lambda>b hash. (hash XOR scast b) * 16777619) str 2166136261 AND m))"

definition fnv_add :: "u8 list \<Rightarrow> nat \<Rightarrow> fnv_hash \<Rightarrow> fnv_hash" where
  "fnv_add str data_len h =
     (let i = fnv_index (fh_mask h) str
      in h\<lparr>fh_hash := (fh_hash h)[i := fh_hash h ! i + of_nat (length str + data_len)]\<rparr>)"

fun running_totals :: "u32 \<Rightarrow> u32 list \<Rightarrow> u32 list \<times> u32" where
  "running_totals tot [] = ([], tot)"
| "running_totals tot (len # lens) =
     (let tot = tot + len; (lens, last) = running_totals tot lens in ((tot - len) # lens, last))"

text \<open>The total is an \<open>int\<close>; when it overflows, \<open>resize\<close> throws what nobody catches.\<close>

definition fnv_done_adding :: "fnv_hash \<Rightarrow> fnv_hash option" where
  "fnv_done_adding h =
     (let (hash, tot) = running_totals 0 (fh_hash h); n = unat tot
      in if n \<ge> 2 ^ 31 then None
         else Some (h\<lparr>fh_hash := hash, fh_data := take n (fh_data h) @ replicate (n - length (fh_data h)) 0\<rparr>))"

text \<open>The position behind the key, where the caller writes the entry.\<close>

definition fnv_fill :: "u8 list \<Rightarrow> nat \<Rightarrow> fnv_hash \<Rightarrow> (nat \<times> fnv_hash) option" where
  "fnv_fill str data_len h =
     (let i = fnv_index (fh_mask h) str; offset = unat (fh_hash h ! i)
      in case small_memcpy offset str (fh_data h) of None \<Rightarrow> None
         | Some data \<Rightarrow> Some (offset + length str,
             h\<lparr>fh_data := data, fh_hash := (fh_hash h)[i := fh_hash h ! i + of_nat (length str + data_len)]\<rparr>))"

definition fnv_done_filling :: "fnv_hash \<Rightarrow> fnv_hash" where
  "fnv_done_filling h =
     h\<lparr>fh_hash := map (\<lambda>i. if i > 0 then fh_hash h ! (i - 1) else 0) [0..<length (fh_hash h)]\<rparr>"

subsection \<open>Building a map\<close>

type_synonym hash_map = "fnv_hash list"

definition hm_resize :: "u32 \<Rightarrow> hash_map \<Rightarrow> hash_map option" where
  "hm_resize elems hashes =
     (case new_fnv_hash (if length hashes = 0 then 1 else if length hashes = 1 then push_bit 8 1
                         else if length hashes = 2 then push_bit 16 1 else elems) of
        None \<Rightarrow> None | Some h \<Rightarrow> Some (hashes @ [h]))"

definition hm_add :: "u8 list \<Rightarrow> nat \<Rightarrow> hash_map \<Rightarrow> hash_map" where
  "hm_add str data_len hashes =
     (if length str < length hashes
      then hashes[length str := fnv_add str data_len (hashes ! length str)] else hashes)"

definition hm_done_adding :: "hash_map \<Rightarrow> hash_map option" where
  "hm_done_adding hashes = those (map fnv_done_adding hashes)"

text \<open>A position \<open>None\<close> is \<open>nullptr\<close>.\<close>

definition hm_fill :: "u8 list \<Rightarrow> nat \<Rightarrow> hash_map \<Rightarrow> (nat option \<times> hash_map) option" where
  "hm_fill str data_len hashes =
     (if length str < length hashes
      then (case fnv_fill str data_len (hashes ! length str) of None \<Rightarrow> None
            | Some (pos, h) \<Rightarrow> Some (Some pos, hashes[length str := h]))
      else Some (None, hashes))"

definition hm_done_filling :: "hash_map \<Rightarrow> hash_map" where
  "hm_done_filling hashes = map fnv_done_filling hashes"

definition hm_store :: "nat \<Rightarrow> nat option \<Rightarrow> u8 list \<Rightarrow> hash_map \<Rightarrow> hash_map option" where
  "hm_store len pos bytes hashes =
     (if bytes = [] then Some hashes
      else case pos of None \<Rightarrow> None
         | Some pos \<Rightarrow> (case small_memcpy pos bytes (fh_data (hashes ! len)) of None \<Rightarrow> None
             | Some data \<Rightarrow> Some (hashes[len := (hashes ! len)\<lparr>fh_data := data\<rparr>])))"

subsection \<open>Construction from a map\<close>

text \<open>\<open>std::map\<close> is the list of its pairs in the order of the keys; its entries are encoded one by one.\<close>

type_synonym 'e encoder = "'e \<Rightarrow> u8 list \<Rightarrow> u8 list result"

definition count_size :: "u8 list \<Rightarrow> nat list \<Rightarrow> nat list" where
  "count_size key sizes =
     (let sizes = (if length key \<ge> length sizes then sizes @ replicate (length key + 1 - length sizes) 0 else sizes)
      in sizes[length key := sizes ! length key + 1])"

fun resize_all :: "nat \<Rightarrow> nat list \<Rightarrow> hash_map \<Rightarrow> hash_map option" where
  "resize_all load_factor [] hashes = Some hashes"
| "resize_all load_factor (num # sizes) hashes =
     (if load_factor * num \<ge> 2 ^ 32 then None
      else case hm_resize (of_nat (load_factor * num)) hashes of None \<Rightarrow> None
         | Some hashes \<Rightarrow> resize_all load_factor sizes hashes)"

fun add_entries :: "'e encoder \<Rightarrow> (u8 list \<times> 'e) list \<Rightarrow> hash_map \<Rightarrow> hash_map result" where
  "add_entries encode [] hashes = Inr hashes"
| "add_entries encode ((key, e) # entries) hashes =
     (case encode e [] of Inl error \<Rightarrow> Inl error
      | Inr data \<Rightarrow> add_entries encode entries (hm_add key (length data) hashes))"

fun fill_entries :: "'e encoder \<Rightarrow> (u8 list \<times> 'e) list \<Rightarrow> hash_map \<Rightarrow> hash_map result option" where
  "fill_entries encode [] hashes = Some (Inr hashes)"
| "fill_entries encode ((key, e) # entries) hashes =
     (case encode e [] of Inl error \<Rightarrow> Some (Inl error)
      | Inr data \<Rightarrow>
     (case hm_fill key (length data) hashes of None \<Rightarrow> None
      | Some (pos, hashes) \<Rightarrow>
     (case hm_store (length key) pos data hashes of None \<Rightarrow> None
      | Some hashes \<Rightarrow> fill_entries encode entries hashes)))"

definition hm_construct :: "nat \<Rightarrow> 'e encoder \<Rightarrow> (u8 list \<times> 'e) list \<Rightarrow> hash_map result option" where
  "hm_construct load_factor encode entries =
     (case resize_all load_factor (fold (\<lambda>(key, _). count_size key) entries []) [] of None \<Rightarrow> None
      | Some hashes \<Rightarrow>
     (case add_entries encode entries hashes of Inl error \<Rightarrow> Some (Inl error)
      | Inr hashes \<Rightarrow>
     (case hm_done_adding hashes of None \<Rightarrow> None
      | Some hashes \<Rightarrow>
     (case fill_entries encode entries hashes of None \<Rightarrow> None
      | Some (Inl error) \<Rightarrow> Some (Inl error)
      | Some (Inr hashes) \<Rightarrow> Some (Inr (hm_done_filling hashes))))))"

text \<open>The bytes of \<open>std::string\<close>s are compared as unsigned; a key that is there keeps its entry.\<close>

fun key_less :: "u8 list \<Rightarrow> u8 list \<Rightarrow> bool" where
  "key_less [] ys \<longleftrightarrow> ys \<noteq> []"
| "key_less (x # xs) [] \<longleftrightarrow> False"
| "key_less (x # xs) (y # ys) \<longleftrightarrow> x < y \<or> x = y \<and> key_less xs ys"

fun std_map_emplace :: "u8 list \<Rightarrow> 'e \<Rightarrow> (u8 list \<times> 'e) list \<Rightarrow> (u8 list \<times> 'e) list" where
  "std_map_emplace key e [] = [(key, e)]"
| "std_map_emplace key e ((key', e') # entries) =
     (if key = key' then (key', e') # entries
      else if key_less key key' then (key, e) # (key', e') # entries
      else (key', e') # std_map_emplace key e entries)"

definition std_map :: "(u8 list \<times> 'e) list \<Rightarrow> (u8 list \<times> 'e) list" where
  "std_map entries = fold (\<lambda>(key, e). std_map_emplace key e) entries []"

definition new_hash_map :: "nat \<Rightarrow> 'e encoder \<Rightarrow> (u8 list \<times> 'e) list \<Rightarrow> hash_map result option" where
  "new_hash_map load_factor encode entries = hm_construct load_factor encode (std_map entries)"

definition add_affixes :: "bool \<Rightarrow> bool \<Rightarrow> 'e \<Rightarrow> u8 list \<Rightarrow> (u8 list \<times> 'e) list \<Rightarrow> (u8 list \<times> 'e) list" where
  "add_affixes add_prefixes add_suffixes empty_entry key enlarged =
     (let enlarged = (if key \<noteq> [] \<and> add_prefixes
            then fold (\<lambda>i. std_map_emplace (take i key) empty_entry) (rev [1..<length key]) enlarged else enlarged)
      in if key \<noteq> [] \<and> add_suffixes
         then fold (\<lambda>i. std_map_emplace (drop i key) empty_entry) [1..<length key] enlarged else enlarged)"

definition new_affix_map :: "nat \<Rightarrow> bool \<Rightarrow> bool \<Rightarrow> 'e \<Rightarrow> 'e encoder \<Rightarrow> (u8 list \<times> 'e) list \<Rightarrow> hash_map result option" where
  "new_affix_map load_factor add_prefixes add_suffixes empty_entry encode entries =
     hm_construct load_factor encode
       (fold (\<lambda>(key, _). add_affixes add_prefixes add_suffixes empty_entry key) entries (std_map entries))"

subsection \<open>Lookup\<close>

text \<open>
  The bucket of a key, as the bytes from its start on and the number of bytes behind its end. An
  outer \<open>None\<close> is a read outside of the block, which only a damaged model can cause.
\<close>

definition hm_bucket :: "u8 list \<Rightarrow> fnv_hash \<Rightarrow> (u8 list \<times> nat) option" where
  "hm_bucket str h =
     (let i = fnv_index (fh_mask h) str; size = length (fh_data h)
      in if i + 1 \<ge> length (fh_hash h) then None
         else let start = unat (fh_hash h ! i); stop = unat (fh_hash h ! (i + 1))
           in if start > size \<or> stop > size then None else Some (drop start (fh_data h), size - stop))"

partial_function (option) at_loop :: "(u8 list \<Rightarrow> u8 list option) \<Rightarrow> u8 list \<Rightarrow> nat \<Rightarrow> u8 list \<Rightarrow> u8 list option option" where
  "at_loop entry_size str after data =
     (if length data \<le> after then Some None
      else case small_memeq str data (length str) of None \<Rightarrow> None
         | Some equal \<Rightarrow>
             if equal then Some (Some (drop (length str) data))
             else if length data < length str then None
             else case entry_size (drop (length str) data) of None \<Rightarrow> None
                | Some data \<Rightarrow> at_loop entry_size str after data)"

definition hm_at :: "(u8 list \<Rightarrow> u8 list option) \<Rightarrow> u8 list \<Rightarrow> hash_map \<Rightarrow> u8 list option option" where
  "hm_at entry_size str hashes =
     (if length str \<ge> length hashes then Some None
      else case hm_bucket str (hashes ! length str) of None \<Rightarrow> None
         | Some (data, after) \<Rightarrow>
             if length str \<le> 2
             then (if length data = after then Some None
                   else if length data < length str then None else Some (Some (drop (length str) data)))
             else at_loop entry_size str after data)"

text \<open>\<open>at_typed<T>\<close> skips \<open>sizeof(T)\<close> bytes behind a key.\<close>

definition skip_bytes :: "nat \<Rightarrow> u8 list \<Rightarrow> u8 list option" where
  "skip_bytes n data = (if length data < n then None else Some (drop n data))"

definition hm_at_typed :: "nat \<Rightarrow> u8 list \<Rightarrow> hash_map \<Rightarrow> u8 list option option" where
  "hm_at_typed sizeof str hashes = hm_at (skip_bytes sizeof) str hashes"

text \<open>The callback gets the bytes from the key on and those from the entry on, and gives those behind the entry.\<close>

partial_function (option) iter_loop ::
    "(u8 list \<Rightarrow> u8 list \<Rightarrow> 's \<Rightarrow> ('s \<times> u8 list) option) \<Rightarrow> nat \<Rightarrow> nat \<Rightarrow> u8 list \<Rightarrow> 's \<Rightarrow> 's option" where
  "iter_loop process len after data s =
     (if length data \<le> after then Some s
      else if length data < len then None
      else case process data (drop len data) s of None \<Rightarrow> None
         | Some (s, data) \<Rightarrow> iter_loop process len after data s)"

definition hm_iter :: "(u8 list \<Rightarrow> u8 list \<Rightarrow> 's \<Rightarrow> ('s \<times> u8 list) option) \<Rightarrow> u8 list \<Rightarrow> hash_map \<Rightarrow> 's \<Rightarrow> 's option" where
  "hm_iter process str hashes s =
     (if length str \<ge> length hashes then Some s
      else case hm_bucket str (hashes ! length str) of None \<Rightarrow> None
         | Some (data, after) \<Rightarrow> iter_loop process (length str) after data s)"

fun iter_tables :: "(nat \<Rightarrow> u8 list \<Rightarrow> u8 list \<Rightarrow> 's \<Rightarrow> ('s \<times> u8 list) option) \<Rightarrow> nat \<Rightarrow> hash_map \<Rightarrow> 's \<Rightarrow> 's option" where
  "iter_tables process len [] s = Some s"
| "iter_tables process len (h # hashes) s =
     (case iter_loop (process len) len 0 (fh_data h) s of None \<Rightarrow> None
      | Some s \<Rightarrow> iter_tables process (Suc len) hashes s)"

definition hm_iter_all :: "(nat \<Rightarrow> u8 list \<Rightarrow> u8 list \<Rightarrow> 's \<Rightarrow> ('s \<times> u8 list) option) \<Rightarrow> hash_map \<Rightarrow> 's \<Rightarrow> 's option" where
  "hm_iter_all process hashes s = iter_tables process 0 hashes s"

definition hm_max_length :: "hash_map \<Rightarrow> nat" where
  "hm_max_length hashes = length hashes"

definition hm_data_start :: "hash_map \<Rightarrow> nat \<Rightarrow> u8 list option" where
  "hm_data_start hashes len = (if len < length hashes then Some (fh_data (hashes ! len)) else None)"

subsection \<open>Serialisation\<close>

definition fnv_save :: "fnv_hash \<Rightarrow> u8 list \<Rightarrow> u8 list result" where
  "fnv_save h enc =
     (case add_4B (of_nat (length (fh_hash h))) enc of Inl error \<Rightarrow> Inl error
      | Inr enc \<Rightarrow>
     (case add_4B (of_nat (length (fh_data h))) (enc @ concat (map bytes4 (fh_hash h))) of Inl error \<Rightarrow> Inl error
      | Inr enc \<Rightarrow> Inr (enc @ fh_data h)))"

fun fnv_save_all :: "hash_map \<Rightarrow> u8 list \<Rightarrow> u8 list result" where
  "fnv_save_all [] enc = Inr enc"
| "fnv_save_all (h # hashes) enc = (case fnv_save h enc of Inl error \<Rightarrow> Inl error | Inr enc \<Rightarrow> fnv_save_all hashes enc)"

definition hm_save :: "hash_map \<Rightarrow> u8 list \<Rightarrow> u8 list result" where
  "hm_save hashes enc =
     (case add_1B (of_nat (length hashes)) enc of Inl error \<Rightarrow> Inl error | Inr enc \<Rightarrow> fnv_save_all hashes enc)"

text \<open>\<open>next<uint32_t>\<close> reads words of four bytes, as \<open>next<float>\<close> does.\<close>

definition fnv_load :: "binary_decoder \<Rightarrow> (fnv_hash \<times> binary_decoder) result" where
  "fnv_load d =
     (case bd_next_4B d of Inl error \<Rightarrow> Inl error
      | Inr (slots, d) \<Rightarrow>
     (case bd_next_floats slots d of Inl error \<Rightarrow> Inl error
      | Inr (hash, d) \<Rightarrow>
     (case bd_next_4B d of Inl error \<Rightarrow> Inl error
      | Inr (bytes, d) \<Rightarrow>
     (case (if bytes \<noteq> 0 then bd_next bytes d else Inr ([], d)) of Inl error \<Rightarrow> Inl error
      | Inr (data, d) \<Rightarrow> Inr (\<lparr>fh_mask = slots - 2, fh_hash = hash, fh_data = data\<rparr>, d)))))"

fun fnv_load_all :: "nat \<Rightarrow> binary_decoder \<Rightarrow> (hash_map \<times> binary_decoder) result" where
  "fnv_load_all 0 d = Inr ([], d)"
| "fnv_load_all (Suc sizes) d =
     (case fnv_load d of Inl error \<Rightarrow> Inl error
      | Inr (h, d) \<Rightarrow>
     (case fnv_load_all sizes d of Inl error \<Rightarrow> Inl error
      | Inr (hashes, d) \<Rightarrow> Inr (h # hashes, d)))"

definition hm_load :: "binary_decoder \<Rightarrow> (hash_map \<times> binary_decoder) result" where
  "hm_load d = (case bd_next_1B d of Inl error \<Rightarrow> Inl error | Inr (sizes, d) \<Rightarrow> fnv_load_all (unat sizes) d)"

section \<open>Blocks of bytes\<close>

lemma length_splice_at [simp]: "pos + length bytes \<le> length block \<Longrightarrow> length (splice_at pos bytes block) = length block"
  by (simp add: splice_at_def)

lemma splice_at_append:
  "pos + length w \<le> length b \<Longrightarrow> splice_at (length a + pos) w (a @ b @ c) = a @ splice_at pos w b @ c"
  by (simp add: splice_at_def)

lemma splice_at_fresh:
  "length w \<le> n \<Longrightarrow> splice_at (length x) w (x @ replicate n z) = (x @ w) @ replicate (n - length w) z"
  by (simp add: splice_at_def)

lemma splice_at_concat:
  assumes "i < length ss" "pos + length w \<le> length (ss ! i)"
  shows "splice_at (length (concat (take i ss)) + pos) w (concat ss) = concat (ss[i := splice_at pos w (ss ! i)])"
proof -
  have "concat ss = concat (take i ss) @ ss ! i @ concat (drop (Suc i) ss)"
    using id_take_nth_drop [OF assms(1)] by (metis concat.simps(2) concat_append)
  then show ?thesis
    using splice_at_append [OF assms(2), of "concat (take i ss)"] by (simp add: upd_conv_take_nth_drop [OF assms(1)])
qed

lemma small_memeq_take: "length b \<ge> length a \<Longrightarrow> small_memeq a b (length a) = Some (take (length a) b = a)"
proof (induction a arbitrary: b)
  case (Cons x a)
  then show ?case by (cases b) auto
qed simp

section \<open>Tables\<close>

definition table_ok :: "nat \<Rightarrow> fnv_hash \<Rightarrow> bool" where
  "table_ok len h \<longleftrightarrow> length (fh_hash h) = unat (fh_mask h) + 2 \<and> unat (fh_mask h) < 2 ^ 31 \<and>
     (len = 1 \<longrightarrow> fh_mask h = 255) \<and> (len = 2 \<longrightarrow> fh_mask h = 65535)"

lemma unat_ucast_byte [simp]: "unat (ucast (b :: u8) :: u32) = unat b"
  using unsigned_less [of b, where 'a = nat] by (simp add: unsigned_ucast_eq take_bit_nat_eq_self_iff)

lemma two_bytes: "unat (ucast (b0 :: u8) OR push_bit 8 (ucast (b1 :: u8)) :: u32) = unat b0 + 256 * unat b1"
proof -
  have "(ucast b0 :: u32) OR push_bit 8 (ucast b1) = ucast b0 + ucast b1 * 256"
  proof -
    have "(ucast b0 :: u32) + push_bit 8 (ucast b1) = ucast b0 OR push_bit 8 (ucast b1)"
      by (rule disjunctive_add) (auto simp: bit_simps dest: bit_imp_le_length)
    then show ?thesis by (simp add: push_bit_eq_mult)
  qed
  then show ?thesis
    using unsigned_less [of b0, where 'a = nat] unsigned_less [of b1, where 'a = nat] by (simp add: unat_word_ariths)
qed

lemma digits_256: "a + 256 * b = c + 256 * d \<Longrightarrow> a < 256 \<Longrightarrow> c < 256 \<Longrightarrow> a = c \<and> b = (d :: nat)"
proof -
  assume e: "a + 256 * b = c + 256 * d" and less: "a < 256" "c < 256"
  have "(a + 256 * b) mod 256 = (c + 256 * d) mod 256" "(a + 256 * b) div 256 = (c + 256 * d) div 256" by (simp_all only: e)
  then show "a = c \<and> b = d" using less by simp
qed

lemma fnv_index_less:
  assumes "table_ok (length str) h"
  shows "fnv_index (fh_mask h) str + 1 < length (fh_hash h)"
proof -
  have n: "length (fh_hash h) = unat (fh_mask h) + 2" using assms by (simp add: table_ok_def)
  consider "str = []" | b where "str = [b]" | b0 b1 where "str = [b0, b1]"
    | b0 b1 b2 bs where "str = b0 # b1 # b2 # bs" by (metis list.exhaust)
  then have "fnv_index (fh_mask h) str \<le> unat (fh_mask h)"
  proof cases
    case 2
    then show ?thesis using assms unsigned_less [of b, where 'a = nat] by (simp add: table_ok_def fnv_index_def)
  next
    case 3
    then show ?thesis
      using assms two_bytes [of b0 b1] unsigned_less [of b0, where 'a = nat] unsigned_less [of b1, where 'a = nat]
      by (simp add: table_ok_def fnv_index_def)
  next
    case 4
    have "x AND m \<le> m" for x m :: u32 by (rule word_and_le1)
    then show ?thesis using 4 by (simp add: fnv_index_def word_le_nat_alt)
  qed (simp add: fnv_index_def)
  then show ?thesis by (simp add: n)
qed

lemma fnv_index_short:
  assumes "length k = length str" "length str \<le> 2" "fnv_index m k = fnv_index m str"
  shows "k = str"
proof -
  consider "str = []" "k = []" | b c where "str = [b]" "k = [c]" | b0 b1 c0 c1 where "str = [b0, b1]" "k = [c0, c1]"
  proof -
    consider "length str = 0" | "length str = Suc 0" | "length str = Suc (Suc 0)" using assms(2) by linarith
    then show thesis
    proof cases
      case 1
      then show thesis using that(1) assms(1) by simp
    next
      case 2
      with assms(1) have "length k = Suc 0" by simp
      with 2 obtain b c where "str = [b]" "k = [c]" by (auto simp: length_Suc_conv)
      then show thesis by (rule that(2))
    next
      case 3
      with assms(1) have "length k = Suc (Suc 0)" by simp
      with 3 obtain b0 b1 c0 c1 where "str = [b0, b1]" "k = [c0, c1]" by (auto simp: length_Suc_conv)
      then show thesis by (rule that(3))
    qed
  qed
  then show ?thesis
  proof cases
    case 3
    then have e: "unat c0 + 256 * unat c1 = unat b0 + 256 * unat b1" using assms(3) by (simp add: fnv_index_def two_bytes)
    have "unat c0 < 256" "unat b0 < 256" using unsigned_less [of c0, where 'a = nat] unsigned_less [of b0, where 'a = nat] by simp_all
    then have "unat c1 = unat b1" "unat c0 = unat b0" using digits_256 [OF e] by simp_all
    then show ?thesis using 3 by (simp add: word_unat_eq_iff)
  qed (use assms(3) in \<open>auto simp: fnv_index_def word_unat_eq_iff\<close>)
qed

subsection \<open>Layout\<close>

text \<open>The entries of a bucket and their bytes.\<close>

type_synonym entries = "(u8 list \<times> u8 list) list"

definition bucket :: "nat \<Rightarrow> u32 \<Rightarrow> entries \<Rightarrow> nat \<Rightarrow> entries" where
  "bucket len m es i = filter (\<lambda>(k, _). length k = len \<and> fnv_index m k = i) es"

definition bytes_of :: "entries \<Rightarrow> u8 list" where
  "bytes_of es = concat (map (\<lambda>(k, d). k @ d) es)"

definition layout :: "nat \<Rightarrow> u32 \<Rightarrow> entries \<Rightarrow> nat \<Rightarrow> u8 list" where
  "layout len m es i = bytes_of (bucket len m es i)"

definition start_of :: "nat \<Rightarrow> u32 \<Rightarrow> entries \<Rightarrow> nat \<Rightarrow> nat" where
  "start_of len m es i = length (concat (map (layout len m es) [0..<i]))"

definition table_bytes :: "nat \<Rightarrow> entries \<Rightarrow> nat" where
  "table_bytes len es = length (bytes_of (filter (\<lambda>(k, _). length k = len) es))"

lemma bytes_of_simps [simp]: "bytes_of [] = []" "bytes_of ((k, d) # es) = k @ d @ bytes_of es"
    "bytes_of (es @ es') = bytes_of es @ bytes_of es'"
  by (simp_all add: bytes_of_def)

lemma layout_Nil [simp]: "layout len m [] i = []"
  by (simp add: layout_def bucket_def)

lemma layout_snoc: "layout len m (es @ [(k, d)]) i =
    layout len m es i @ (if length k = len \<and> fnv_index m k = i then k @ d else [])"
  by (simp add: layout_def bucket_def)

lemma start_of_Suc: "start_of len m es (Suc i) = start_of len m es i + length (layout len m es i)"
  by (simp add: start_of_def)

lemma start_of_mono: "i \<le> j \<Longrightarrow> start_of len m es i \<le> start_of len m es j"
  by (induction j) (auto simp: le_Suc_eq start_of_Suc)

lemma start_of_le: "start_of len m es n \<le> table_bytes len es"
proof (induction es rule: rev_induct)
  case (snoc e es)
  obtain k d where e: "e = (k, d)" by (cases e)
  have "start_of len m (es @ [e]) n = start_of len m es n +
      (if length k = len \<and> fnv_index m k < n then length k + length d else 0)" for n
    by (induction n) (auto simp: start_of_Suc layout_snoc e, auto simp: start_of_def)
  then show ?case using snoc by (simp add: table_bytes_def e)
qed (induction n, auto simp: start_of_Suc table_bytes_def, simp add: start_of_def)

lemma start_of_all:
  assumes "\<And>k. k \<in> fst ` set es \<Longrightarrow> length k = len \<Longrightarrow> fnv_index m k < n"
  shows "start_of len m es n = table_bytes len es"
  using assms
proof (induction es rule: rev_induct)
  case (snoc e es)
  obtain k d where e: "e = (k, d)" by (cases e)
  have "start_of len m (es @ [e]) n = start_of len m es n +
      (if length k = len \<and> fnv_index m k < n then length k + length d else 0)" for n
    by (induction n) (auto simp: start_of_Suc layout_snoc e, auto simp: start_of_def)
  then show ?case using snoc e by (auto simp: table_bytes_def)
qed (induction n, auto simp: start_of_Suc table_bytes_def, simp add: start_of_def)

lemma layout_prefix: "length (layout len m es i) \<le> length (layout len m (es @ es') i)"
  by (simp add: layout_def bucket_def)

subsection \<open>The phases of the construction\<close>

text \<open>Before and while adding: the sizes of the buckets.\<close>

definition adding :: "nat \<Rightarrow> entries \<Rightarrow> fnv_hash \<Rightarrow> bool" where
  "adding len es h \<longleftrightarrow> table_ok len h \<and> fh_data h = [] \<and>
     fh_hash h = map (\<lambda>i. of_nat (length (layout len (fh_mask h) es i))) [0..<length (fh_hash h)]"

text \<open>While filling: the entries \<open>ps\<close> of all entries \<open>es\<close> are in place.\<close>

definition half_full :: "nat \<Rightarrow> u32 \<Rightarrow> entries \<Rightarrow> entries \<Rightarrow> nat \<Rightarrow> u8 list" where
  "half_full len m ps es i =
     layout len m ps i @ replicate (length (layout len m es i) - length (layout len m ps i)) 0"

definition filling :: "nat \<Rightarrow> entries \<Rightarrow> entries \<Rightarrow> fnv_hash \<Rightarrow> bool" where
  "filling len ps es h \<longleftrightarrow> table_ok len h \<and> table_bytes len es < 2 ^ 31 \<and>
     fh_hash h = map (\<lambda>i. of_nat (start_of len (fh_mask h) es i + length (layout len (fh_mask h) ps i))) [0..<length (fh_hash h)] \<and>
     fh_data h = concat (map (half_full len (fh_mask h) ps es) [0..<length (fh_hash h)])"

lemma half_full_Nil: "half_full len m [] es = (\<lambda>i. replicate (length (layout len m es i)) 0)"
  by (rule ext) (simp add: half_full_def)

lemma half_full_all: "half_full len m es es = layout len m es"
  by (rule ext) (simp add: half_full_def)

lemma half_full_other: "length k \<noteq> len \<Longrightarrow> half_full len m (ps @ [(k, d)]) es = half_full len m ps es"
  by (rule ext) (simp add: half_full_def layout_snoc)

text \<open>In the end the table holds the entries.\<close>

definition holds :: "nat \<Rightarrow> entries \<Rightarrow> fnv_hash \<Rightarrow> bool" where
  "holds len es h \<longleftrightarrow> table_ok len h \<and> table_bytes len es < 2 ^ 31 \<and>
     fh_hash h = map (\<lambda>i. of_nat (start_of len (fh_mask h) es i)) [0..<length (fh_hash h)] \<and>
     fh_data h = concat (map (layout len (fh_mask h) es) [0..<length (fh_hash h)])"

lemma map_upt_update:
  "i < n \<Longrightarrow> (\<And>j. j < n \<Longrightarrow> g j = (if j = i then x else f j)) \<Longrightarrow> (map f [0..<n])[i := x] = map g [0..<n]"
  by (intro nth_equalityI) (auto simp: nth_list_update)

lemma adding_step:
  assumes "adding (length k) es h"
  shows "adding (length k) (es @ [(k, d)]) (fnv_add k (length d) h)"
proof -
  let ?i = "fnv_index (fh_mask h) k" and ?n = "length (fh_hash h)"
  let ?s = "\<lambda>es i. of_nat (length (layout (length k) (fh_mask h) es i)) :: u32"
  have h: "table_ok (length k) h" "fh_hash h = map (?s es) [0..<?n]" using assms by (simp_all add: adding_def)
  have i: "?i < ?n" using fnv_index_less [OF h(1)] by simp
  have at: "fh_hash h ! ?i = ?s es ?i" using i by (subst h(2)) simp
  have "(fh_hash h)[?i := fh_hash h ! ?i + of_nat (length k + length d)] = map (?s (es @ [(k, d)])) [0..<?n]"
    unfolding at by (subst h(2), rule map_upt_update [OF i]) (simp add: layout_snoc)
  then show ?thesis
    using assms by (simp add: adding_def fnv_add_def Let_def table_ok_def)
qed

lemma adding_other: "adding len es h \<Longrightarrow> length k \<noteq> len \<Longrightarrow> adding len (es @ [(k, d)]) h"
  by (simp add: adding_def layout_snoc)

lemma running_totals_of_nat:
  "running_totals (of_nat t) (map of_nat xs) =
     (map (\<lambda>i. of_nat (t + sum_list (take i xs))) [0..<length xs], of_nat (t + sum_list xs))"
proof (induction xs arbitrary: t)
  case (Cons x xs)
  from Cons.IH [of "t + x"] show ?case by (simp add: map_upt_Suc add.assoc del: upt_Suc)
qed simp

lemma start_of_sum: "i \<le> n \<Longrightarrow> start_of len m es i = sum_list (take i (map (\<lambda>i. length (layout len m es i)) [0..<n]))"
  by (simp add: start_of_def length_concat take_map comp_def)

lemma replicate_concat: "concat (map (\<lambda>i. replicate (f i) x) is) = replicate (sum_list (map f is)) x"
  by (induction "is") (simp_all add: replicate_add)

lemma adding_done:
  assumes "adding len es h" "table_bytes len es < 2 ^ 31"
  shows "\<exists>h'. fnv_done_adding h = Some h' \<and> fh_mask h' = fh_mask h \<and> filling len [] es h'"
proof -
  let ?m = "fh_mask h" and ?n = "length (fh_hash h)"
  let ?xs = "map (\<lambda>i. length (layout len ?m es i)) [0..<?n]"
  have h: "table_ok len h" "fh_data h = []" "fh_hash h = map of_nat ?xs" using assms(1) by (simp_all add: adding_def comp_def)
  have len: "length ?xs = ?n" by simp
  have "sum_list ?xs = start_of len ?m es ?n" using start_of_sum [of ?n ?n len ?m es] by simp
  then have "sum_list ?xs < 2 ^ 31" using start_of_le [of len ?m es ?n] assms(2) by simp
  then have unat: "unat (of_nat (sum_list ?xs) :: u32) = sum_list ?xs" by (simp add: unat_of_nat)
  have run: "running_totals 0 (fh_hash h) =
      (map (\<lambda>i. of_nat (start_of len ?m es i)) [0..<?n], of_nat (sum_list ?xs))"
    using running_totals_of_nat [of 0 ?xs] by (simp only: h(3) [symmetric] len) (auto simp: start_of_sum [of _ ?n len ?m es])
  let ?h = "h\<lparr>fh_hash := map (\<lambda>i. of_nat (start_of len ?m es i)) [0..<?n], fh_data := replicate (sum_list ?xs) 0\<rparr>"
  have "fnv_done_adding h = Some ?h"
    using \<open>sum_list ?xs < 2 ^ 31\<close> by (simp add: fnv_done_adding_def run unat h(2))
  moreover have "filling len [] es ?h"
  proof -
    have "table_ok len ?h" using h(1) by (simp add: table_ok_def)
    then show ?thesis using assms(2) by (simp add: filling_def half_full_Nil replicate_concat del: upt_Suc)
  qed
  ultimately show ?thesis by auto
qed

text \<open>Filling in one entry: the key, then the bytes of the entry behind it.\<close>

definition fnv_put :: "u8 list \<Rightarrow> u8 list \<Rightarrow> fnv_hash \<Rightarrow> fnv_hash option" where
  "fnv_put k d h =
     (case fnv_fill k (length d) h of None \<Rightarrow> None
      | Some (pos, h) \<Rightarrow> map_option (\<lambda>data. h\<lparr>fh_data := data\<rparr>) (small_memcpy pos d (fh_data h)))"

lemma filling_other:
  assumes "filling len ps es h" "length k \<noteq> len"
  shows "filling len (ps @ [(k, d)]) es h"
  using assms by (simp add: filling_def half_full_other layout_snoc)

lemma filling_step:
  assumes h: "filling (length k) ps es h" and es: "es = ps @ (k, d) # rest"
  shows "\<exists>h'. fnv_put k d h = Some h' \<and> fh_mask h' = fh_mask h \<and> filling (length k) (ps @ [(k, d)]) es h'"
proof -
  let ?m = "fh_mask h" and ?n = "length (fh_hash h)" and ?len = "length k"
  let ?i = "fnv_index ?m k" and ?ps = "ps @ [(k, d)]"
  let ?ss = "map (half_full ?len ?m ps es) [0..<?n]"
  let ?hash = "\<lambda>ps i. of_nat (start_of ?len ?m es i + length (layout ?len ?m ps i)) :: u32"
  let ?pos = "start_of ?len ?m es ?i + length (layout ?len ?m ps ?i)"
  have ok: "table_ok ?len h" and small: "table_bytes ?len es < 2 ^ 31"
    and hash: "fh_hash h = map (?hash ps) [0..<?n]" and data: "fh_data h = concat ?ss"
    using h by (simp_all add: filling_def)
  have i: "?i < ?n" using fnv_index_less [OF ok] by simp
  have le: "length (layout ?len ?m ps j) \<le> length (layout ?len ?m es j)" for j
    unfolding es by (rule layout_prefix)
  have len_half: "length (half_full ?len ?m ps es j) = length (layout ?len ?m es j)" for j
    using le [of j] by (simp add: half_full_def)
  have room: "length (layout ?len ?m ps ?i) + length (k @ d) \<le> length (layout ?len ?m es ?i)"
    using layout_prefix [of ?len ?m ?ps ?i rest] by (simp add: es layout_snoc)
  have start: "length (concat (take ?i ?ss)) = start_of ?len ?m es ?i"
    using i by (simp add: take_map length_concat comp_def len_half start_of_def)
  have pos_le: "?pos + length (k @ d) \<le> start_of ?len ?m es (Suc ?i)"
    using room by (simp add: start_of_Suc)
  have "start_of ?len ?m es (Suc ?i) \<le> table_bytes ?len es" by (rule start_of_le)
  then have "?pos < 2 ^ 32" using pos_le small by simp
  then have at: "unat (fh_hash h ! ?i) = ?pos"
    using i by (subst hash) (simp add: unat_of_nat del: of_nat_add)
  have total: "length (fh_data h) = start_of ?len ?m es ?n"
    unfolding data by (simp add: length_concat comp_def len_half start_of_def)
  have fits: "?pos + length (k @ d) \<le> length (fh_data h)"
    using pos_le start_of_mono [of "Suc ?i" ?n ?len ?m es] i by (simp add: total)
  let ?b = "half_full ?len ?m ps es ?i" and ?p = "length (layout ?len ?m ps ?i)"
  have block: "splice_at ?pos w (fh_data h) = concat (?ss[?i := splice_at ?p w ?b])" if "length w \<le> length (k @ d)" for w
    using splice_at_concat [of ?i ?ss ?p w] i room that by (simp add: data start len_half)
  have splices: "splice_at (?pos + length k) d (splice_at ?pos k (fh_data h)) = splice_at ?pos (k @ d) (fh_data h)"
    using fits by (simp add: splice_at_def ac_simps)
  have "splice_at ?p (k @ d) ?b = half_full ?len ?m ?ps es ?i"
    using room by (simp add: half_full_def splice_at_fresh layout_snoc)
  then have data': "splice_at ?pos (k @ d) (fh_data h) = concat (map (half_full ?len ?m ?ps es) [0..<?n])"
    unfolding block [OF order_refl]
    by (intro arg_cong [of _ _ concat] map_upt_update [OF i]) (simp add: half_full_def layout_snoc)
  have hash': "(fh_hash h)[?i := fh_hash h ! ?i + of_nat (length k + length d)] = map (?hash ?ps) [0..<?n]"
  proof -
    have "fh_hash h ! ?i = ?hash ps ?i" using i by (subst hash) simp
    then show ?thesis by (subst hash, intro map_upt_update [OF i]) (simp add: layout_snoc)
  qed
  let ?h = "h\<lparr>fh_data := splice_at ?pos (k @ d) (fh_data h), fh_hash := (fh_hash h)[?i := fh_hash h ! ?i + of_nat (length k + length d)]\<rparr>"
  have "fnv_put k d h = Some ?h"
    using fits by (simp add: fnv_put_def fnv_fill_def Let_def at small_memcpy_def splices)
  moreover have "table_ok ?len ?h" using ok by (simp add: table_ok_def)
  then have "filling ?len ?ps es ?h"
    using small by (simp add: filling_def hash' data' del: of_nat_add)
  ultimately show ?thesis by auto
qed

lemma filling_done:
  assumes "filling len es es h"
  shows "holds len es (fnv_done_filling h) \<and> fh_mask (fnv_done_filling h) = fh_mask h"
proof -
  let ?m = "fh_mask h" and ?n = "length (fh_hash h)"
  have hash: "fh_hash h = map (\<lambda>i. of_nat (start_of len ?m es (Suc i))) [0..<?n]"
    using assms by (simp add: filling_def start_of_Suc)
  have zero: "start_of len ?m es 0 = 0" by (simp add: start_of_def)
  have "fh_hash h ! i = of_nat (start_of len ?m es (Suc i))" if "i < ?n" for i
    using that by (subst hash) simp
  then have "map (\<lambda>i. if i > 0 then fh_hash h ! (i - 1) else 0) [0..<?n] = map (\<lambda>i. of_nat (start_of len ?m es i)) [0..<?n]"
    by (auto simp: zero)
  moreover have "table_ok len (fnv_done_filling h)"
    using assms by (simp add: table_ok_def filling_def fnv_done_filling_def)
  ultimately show ?thesis
    using assms by (simp add: holds_def filling_def fnv_done_filling_def half_full_all)
qed

subsection \<open>The construction\<close>

lemma double_mask_power:
  assumes "num \<le> 2 ^ 31" "j \<le> 31"
  shows "\<exists>k \<le> 31. double_mask num (2 ^ j) = Some (2 ^ k)"
  using assms(2)
proof (induction "31 - j" arbitrary: j)
  case 0
  then have j: "j = 31" by simp
  have "\<not> 2 ^ j < num" using assms(1) by (simp add: j not_less)
  then have "double_mask num (2 ^ j) = Some (2 ^ j)" by (subst double_mask.simps) simp
  then show ?case using 0 by blast
next
  case (Suc n)
  show ?case
  proof (cases "2 ^ j < num")
    case True
    moreover have "push_bit 1 (2 ^ j :: u32) = 2 ^ Suc j" by (simp add: push_bit_eq_mult)
    ultimately have "double_mask num (2 ^ j) = double_mask num (2 ^ Suc j)" by (subst double_mask.simps) (simp add: mult.commute)
    then show ?thesis using Suc.hyps(1) [of "Suc j"] Suc.hyps(2) Suc.prems by simp
  next
    case False
    then have "double_mask num (2 ^ j) = Some (2 ^ j)" by (subst double_mask.simps) simp
    then show ?thesis using Suc.prems by blast
  qed
qed

lemma new_table:
  assumes "num \<le> 2 ^ 31" "len = 1 \<longrightarrow> num = 256" "len = 2 \<longrightarrow> num = 65536"
  shows "\<exists>h. new_fnv_hash num = Some h \<and> adding len [] h"
proof -
  obtain k where k: "k \<le> 31" "double_mask num 1 = Some (2 ^ k)" using double_mask_power [OF assms(1), of 0] by auto
  have "(2 :: nat) ^ k \<le> 2 ^ 31" by (rule power_increasing) (use k(1) in simp_all)
  then have "(2 :: nat) ^ k + 1 < 2 ^ 32" by simp
  then have "unat (of_nat (2 ^ k + 1) :: u32) = 2 ^ k + 1" "unat (of_nat (2 ^ k - 1) :: u32) = 2 ^ k - 1"
    by (simp_all only: unat_of_nat) simp_all
  then have one: "unat (2 ^ k + 1 :: u32) = 2 ^ k + 1" and "unat (2 ^ k - 1 :: u32) = 2 ^ k - 1"
    by (simp_all add: of_nat_diff add.commute)
  then have minus: "unat (2 ^ k - 1 :: u32) + 1 = 2 ^ k" by simp
  have "double_mask 256 1 = Some 256" by (simp add: double_mask.simps push_bit_eq_mult)
  then have "len = 1 \<Longrightarrow> (2 :: u32) ^ k = 256" using assms(2) k(2) by simp
  moreover have "double_mask 65536 1 = Some 65536" by (simp add: double_mask.simps push_bit_eq_mult)
  then have "len = 2 \<Longrightarrow> (2 :: u32) ^ k = 65536" using assms(3) k(2) by simp
  ultimately show ?thesis
    using minus \<open>(2 :: nat) ^ k \<le> 2 ^ 31\<close> by (auto simp: new_fnv_hash_def k(2) adding_def table_ok_def one map_replicate_const)
qed

definition all_adding :: "entries \<Rightarrow> hash_map \<Rightarrow> bool" where
  "all_adding es hs \<longleftrightarrow> (\<forall>i < length hs. adding i es (hs ! i))"

definition all_filling :: "entries \<Rightarrow> entries \<Rightarrow> hash_map \<Rightarrow> bool" where
  "all_filling ps es hs \<longleftrightarrow> (\<forall>i < length hs. filling i ps es (hs ! i))"

definition hm_holds :: "entries \<Rightarrow> hash_map \<Rightarrow> bool" where
  "hm_holds es hs \<longleftrightarrow> (\<forall>i < length hs. holds i es (hs ! i)) \<and> (\<forall>k \<in> fst ` set es. length k < length hs)"

lemma count_size_length: "length (count_size k sizes) = max (length sizes) (length k + 1)"
  by (auto simp: count_size_def Let_def)

lemma count_size_bound: "\<forall>n \<in> set sizes. n \<le> m \<Longrightarrow> \<forall>n \<in> set (count_size k sizes). n \<le> Suc m"
proof
  fix n assume m: "\<forall>n \<in> set sizes. n \<le> m" and n: "n \<in> set (count_size k sizes)"
  let ?s = "if length k \<ge> length sizes then sizes @ replicate (length k + 1 - length sizes) 0 else sizes"
  have "\<forall>n \<in> set ?s. n \<le> m" using m by auto
  moreover have "length k < length ?s" by auto
  then have "?s ! length k \<in> set ?s" by (rule nth_mem)
  moreover have "n \<in> insert (?s ! length k + 1) (set ?s)"
    using n set_update_subset_insert [of ?s "length k" "?s ! length k + 1"] by (auto simp: count_size_def Let_def)
  ultimately show "n \<le> Suc m" by (metis Suc_eq_plus1 add_le_mono1 insert_iff le_SucI)
qed

lemma count_sizes:
  "(\<forall>n \<in> set sizes. n \<le> m) \<Longrightarrow>
   (\<forall>n \<in> set (fold (\<lambda>(key, _). count_size key) entries sizes). n \<le> m + length entries) \<and>
   length sizes \<le> length (fold (\<lambda>(key, _). count_size key) entries sizes) \<and>
   (\<forall>k \<in> fst ` set entries. length k < length (fold (\<lambda>(key, _). count_size key) entries sizes)) \<and>
   (\<forall>b. length sizes \<le> b \<and> (\<forall>k \<in> fst ` set entries. length k < b) \<longrightarrow>
      length (fold (\<lambda>(key, _). count_size key) entries sizes) \<le> b)"
proof (induction entries arbitrary: sizes m)
  case (Cons e entries)
  obtain k v where e: "e = (k, v)" by (cases e)
  have l: "length sizes \<le> length (count_size k sizes)" "length k < length (count_size k sizes)" by (simp_all add: count_size_length)
  note IH = Cons.IH [OF count_size_bound [OF Cons.prems], of k]
  then show ?case using l by (auto simp: e count_size_length)
qed simp

lemma hm_resize_adding:
  assumes "all_adding [] hs" "num \<le> 2 ^ 31"
  shows "\<exists>h. hm_resize num hs = Some (hs @ [h]) \<and> all_adding [] (hs @ [h])"
proof -
  let ?num = "if length hs = 0 then 1 else if length hs = 1 then push_bit 8 1 else if length hs = 2 then push_bit 16 1 else num"
  have "?num \<le> 2 ^ 31" using assms(2) by (simp add: push_bit_eq_mult)
  moreover have "length hs = 1 \<longrightarrow> ?num = 256" "length hs = 2 \<longrightarrow> ?num = 65536" by (simp_all add: push_bit_eq_mult)
  ultimately obtain h where "new_fnv_hash ?num = Some h" "adding (length hs) [] h" using new_table by blast
  then show ?thesis using assms(1) by (auto simp: hm_resize_def all_adding_def nth_append less_Suc_eq)
qed

lemma resize_all_adding:
  assumes "all_adding [] hs" "\<forall>n \<in> set sizes. load_factor * n \<le> 2 ^ 31"
  shows "\<exists>hs'. resize_all load_factor sizes hs = Some hs' \<and> all_adding [] hs' \<and> length hs' = length hs + length sizes"
  using assms
proof (induction sizes arbitrary: hs)
  case (Cons n sizes)
  have n: "load_factor * n \<le> 2 ^ 31" using Cons.prems by simp
  then have "(of_nat (load_factor * n) :: u32) \<le> 2 ^ 31" by (simp add: word_le_nat_alt unat_of_nat del: of_nat_mult)
  then obtain h where h: "hm_resize (of_nat (load_factor * n)) hs = Some (hs @ [h])" "all_adding [] (hs @ [h])"
    using hm_resize_adding [OF Cons.prems(1)] by blast
  then show ?case using Cons.IH [OF h(2)] Cons.prems(2) n by (auto simp del: of_nat_mult)
qed simp

lemma hm_add_adding:
  assumes "all_adding es hs" "length k < length hs"
  shows "all_adding (es @ [(k, d)]) (hm_add k (length d) hs)"
  using assms adding_step [of k es "hs ! length k" d] adding_other [of _ es _ k d]
  by (auto simp: all_adding_def hm_add_def nth_list_update)

lemma hm_add_length [simp]: "length (hm_add k n hs) = length hs"
  by (simp add: hm_add_def)

abbreviation encoded :: "('e \<Rightarrow> u8 list) \<Rightarrow> (u8 list \<times> 'e) list \<Rightarrow> entries" where
  "encoded enc entries \<equiv> map (\<lambda>(k, e). (k, enc e)) entries"

lemma add_entries_adding:
  assumes "all_adding es hs" "\<forall>(k, e) \<in> set entries. encode e [] = Inr (enc e) \<and> length k < length hs"
  shows "\<exists>hs'. add_entries encode entries hs = Inr hs' \<and> all_adding (es @ encoded enc entries) hs' \<and> length hs' = length hs"
  using assms
proof (induction entries arbitrary: hs es)
  case (Cons x entries)
  obtain k e where x: "x = (k, e)" by (cases x)
  then have "length k < length hs" using Cons.prems(2) by simp
  from Cons.IH [OF hm_add_adding [OF Cons.prems(1) this]] show ?case using Cons.prems(2) by (simp add: x)
qed simp

lemma those_map:
  "(\<forall>i < length xs. \<exists>y. f (xs ! i) = Some y \<and> P i y) \<Longrightarrow>
   \<exists>ys. those (map f xs) = Some ys \<and> length ys = length xs \<and> (\<forall>i < length xs. P i (ys ! i))"
proof (induction xs arbitrary: P)
  case (Cons x xs)
  obtain y where y: "f x = Some y" "P 0 y" using Cons.prems by force
  have "\<forall>i < length xs. \<exists>y. f (xs ! i) = Some y \<and> P (Suc i) y" using Cons.prems by force
  from Cons.IH [OF this] obtain ys where "those (map f xs) = Some ys" "length ys = length xs" "\<forall>i < length xs. P (Suc i) (ys ! i)" by blast
  then show ?case using y by (intro exI [of _ "y # ys"]) (auto simp: nth_Cons less_Suc_eq_0_disj)
qed simp

lemma hm_done_adding_filling:
  assumes "all_adding es hs" "\<forall>i. table_bytes i es < 2 ^ 31"
  shows "\<exists>hs'. hm_done_adding hs = Some hs' \<and> all_filling [] es hs' \<and> length hs' = length hs"
proof -
  have "\<forall>i < length hs. \<exists>h. fnv_done_adding (hs ! i) = Some h \<and> filling i [] es h"
    using adding_done assms unfolding all_adding_def by blast
  from those_map [OF this] show ?thesis by (auto simp: hm_done_adding_def all_filling_def)
qed

lemma hm_put:
  assumes "length k < length hs" "fnv_put k d (hs ! length k) = Some h"
  shows "\<exists>pos hs'. hm_fill k (length d) hs = Some (pos, hs') \<and> hm_store (length k) pos d hs' = Some (hs[length k := h])"
proof -
  from assms(2) obtain pos h1 data where h1: "fnv_fill k (length d) (hs ! length k) = Some (pos, h1)"
      "small_memcpy pos d (fh_data h1) = Some data" "h = h1\<lparr>fh_data := data\<rparr>"
    by (auto simp: fnv_put_def split: option.splits)
  moreover have "h1\<lparr>fh_data := fh_data h1\<rparr> = h1" by simp
  ultimately show ?thesis
    using assms(1) by (auto simp: hm_fill_def hm_store_def small_memcpy_def splice_at_def split: if_splits)
qed

lemma fill_entries_filling:
  assumes "all_filling ps (ps @ encoded enc entries) hs"
    "\<forall>(k, e) \<in> set entries. encode e [] = Inr (enc e) \<and> length k < length hs"
  shows "\<exists>hs'. fill_entries encode entries hs = Some (Inr hs') \<and> length hs' = length hs \<and>
    all_filling (ps @ encoded enc entries) (ps @ encoded enc entries) hs'"
  using assms
proof (induction entries arbitrary: hs ps)
  case (Cons x entries)
  obtain k e where x: "x = (k, e)" by (cases x)
  let ?es = "ps @ encoded enc (x # entries)"
  have es: "?es = ps @ (k, enc e) # encoded enc entries" by (simp add: x)
  have k: "length k < length hs" "encode e [] = Inr (enc e)" using Cons.prems(2) by (simp_all add: x)
  have "filling (length k) ps ?es (hs ! length k)" using Cons.prems(1) k(1) by (simp only: all_filling_def)
  from filling_step [OF this es] obtain h where h: "fnv_put k (enc e) (hs ! length k) = Some h"
      "filling (length k) (ps @ [(k, enc e)]) ?es h" by blast
  from hm_put [OF k(1) h(1)] obtain pos hs1 where put: "hm_fill k (length (enc e)) hs = Some (pos, hs1)"
      "hm_store (length k) pos (enc e) hs1 = Some (hs[length k := h])" by blast
  have "filling i (ps @ [(k, enc e)]) ?es (hs[length k := h] ! i)" if "i < length hs" for i
    using that h(2) filling_other [of i ps ?es "hs ! i" k "enc e"] Cons.prems(1)
    by (cases "length k = i") (auto simp: all_filling_def)
  then have "all_filling (ps @ [(k, enc e)]) ((ps @ [(k, enc e)]) @ encoded enc entries) (hs[length k := h])"
    using es by (simp add: all_filling_def)
  from Cons.IH [OF this] show ?case using Cons.prems(2) put k(2) by (simp add: x)
qed simp

lemma hm_construct_holds:
  assumes "\<forall>(k, e) \<in> set entries. encode e [] = Inr (enc e)"
    and "\<forall>i. table_bytes i (encoded enc entries) < 2 ^ 31" "load_factor * length entries \<le> 2 ^ 31"
  shows "\<exists>hs. hm_construct load_factor encode entries = Some (Inr hs) \<and> hm_holds (encoded enc entries) hs \<and>
    (\<forall>b. (\<forall>k \<in> fst ` set entries. length k < b) \<longrightarrow> length hs \<le> b)"
proof -
  let ?sizes = "fold (\<lambda>(key, _). count_size key) entries []" and ?es = "encoded enc entries"
  have sizes: "\<forall>n \<in> set ?sizes. n \<le> length entries" "\<forall>k \<in> fst ` set entries. length k < length ?sizes"
      "\<forall>b. (\<forall>k \<in> fst ` set entries. length k < b) \<longrightarrow> length ?sizes \<le> b"
    using count_sizes [of "[]" 0 entries] by auto
  have "\<forall>n \<in> set ?sizes. load_factor * n \<le> 2 ^ 31"
    using sizes(1) assms(3) by (meson le_trans mult_le_mono2)
  then obtain hs1 where hs1: "resize_all load_factor ?sizes [] = Some hs1" "all_adding [] hs1" "length hs1 = length ?sizes"
    using resize_all_adding [of "[]" ?sizes load_factor] by (auto simp: all_adding_def)
  have keys: "\<forall>(k, e) \<in> set entries. encode e [] = Inr (enc e) \<and> length k < length hs1"
    using assms(1) sizes(2) hs1(3) by fastforce
  from add_entries_adding [of "[]" hs1 entries encode enc] hs1(2) keys obtain hs2 where hs2: "add_entries encode entries hs1 = Inr hs2"
      "all_adding ?es hs2" "length hs2 = length hs1" by auto
  from hm_done_adding_filling [OF hs2(2) assms(2)] obtain hs3 where hs3: "hm_done_adding hs2 = Some hs3"
      "all_filling [] ?es hs3" "length hs3 = length hs1" using hs2(3) by auto
  have "\<forall>(k, e) \<in> set entries. encode e [] = Inr (enc e) \<and> length k < length hs3" using keys hs3(3) by simp
  with fill_entries_filling [of "[]" enc entries hs3 encode] hs3(2) obtain hs4 where hs4: "fill_entries encode entries hs3 = Some (Inr hs4)"
      "length hs4 = length hs3" "all_filling ?es ?es hs4" by auto
  have "holds i ?es (hm_done_filling hs4 ! i)" if "i < length hs4" for i
    using that hs4(3) filling_done by (simp add: all_filling_def hm_done_filling_def)
  moreover have len: "length (hm_done_filling hs4) = length ?sizes"
    using hs4(2) hs3(3) hs1(3) by (simp add: hm_done_filling_def)
  ultimately have "hm_holds ?es (hm_done_filling hs4)"
    using sizes(2) by (auto simp: hm_holds_def hm_done_filling_def)
  then show ?thesis
    using hs1(1) hs2(1) hs3(1) hs4(1) sizes(3) len by (simp add: hm_construct_def)
qed

section \<open>Lookup\<close>

lemma holds_bucket:
  assumes "holds len es h" "length str = len"
  shows "\<exists>tail. hm_bucket str h = Some (layout len (fh_mask h) es (fnv_index (fh_mask h) str) @ tail, length tail)"
proof -
  let ?m = "fh_mask h" and ?n = "length (fh_hash h)"
  let ?i = "fnv_index ?m str" and ?f = "layout len (fh_mask h) es"
  have h: "table_ok len h" "table_bytes len es < 2 ^ 31" "fh_hash h = map (\<lambda>i. of_nat (start_of len ?m es i)) [0..<?n]"
      "fh_data h = concat (map ?f [0..<?n])"
    using assms(1) by (simp_all add: holds_def)
  have i: "?i + 1 < ?n" using fnv_index_less [of str h] h(1) assms(2) by simp
  have at: "unat (fh_hash h ! j) = start_of len ?m es j" if "j < ?n" for j
    using that start_of_le [of len ?m es j] h(2) by (subst h(3)) (simp add: unat_of_nat)
  have split: "[0..<?n] = [0..<?i] @ ?i # [Suc ?i..<?n]"
    using i upt_add_eq_append [of 0 ?i "?n - ?i"] upt_conv_Cons [of ?i ?n] by simp
  let ?tail = "concat (map ?f [Suc ?i..<?n])"
  have data: "fh_data h = concat (map ?f [0..<?i]) @ ?f ?i @ ?tail" unfolding h(4) by (subst split) simp
  then have "drop (start_of len ?m es ?i) (fh_data h) = ?f ?i @ ?tail" by (simp add: start_of_def)
  moreover have "length (fh_data h) = start_of len ?m es (Suc ?i) + length ?tail"
    unfolding data by (simp add: start_of_Suc) (simp add: start_of_def)
  ultimately have "hm_bucket str h = Some (?f ?i @ ?tail, length ?tail)"
    using i by (simp add: hm_bucket_def Let_def at start_of_Suc)
  then show ?thesis by blast
qed

lemma at_loop_found:
  assumes "\<forall>(k, d) \<in> set es. length k = length str \<and> (\<forall>r. entry_size (d @ r) = Some r)" "str \<noteq> []"
  shows "\<exists>rest. at_loop entry_size str (length tail) (bytes_of es @ tail) =
    Some (map_option (\<lambda>d. d @ rest) (map_of es str))"
  using assms(1)
proof (induction es)
  case Nil
  then show ?case by (subst at_loop.simps) simp
next
  case (Cons e es)
  obtain k d where e: "e = (k, d)" by (cases e)
  have k: "length k = length str" "\<And>r. entry_size (d @ r) = Some r" using Cons.prems by (simp_all add: e)
  have eq: "small_memeq str (k @ d @ bytes_of es @ tail) (length str) = Some (k = str)"
    using k(1) by (simp add: small_memeq_take)
  have "k \<noteq> []" using k(1) assms(2) by auto
  then have step: "at_loop entry_size str (length tail) (bytes_of (e # es) @ tail) =
      (if k = str then Some (Some (d @ bytes_of es @ tail)) else at_loop entry_size str (length tail) (bytes_of es @ tail))"
    using k assms(2) eq by (auto simp: e at_loop.simps [of entry_size str "length tail" "k @ d @ bytes_of es @ tail"])
  show ?case
  proof (cases "k = str")
    case True
    then show ?thesis using step by (auto simp: e)
  next
    case False
    then show ?thesis using step Cons by (auto simp: e)
  qed
qed

lemma map_of_filter: "(\<And>d. P (str, d)) \<Longrightarrow> map_of (filter P es) str = map_of es str"
  by (induction es) auto

lemma map_of_bucket: "map_of (bucket (length str) m es (fnv_index m str)) str = map_of es str"
  unfolding bucket_def by (rule map_of_filter) simp

lemma short_bucket:
  assumes "length str \<le> 2"
  shows "\<forall>(k, d) \<in> set (bucket (length str) m es (fnv_index m str)). k = str"
  using assms fnv_index_short by (fastforce simp: bucket_def)

text \<open>A lookup finds the first entry with the key, and nothing when there is none.\<close>

lemma hm_at_holds:
  assumes "hm_holds es hs" "\<forall>(k, d) \<in> set es. \<forall>r. entry_size (d @ r) = Some r" "\<forall>d. ([], d) \<in> set es \<longrightarrow> d \<noteq> []"
  shows "\<exists>rest. hm_at entry_size str hs = Some (map_option (\<lambda>d. d @ rest) (map_of es str))"
proof (cases "length str < length hs")
  case False
  then have "map_of es str = None" using assms(1) by (auto simp: hm_holds_def map_of_eq_None_iff)
  then show ?thesis using False by (simp add: hm_at_def)
next
  case True
  let ?h = "hs ! length str"
  let ?b = "bucket (length str) (fh_mask ?h) es (fnv_index (fh_mask ?h) str)"
  have "holds (length str) es ?h" using True assms(1) by (simp add: hm_holds_def)
  from holds_bucket [OF this refl] obtain tail where tail: "hm_bucket str ?h = Some (bytes_of ?b @ tail, length tail)"
    by (auto simp: layout_def)
  have sub: "set ?b \<subseteq> set es" by (auto simp: bucket_def)
  show ?thesis
  proof (cases "length str \<le> 2")
    case short: True
    show ?thesis
    proof (cases ?b)
      case Nil
      then have "map_of es str = None" using map_of_bucket [of str "fh_mask ?h" es] by simp
      then show ?thesis using tail Nil True short by (simp add: hm_at_def)
    next
      case (Cons e b)
      obtain k d where e: "e = (k, d)" by (cases e)
      have "k = str" using short_bucket [OF short, of "fh_mask ?h" es] by (simp add: Cons e)
      moreover from this have "map_of es str = Some d" using map_of_bucket [of str "fh_mask ?h" es] by (simp add: Cons e)
      moreover have "str = [] \<Longrightarrow> d \<noteq> []" using assms(3) sub Cons e \<open>k = str\<close> by auto
      ultimately show ?thesis using tail True short by (auto simp: hm_at_def Cons e)
    qed
  next
    case False
    have "\<forall>(k, d) \<in> set ?b. length k = length str \<and> (\<forall>r. entry_size (d @ r) = Some r)"
      using assms(2) by (auto simp: bucket_def)
    moreover have "str \<noteq> []" using False by auto
    ultimately obtain rest where "at_loop entry_size str (length tail) (bytes_of ?b @ tail) = Some (map_option (\<lambda>d. d @ rest) (map_of ?b str))"
      using at_loop_found by blast
    then show ?thesis using False True tail by (auto simp: hm_at_def map_of_bucket)
  qed
qed

subsection \<open>Iteration\<close>

lemma iter_loop_fold:
  assumes "\<forall>(k, d) \<in> set es. length k = len \<and> k @ d \<noteq> [] \<and> (\<forall>r s. process (k @ d @ r) (d @ r) s = Some (f (k, d) s, r))"
  shows "iter_loop process len (length tail) (bytes_of es @ tail) s = Some (fold f es s)"
  using assms
proof (induction es arbitrary: s)
  case Nil
  then show ?case by (subst iter_loop.simps) simp
next
  case (Cons e es)
  obtain k d where e: "e = (k, d)" by (cases e)
  have k: "length k = len" "k @ d \<noteq> []" "\<And>r s. process (k @ d @ r) (d @ r) s = Some (f (k, d) s, r)"
    using Cons.prems by (auto simp: e)
  have "iter_loop process len (length tail) (bytes_of (e # es) @ tail) s =
      iter_loop process len (length tail) (bytes_of es @ tail) (f e s)"
    using k by (auto simp: e iter_loop.simps [of process len "length tail" "k @ d @ bytes_of es @ tail"])
  then show ?case using Cons by simp
qed

text \<open>An iteration gives a callback the entries of the bucket of a key, in the order of the construction.\<close>

lemma hm_iter_holds:
  assumes "hm_holds es hs" and str: "length str < length hs"
    and "\<forall>(k, d) \<in> set es. length k = length str \<longrightarrow> k @ d \<noteq> [] \<and> (\<forall>r s. process (k @ d @ r) (d @ r) s = Some (f (k, d) s, r))"
  shows "\<exists>m. hm_iter process str hs s = Some (fold f (bucket (length str) m es (fnv_index m str)) s)"
proof -
  let ?h = "hs ! length str"
  let ?b = "bucket (length str) (fh_mask ?h) es (fnv_index (fh_mask ?h) str)"
  have "holds (length str) es ?h" using str assms(1) by (simp add: hm_holds_def)
  from holds_bucket [OF this refl] obtain tail where tail: "hm_bucket str ?h = Some (bytes_of ?b @ tail, length tail)"
    by (auto simp: layout_def)
  have "\<forall>(k, d) \<in> set ?b. length k = length str \<and> k @ d \<noteq> [] \<and> (\<forall>r s. process (k @ d @ r) (d @ r) s = Some (f (k, d) s, r))"
    using assms(3) by (auto simp: bucket_def)
  from iter_loop_fold [OF this, of tail s] show ?thesis using tail str by (auto simp: hm_iter_def)
qed

section \<open>Maps\<close>

lemma key_less_lexord: "key_less xs ys \<longleftrightarrow> (xs, ys) \<in> lexord {(x, y). x < y}"
  by (induction xs ys rule: key_less.induct) (auto simp: neq_Nil_conv)

lemma key_less_trans: "key_less xs ys \<Longrightarrow> key_less ys zs \<Longrightarrow> key_less xs zs"
  unfolding key_less_lexord by (rule lexord_trans) (auto intro: transI)

lemma key_less_linear: "xs = ys \<or> key_less xs ys \<or> key_less ys xs"
  unfolding key_less_lexord using lexord_linear [of "{(x, y). x < y}" xs ys] by fastforce

abbreviation key_sorted :: "(u8 list \<times> 'e) list \<Rightarrow> bool" where
  "key_sorted \<equiv> sorted_wrt (\<lambda>x y. key_less (fst x) (fst y))"

lemma key_less_irrefl [simp]: "\<not> key_less xs xs"
  by (induction xs) auto

lemma emplace_keys: "fst ` set (std_map_emplace k e m) = insert k (fst ` set m)"
  by (induction k e m rule: std_map_emplace.induct) auto

lemma emplace_subset: "set (std_map_emplace k e m) \<subseteq> insert (k, e) (set m)"
  by (induction k e m rule: std_map_emplace.induct) auto

lemma emplace_sorted: "key_sorted m \<Longrightarrow> key_sorted (std_map_emplace k e m)"
proof (induction k e m rule: std_map_emplace.induct)
  case (2 k e k' e' m)
  consider "k = k'" | "k \<noteq> k'" "key_less k k'" | "k \<noteq> k'" "\<not> key_less k k'" "key_less k' k" using key_less_linear by blast
  then show ?case
  proof cases
    case 2
    then show ?thesis using "2.prems" key_less_trans [of k k'] by auto
  next
    case 3
    have "key_less k' (fst y)" if y: "y \<in> set (std_map_emplace k e m)" for y
      using 3(3) "2.prems" emplace_subset [of k e m] y by auto
    then show ?thesis using 3 2 by simp
  qed (use "2.prems" in simp)
qed simp

lemma emplace_map_of:
  "key_sorted m \<Longrightarrow> map_of (std_map_emplace k e m) = (if k \<in> fst ` set m then map_of m else (map_of m)(k \<mapsto> e))"
proof (induction k e m rule: std_map_emplace.induct)
  case (2 k e k' e' m)
  have "k \<notin> fst ` set m" if "key_less k k'"
    using that "2.prems" key_less_trans [of k k' k] by fastforce
  then show ?case using 2 by (auto simp: fun_eq_iff)
qed simp

lemma emplace_mset: "k \<notin> fst ` set m \<Longrightarrow> mset (std_map_emplace k e m) = add_mset (k, e) (mset m)"
  by (induction k e m rule: std_map_emplace.induct) auto

lemma std_map_fold:
  assumes "key_sorted m" "distinct (map fst entries)" "fst ` set entries \<inter> fst ` set m = {}"
  shows "key_sorted (fold (\<lambda>(k, e). std_map_emplace k e) entries m) \<and>
    mset (fold (\<lambda>(k, e). std_map_emplace k e) entries m) = mset entries + mset m"
  using assms
proof (induction entries arbitrary: m)
  case (Cons x entries)
  obtain k e where x: "x = (k, e)" by (cases x)
  have "fst ` set entries \<inter> fst ` set (std_map_emplace k e m) = {}"
    using Cons.prems by (auto simp: x emplace_keys)
  from Cons.IH [OF emplace_sorted [OF Cons.prems(1)] _ this] show ?case
    using Cons.prems by (simp add: x emplace_mset)
qed simp

lemma std_map_mset: "distinct (map fst entries) \<Longrightarrow> mset (std_map entries) = mset entries"
  using std_map_fold [of "[]" entries] by (simp add: std_map_def)

lemma std_map_map_of: "distinct (map fst entries) \<Longrightarrow> map_of (std_map entries) = map_of entries"
proof -
  assume d: "distinct (map fst entries)"
  have m: "mset (std_map entries) = mset entries" using std_map_mset [OF d] .
  then have "mset (map fst (std_map entries)) = mset (map fst entries)" by simp
  then have "distinct (map fst (std_map entries))" using d mset_eq_imp_distinct_iff by blast
  then show ?thesis using d mset_eq_setD [OF m] by (intro map_of_inject_set [THEN iffD2]) auto
qed

lemma length_bytes_of: "length (bytes_of es) = sum_list (map (\<lambda>(k, d). length k + length d) es)"
  by (induction es) auto

lemma table_bytes_le: "table_bytes len es \<le> length (bytes_of es)"
  unfolding table_bytes_def by (induction es) auto

lemma length_bytes_of_mset: "mset es = mset es' \<Longrightarrow> length (bytes_of es) = length (bytes_of es')"
proof -
  assume "mset es = mset es'"
  then have "sum_mset (mset (map (\<lambda>(k, d). length k + length d) es)) = sum_mset (mset (map (\<lambda>(k, d). length k + length d) es'))" by simp
  then show ?thesis by (simp only: sum_mset_sum_list length_bytes_of)
qed

section \<open>Saving and loading\<close>

definition fnv_bytes :: "fnv_hash \<Rightarrow> u8 list" where
  "fnv_bytes h = bytes4 (of_nat (length (fh_hash h))) @ bytes_of_floats (fh_hash h) @
     bytes4 (of_nat (length (fh_data h))) @ fh_data h"

lemma fnv_save_eq: "fnv_save h enc = Inr (enc @ fnv_bytes h)"
  by (simp add: fnv_save_def add_4B_def fnv_bytes_def bytes_of_floats_def)

lemma fnv_save_all_eq: "fnv_save_all hs enc = Inr (enc @ concat (map fnv_bytes hs))"
  by (induction hs arbitrary: enc) (simp_all add: fnv_save_eq)

lemma reads_bytes: "unat n = length bs \<Longrightarrow> reads (bd_next n) bs bs"
  by (rule reads_refines [OF bd_next_refines]) (simp add: ptr_next_take)

definition storable :: "nat \<Rightarrow> fnv_hash \<Rightarrow> bool" where
  "storable len h \<longleftrightarrow> table_ok len h \<and> length (fh_data h) < 2 ^ 32"

lemma fnv_load_reads:
  assumes "storable len h"
  shows "reads fnv_load (fnv_bytes h) h"
proof -
  let ?n = "length (fh_hash h)" and ?k = "length (fh_data h)"
  have n: "?n = unat (fh_mask h) + 2" "unat (fh_mask h) < 2 ^ 31" "?k < 2 ^ 32" using assms by (simp_all add: storable_def table_ok_def)
  then have "?n < 2 ^ 32" by simp
  then have un: "unat (of_nat ?n :: u32) = ?n" "unat (of_nat ?k :: u32) = ?k" using n(3) by (simp_all add: unat_of_nat)
  have data: "reads (\<lambda>d. if (of_nat ?k :: u32) \<noteq> 0 then bd_next (of_nat ?k) d else Inr ([], d)) (fh_data h) (fh_data h)"
  proof (cases "(of_nat ?k :: u32) = 0")
    case True
    then have "fh_data h = []" using un(2) by simp
    then show ?thesis by (simp add: reads_return)
  qed (simp add: reads_bytes un)
  have h: "\<lparr>fh_mask = of_nat ?n - 2, fh_hash = fh_hash h, fh_data = fh_data h\<rparr> = h" using n(1) by simp
  have "reads (\<lambda>d. Inr (\<lparr>fh_mask = of_nat ?n - 2, fh_hash = fh_hash h, fh_data = fh_data h\<rparr>, d)) [] h"
    unfolding h by (rule reads_return)
  then have "reads fnv_load (bytes4 (of_nat ?n) @ bytes_of_floats (fh_hash h) @ bytes4 (of_nat ?k) @ fh_data h @ []) h"
    unfolding fnv_load_def
    by (intro reads_bind [OF reads_4B] reads_bind [OF reads_floats [OF un(1)]] reads_bind [OF data])
  then show ?thesis by (simp add: fnv_bytes_def)
qed

lemma fnv_load_all_reads:
  "\<forall>h \<in> set hs. \<exists>len. storable len h \<Longrightarrow> reads (fnv_load_all (length hs)) (concat (map fnv_bytes hs)) hs"
proof (induction hs)
  case Nil
  have "fnv_load_all 0 = (\<lambda>d. Inr ([], d))" by (rule ext) simp
  then show ?case by (simp add: reads_return)
next
  case (Cons h hs)
  have eq: "fnv_load_all (Suc (length hs)) = (\<lambda>d. case fnv_load d of Inl error \<Rightarrow> Inl error
      | Inr (h, d) \<Rightarrow> (case fnv_load_all (length hs) d of Inl error \<Rightarrow> Inl error | Inr (hashes, d) \<Rightarrow> Inr (h # hashes, d)))"
    by (rule ext) simp
  have h: "reads fnv_load (fnv_bytes h) h" "reads (fnv_load_all (length hs)) (concat (map fnv_bytes hs)) hs"
    using Cons fnv_load_reads by auto
  have "reads (fnv_load_all (Suc (length hs))) (fnv_bytes h @ concat (map fnv_bytes hs) @ []) (h # hs)"
    unfolding eq by (rule reads_bind [OF h(1) reads_bind [OF h(2) reads_return]])
  then show ?case by (simp del: fnv_load_all.simps)
qed

lemma hm_save_load:
  assumes "length hs < 256" "\<forall>h \<in> set hs. \<exists>len. storable len h"
  shows "\<exists>bs. (\<forall>enc. hm_save hs enc = Inr (enc @ bs)) \<and> reads hm_load bs hs"
proof -
  let ?n = "of_nat (length hs) :: u32"
  have n: "unat ?n = length hs" using assms(1) by (simp add: unat_of_nat)
  have n8: "ucast (ucast ?n :: u8) = ?n"
    using assms(1) by (simp add: unsigned_of_nat take_bit_nat_eq_self)
  have "reads (fnv_load_all (unat ?n)) (concat (map fnv_bytes hs)) hs"
    unfolding n by (rule fnv_load_all_reads) (rule assms(2))
  moreover have "reads bd_next_1B [ucast ?n] ?n" using reads_1B [of ?n] by (simp only: n8)
  ultimately have "reads hm_load ([ucast ?n] @ concat (map fnv_bytes hs)) hs"
    unfolding hm_load_def by (intro reads_bind)
  then show ?thesis by (auto simp: hm_save_def add_1B_def n8 fnv_save_all_eq)
qed

lemma holds_storable: "holds len es h \<Longrightarrow> storable len h"
proof -
  assume h: "holds len es h"
  have "length (fh_data h) = start_of len (fh_mask h) es (length (fh_hash h))"
    using h by (simp add: holds_def start_of_def)
  then show "storable len h" using h start_of_le [of len "fh_mask h" es "length (fh_hash h)"] by (simp add: holds_def storable_def)
qed

lemma hm_holds_storable: "hm_holds es hs \<Longrightarrow> \<forall>h \<in> set hs. \<exists>len. storable len h"
  using holds_storable by (fastforce simp: hm_holds_def in_set_conv_nth)

section \<open>Maps with affixes\<close>

text \<open>Every proper prefix or suffix of a key gets an empty entry, unless it is a key itself.\<close>

lemma emplace_fold_sorted: "key_sorted m \<Longrightarrow> key_sorted (fold (\<lambda>i. std_map_emplace (f i) e) is m)"
  by (induction "is" arbitrary: m) (auto intro: emplace_sorted)

lemma emplace_fold_map_of:
  "key_sorted m \<Longrightarrow> map_of (fold (\<lambda>i. std_map_emplace (f i) e) is m) str =
     (case map_of m str of Some e' \<Rightarrow> Some e' | None \<Rightarrow> if str \<in> f ` set is then Some e else None)"
proof (induction "is" arbitrary: m)
  case (Cons i "is")
  have k: "map_of (std_map_emplace (f i) e m) str = (if f i \<in> fst ` set m then map_of m str else ((map_of m)(f i \<mapsto> e)) str)"
    using emplace_map_of [OF Cons.prems, of "f i" e] by simp
  have "f i \<notin> fst ` set m \<longleftrightarrow> map_of m (f i) = None" by (simp add: map_of_eq_None_iff)
  then show ?case using Cons.IH [OF emplace_sorted [OF Cons.prems, of "f i" e]]
    by (auto simp: k split: option.splits)
qed (simp split: option.split)

definition is_affix :: "bool \<Rightarrow> bool \<Rightarrow> u8 list \<Rightarrow> u8 list \<Rightarrow> bool" where
  "is_affix prefixes suffixes key str \<longleftrightarrow> str \<noteq> [] \<and>
     (prefixes \<and> (\<exists>rest. rest \<noteq> [] \<and> key = str @ rest) \<or> suffixes \<and> (\<exists>start. start \<noteq> [] \<and> key = start @ str))"

lemma prefix_range: "str \<in> (\<lambda>i. take i key) ` set (rev [1..<length key]) \<longleftrightarrow> str \<noteq> [] \<and> (\<exists>rest. rest \<noteq> [] \<and> key = str @ rest)"
proof
  assume "str \<in> (\<lambda>i. take i key) ` set (rev [1..<length key])"
  then obtain i where "i \<in> set (rev [1..<length key])" "str = take i key" by blast
  then have "0 < i" "i < length key" "str = take i key" by auto
  then show "str \<noteq> [] \<and> (\<exists>rest. rest \<noteq> [] \<and> key = str @ rest)" by (auto intro!: exI [of _ "drop i key"])
next
  assume "str \<noteq> [] \<and> (\<exists>rest. rest \<noteq> [] \<and> key = str @ rest)"
  then obtain rest where "str \<noteq> []" "rest \<noteq> []" "key = str @ rest" by blast
  then show "str \<in> (\<lambda>i. take i key) ` set (rev [1..<length key])"
    by (intro image_eqI [of _ _ "length str"]) (auto simp: Suc_le_eq)
qed

lemma suffix_range: "str \<in> (\<lambda>i. drop i key) ` set [1..<length key] \<longleftrightarrow> str \<noteq> [] \<and> (\<exists>start. start \<noteq> [] \<and> key = start @ str)"
proof
  assume "str \<in> (\<lambda>i. drop i key) ` set [1..<length key]"
  then obtain i where "i \<in> set [1..<length key]" "str = drop i key" by blast
  then have "0 < i" "i < length key" "str = drop i key" by auto
  then show "str \<noteq> [] \<and> (\<exists>start. start \<noteq> [] \<and> key = start @ str)" by (auto intro!: exI [of _ "take i key"])
next
  assume "str \<noteq> [] \<and> (\<exists>start. start \<noteq> [] \<and> key = start @ str)"
  then obtain start where "str \<noteq> []" "start \<noteq> []" "key = start @ str" by blast
  then show "str \<in> (\<lambda>i. drop i key) ` set [1..<length key]"
    by (intro image_eqI [of _ _ "length start"]) (auto simp: Suc_le_eq)
qed

lemma add_affixes_sorted: "key_sorted m \<Longrightarrow> key_sorted (add_affixes p q e key m)"
  by (simp add: add_affixes_def Let_def emplace_fold_sorted)

lemma emplace_prefixes:
  "key_sorted m \<Longrightarrow> map_of (fold (\<lambda>i. std_map_emplace (take i key) e) (rev [1..<length key]) m) str =
     (case map_of m str of Some e' \<Rightarrow> Some e' | None \<Rightarrow> if is_affix True False key str then Some e else None)"
  by (simp only: emplace_fold_map_of prefix_range is_affix_def simp_thms)

lemma emplace_suffixes:
  "key_sorted m \<Longrightarrow> map_of (fold (\<lambda>i. std_map_emplace (drop i key) e) [1..<length key] m) str =
     (case map_of m str of Some e' \<Rightarrow> Some e' | None \<Rightarrow> if is_affix False True key str then Some e else None)"
  by (simp only: emplace_fold_map_of suffix_range is_affix_def simp_thms)

lemma is_affix_or: "is_affix p q key str \<longleftrightarrow> p \<and> is_affix True False key str \<or> q \<and> is_affix False True key str"
  by (auto simp: is_affix_def)

lemma is_affix_Nil [simp]: "\<not> is_affix p q [] str"
  by (simp add: is_affix_def)

lemma add_affixes_map_of:
  assumes "key_sorted m"
  shows "map_of (add_affixes p q e key m) str =
     (case map_of m str of Some e' \<Rightarrow> Some e' | None \<Rightarrow> if is_affix p q key str then Some e else None)"
proof (cases "key = []")
  case True
  then show ?thesis by (simp add: add_affixes_def split: option.split)
next
  case False
  let ?m = "fold (\<lambda>i. std_map_emplace (take i key) e) (rev [1..<length key]) m"
  have "key_sorted ?m" by (rule emplace_fold_sorted [OF assms])
  then show ?thesis
    using False emplace_prefixes [OF assms, of key e str] emplace_suffixes [of ?m key e str] emplace_suffixes [OF assms, of key e str]
      is_affix_or [of p q key str]
    by (cases p; cases q; cases "map_of m str") (simp_all add: add_affixes_def is_affix_def)
qed

definition with_affixes :: "bool \<Rightarrow> bool \<Rightarrow> 'e \<Rightarrow> (u8 list \<times> 'e) list \<Rightarrow> (u8 list \<times> 'e) list" where
  "with_affixes p q e entries = fold (\<lambda>(key, _). add_affixes p q e key) entries (std_map entries)"

lemma add_affixes_fold:
  "key_sorted m \<Longrightarrow> key_sorted (fold (\<lambda>(key, _). add_affixes p q e key) entries m) \<and>
   map_of (fold (\<lambda>(key, _). add_affixes p q e key) entries m) str =
     (case map_of m str of Some e' \<Rightarrow> Some e' | None \<Rightarrow> if \<exists>key \<in> fst ` set entries. is_affix p q key str then Some e else None)"
proof (induction entries arbitrary: m)
  case (Cons x entries)
  obtain k e' where x: "x = (k, e')" by (cases x)
  show ?case using Cons.IH [OF add_affixes_sorted [OF Cons.prems, of p q e k]] Cons.prems
    by (auto simp: x add_affixes_map_of split: option.splits)
qed (simp split: option.split)

lemma with_affixes_map_of:
  assumes "distinct (map fst entries)"
  shows "map_of (with_affixes p q e entries) str =
     (case map_of entries str of Some e' \<Rightarrow> Some e' | None \<Rightarrow> if \<exists>key \<in> fst ` set entries. is_affix p q key str then Some e else None)"
proof -
  have "key_sorted (std_map entries)" using std_map_fold [of "[]" entries] assms by (simp add: std_map_def)
  from add_affixes_fold [OF this, of p q e entries str] show ?thesis
    by (simp only: with_affixes_def std_map_map_of [OF assms])
qed

lemma key_sorted_distinct: "key_sorted m \<Longrightarrow> distinct (map fst m)"
  by (induction m) auto

section \<open>Properties\<close>

text \<open>What a list of distinct keys and encoded entries becomes: a map that finds exactly these entries, and is loaded as it was saved.\<close>

lemma hm_construct_lookup:
  assumes "\<forall>(k, e) \<in> set m. encode e [] = Inr (enc e) \<and> length k < 255 \<and> (k = [] \<longrightarrow> enc e \<noteq> []) \<and>
      (\<forall>r. entry_size (enc e @ r) = Some r)"
    and "length (bytes_of (encoded enc m)) < 2 ^ 31" "load_factor * length m \<le> 2 ^ 31"
  shows "\<exists>hs bs. hm_construct load_factor encode m = Some (Inr hs) \<and>
    (\<forall>out. hm_save hs out = Inr (out @ bs)) \<and> reads hm_load bs hs \<and>
    (\<forall>str. \<exists>rest. hm_at entry_size str hs = Some (map_option (\<lambda>e. enc e @ rest) (map_of m str)))"
proof -
  have "\<forall>i. table_bytes i (encoded enc m) < 2 ^ 31" using table_bytes_le assms(2) le_less_trans by blast
  moreover have "\<forall>(k, e) \<in> set m. encode e [] = Inr (enc e)" using assms(1) by blast
  ultimately obtain hs where hs: "hm_construct load_factor encode m = Some (Inr hs)" "hm_holds (encoded enc m) hs"
      "\<forall>b. (\<forall>k \<in> fst ` set m. length k < b) \<longrightarrow> length hs \<le> b"
    using hm_construct_holds [of m encode enc load_factor] assms(3) by blast
  have "\<forall>k \<in> fst ` set m. length k < 255" using assms(1) by fastforce
  then have "length hs \<le> 255" using hs(3) by blast
  then have "length hs < 256" by simp
  from hm_save_load [OF this hm_holds_storable [OF hs(2)]] obtain bs where bs: "\<forall>out. hm_save hs out = Inr (out @ bs)"
      "reads hm_load bs hs" by blast
  have "\<forall>(k, d) \<in> set (encoded enc m). \<forall>r. entry_size (d @ r) = Some r" using assms(1) by fastforce
  moreover have "\<forall>d. ([], d) \<in> set (encoded enc m) \<longrightarrow> d \<noteq> []" using assms(1) by fastforce
  ultimately have "\<exists>rest. hm_at entry_size str hs = Some (map_option (\<lambda>d. d @ rest) (map_of (encoded enc m) str))" for str
    by (rule hm_at_holds [OF hs(2)])
  then show ?thesis using hs(1) bs by (simp add: map_of_map option.map_comp comp_def)
qed

text \<open>
  C16: a hash map built from any entries, saved behind other data and loaded again finds the entry
  of each of its keys, and \<open>nullptr\<close> for all other strings. This needs an encoder whose output
  \<open>entry_size\<close> can skip and that is not empty for the empty key, keys of less than 255 bytes,
  less than \<open>2 ^ 31\<close> bytes of data in all and at most \<open>2 ^ 31\<close> buckets, the load factor times the
  number of entries.
\<close>

theorem hash_map_lookup:
  assumes "distinct (map fst entries)"
    and "\<forall>(k, e) \<in> set entries. encode e [] = Inr (enc e) \<and> length k < 255 \<and> (k = [] \<longrightarrow> enc e \<noteq> []) \<and>
      (\<forall>r. entry_size (enc e @ r) = Some r)"
    and "length (bytes_of (encoded enc entries)) < 2 ^ 31" "load_factor * length entries \<le> 2 ^ 31"
  shows "\<exists>hs bs. new_hash_map load_factor encode entries = Some (Inr hs) \<and>
    (\<forall>out. hm_save hs out = Inr (out @ bs)) \<and>
    (\<forall>d r. bd_wf d \<and> bd_rest d = bs @ r \<longrightarrow> (\<exists>d'. hm_load d = Inr (hs, d') \<and> bd_wf d' \<and> bd_rest d' = r)) \<and>
    (\<forall>str. \<exists>rest. hm_at entry_size str hs = Some (map_option (\<lambda>e. enc e @ rest) (map_of entries str)))"
proof -
  have m: "mset (std_map entries) = mset entries" by (rule std_map_mset [OF assms(1)])
  have "mset (encoded enc (std_map entries)) = mset (encoded enc entries)" by (simp add: m)
  then have "length (bytes_of (encoded enc (std_map entries))) < 2 ^ 31" using assms(3) length_bytes_of_mset by metis
  moreover have "load_factor * length (std_map entries) \<le> 2 ^ 31" using assms(4) m by (metis size_mset)
  ultimately show ?thesis
    using hm_construct_lookup [of "std_map entries" encode enc entry_size load_factor] assms(2) mset_eq_setD [OF m]
    by (simp add: new_hash_map_def std_map_map_of [OF assms(1)] reads_def)
qed

lemma hash_map_lookup_witness:
  "\<exists>hs bs. new_hash_map 5 add_4B [([104, 105, 33], 7), ([], 9)] = Some (Inr hs) \<and>
    (\<forall>out. hm_save hs out = Inr (out @ bs)) \<and>
    (\<forall>d r. bd_wf d \<and> bd_rest d = bs @ r \<longrightarrow> (\<exists>d'. hm_load d = Inr (hs, d') \<and> bd_wf d' \<and> bd_rest d' = r)) \<and>
    (\<forall>str. \<exists>rest. hm_at (skip_bytes 4) str hs = Some (map_option (\<lambda>e. bytes4 e @ rest) (map_of [([104, 105, 33], 7), ([], 9)] str)))"
  by (rule hash_map_lookup) (simp_all add: add_4B_def bytes4_def skip_bytes_def bytes_of_def)

end
