(* ===== verification/Morpho_Guesser.thy ===== *)
theory Morpho_Guesser
  imports Hash_Map Word_Analysis
begin

text \<open>
  The statistical guesser of the morphology, \<open>src/morphodita/morpho/morpho_statistical_guesser.cpp\<close>
  and \<open>morpho_statistical_guesser_encoder.cpp\<close>. A rule belongs to a suffix and a prefix of a form; its
  key is the reversed suffix, a space and the prefix, and what it does is to replace a prefix and a
  suffix of the form to make a lemma, for which it lists tags. The tables of tags are coded as those
  of the dictionary.
\<close>

section \<open>Model\<close>

subsection \<open>Tables of tags\<close>

fun save_tag_list :: "string list \<Rightarrow> u8 list \<Rightarrow> u8 list result" where
  "save_tag_list [] enc = Inr enc"
| "save_tag_list (tag # tags) enc =
     (case add_1B (of_nat (length tag)) enc of Inl error \<Rightarrow> Inl error
      | Inr enc \<Rightarrow> save_tag_list tags (add_data tag enc))"

definition save_tags :: "string list \<Rightarrow> u8 list \<Rightarrow> u8 list result" where
  "save_tags tags enc =
     (case add_2B (of_nat (length tags)) enc of Inl error \<Rightarrow> Inl error | Inr enc \<Rightarrow> save_tag_list tags enc)"

fun load_chars :: "nat \<Rightarrow> binary_decoder \<Rightarrow> (string \<times> binary_decoder) result" where
  "load_chars 0 d = Inr ([], d)"
| "load_chars (Suc n) d =
     (case bd_next_1B d of Inl error \<Rightarrow> Inl error
      | Inr (c, d) \<Rightarrow>
     (case load_chars n d of Inl error \<Rightarrow> Inl error
      | Inr (cs, d) \<Rightarrow> Inr (char8 (ucast c) # cs, d)))"

fun load_tag_list :: "nat \<Rightarrow> binary_decoder \<Rightarrow> (string list \<times> binary_decoder) result" where
  "load_tag_list 0 d = Inr ([], d)"
| "load_tag_list (Suc n) d =
     (case bd_next_1B d of Inl error \<Rightarrow> Inl error
      | Inr (len, d) \<Rightarrow>
     (case load_chars (unat len) d of Inl error \<Rightarrow> Inl error
      | Inr (tag, d) \<Rightarrow>
     (case load_tag_list n d of Inl error \<Rightarrow> Inl error
      | Inr (tags, d) \<Rightarrow> Inr (tag # tags, d))))"

definition load_tags :: "binary_decoder \<Rightarrow> (string list \<times> binary_decoder) result" where
  "load_tags d = (case bd_next_2B d of Inl error \<Rightarrow> Inl error | Inr (n, d) \<Rightarrow> load_tag_list (unat n) d)"

text \<open>The number of a tag in the table, which a new tag is appended to.\<close>

definition emplace_tag :: "string \<Rightarrow> string list \<Rightarrow> nat \<times> string list" where
  "emplace_tag tag tags =
     (let n = length (takeWhile (\<lambda>t. t \<noteq> tag) tags) in (n, if n \<ge> length tags then tags @ [tag] else tags))"

subsection \<open>Encoding\<close>

type_synonym guesser_rule = "string list \<times> nat list"

fun number_tags :: "string list \<Rightarrow> string list \<Rightarrow> nat list \<times> string list" where
  "number_tags [] tags = ([], tags)"
| "number_tags (tag # rest) tags =
     (let (n, tags) = emplace_tag tag tags; (ns, tags) = number_tags rest tags in (n # ns, tags))"

text \<open>The columns behind the first one, two for each rule.\<close>

fun read_rules :: "string list \<Rightarrow> string list \<Rightarrow> (guesser_rule list \<times> string list) result" where
  "read_rules (rule # rule_tags # columns) tags =
     (let replacements = split rule CHR '' '' in
      if length replacements \<noteq> 4 then Inl (''Cannot parse replacement rule '' @ quoted rule @ '' in statistical guesser file!'')
      else let (numbers, tags) = number_tags (split rule_tags CHR '' '') tags
        in case read_rules columns tags of Inl error \<Rightarrow> Inl error
           | Inr (rules, tags) \<Rightarrow> Inr ((replacements, numbers) # rules, tags))"
| "read_rules _ tags = Inr ([], tags)"

fun append_rules :: "string \<Rightarrow> guesser_rule list \<Rightarrow> (string \<times> guesser_rule list) list \<Rightarrow> (string \<times> guesser_rule list) list" where
  "append_rules key rules [] = [(key, rules)]"
| "append_rules key rules ((key', rules') # table) =
     (if key = key' then (key', rules' @ rules) # table else (key', rules') # append_rules key rules table)"

definition read_guesser_line :: "string \<Rightarrow> (string \<times> guesser_rule list) list \<Rightarrow> string list \<Rightarrow>
    ((string \<times> guesser_rule list) list \<times> string list) result" where
  "read_guesser_line line table tags =
     (let tokens = split line tab in
      if length tokens < 3 \<or> length tokens mod 2 \<noteq> 1 then Inl (''Cannot parse line '' @ line @ '' in statistical guesser file!'')
      else let affixes = split (hd tokens) CHR '' '' in
      if length affixes \<noteq> 2 then Inl (''Cannot parse prefix_suffix '' @ quoted (hd tokens) @ '' in statistical guesser file!'')
      else case read_rules (tl tokens) tags of Inl error \<Rightarrow> Inl error
         | Inr (rules, tags) \<Rightarrow> Inr (append_rules (rev (affixes ! 1) @ CHR '' '' # affixes ! 0) rules table, tags))"

function read_guesser_lines :: "string \<Rightarrow> (string \<times> guesser_rule list) list \<Rightarrow> string list \<Rightarrow>
    ((string \<times> guesser_rule list) list \<times> string list) result" where
  "read_guesser_lines input table tags =
     (case getline input of None \<Rightarrow> Inr (table, tags)
      | Some (line, input) \<Rightarrow>
     (case read_guesser_line line table tags of Inl error \<Rightarrow> Inl error
      | Inr (table, tags) \<Rightarrow> read_guesser_lines input table tags))"
  by pat_completeness auto
termination by (relation "measure (\<lambda>(input, _). length input)") (auto dest: getline_length)

declare read_guesser_lines.simps [simp del]

definition read_guesser :: "string \<Rightarrow> ((string \<times> guesser_rule list) list \<times> string list \<times> nat) result" where
  "read_guesser input =
     (case getline input of None \<Rightarrow> Inl ''Missing first line with default tag in statistical guesser file''
      | Some (line, input) \<Rightarrow>
          let (default_tag, tags) = emplace_tag (c_str line) []
          in case read_guesser_lines input [] tags of Inl error \<Rightarrow> Inl error
             | Inr (table, tags) \<Rightarrow> Inr (table, tags, default_tag))"

fun add_2Bs :: "nat list \<Rightarrow> u8 list \<Rightarrow> u8 list result" where
  "add_2Bs [] enc = Inr enc"
| "add_2Bs (n # ns) enc = (case add_2B (of_nat n) enc of Inl error \<Rightarrow> Inl error | Inr enc \<Rightarrow> add_2Bs ns enc)"

fun encode_rule_list :: "guesser_rule list \<Rightarrow> u8 list \<Rightarrow> u8 list result" where
  "encode_rule_list [] e = Inr e"
| "encode_rule_list ((affixes, tags) # rules) e =
     (if length affixes \<noteq> 4 then Inl ''Replacement rule not of size 4 in statistical guesser!''
      else case save_tag_list affixes e of Inl error \<Rightarrow> Inl error
         | Inr e \<Rightarrow>
        (case add_1B (of_nat (length tags)) e of Inl error \<Rightarrow> Inl error
         | Inr e \<Rightarrow>
        (case add_2Bs tags e of Inl error \<Rightarrow> Inl error
         | Inr e \<Rightarrow> encode_rule_list rules e)))"

definition encode_rules :: "guesser_rule list encoder" where
  "encode_rules rules enc =
     (case add_1B (of_nat (length rules)) [] of Inl error \<Rightarrow> Inl error
      | Inr e \<Rightarrow>
     (case encode_rule_list rules e of Inl error \<Rightarrow> Inl error
      | Inr e \<Rightarrow>
     (case add_2B (of_nat (length e)) enc of Inl error \<Rightarrow> Inl error
      | Inr enc \<Rightarrow> Inr (enc @ e))))"

definition encode_guesser :: "string \<Rightarrow> u8 list \<Rightarrow> u8 list result option" where
  "encode_guesser input enc =
     (case read_guesser input of Inl error \<Rightarrow> Some (Inl error)
      | Inr (table, tags, default_tag) \<Rightarrow>
     (case save_tags tags enc of Inl error \<Rightarrow> Some (Inl error)
      | Inr enc \<Rightarrow>
     (case add_2B (of_nat default_tag) enc of Inl error \<Rightarrow> Some (Inl error)
      | Inr enc \<Rightarrow>
     (case new_affix_map 5 True False [] encode_rules (map (\<lambda>(key, rules). (map byte8 key, rules)) table) of None \<Rightarrow> None
      | Some (Inl error) \<Rightarrow> Some (Inl error)
      | Some (Inr hashes) \<Rightarrow> Some (hm_save hashes enc)))))"

subsection \<open>Guessing\<close>

record guesser =
  mg_tags :: "string list"
  mg_default_tag :: nat
  mg_rules :: hash_map

definition load_guesser :: "binary_decoder \<Rightarrow> (guesser \<times> binary_decoder) result" where
  "load_guesser d =
     (case load_tags d of Inl error \<Rightarrow> Inl error
      | Inr (tags, d) \<Rightarrow>
     (case bd_next_2B d of Inl error \<Rightarrow> Inl error
      | Inr (default_tag, d) \<Rightarrow>
     (case hm_load d of Inl error \<Rightarrow> Inl error
      | Inr (rules, d) \<Rightarrow> Inr (\<lparr>mg_tags = tags, mg_default_tag = unat default_tag, mg_rules = rules\<rparr>, d))))"

definition rule_size :: "u8 list \<Rightarrow> u8 list option" where
  "rule_size data =
     (case ptr_next_2B data of None \<Rightarrow> None
      | Some (n, data) \<Rightarrow> (case ptr_next n data of None \<Rightarrow> None | Some (_, data) \<Rightarrow> Some data))"

definition rule_at :: "hash_map \<Rightarrow> string \<Rightarrow> u8 list option option" where
  "rule_at rules label = hm_at rule_size (map byte8 label) rules"

text \<open>The first \<open>k\<close> characters of the reversed form are in the map; how far does this go on?\<close>

function grow_suffix :: "hash_map \<Rightarrow> string \<Rightarrow> nat \<Rightarrow> nat option" where
  "grow_suffix rules form k =
     (if k < length form then
        (case rule_at rules (take (k + 1) (rev form)) of None \<Rightarrow> None
         | Some None \<Rightarrow> Some k
         | Some (Some _) \<Rightarrow> grow_suffix rules form (k + 1))
      else Some k)"
  by pat_completeness auto
termination by (relation "measure (\<lambda>(_, form, k). length form - k)") auto

definition rule_label :: "string \<Rightarrow> nat \<Rightarrow> nat \<Rightarrow> string" where
  "rule_label form suffix_len prefix_len = take suffix_len (rev form) @ CHR '' '' # take prefix_len form"

text \<open>The longest prefix that has rules with a suffix: the bytes of the rules and its length.\<close>

function grow_prefix :: "hash_map \<Rightarrow> string \<Rightarrow> nat \<Rightarrow> nat \<Rightarrow> (u8 list \<times> nat) option \<Rightarrow> (u8 list \<times> nat) option option" where
  "grow_prefix rules form suffix_len k found =
     (if k + suffix_len \<le> length form then
        (case rule_at rules (rule_label form suffix_len k) of None \<Rightarrow> None
         | Some None \<Rightarrow> Some found
         | Some (Some entry) \<Rightarrow>
            (case drop 2 entry of [] \<Rightarrow> None
             | b # _ \<Rightarrow> grow_prefix rules form suffix_len (k + 1) (if b \<noteq> 0 then Some (drop 2 entry, k) else found)))
      else Some found)"
  by pat_completeness auto
termination by (relation "measure (\<lambda>(_, form, s, k, _). Suc (length form) - k)") auto

declare grow_suffix.simps [simp del] grow_prefix.simps [simp del]

text \<open>The suffixes shorter than \<open>n\<close>, longest first.\<close>

fun pick_rule :: "hash_map \<Rightarrow> string \<Rightarrow> nat \<Rightarrow> (nat \<times> u8 list \<times> nat) option option" where
  "pick_rule rules form 0 = Some None"
| "pick_rule rules form (Suc suffix_len) =
     (case grow_prefix rules form suffix_len 0 None of None \<Rightarrow> None
      | Some None \<Rightarrow> pick_rule rules form suffix_len
      | Some (Some (rule, prefix_len)) \<Rightarrow> Some (Some (suffix_len, rule, prefix_len)))"

definition apply_rule :: "string \<Rightarrow> string \<Rightarrow> string \<Rightarrow> string \<Rightarrow> string \<Rightarrow> string option" where
  "apply_rule pref_del pref_add suff_del suff_add form =
     (if length pref_del + length suff_del > length form \<or>
         pref_del \<noteq> [] \<and> take (length pref_del) form \<noteq> pref_del \<or>
         suff_del \<noteq> [] \<and> drop (length form - length suff_del) form \<noteq> suff_del \<or>
         length form + length pref_add - length pref_del + length suff_add - length suff_del = 0
      then None
      else Some (pref_add @ take (length form - length pref_del - length suff_del) (drop (length pref_del) form) @ suff_add))"

fun ptr_next_affixes :: "nat \<Rightarrow> u8 list \<Rightarrow> (string list \<times> u8 list) option" where
  "ptr_next_affixes 0 rule = Some ([], rule)"
| "ptr_next_affixes (Suc n) rule =
     (case ptr_next_1B rule of None \<Rightarrow> None
      | Some (len, rule) \<Rightarrow>
     (case ptr_next len rule of None \<Rightarrow> None
      | Some (affix, rule) \<Rightarrow>
     (case ptr_next_affixes n rule of None \<Rightarrow> None
      | Some (affixes, rule) \<Rightarrow> Some (map char8 affix # affixes, rule))))"

fun add_tagged :: "string list \<Rightarrow> string \<Rightarrow> u32 list \<Rightarrow> tagged_lemma list \<Rightarrow> tagged_lemma list option" where
  "add_tagged tags lemma [] found = Some found"
| "add_tagged tags lemma (n # ns) found =
     (if unat n \<ge> length tags then None
      else add_tagged tags lemma ns (found @ [\<lparr>tl_lemma = lemma, tl_tag = tags ! unat n\<rparr>]))"

fun apply_rules :: "string list \<Rightarrow> string \<Rightarrow> nat \<Rightarrow> u8 list \<Rightarrow> tagged_lemma list \<Rightarrow> tagged_lemma list option" where
  "apply_rules tags form 0 rule found = Some found"
| "apply_rules tags form (Suc n) rule found =
     (case ptr_next_affixes 4 rule of
        Some ([pref_del, pref_add, suff_del, suff_add], rule) \<Rightarrow>
          (case ptr_next_1B rule of None \<Rightarrow> None
           | Some (tags_len, rule) \<Rightarrow>
          (case decode_many ptr_next_2B (unat tags_len) rule of None \<Rightarrow> None
           | Some (ns, rule) \<Rightarrow>
          (case apply_rule pref_del pref_add suff_del suff_add form of
             None \<Rightarrow> apply_rules tags form n rule found
           | Some lemma \<Rightarrow>
               (case add_tagged tags lemma ns found of None \<Rightarrow> None | Some found \<Rightarrow> apply_rules tags form n rule found))))
      | _ \<Rightarrow> None)"

text \<open>The rules that earlier calls for the same word have used; \<open>None\<close> when the caller does not collect them.\<close>

definition rule_used :: "string list option \<Rightarrow> string \<Rightarrow> bool" where
  "rule_used used rule = (case used of None \<Rightarrow> False | Some rs \<Rightarrow> rule \<in> set rs)"

definition use_rule :: "string \<Rightarrow> string list option \<Rightarrow> string list option" where
  "use_rule rule used = map_option (\<lambda>rs. rs @ [rule]) used"

definition guesser_analyze :: "guesser \<Rightarrow> string \<Rightarrow> tagged_lemma list \<Rightarrow> string list option \<Rightarrow>
    (tagged_lemma list \<times> string list option) option" where
  "guesser_analyze g form found used =
     (case (case grow_suffix (mg_rules g) form 0 of None \<Rightarrow> None
            | Some suffix_len \<Rightarrow> pick_rule (mg_rules g) form (Suc suffix_len)) of
        None \<Rightarrow> None
      | Some picked \<Rightarrow>
     (case (case picked of
              None \<Rightarrow> Some (found, used)
            | Some (suffix_len, rule, prefix_len) \<Rightarrow>
                let label = rule_label form suffix_len prefix_len
                in if length label > 1 \<and> \<not> rule_used used label
                   then map_option (\<lambda>found. (found, use_rule label used))
                     (apply_rules (mg_tags g) form (unat (hd rule)) (tl rule) found)
                   else Some (found, used)) of
        None \<Rightarrow> None
      | Some (found', used) \<Rightarrow>
          if length found' = length found \<and> \<not> rule_used used []
          then (if mg_default_tag g \<ge> length (mg_tags g) then None
                else Some (found' @ [\<lparr>tl_lemma = form, tl_tag = mg_tags g ! mg_default_tag g\<rparr>], use_rule [] used))
          else Some (found', used)))"

section \<open>Tables of tags\<close>

lemma u32_small [simp]: "n < 2 ^ 32 \<Longrightarrow> unat (of_nat n :: u32) = n"
  by (simp add: unat_of_nat)

lemma ucast_8 [simp]: "n < 256 \<Longrightarrow> ucast (ucast (of_nat n :: u32) :: u8) = (of_nat n :: u32)"
  by (simp add: unsigned_of_nat take_bit_nat_eq_self)

lemma ucast_byte_nat [simp]: "n < 256 \<Longrightarrow> ucast (of_nat n :: u8) = (of_nat n :: u32)"
proof -
  assume "n < 256"
  then have "unat (of_nat n :: u8) = n" "unat (of_nat n :: u32) = n" by (simp_all add: unat_of_nat)
  then show ?thesis by (simp only: word_unat_eq_iff unat_ucast_byte)
qed

lemma ucast_down_nat [simp]: "ucast (of_nat n :: u32) = (of_nat n :: u8)"
  by (rule bit_word_eqI) (auto simp: bit_simps)

lemma reads_map: "reads f bs v \<Longrightarrow> reads (\<lambda>d. case f d of Inl e \<Rightarrow> Inl e | Inr (v, d) \<Rightarrow> Inr (h v, d)) bs (h v)"
  unfolding reads_def by fastforce

lemma ucast_16 [simp]: "n < 65536 \<Longrightarrow> ucast (ucast (of_nat n :: u32) :: 16 word) = (of_nat n :: u32)"
  by (simp add: unsigned_of_nat take_bit_nat_eq_self)

definition bytes2 :: "nat \<Rightarrow> u8 list" where
  "bytes2 n = [ucast (of_nat n :: u32), ucast (drop_bit 8 (of_nat n :: u32))]"

lemma add_1B_small: "n < 256 \<Longrightarrow> add_1B (of_nat n) enc = Inr (enc @ [of_nat n])"
  by (simp add: add_1B_def)

lemma add_2B_small: "n < 65536 \<Longrightarrow> add_2B (of_nat n) enc = Inr (enc @ bytes2 n)"
  by (simp add: add_2B_def bytes2_def)

lemma ptr_next_bytes2: "n < 65536 \<Longrightarrow> ptr_next_2B (bytes2 n @ r) = Some (of_nat n, r)"
  by (simp add: bytes2_def le2 del: ucast_down_nat)

lemma ptr_next_byte: "n < 256 \<Longrightarrow> ptr_next_1B (of_nat n # r) = Some (of_nat n, r)"
  by simp

lemma reads_2B: "n < 65536 \<Longrightarrow> reads bd_next_2B (bytes2 n) (of_nat n)"
  by (rule reads_refines [OF bd_next_2B_refines]) (rule ptr_next_bytes2)

lemma reads_byte: "n < 256 \<Longrightarrow> reads bd_next_1B [of_nat n] (of_nat n)"
  by (rule reads_refines [OF bd_next_1B_refines]) (simp only: append.simps ptr_next_byte)

definition tag_bytes :: "string \<Rightarrow> u8 list" where
  "tag_bytes tag = of_nat (length tag) # map byte8 tag"

lemma save_tag_list_eq:
  "\<forall>tag \<in> set tags. length tag < 256 \<Longrightarrow> save_tag_list tags enc = Inr (enc @ concat (map tag_bytes tags))"
  by (induction tags arbitrary: enc) (simp_all add: add_1B_small add_data_def tag_bytes_def)

lemma load_chars_reads: "reads (load_chars (length cs)) (map byte8 cs) cs"
proof (induction cs)
  case Nil
  have "load_chars 0 = (\<lambda>d. Inr ([], d))" by (rule ext) simp
  then show ?case by (simp add: reads_return)
next
  case (Cons c cs)
  have eq: "load_chars (Suc (length cs)) = (\<lambda>d. case bd_next_1B d of Inl error \<Rightarrow> Inl error
      | Inr (c, d) \<Rightarrow> (case load_chars (length cs) d of Inl error \<Rightarrow> Inl error
      | Inr (cs, d) \<Rightarrow> Inr (char8 (ucast c) # cs, d)))"
    by (rule ext) simp
  have c: "reads bd_next_1B [byte8 c] (ucast (byte8 c))"
    by (rule reads_refines [OF bd_next_1B_refines]) simp
  have "ucast (ucast (byte8 c) :: u32) = byte8 c" by (rule bit_word_eqI) (auto simp: bit_simps)
  then have char: "char8 (ucast (ucast (byte8 c) :: u32)) = c" by simp
  have "reads (load_chars (Suc (length cs))) ([byte8 c] @ map byte8 cs) (char8 (ucast (ucast (byte8 c) :: u32)) # cs)"
    unfolding eq by (rule reads_bind [OF c], rule reads_map [OF Cons])
  then show ?case unfolding char by (simp del: load_chars.simps)
qed

lemma load_tag_list_reads:
  "\<forall>tag \<in> set tags. length tag < 256 \<Longrightarrow> reads (load_tag_list (length tags)) (concat (map tag_bytes tags)) tags"
proof (induction tags)
  case Nil
  have "load_tag_list 0 = (\<lambda>d. Inr ([], d))" by (rule ext) simp
  then show ?case by (simp add: reads_return)
next
  case (Cons tag tags)
  have eq: "load_tag_list (Suc (length tags)) = (\<lambda>d. case bd_next_1B d of Inl error \<Rightarrow> Inl error
      | Inr (len, d) \<Rightarrow> (case load_chars (unat len) d of Inl error \<Rightarrow> Inl error
      | Inr (tag, d) \<Rightarrow> (case load_tag_list (length tags) d of Inl error \<Rightarrow> Inl error
      | Inr (tags, d) \<Rightarrow> Inr (tag # tags, d))))"
    by (rule ext) simp
  have len: "length tag < 256" using Cons.prems by simp
  then have "unat (of_nat (length tag) :: u32) = length tag" by simp
  then have tag: "reads (load_chars (unat (of_nat (length tag) :: u32))) (map byte8 tag) tag" using load_chars_reads [of tag] by simp
  have tags: "reads (load_tag_list (length tags)) (concat (map tag_bytes tags)) tags" using Cons by simp
  have "reads (load_tag_list (Suc (length tags))) ([of_nat (length tag)] @ map byte8 tag @ concat (map tag_bytes tags) @ []) (tag # tags)"
    unfolding eq by (rule reads_bind [OF reads_byte [OF len]], rule reads_bind [OF tag], rule reads_bind [OF tags], rule reads_return)
  then show ?case by (simp add: tag_bytes_def [of tag] del: load_tag_list.simps)
qed

definition tags_fit :: "string list \<Rightarrow> bool" where
  "tags_fit tags \<longleftrightarrow> length tags < 65536 \<and> (\<forall>tag \<in> set tags. length tag < 256)"

lemma save_load_tags:
  assumes "tags_fit tags"
  shows "\<exists>bs. (\<forall>enc. save_tags tags enc = Inr (enc @ bs)) \<and> reads load_tags bs tags"
proof -
  have len: "length tags < 65536" "\<forall>tag \<in> set tags. length tag < 256" using assms by (simp_all add: tags_fit_def)
  then have "unat (of_nat (length tags) :: u32) = length tags" by simp
  then have "reads (load_tag_list (unat (of_nat (length tags) :: u32))) (concat (map tag_bytes tags)) tags"
    using load_tag_list_reads [OF len(2)] by simp
  then have "reads load_tags (bytes2 (length tags) @ concat (map tag_bytes tags)) tags"
    unfolding load_tags_def by (rule reads_bind [OF reads_2B [OF len(1)]])
  moreover have "\<forall>enc. save_tags tags enc = Inr (enc @ bytes2 (length tags) @ concat (map tag_bytes tags))"
    using len by (simp add: save_tags_def add_2B_small save_tag_list_eq)
  ultimately show ?thesis by blast
qed

section \<open>Rules\<close>

definition rule_bytes :: "guesser_rule \<Rightarrow> u8 list" where
  "rule_bytes rule = concat (map tag_bytes (fst rule)) @ of_nat (length (snd rule)) # concat (map bytes2 (snd rule))"

definition rules_bytes :: "guesser_rule list \<Rightarrow> u8 list" where
  "rules_bytes rules = of_nat (length rules) # concat (map rule_bytes rules)"

definition rules_entry :: "guesser_rule list \<Rightarrow> u8 list" where
  "rules_entry rules = bytes2 (length (rules_bytes rules)) @ rules_bytes rules"

text \<open>Rules whose numbers fit in the bytes they are written to.\<close>

definition rules_fit :: "nat \<Rightarrow> guesser_rule list \<Rightarrow> bool" where
  "rules_fit tags rules \<longleftrightarrow> length rules < 256 \<and> length (rules_bytes rules) < 65536 \<and>
     (\<forall>(affixes, ns) \<in> set rules. length affixes = 4 \<and> (\<forall>affix \<in> set affixes. length affix < 256) \<and>
        length ns < 256 \<and> (\<forall>n \<in> set ns. n < tags))"

lemma add_2Bs_eq: "\<forall>n \<in> set ns. n < 65536 \<Longrightarrow> add_2Bs ns enc = Inr (enc @ concat (map bytes2 ns))"
  by (induction ns arbitrary: enc) (simp_all add: add_2B_small)

lemma encode_rule_list_eq:
  "\<forall>(affixes, ns) \<in> set rules. length affixes = 4 \<and> (\<forall>affix \<in> set affixes. length affix < 256) \<and>
      length ns < 256 \<and> (\<forall>n \<in> set ns. n < 65536) \<Longrightarrow>
   encode_rule_list rules e = Inr (e @ concat (map rule_bytes rules))"
  by (induction rules arbitrary: e) (auto simp: save_tag_list_eq add_1B_small add_2Bs_eq rule_bytes_def)

lemma encode_rules_eq:
  assumes "rules_fit tags rules" "tags \<le> 65536"
  shows "encode_rules rules enc = Inr (enc @ rules_entry rules)"
proof -
  have "\<forall>(affixes, ns) \<in> set rules. length affixes = 4 \<and> (\<forall>affix \<in> set affixes. length affix < 256) \<and>
      length ns < 256 \<and> (\<forall>n \<in> set ns. n < 65536)"
    using assms by (fastforce simp: rules_fit_def)
  then have "encode_rule_list rules [of_nat (length rules)] = Inr (rules_bytes rules)"
    by (simp add: encode_rule_list_eq rules_bytes_def)
  then show ?thesis
    using assms(1) by (simp add: encode_rules_def rules_fit_def add_1B_small add_2B_small rules_entry_def)
qed

lemma rule_size_entry: "rules_fit tags rules \<Longrightarrow> rule_size (rules_entry rules @ r) = Some r"
  by (simp add: rule_size_def rules_entry_def rules_fit_def ptr_next_bytes2 ptr_next_take)

lemma ptr_next_affixes_bytes:
  "\<forall>affix \<in> set affixes. length affix < 256 \<Longrightarrow>
   ptr_next_affixes (length affixes) (concat (map tag_bytes affixes) @ r) = Some (affixes, r)"
  by (induction affixes) (simp_all add: tag_bytes_def ptr_next_byte ptr_next_take)

lemma decode_bytes2:
  "\<forall>n \<in> set ns. n < 65536 \<Longrightarrow> decode_many ptr_next_2B (length ns) (concat (map bytes2 ns) @ r) = Some (map of_nat ns, r)"
  by (induction ns) (simp_all add: ptr_next_bytes2)

text \<open>What the rules of one key do to a form.\<close>

definition rule_lemmas :: "string list \<Rightarrow> string \<Rightarrow> guesser_rule \<Rightarrow> tagged_lemma list" where
  "rule_lemmas tags form rule =
     (case fst rule of
        [pref_del, pref_add, suff_del, suff_add] \<Rightarrow>
          (case apply_rule pref_del pref_add suff_del suff_add form of
             None \<Rightarrow> []
           | Some lemma \<Rightarrow> map (\<lambda>n. \<lparr>tl_lemma = lemma, tl_tag = tags ! n\<rparr>) (snd rule))
      | _ \<Rightarrow> [])"

lemma add_tagged_eq:
  "\<forall>n \<in> set ns. n < length tags \<Longrightarrow> length tags \<le> 65536 \<Longrightarrow>
   add_tagged tags lemma (map of_nat ns) found = Some (found @ map (\<lambda>n. \<lparr>tl_lemma = lemma, tl_tag = tags ! n\<rparr>) ns)"
  by (induction ns arbitrary: found) simp_all

lemma apply_rules_eq:
  assumes "\<forall>(affixes, ns) \<in> set rules. length affixes = 4 \<and> (\<forall>affix \<in> set affixes. length affix < 256) \<and>
      length ns < 256 \<and> (\<forall>n \<in> set ns. n < length tags)" "length tags \<le> 65536"
  shows "apply_rules tags form (length rules) (concat (map rule_bytes rules) @ r) found =
    Some (found @ concat (map (rule_lemmas tags form) rules))"
  using assms(1)
proof (induction rules arbitrary: found)
  case (Cons rule rules)
  obtain affixes ns where rule: "rule = (affixes, ns)" by (cases rule)
  then have fit: "length affixes = 4" "\<forall>affix \<in> set affixes. length affix < 256" "length ns < 256" "\<forall>n \<in> set ns. n < length tags"
    using Cons.prems by auto
  then have small: "\<forall>n \<in> set ns. n < 65536" using assms(2) by (meson less_le_trans)
  obtain pd pa sd sa where a: "affixes = [pd, pa, sd, sa]"
    using fit(1) by (auto simp: numeral_eq_Suc length_Suc_conv)
  let ?r = "concat (map rule_bytes rules) @ r"
  have "ptr_next_affixes 4 (concat (map rule_bytes (rule # rules)) @ r) =
      Some ([pd, pa, sd, sa], of_nat (length ns) # concat (map bytes2 ns) @ ?r)"
    using ptr_next_affixes_bytes [OF fit(2), of "of_nat (length ns) # concat (map bytes2 ns) @ ?r"] unfolding fit(1)
    by (simp add: rule rule_bytes_def a del: ptr_next_affixes.simps)
  then show ?case
    using Cons fit(3,4) by (simp add: ptr_next_byte decode_bytes2 [OF small] rule_lemmas_def rule a add_tagged_eq [OF _ assms(2)]
        del: ptr_next_affixes.simps ptr_next_1B.simps split: option.split)
qed simp

section \<open>The search for a rule\<close>

text \<open>
  What the map means: a table with the rules of the keys and no rules for their prefixes. The
  first character of a rule's bytes is the number of its rules.
\<close>

definition represents :: "hash_map \<Rightarrow> (string \<Rightarrow> guesser_rule list option) \<Rightarrow> bool" where
  "represents m table \<longleftrightarrow> (\<forall>label. \<exists>rest. rule_at m label = Some (map_option (\<lambda>rules. rules_entry rules @ rest) (table label)))"

definition prefix_closed :: "(string \<Rightarrow> guesser_rule list option) \<Rightarrow> bool" where
  "prefix_closed table \<longleftrightarrow> (\<forall>label c. label \<noteq> [] \<and> table (label @ [c]) \<noteq> None \<longrightarrow> table label \<noteq> None)"

definition has_rules :: "(string \<Rightarrow> guesser_rule list option) \<Rightarrow> string \<Rightarrow> bool" where
  "has_rules table label \<longleftrightarrow> table label \<noteq> None \<and> table label \<noteq> Some []"

lemma closed_take:
  assumes "prefix_closed table" "0 < i" "i \<le> j" "j \<le> length s" "table (take j s) \<noteq> None"
  shows "table (take i s) \<noteq> None"
  using assms(3-5)
proof (induction j)
  case (Suc j)
  show ?case
  proof (cases "i = Suc j")
    case False
    then have j: "i \<le> j" "j < length s" using Suc.prems by auto
    have "take j s \<noteq> []" using j assms(2) by auto
    moreover have "table (take j s @ [s ! j]) \<noteq> None" using Suc.prems(3) j(2) by (simp add: take_Suc_conv_app_nth)
    ultimately show ?thesis using Suc.IH [OF j(1)] j assms(1) unfolding prefix_closed_def by simp
  qed (use Suc.prems in simp)
qed (use assms(2) in simp)

lemma representsE:
  assumes "represents m table"
  obtains "table label = None" "rule_at m label = Some None"
  | rules rest where "table label = Some rules" "rule_at m label = Some (Some (rules_entry rules @ rest))"
proof -
  obtain rest where "rule_at m label = Some (map_option (\<lambda>rules. rules_entry rules @ rest) (table label))"
    using assms unfolding represents_def by blast
  then show thesis using that by (cases "table label") auto
qed

lemma grow_suffix_max:
  assumes "represents m table" "prefix_closed table"
  shows "k \<le> length form \<Longrightarrow> \<exists>n. grow_suffix m form k = Some n \<and> n \<le> length form \<and>
    (\<forall>i. n < i \<and> i \<le> length form \<longrightarrow> table (take i (rev form)) = None)"
proof (induction "length form - k" arbitrary: k)
  case 0
  then show ?case by (subst grow_suffix.simps) auto
next
  case (Suc l)
  then have k: "k < length form" by simp
  let ?label = "take (k + 1) (rev form)"
  show ?case
  proof (cases rule: representsE [OF assms(1), of ?label])
    case 1
    have "table (take i (rev form)) = None" if "k < i" "i \<le> length form" for i
    proof (rule ccontr)
      assume "table (take i (rev form)) \<noteq> None"
      then have "table ?label \<noteq> None" using that by (intro closed_take [OF assms(2), of "k + 1" i]) simp_all
      then show False using 1(1) by simp
    qed
    then show ?thesis using 1(2) k by (subst grow_suffix.simps) simp
  next
    case 2
    have "l = length form - (k + 1)" "k + 1 \<le> length form" using Suc.hyps(2) k by simp_all
    from Suc.hyps(1) [OF this] show ?thesis using 2(2) k by (subst grow_suffix.simps) simp
  qed
qed

text \<open>The best prefix for a suffix, and the best pair, as the first one in a list.\<close>

definition best_prefix :: "(string \<Rightarrow> guesser_rule list option) \<Rightarrow> string \<Rightarrow> nat \<Rightarrow> nat \<Rightarrow> nat option" where
  "best_prefix table form s k = find (\<lambda>j. has_rules table (rule_label form s j)) (rev [k..<Suc (length form - s)])"

fun best_rule :: "(string \<Rightarrow> guesser_rule list option) \<Rightarrow> string \<Rightarrow> nat \<Rightarrow> (nat \<times> nat) option" where
  "best_rule table form 0 = None"
| "best_rule table form (Suc s) =
     (case best_prefix table form s 0 of Some j \<Rightarrow> Some (s, j) | None \<Rightarrow> best_rule table form s)"

definition rule_data :: "(string \<Rightarrow> guesser_rule list option) \<Rightarrow> string \<Rightarrow> nat \<Rightarrow> nat \<Rightarrow> u8 list" where
  "rule_data table form s j = rules_bytes (case table (rule_label form s j) of Some rules \<Rightarrow> rules | None \<Rightarrow> [])"

lemma find_either: "find P (xs @ ys) = (case find P xs of None \<Rightarrow> find P ys | Some x \<Rightarrow> Some x)"
  by (induction xs) auto

lemma closed_prefix:
  assumes "prefix_closed table" "table (rule_label form s k) = None" "k \<le> j" "j + s \<le> length form"
  shows "table (rule_label form s j) = None"
  using assms(3,4)
proof (induction j rule: dec_induct)
  case (step j)
  have "rule_label form s (Suc j) = rule_label form s j @ [form ! j]"
    using step.prems by (simp add: rule_label_def take_Suc_conv_app_nth)
  moreover have "rule_label form s j \<noteq> []" by (simp add: rule_label_def)
  ultimately show ?case using step assms(1) unfolding prefix_closed_def by (metis Suc_leD add_Suc)
qed (rule assms(2))

lemma rules_entry_drop: "drop 2 (rules_entry rules @ rest) = rules_bytes rules @ rest"
  by (simp add: rules_entry_def bytes2_def numeral_2_eq_2)

lemma best_prefix_none:
  assumes "prefix_closed table" "table (rule_label form s k) = None" "s \<le> length form"
  shows "best_prefix table form s k = None"
  using closed_prefix [OF assms(1,2)] assms(3) by (auto simp: best_prefix_def find_None_iff has_rules_def)

lemma best_prefix_step:
  assumes "k + s \<le> length form"
  shows "best_prefix table form s k = (case best_prefix table form s (k + 1) of Some j \<Rightarrow> Some j
     | None \<Rightarrow> if has_rules table (rule_label form s k) then Some k else None)"
proof -
  have "[k..<Suc (length form - s)] = k # [k + 1..<Suc (length form - s)]" using assms upt_conv_Cons [of k "Suc (length form - s)"] by fastforce
  then show ?thesis by (simp add: best_prefix_def find_either del: upt_Suc split: option.split)
qed

lemma grow_prefix_best:
  assumes "represents m table" "prefix_closed table" "s \<le> length form"
    and "\<forall>label rules. table label = Some rules \<longrightarrow> length rules < 256"
  shows "\<exists>rest. grow_prefix m form s k found = Some (case best_prefix table form s k of None \<Rightarrow> found
     | Some j \<Rightarrow> Some (rule_data table form s j @ rest, j))"
proof (induction "Suc (length form) - k" arbitrary: k found)
  case 0
  then have "[k..<Suc (length form - s)] = []" by simp
  then show ?case using 0 by (subst grow_prefix.simps) (simp add: best_prefix_def del: upt_Suc)
next
  case (Suc l)
  show ?case
  proof (cases "k + s \<le> length form")
    case False
    then have "[k..<Suc (length form - s)] = []" using assms(3) by simp
    then show ?thesis using False by (subst grow_prefix.simps) (simp add: best_prefix_def del: upt_Suc)
  next
    case k: True
    let ?label = "rule_label form s k"
    show ?thesis
    proof (cases rule: representsE [OF assms(1), of ?label])
      case 1
      then show ?thesis using k best_prefix_none [OF assms(2) 1(1) assms(3)] by (subst grow_prefix.simps) simp
    next
      case (2 rules rest)
      have len: "length rules < 256" using assms(4) 2(1) by blast
      then have unat: "unat (of_nat (length rules) :: u8) = length rules" by (simp add: unat_of_nat)
      have zero: "(of_nat (length rules) :: u8) = 0 \<longleftrightarrow> rules = []"
      proof
        assume "(of_nat (length rules) :: u8) = 0"
        then have "unat (of_nat (length rules) :: u8) = 0" by simp
        then show "rules = []" by (simp only: unat length_0_conv)
      qed simp
      let ?found = "if rules \<noteq> [] then Some (rules_bytes rules @ rest, k) else found"
      have eq: "grow_prefix m form s k found = grow_prefix m form s (k + 1) ?found"
      proof -
        have "drop 2 (rules_entry rules @ rest) = of_nat (length rules) # concat (map rule_bytes rules) @ rest"
          by (simp only: rules_entry_drop) (simp add: rules_bytes_def)
        then show ?thesis using k 2(2) zero by (subst grow_prefix.simps) (simp add: rules_bytes_def del: drop_append)
      qed
      obtain rest' where "grow_prefix m form s (k + 1) ?found = Some (case best_prefix table form s (k + 1) of None \<Rightarrow> ?found
          | Some j \<Rightarrow> Some (rule_data table form s j @ rest', j))"
      proof -
        have "l = Suc (length form) - (k + 1)" using Suc.hyps(2) k by linarith
        from Suc.hyps(1) [OF this, of ?found] show ?thesis using that by blast
      qed
      then show ?thesis
        unfolding eq best_prefix_step [OF k] using 2(1)
        by (cases "best_prefix table form s (k + 1)") (auto simp: has_rules_def rule_data_def)
    qed
  qed
qed

lemma pick_rule_best:
  assumes "represents m table" "prefix_closed table" "\<forall>label rules. table label = Some rules \<longrightarrow> length rules < 256"
  shows "n \<le> Suc (length form) \<Longrightarrow> \<exists>rest. pick_rule m form n =
    Some (map_option (\<lambda>(s, j). (s, rule_data table form s j @ rest, j)) (best_rule table form n))"
proof (induction n)
  case (Suc s)
  then obtain rest where "grow_prefix m form s 0 None = Some (case best_prefix table form s 0 of None \<Rightarrow> None
     | Some j \<Rightarrow> Some (rule_data table form s j @ rest, j))"
    using grow_prefix_best [OF assms(1,2) _ assms(3), of s form 0 None] by auto
  then show ?case using Suc by (cases "best_prefix table form s 0") auto
qed simp

text \<open>Longer suffixes than those the first loop has found have no rules.\<close>

lemma best_rule_less:
  assumes "prefix_closed table" "\<forall>i. n < i \<and> i \<le> length form \<longrightarrow> table (take i (rev form)) = None" "n \<le> length form"
  shows "best_rule table form (Suc (length form)) = best_rule table form (Suc n)"
proof -
  have "best_rule table form (Suc k) = best_rule table form (Suc n)" if "n \<le> k" "k \<le> length form" for k
    using that
  proof (induction k rule: dec_induct)
    case (step k)
    let ?s = "Suc k"
    have none: "table (take ?s (rev form)) = None" using assms(2) step by simp
    have "table (rule_label form ?s j) = None" if "j + ?s \<le> length form" for j
    proof -
      have "rule_label form ?s 0 = take ?s (rev form) @ [CHR '' '']" by (simp add: rule_label_def)
      moreover have "take ?s (rev form) \<noteq> []" using step.prems by (cases form) auto
      ultimately have "table (rule_label form ?s 0) = None"
        using none assms(1) unfolding prefix_closed_def by metis
      then show ?thesis using closed_prefix [OF assms(1), of form ?s 0 j] that by simp
    qed
    then have "best_prefix table form ?s 0 = None"
      using step.prems by (simp add: best_prefix_def find_None_iff has_rules_def del: upt_Suc)
    then have "best_rule table form (Suc ?s) = best_rule table form ?s" by (subst best_rule.simps) simp
    then show ?case using step.IH step.prems by (simp del: best_rule.simps)
  qed simp
  from this [of "length form"] show ?thesis using assms(3) by (simp del: best_rule.simps)
qed

section \<open>Guessing\<close>

text \<open>The reference: the rules of the longest suffix that has some, and of those the ones for the longest prefix.\<close>

definition chosen_rules :: "(string \<Rightarrow> guesser_rule list option) \<Rightarrow> string \<Rightarrow> guesser_rule list" where
  "chosen_rules table form =
     (case best_rule table form (Suc (length form)) of
        None \<Rightarrow> []
      | Some (s, j) \<Rightarrow> if s = 0 \<and> j = 0 then [] else (case table (rule_label form s j) of None \<Rightarrow> [] | Some rules \<Rightarrow> rules))"

definition reference_guess :: "string list \<Rightarrow> nat \<Rightarrow> (string \<Rightarrow> guesser_rule list option) \<Rightarrow> string \<Rightarrow> tagged_lemma list" where
  "reference_guess tags default_tag table form =
     (let found = concat (map (rule_lemmas tags form) (chosen_rules table form))
      in if found = [] then [\<lparr>tl_lemma = form, tl_tag = tags ! default_tag\<rparr>] else found)"

definition guesser_ok :: "guesser \<Rightarrow> (string \<Rightarrow> guesser_rule list option) \<Rightarrow> bool" where
  "guesser_ok g table \<longleftrightarrow> represents (mg_rules g) table \<and> prefix_closed table \<and>
     (\<forall>label rules. table label = Some rules \<longrightarrow> rules_fit (length (mg_tags g)) rules) \<and>
     length (mg_tags g) \<le> 65536 \<and> mg_default_tag g < length (mg_tags g)"

lemma best_rule_bounds: "best_rule table form n = Some (s, j) \<Longrightarrow> s < n \<and> j \<le> length form - s \<and> has_rules table (rule_label form s j)"
  by (induction n) (auto simp: best_prefix_def find_Some_iff split: option.splits simp del: upt_Suc,
      metis add.left_neutral length_rev length_upt less_Suc_eq_le nth_mem set_rev set_upt atLeastLessThan_iff minus_nat.diff_0)

lemma guesser_picks:
  assumes "guesser_ok g table"
  shows "\<exists>rest. (case grow_suffix (mg_rules g) form 0 of None \<Rightarrow> None
      | Some n \<Rightarrow> pick_rule (mg_rules g) form (Suc n)) =
    Some (map_option (\<lambda>(s, j). (s, rule_data table form s j @ rest, j)) (best_rule table form (Suc (length form))))"
proof -
  have t: "represents (mg_rules g) table" "prefix_closed table" and small: "\<forall>label rules. table label = Some rules \<longrightarrow> length rules < 256"
    using assms by (auto simp: guesser_ok_def rules_fit_def)
  from grow_suffix_max [OF t, of 0 form] obtain n where n: "grow_suffix (mg_rules g) form 0 = Some n" "n \<le> length form"
      "\<forall>i. n < i \<and> i \<le> length form \<longrightarrow> table (take i (rev form)) = None" by auto
  from pick_rule_best [OF t small, of "Suc n" form] n(2) show ?thesis
    unfolding best_rule_less [OF t(2) n(3,2)] n(1) by simp
qed

text \<open>An analysis never fails; without other calls for the word it gives what the reference gives.\<close>

lemma guesser_analyze_total:
  assumes "guesser_ok g table"
  shows "\<exists>new used'. guesser_analyze g form found used = Some (found @ new, used') \<and> (used = None \<longrightarrow> used' = None) \<and>
    (used = None \<or> used = Some [] \<longrightarrow> new = reference_guess (mg_tags g) (mg_default_tag g) table form)"
proof -
  let ?tags = "mg_tags g" and ?default = "\<lparr>tl_lemma = form, tl_tag = mg_tags g ! mg_default_tag g\<rparr>"
  have default: "mg_default_tag g < length ?tags" and tags: "length ?tags \<le> 65536" using assms by (simp_all add: guesser_ok_def)
  obtain rest where pick: "(case grow_suffix (mg_rules g) form 0 of None \<Rightarrow> None | Some n \<Rightarrow> pick_rule (mg_rules g) form (Suc n)) =
      Some (map_option (\<lambda>(s, j). (s, rule_data table form s j @ rest, j)) (best_rule table form (Suc (length form))))"
    using guesser_picks [OF assms] by blast
  let ?new = "concat (map (rule_lemmas ?tags form) (chosen_rules table form))"
  consider (none) "best_rule table form (Suc (length form)) = None"
    | (some) s j where "best_rule table form (Suc (length form)) = Some (s, j)" by (cases "best_rule table form (Suc (length form))") auto
  then show ?thesis
  proof cases
    case none
    then show ?thesis
      using default unfolding guesser_analyze_def pick
      by (auto simp: chosen_rules_def reference_guess_def use_rule_def rule_used_def split: option.splits)
  next
    case some
    from best_rule_bounds [OF some] obtain rules where rules: "table (rule_label form s j) = Some rules" "s \<le> length form" "j \<le> length form"
      by (auto simp: has_rules_def)
    have len: "length (rule_label form s j) = s + j + 1" using rules by (simp add: rule_label_def)
    have fit: "rules_fit (length ?tags) rules" using assms rules(1) by (simp add: guesser_ok_def)
    then have "length rules < 256" by (simp add: rules_fit_def)
    then have n: "unat (of_nat (length rules) :: u8) = length rules" by (simp add: unat_of_nat)
    have data: "rule_data table form s j @ rest = of_nat (length rules) # concat (map rule_bytes rules) @ rest"
      using rules(1) by (simp add: rule_data_def rules_bytes_def)
    have applied: "apply_rules ?tags form (length rules) (concat (map rule_bytes rules) @ rest) found =
        Some (found @ concat (map (rule_lemmas ?tags form) rules))"
      using fit tags by (intro apply_rules_eq) (auto simp: rules_fit_def)
    have new: "s + j > 0 \<Longrightarrow> ?new = concat (map (rule_lemmas ?tags form) rules)" "s + j = 0 \<Longrightarrow> ?new = []"
      using some rules(1) by (auto simp: chosen_rules_def simp del: best_rule.simps)
    show ?thesis
    proof (cases "s + j > 0 \<and> \<not> rule_used used (rule_label form s j)")
      case True
      have "guesser_analyze g form found used =
          (let found' = found @ ?new; used = use_rule (rule_label form s j) used
           in if ?new = [] \<and> \<not> rule_used used [] then Some (found' @ [?default], use_rule [] used) else Some (found', used))"
        using True default unfolding guesser_analyze_def pick some new(1) [OF conjunct1 [OF True]]
        by (simp add: data applied n len Let_def del: concat_eq_Nil_conv)
      moreover have "[] \<noteq> rule_label form s j" by (simp add: rule_label_def)
      ultimately show ?thesis by (auto simp: Let_def reference_guess_def use_rule_def rule_used_def)
    next
      case False
      have "guesser_analyze g form found used =
          (if \<not> rule_used used [] then Some (found @ [?default], use_rule [] used) else Some (found, used))"
        using False default unfolding guesser_analyze_def pick some by (simp add: data len Let_def) blast
      then show ?thesis using False new(2) by (auto simp: reference_guess_def use_rule_def rule_used_def split: option.splits)
    qed
  qed
qed

section \<open>Encoded guessers\<close>

text \<open>What reading a description guarantees: numbers of tags that are there, and rules of four parts.\<close>

definition rules_ok :: "string list \<Rightarrow> guesser_rule list \<Rightarrow> bool" where
  "rules_ok tags rules \<longleftrightarrow> (\<forall>(affixes, ns) \<in> set rules. length affixes = 4 \<and> (\<forall>n \<in> set ns. n < length tags))"

definition description_ok :: "(string \<times> guesser_rule list) list \<times> string list \<Rightarrow> bool" where
  "description_ok t \<longleftrightarrow> distinct (map fst (fst t)) \<and> (\<forall>(key, rules) \<in> set (fst t). rules_ok (snd t) rules)"

lemma emplace_tag_ok: "emplace_tag tag tags = (n, tags') \<Longrightarrow> n < length tags' \<and> length tags \<le> length tags'"
  using length_takeWhile_le [of "\<lambda>t. t \<noteq> tag" tags] by (auto simp: emplace_tag_def Let_def split: if_splits)

lemma number_tags_ok: "number_tags ts tags = (ns, tags') \<Longrightarrow> (\<forall>n \<in> set ns. n < length tags') \<and> length tags \<le> length tags'"
proof (induction ts arbitrary: tags ns tags')
  case (Cons t ts)
  obtain n tags1 where 1: "emplace_tag t tags = (n, tags1)" by fastforce
  obtain ns' tags2 where 2: "number_tags ts tags1 = (ns', tags2)" by fastforce
  then show ?case using Cons.IH [OF 2] Cons.prems emplace_tag_ok [OF 1] by (auto simp: 1 2)
qed simp

lemma rules_ok_mono: "rules_ok tags rules \<Longrightarrow> length tags \<le> length tags' \<Longrightarrow> rules_ok tags' rules"
  by (fastforce simp: rules_ok_def)

lemma read_rules_ok: "read_rules columns tags = Inr (rules, tags') \<Longrightarrow> rules_ok tags' rules \<and> length tags \<le> length tags'"
proof (induction columns tags arbitrary: rules rule: read_rules.induct)
  case (1 rule rule_tags columns tags)
  obtain ns tags1 where ns: "number_tags (split rule_tags CHR '' '') tags = (ns, tags1)" by fastforce
  have four: "length (split rule CHR '' '') = 4" using "1.prems" by (auto simp: Let_def split: if_splits)
  then obtain rules1 where r: "read_rules columns tags1 = Inr (rules1, tags')" "rules = (split rule CHR '' '', ns) # rules1"
    using "1.prems" by (auto simp: Let_def ns split: sum.splits)
  have "rules_ok tags' rules1 \<and> length tags1 \<le> length tags'"
    by (rule "1.IH" [OF refl _ ns [symmetric] refl r(1)]) (simp add: four)
  then show ?case using number_tags_ok [OF ns] four by (auto simp: r(2) rules_ok_def)
qed (auto simp: rules_ok_def)

lemma append_rules_set: "set (append_rules key rules table) \<subseteq> insert (key, rules) (set table) \<union> {(key, rs @ rules) | rs. (key, rs) \<in> set table}"
  by (induction key rules table rule: append_rules.induct) auto

lemma append_rules_keys: "fst ` set (append_rules key rules table) = insert key (fst ` set table)"
  by (induction key rules table rule: append_rules.induct) auto

lemma append_rules_distinct: "distinct (map fst table) \<Longrightarrow> distinct (map fst (append_rules key rules table))"
proof (induction key rules table rule: append_rules.induct)
  case (2 key rules key' rules' table)
  then show ?case using append_rules_keys [of key rules table] by auto
qed simp

lemma append_rules_ok:
  assumes "description_ok (table, tags)" "rules_ok tags' rules" "length tags \<le> length tags'"
  shows "description_ok (append_rules key rules table, tags')"
proof -
  have old: "rules_ok tags' rs" if "(k, rs) \<in> set table" for k rs
    using that assms(1) rules_ok_mono [OF _ assms(3)] by (fastforce simp: description_ok_def)
  have "rules_ok tags' (rs @ rules)" if "(key, rs) \<in> set table" for rs
    using old [OF that] assms(2) by (auto simp: rules_ok_def)
  then have "\<forall>(k, rs) \<in> set (append_rules key rules table). rules_ok tags' rs"
    using append_rules_set [of key rules table] old assms(2) by fastforce
  then show ?thesis using append_rules_distinct assms(1) by (auto simp: description_ok_def)
qed

lemma read_guesser_lines_ok:
  "read_guesser_lines input table tags = Inr (table', tags') \<Longrightarrow> description_ok (table, tags) \<Longrightarrow>
   description_ok (table', tags') \<and> length tags \<le> length tags'"
proof (induction input table tags rule: read_guesser_lines.induct)
  case (1 input table tags)
  show ?case
  proof (cases "getline input")
    case None
    then show ?thesis using "1.prems" by (simp add: read_guesser_lines.simps)
  next
    case (Some p)
    obtain line rest where p: "p = (line, rest)" by (cases p)
    with Some "1.prems"(1) obtain table1 tags1 where l: "read_guesser_line line table tags = Inr (table1, tags1)"
        "read_guesser_lines rest table1 tags1 = Inr (table', tags')"
      by (subst (asm) read_guesser_lines.simps) (auto split: sum.splits)
    then obtain rules key where "read_rules (tl (split line tab)) tags = Inr (rules, tags1)" "table1 = append_rules key rules table"
      by (auto simp: read_guesser_line_def Let_def split: if_splits sum.splits)
    then have ok: "description_ok (table1, tags1)" "length tags \<le> length tags1"
      using read_rules_ok append_rules_ok "1.prems"(2) by blast+
    then show ?thesis using "1.IH" [OF Some p [symmetric] l(1) refl l(2)] by simp
  qed
qed

lemma read_guesser_ok:
  assumes "read_guesser input = Inr (table, tags, default_tag)"
  shows "description_ok (table, tags) \<and> default_tag < length tags"
proof -
  from assms obtain line rest where l: "getline input = Some (line, rest)" by (auto simp: read_guesser_def split: option.splits)
  obtain n tags1 where n: "emplace_tag (c_str line) [] = (n, tags1)" by fastforce
  then have r: "read_guesser_lines rest [] tags1 = Inr (table, tags)" "default_tag = n"
    using assms by (auto simp: read_guesser_def l split: sum.splits)
  have "description_ok ([], tags1)" by (simp add: description_ok_def)
  from read_guesser_lines_ok [OF r(1) this] show ?thesis using emplace_tag_ok [OF n] r(2) by auto
qed

text \<open>The sizes for which the file format has room.\<close>

definition hash_entries :: "(string \<times> guesser_rule list) list \<Rightarrow> (u8 list \<times> guesser_rule list) list" where
  "hash_entries table = with_affixes True False [] (map (\<lambda>(key, rules). (map byte8 key, rules)) table)"

definition guesser_fits :: "(string \<times> guesser_rule list) list \<Rightarrow> string list \<Rightarrow> bool" where
  "guesser_fits table tags \<longleftrightarrow> tags_fit tags \<and>
     (\<forall>(key, rules) \<in> set table. length key < 255 \<and> length rules < 256 \<and> length (rules_bytes rules) < 65536 \<and>
        (\<forall>(affixes, ns) \<in> set rules. (\<forall>affix \<in> set affixes. length affix < 256) \<and> length ns < 256)) \<and>
     length (bytes_of (encoded rules_entry (hash_entries table))) < 2 ^ 31 \<and> 5 * length (hash_entries table) \<le> 2 ^ 31"

text \<open>The rules of the table, and no rules for the proper prefixes of its keys.\<close>

definition closure :: "(string \<times> guesser_rule list) list \<Rightarrow> string \<Rightarrow> guesser_rule list option" where
  "closure table label = (case map_of table label of Some rules \<Rightarrow> Some rules
     | None \<Rightarrow> if label \<noteq> [] \<and> (\<exists>rest. rest \<noteq> [] \<and> label @ rest \<in> fst ` set table) then Some [] else None)"

lemma closure_closed: "prefix_closed (closure table)"
  unfolding prefix_closed_def
proof (intro allI impI)
  fix label c assume a: "label \<noteq> [] \<and> closure table (label @ [c]) \<noteq> None"
  have "\<exists>rest. rest \<noteq> [] \<and> label @ rest \<in> fst ` set table"
  proof (cases "map_of table (label @ [c])")
    case None
    then obtain rest where "label @ (c # rest) \<in> fst ` set table" using a by (auto simp: closure_def split: if_splits)
    then show ?thesis by blast
  next
    case (Some rules)
    then have "label @ [c] \<in> fst ` set table" by (force dest: map_of_SomeD)
    then show ?thesis by blast
  qed
  then show "closure table label \<noteq> None" using a by (auto simp: closure_def split: option.split)
qed

lemma byte8_inject: "map byte8 a = map byte8 b \<longleftrightarrow> a = b"
  by (metis char8_byte8_map map_map)

lemma map_of_bytes: "map_of (map (\<lambda>(key, rules). (map byte8 key, rules)) table) (map byte8 label) = map_of table label"
  by (induction table) (auto simp: byte8_inject)

lemma ex_image: "(\<exists>key \<in> K. P \<and> (\<exists>rest. Q rest \<and> key = f rest)) \<longleftrightarrow> P \<and> (\<exists>rest. Q rest \<and> f rest \<in> K)"
  by blast

lemma hash_entries_closure:
  assumes "distinct (map fst table)"
  shows "map_of (hash_entries table) (map byte8 label) = closure table label"
proof -
  let ?table = "map (\<lambda>(key, rules). (map byte8 key, rules)) table"
  have keys: "map fst ?table = map (map byte8) (map fst table)" by (induction table) auto
  have "inj (map byte8)" by (rule injI) (simp add: byte8_inject)
  then have "distinct (map fst ?table)" using assms inj_on_subset by (simp only: keys distinct_map) blast
  note 1 = with_affixes_map_of [OF this, of True False "[]" "map byte8 label"]
  have "(\<exists>key \<in> fst ` set ?table. is_affix True False key (map byte8 label)) \<longleftrightarrow>
      label \<noteq> [] \<and> (\<exists>rest. rest \<noteq> [] \<and> label @ rest \<in> fst ` set table)"
  proof -
    have affix: "is_affix True False (map byte8 key) (map byte8 label) \<longleftrightarrow> label \<noteq> [] \<and> (\<exists>rest. rest \<noteq> [] \<and> key = label @ rest)" for key
      by (auto simp: is_affix_def map_eq_append_conv byte8_inject)
    have set: "fst ` set ?table = map byte8 ` fst ` set table" by (simp only: set_map [symmetric] keys)
    have "(\<exists>key \<in> fst ` set ?table. is_affix True False key (map byte8 label)) \<longleftrightarrow>
        (\<exists>key \<in> fst ` set table. is_affix True False (map byte8 key) (map byte8 label))"
      unfolding set by (rule bex_simps(7))
    then show ?thesis by (simp only: affix ex_image)
  qed
  then show ?thesis using 1 by (simp only: hash_entries_def closure_def map_of_bytes)
qed

lemma closure_has_rules: "has_rules (closure table) = has_rules (map_of table)"
  by (rule ext) (simp add: has_rules_def closure_def split: option.split)

lemma closure_chosen: "chosen_rules (closure table) form = chosen_rules (map_of table) form"
proof -
  have "best_prefix (closure table) = best_prefix (map_of table)"
    by (intro ext) (simp add: best_prefix_def closure_has_rules)
  then have best: "best_rule (closure table) form n = best_rule (map_of table) form n" for n
    by (induction n) (simp_all split: option.split)
  show ?thesis
  proof (cases "best_rule (map_of table) form (Suc (length form))")
    case None
    then show ?thesis by (simp add: chosen_rules_def best del: best_rule.simps)
  next
    case (Some p)
    obtain s j where p: "p = (s, j)" by (cases p)
    have "has_rules (map_of table) (rule_label form s j)" using best_rule_bounds Some p by blast
    then show ?thesis by (auto simp: chosen_rules_def best Some p has_rules_def closure_def simp del: best_rule.simps)
  qed
qed

lemma byte8_char8 [simp]: "byte8 (char8 b) = b"
proof -
  have "unat b < 256" using unsigned_less [of b, where 'a = nat] by simp
  then have "byte_of (char8 b) = unat b" by (simp add: char8_def)
  then show ?thesis by (simp add: byte8_def)
qed

lemma hash_entries_sorted: "distinct (map fst table) \<Longrightarrow> distinct (map fst (hash_entries table))"
proof -
  assume d: "distinct (map fst table)"
  let ?table = "map (\<lambda>(key, rules). (map byte8 key, rules)) table"
  have keys: "map fst ?table = map (map byte8) (map fst table)" by (induction table) auto
  have "inj (map byte8)" by (rule injI) (simp add: byte8_inject)
  then have "distinct (map fst ?table)" using d inj_on_subset by (simp only: keys distinct_map) blast
  then have "key_sorted (std_map ?table)" using std_map_fold [of "[]" ?table] by (simp add: std_map_def)
  from conjunct1 [OF add_affixes_fold [OF this, of True False "[]" ?table]]
  have "key_sorted (hash_entries table)" by (simp only: hash_entries_def with_affixes_def)
  then show "distinct (map fst (hash_entries table))" by (rule key_sorted_distinct)
qed

lemma hash_entries_cases:
  assumes "distinct (map fst table)" "(k, rules) \<in> set (hash_entries table)"
  shows "\<exists>label key. k = map byte8 label \<and> key \<in> fst ` set table \<and> length label \<le> length key \<and>
    (rules = [] \<or> (label, rules) \<in> set table)"
proof -
  let ?label = "map char8 k"
  have k: "k = map byte8 ?label" by (induction k) simp_all
  have "map_of (hash_entries table) k = Some rules"
    using hash_entries_sorted [OF assms(1)] assms(2) by simp
  then have c: "closure table ?label = Some rules" using hash_entries_closure [OF assms(1), of ?label] k by simp
  show ?thesis
  proof (cases "map_of table ?label")
    case None
    then obtain rest where "?label @ rest \<in> fst ` set table" "rules = []"
      using c by (auto simp: closure_def split: if_splits)
    then show ?thesis using k by (intro exI [of _ ?label] exI [of _ "?label @ rest"]) simp
  next
    case (Some rs)
    then have "(?label, rules) \<in> set table" using c by (auto simp: closure_def dest: map_of_SomeD)
    then show ?thesis using k by (intro exI [of _ ?label]) force
  qed
qed

lemma guesser_saved:
  assumes r: "read_guesser input = Inr (table, tags, default_tag)" and fits: "guesser_fits table tags"
  shows "\<exists>bs g. (\<forall>enc. encode_guesser input enc = Some (Inr (enc @ bs))) \<and> reads load_guesser bs g \<and>
    guesser_ok g (closure table) \<and> mg_tags g = tags \<and> mg_default_tag g = default_tag"
proof -
  let ?m = "hash_entries table"
  have ok: "description_ok (table, tags)" "default_tag < length tags" using read_guesser_ok [OF r] by auto
  then have d: "distinct (map fst table)" by (simp add: description_ok_def)
  have tags: "tags_fit tags" "length tags < 65536" using fits by (auto simp: guesser_fits_def tags_fit_def)
  have fit: "rules_fit (length tags) rules" if "(key, rules) \<in> set table" for key rules
    using that fits ok(1) by (fastforce simp: guesser_fits_def description_ok_def rules_fit_def rules_ok_def)
  have fit_Nil: "rules_fit (length tags) []" by (simp add: rules_fit_def rules_bytes_def)
  have key: "length key < 255" if "key \<in> fst ` set table" for key using that fits by (fastforce simp: guesser_fits_def)
  have entries: "\<forall>(k, rules) \<in> set ?m. encode_rules rules [] = Inr (rules_entry rules) \<and> length k < 255 \<and>
      (k = [] \<longrightarrow> rules_entry rules \<noteq> []) \<and> (\<forall>r. rule_size (rules_entry rules @ r) = Some r)"
  proof (intro ballI, clarify)
    fix k rules assume "(k, rules) \<in> set ?m"
    from hash_entries_cases [OF d this] obtain label key where l: "k = map byte8 label" "key \<in> fst ` set table"
        "length label \<le> length key" "rules = [] \<or> (label, rules) \<in> set table" by blast
    then have "rules_fit (length tags) rules" using fit fit_Nil by blast
    then show "encode_rules rules [] = Inr (rules_entry rules) \<and> length k < 255 \<and>
        (k = [] \<longrightarrow> rules_entry rules \<noteq> []) \<and> (\<forall>r. rule_size (rules_entry rules @ r) = Some r)"
      using encode_rules_eq [of "length tags" rules "[]"] rule_size_entry tags(2) l(1,3) key [OF l(2)]
      by (simp add: rules_entry_def bytes2_def)
  qed
  have "length (bytes_of (encoded rules_entry ?m)) < 2 ^ 31" "5 * length ?m \<le> 2 ^ 31"
    using fits unfolding guesser_fits_def by blast+
  from hm_construct_lookup [of ?m encode_rules rules_entry rule_size 5, OF entries this] obtain hs bs where hs: "hm_construct 5 encode_rules ?m = Some (Inr hs)"
      "\<And>out. hm_save hs out = Inr (out @ bs)" "reads hm_load bs hs"
      "\<And>str. \<exists>rest. hm_at rule_size str hs = Some (map_option (\<lambda>e. rules_entry e @ rest) (map_of ?m str))"
    by blast
  have new: "new_affix_map 5 True False [] encode_rules (map (\<lambda>(key, rules). (map byte8 key, rules)) table) = Some (Inr hs)"
    using hs(1) unfolding new_affix_map_def hash_entries_def with_affixes_def .
  from save_load_tags [OF tags(1)] obtain ts where ts: "\<And>enc. save_tags tags enc = Inr (enc @ ts)" "reads load_tags ts tags" by blast
  have default: "default_tag < 65536" using ok(2) tags(2) by simp
  let ?g = "\<lparr>mg_tags = tags, mg_default_tag = default_tag, mg_rules = hs\<rparr>"
  have "unat (of_nat default_tag :: u32) = default_tag" using default by simp
  then have "reads (\<lambda>d. case hm_load d of Inl error \<Rightarrow> Inl error
      | Inr (rules, d) \<Rightarrow> Inr (\<lparr>mg_tags = tags, mg_default_tag = unat (of_nat default_tag :: u32), mg_rules = rules\<rparr>, d)) bs ?g"
    using reads_map [OF hs(3), of "\<lambda>rules. \<lparr>mg_tags = tags, mg_default_tag = unat (of_nat default_tag :: u32), mg_rules = rules\<rparr>"] by simp
  then have "reads load_guesser (ts @ bytes2 default_tag @ bs) ?g"
    unfolding load_guesser_def by (intro reads_bind [OF ts(2)], intro reads_bind [OF reads_2B [OF default]])
  moreover have "encode_guesser input enc = Some (Inr (enc @ ts @ bytes2 default_tag @ bs))" for enc
    by (simp add: encode_guesser_def r ts(1) add_2B_small default new hs(2))
  moreover have "guesser_ok ?g (closure table)"
  proof -
    have "represents hs (closure table)"
      using hs(4) by (simp add: represents_def rule_at_def flip: hash_entries_closure [OF d])
    moreover have "rules_fit (length tags) rules" if "closure table label = Some rules" for label rules
      using that fit fit_Nil by (auto simp: closure_def split: option.splits if_splits dest: map_of_SomeD)
    ultimately show ?thesis using closure_closed ok(2) tags(2) by (simp add: guesser_ok_def)
  qed
  ultimately show ?thesis by (intro exI [of _ "ts @ bytes2 default_tag @ bs"] exI [of _ ?g]) simp
qed

section \<open>Properties\<close>

text \<open>
  C17: a guesser that was encoded from its description, behind any other data, and loaded again
  guesses what the description says: the lemmas and tags of the rules for the longest suffix of a
  form that has rules, and among them for the longest prefix, or else the form with the default tag.
  This needs the numbers of the description to fit in the bytes of the file format.
\<close>

theorem guesser_encoded:
  assumes "read_guesser input = Inr (table, tags, default_tag)" "guesser_fits table tags"
  shows "\<exists>bs. (\<forall>enc. encode_guesser input enc = Some (Inr (enc @ bs))) \<and>
    (\<forall>d r. bd_wf d \<and> bd_rest d = bs @ r \<longrightarrow>
      (\<exists>g d'. load_guesser d = Inr (g, d') \<and> bd_rest d' = r \<and>
        (\<forall>form. guesser_analyze g form [] None = Some (reference_guess tags default_tag (map_of table) form, None))))"
proof -
  obtain bs g where g: "\<forall>enc. encode_guesser input enc = Some (Inr (enc @ bs))" "reads load_guesser bs g"
      "guesser_ok g (closure table)" "mg_tags g = tags" "mg_default_tag g = default_tag"
    using guesser_saved [OF assms] by blast
  have "guesser_analyze g form [] None = Some (reference_guess tags default_tag (map_of table) form, None)" for form
  proof -
    have "reference_guess tags default_tag (closure table) form = reference_guess tags default_tag (map_of table) form"
      by (simp add: reference_guess_def closure_chosen)
    then show ?thesis using guesser_analyze_total [OF g(3), of form "[]" None] g(4,5) by auto
  qed
  then show ?thesis using g(1,2) unfolding reads_def by blast
qed

text \<open>The default tag is a noun; a form that ends in \<open>s\<close> is a plural.\<close>

definition sample_description :: string where
  "sample_description = ''N'' @ [lf] @ '' s'' @ [tab] @ ''  s '' @ [tab] @ ''P'' @ [lf]"

lemma sample_read: "read_guesser sample_description = Inr ([(''s '', [([[], [], ''s'', []], [1])])], [''N'', ''P''], 0)"
  by (simp add: read_guesser_def sample_description_def getline_def emplace_tag_def c_str_def read_guesser_lines.simps
      read_guesser_line_def split_def split_pieces.simps)

lemma guesser_encoded_witness:
  "\<exists>bs. (\<forall>enc. encode_guesser sample_description enc = Some (Inr (enc @ bs))) \<and>
    (\<forall>d r. bd_wf d \<and> bd_rest d = bs @ r \<longrightarrow>
      (\<exists>g d'. load_guesser d = Inr (g, d') \<and> bd_rest d' = r \<and>
        (\<forall>form. guesser_analyze g form [] None =
          Some (reference_guess [''N'', ''P''] 0 (map_of [(''s '', [([[], [], ''s'', []], [1])])]) form, None))))"
  by (rule guesser_encoded [OF sample_read])
    (simp add: guesser_fits_def tags_fit_def rules_bytes_def rule_bytes_def tag_bytes_def bytes2_def hash_entries_def
      with_affixes_def std_map_def add_affixes_def rules_entry_def bytes_of_def)

end
