(* ===== verification/Alignment.thy ===== *)
theory Alignment
  imports Complex_Main "HOL-Library.Sublist" Line_Formats Utf8
begin

text \<open>
  The word alignment of \<open>src/model/evaluator.cpp\<close>: the data collected from the sentences, the F1
  scores, and the alignment of system and gold words. Words of multiword tokens are aligned by a
  longest common subsequence of their forms, all others by their character ranges.

  The proofs show that the score of two lists of spans counts their common spans, that the table
  and the walk through it give a longest common subsequence, that the alignment returns as long as
  no multiword token is empty (and loops for ever on one that is), and that data aligned with
  itself scores one.
\<close>

section \<open>Model\<close>

record eval_word =
  ew_start :: nat
  ew_end :: nat
  ew_multiword :: bool
  ew_word :: word_data

record eval_data =
  ed_chars :: "nat list"
  ed_sentences :: "(nat \<times> nat) list"
  ed_tokens :: "(nat \<times> nat) list"
  ed_multiwords :: "(nat \<times> string) list"
  ed_words :: "eval_word list"

definition no_eval_data :: eval_data where
  "no_eval_data = \<lparr>ed_chars = [], ed_sentences = [], ed_tokens = [], ed_multiwords = [], ed_words = []\<rparr>"

text \<open>Heads are absolute, forms lowercase and relations without their subtypes.\<close>

definition mk_eval_word :: "unicode_tables \<Rightarrow> nat \<Rightarrow> nat \<Rightarrow> int \<Rightarrow> bool \<Rightarrow> word_data \<Rightarrow> eval_word" where
  "mk_eval_word u start stop i multiword w =
     \<lparr>ew_start = start, ew_end = stop, ew_multiword = multiword,
      ew_word = w\<lparr>w_id := i, w_head := (if w_head w \<noteq> 0 then i + (w_head w - w_id w) else 0),
        tk_form := utf8_map (unicode_lowercase u) (tk_form w),
        w_deprel := takeWhile (\<lambda>c. c \<noteq> CHR '':'') (w_deprel w)\<rparr>\<rparr>"

definition add_eval_word :: "unicode_tables \<Rightarrow> nat \<Rightarrow> nat \<Rightarrow> bool \<Rightarrow> word_data \<Rightarrow> eval_data \<Rightarrow> eval_data" where
  "add_eval_word u start stop multiword w d =
     d\<lparr>ed_words := ed_words d @ [mk_eval_word u start stop (int (length (ed_words d)) + 1) multiword w]\<rparr>"

definition add_multiword_word :: "unicode_tables \<Rightarrow> nat \<Rightarrow> nat \<Rightarrow> word_data \<Rightarrow> eval_data \<Rightarrow> eval_data" where
  "add_multiword_word u start stop w d =
     (let d = add_eval_word u start stop True w d; (pos, text) = last (ed_multiwords d)
      in d\<lparr>ed_multiwords := butlast (ed_multiwords d) @ [(pos, text @ '' '' @ tk_form (ew_word (last (ed_words d))))]\<rparr>)"

text \<open>
  The loop over the words. A multiword token that reaches behind the last word reads out of bounds
  in the code: \<open>None\<close>.
\<close>

function add_tokens :: "unicode_tables \<Rightarrow> word_data list \<Rightarrow> nat \<Rightarrow> multiword_token list \<Rightarrow> eval_data \<Rightarrow> eval_data option" where
  "add_tokens u ws i ms d =
     (if i < length ws then
        let multiword = ms \<noteq> [] \<and> mwt_id_first (hd ms) = int i;
            form = (if multiword then tk_form (hd ms) else tk_form (ws ! i));
            start = length (ed_chars d);
            chars = ed_chars d @ filter (\<lambda>chr. chr \<noteq> 32) (utf8_decode_all form);
            stop = length chars;
            d = d\<lparr>ed_chars := chars, ed_tokens := ed_tokens d @ [(start, stop)]\<rparr>
        in if multiword then
             if mwt_id_last (hd ms) < int (length ws) then
               add_tokens u ws ((u64 (mwt_id_last (hd ms)) + 1) mod 2 ^ 64) (tl ms)
                 (fold (\<lambda>k. add_multiword_word u start stop (ws ! k)) [i..<nat (mwt_id_last (hd ms) + 1)]
                   (d\<lparr>ed_multiwords := ed_multiwords d @ [(start, form)]\<rparr>))
             else None
           else add_tokens u ws (i + 1) ms (add_eval_word u start stop False (ws ! i) d)
      else Some d)"
  by pat_completeness auto
termination
  by (relation "measures [\<lambda>(u, ws, i, ms, d). length ms, \<lambda>(u, ws, i, ms, d). length ws - i]") auto

declare add_tokens.simps [simp del]

definition add_sentence :: "unicode_tables \<Rightarrow> sentence \<Rightarrow> eval_data \<Rightarrow> eval_data option" where
  "add_sentence u s d =
     map_option (\<lambda>d'. d'\<lparr>ed_sentences := ed_sentences d @ [(length (ed_chars d), length (ed_chars d'))]\<rparr>)
       (add_tokens u (s_words s) 1 (s_multiword_tokens s) d)"

text \<open>The scores. Numbers of type \<open>double\<close> are exact here.\<close>

record f1_info =
  f1_total_system :: nat
  f1_total_gold :: nat
  f1_precision :: rat
  f1_recall :: rat
  f1_f1 :: rat

definition mk_f1 :: "nat \<Rightarrow> nat \<Rightarrow> nat \<Rightarrow> f1_info" where
  "mk_f1 both system gold =
     \<lparr>f1_total_system = system, f1_total_gold = gold,
      f1_precision = (if system \<noteq> 0 then of_nat both / of_nat system else 0),
      f1_recall = (if gold \<noteq> 0 then of_nat both / of_nat gold else 0),
      f1_f1 = (if system + gold \<noteq> 0 then 2 * of_nat both / of_nat (system + gold) else 0)\<rparr>"

fun count_both :: "(nat \<times> 'a) list \<Rightarrow> (nat \<times> 'a) list \<Rightarrow> nat" where
  "count_both ((a, x) # ss) ((b, y) # gs) =
     (if a < b then count_both ss ((b, y) # gs)
      else if b < a then count_both ((a, x) # ss) gs
      else (if x = y then 1 else 0) + count_both ss gs)"
| "count_both _ _ = 0"

definition evaluate_spans :: "(nat \<times> 'a) list \<Rightarrow> (nat \<times> 'a) list \<Rightarrow> f1_info" where
  "evaluate_spans system gold = mk_f1 (count_both system gold) (length system) (length gold)"

record alignment =
  al_matched :: "(word_data \<times> word_data) list"
  al_total_system :: nat
  al_total_gold :: nat

definition evaluate_words :: "(word_data \<Rightarrow> word_data \<Rightarrow> bool) \<Rightarrow> alignment \<Rightarrow> f1_info" where
  "evaluate_words equals al =
     mk_f1 (length (filter (\<lambda>(s, g). equals s g) (al_matched al))) (al_total_system al) (al_total_gold al)"

definition perfect_alignment :: "eval_data \<Rightarrow> eval_data \<Rightarrow> alignment option" where
  "perfect_alignment system gold =
     (let ss = map ew_word (ed_words system); gs = map ew_word (ed_words gold) in
      if length ss \<noteq> length gs then None
      else if map tk_form ss \<noteq> map tk_form gs then None
      else Some \<lparr>al_matched = zip ss gs, al_total_system = length ss, al_total_gold = length gs\<rparr>)"

text \<open>
  The best alignment. The lists are the words from \<open>si\<close> and \<open>gi\<close> on; the multiword range is
  given as the numbers of system and gold words it takes.
\<close>

definition no_multiword :: "eval_word \<Rightarrow> eval_word \<Rightarrow> bool" where
  "no_multiword s g \<longleftrightarrow> (ew_start s > ew_start g \<or> \<not> ew_multiword s) \<and> (ew_start g > ew_start s \<or> \<not> ew_multiword g)"

fun in_range :: "nat \<Rightarrow> eval_word list \<Rightarrow> bool" where
  "in_range range_end [] \<longleftrightarrow> False"
| "in_range range_end (w # ws) \<longleftrightarrow> (if ew_multiword w then ew_start w < range_end else ew_end w \<le> range_end)"

definition extend_range :: "nat \<Rightarrow> eval_word \<Rightarrow> nat" where
  "extend_range range_end w = (if ew_multiword w then max range_end (ew_end w) else range_end)"

function range_words :: "nat \<Rightarrow> eval_word list \<Rightarrow> eval_word list \<Rightarrow> nat \<times> nat" where
  "range_words range_end ss gs =
     (if in_range range_end ss \<or> in_range range_end gs then
        if ss \<noteq> [] \<and> (gs = [] \<or> ew_start (hd ss) \<le> ew_start (hd gs)) then
          (case range_words (extend_range range_end (hd ss)) (tl ss) gs of (m, n) \<Rightarrow> (m + 1, n))
        else (case range_words (extend_range range_end (hd gs)) ss (tl gs) of (m, n) \<Rightarrow> (m, n + 1))
      else (0, 0))"
  by pat_completeness auto
termination
proof (relation "measure (\<lambda>(r, ss, gs). length ss + length gs)", goal_cases)
  case (3 r ss gs)
  then show ?case by (cases gs) auto
qed auto

declare range_words.simps [simp del]

text \<open>The table of the longest common subsequences of all suffixes, built from its end.\<close>

fun first_cell :: "nat list \<Rightarrow> nat" where
  "first_cell [] = 0"
| "first_cell (c # cs) = c"

fun lcs_row :: "string \<Rightarrow> string list \<Rightarrow> nat list \<Rightarrow> nat list" where
  "lcs_row f [] below = []"
| "lcs_row f (g # gs) below =
     (let row = lcs_row f gs (tl below);
          c = max (first_cell below) (first_cell row)
      in (if f = g then max c (1 + first_cell (tl below)) else c) # row)"

fun first_row :: "nat list list \<Rightarrow> nat list" where
  "first_row [] = []"
| "first_row (row # rows) = row"

fun lcs_table :: "string list \<Rightarrow> string list \<Rightarrow> nat list list" where
  "lcs_table [] gs = []"
| "lcs_table (f # fs) gs = (let rows = lcs_table fs gs in lcs_row f gs (first_row rows) # rows)"

text \<open>The walk through the table; it is always at the upper left corner of what is left of it.\<close>

abbreviation form_of :: "eval_word \<Rightarrow> string" where
  "form_of w \<equiv> tk_form (ew_word w)"

fun lcs_walk :: "eval_word list \<Rightarrow> eval_word list \<Rightarrow> nat list list \<Rightarrow> (word_data \<times> word_data) list" where
  "lcs_walk (s # ss) (g # gs) lcs =
     (if form_of s = form_of g then (ew_word s, ew_word g) # lcs_walk ss gs (map tl (tl lcs))
      else if first_cell (first_row lcs) = first_cell (first_row (tl lcs)) then lcs_walk ss (g # gs) (tl lcs)
      else lcs_walk (s # ss) gs (map tl lcs))"
| "lcs_walk _ _ lcs = []"

definition lcs_matched :: "eval_word list \<Rightarrow> eval_word list \<Rightarrow> (word_data \<times> word_data) list" where
  "lcs_matched ss gs = lcs_walk ss gs (lcs_table (map form_of ss) (map form_of gs))"

partial_function (option) align_words ::
  "eval_word list \<Rightarrow> eval_word list \<Rightarrow> (word_data \<times> word_data) list option" where
  "align_words ss gs =
     (if ss = [] \<or> gs = [] then Some []
      else let s = hd ss; g = hd gs in
        if no_multiword s g then
          if ew_start s = ew_start g \<and> ew_end s = ew_end g then
            Option.bind (align_words (tl ss) (tl gs)) (\<lambda>rest. Some ((ew_word s, ew_word g) # rest))
          else if ew_start s \<le> ew_start g then align_words (tl ss) gs
          else align_words ss (tl gs)
        else
          let (m, n) = range_words (if ew_multiword s then ew_end s else ew_end g) ss gs
          in Option.bind (align_words (drop m ss) (drop n gs))
               (\<lambda>rest. Some (lcs_matched (take m ss) (take n gs) @ rest)))"

declare align_words.simps [code]

text \<open>The heads of the aligned system words become indices of gold words.\<close>

definition gold_aligned :: "nat \<Rightarrow> (word_data \<times> word_data) list \<Rightarrow> int list" where
  "gold_aligned n matched = fold (\<lambda>(s, g) aligned. aligned[nat (w_id s - 1) := w_id g]) matched (replicate n (-1))"

definition reindex_heads :: "int list \<Rightarrow> (word_data \<times> word_data) list \<Rightarrow> (word_data \<times> word_data) list option" where
  "reindex_heads aligned matched =
     (if list_all (\<lambda>(s, g). w_head s \<le> int (length aligned)) matched then
        Some (map (\<lambda>(s, g). (if w_head s > 0 then s\<lparr>w_head := aligned ! nat (w_head s - 1)\<rparr> else s, g)) matched)
      else None)"

definition best_alignment :: "eval_data \<Rightarrow> eval_data \<Rightarrow> alignment option" where
  "best_alignment system gold =
     Option.bind (align_words (ed_words system) (ed_words gold)) (\<lambda>matched.
     Option.bind (reindex_heads (gold_aligned (length (ed_words system)) matched) matched) (\<lambda>matched.
       Some \<lparr>al_matched = matched, al_total_system = length (ed_words system),
         al_total_gold = length (ed_words gold)\<rparr>))"

section \<open>Common spans\<close>

lemma span_not_in: "\<forall>p \<in> set ps. (a :: nat) < fst p \<Longrightarrow> (a, x) \<notin> set ps"
  by (metis fst_conv less_irrefl)

lemma count_both_correct:
  "sorted_wrt (<) (map fst ss) \<Longrightarrow> sorted_wrt (<) (map fst gs) \<Longrightarrow> count_both ss gs = card (set ss \<inter> set gs)"
proof (induction ss gs rule: count_both.induct)
  case (1 a x ss b y gs)
  have ss: "\<forall>p \<in> set ss. a < fst p" "sorted_wrt (<) (map fst ss)"
    and gs: "\<forall>p \<in> set gs. b < fst p" "sorted_wrt (<) (map fst gs)" using "1.prems" by auto
  consider "a < b" | "b < a" | "a = b" by linarith
  then show ?case
  proof cases
    case 1
    have "\<forall>p \<in> set ((b, y) # gs). a < fst p" using gs(1) 1 by auto
    then have "set ((a, x) # ss) \<inter> set ((b, y) # gs) = set ss \<inter> set ((b, y) # gs)"
      using span_not_in by (metis Int_insert_left_if0 list.simps(15))
    moreover have "count_both ((a, x) # ss) ((b, y) # gs) = count_both ss ((b, y) # gs)" using 1 by simp
    ultimately show ?thesis using "1.IH"(1) [OF 1 ss(2) "1.prems"(2)] by metis
  next
    case 2
    have "\<forall>p \<in> set ((a, x) # ss). b < fst p" using ss(1) 2 by auto
    then have "set ((a, x) # ss) \<inter> set ((b, y) # gs) = set ((a, x) # ss) \<inter> set gs"
      using span_not_in by (metis Int_insert_right_if0 list.simps(15))
    moreover have "count_both ((a, x) # ss) ((b, y) # gs) = count_both ((a, x) # ss) gs" using 2 by simp
    ultimately show ?thesis using "1.IH"(2) [OF less_not_sym [OF 2] 2 "1.prems"(1) gs(2)] by metis
  next
    case 3
    have "(a, x) \<notin> set ss" "(a, x) \<notin> set gs" "(b, y) \<notin> set ss" using ss(1) gs(1) 3 by auto
    then have "set ((a, x) # ss) \<inter> set ((b, y) # gs) = (if x = y then insert (a, x) (set ss \<inter> set gs) else set ss \<inter> set gs)"
      using 3 by auto
    moreover have "count_both ss gs = card (set ss \<inter> set gs)"
      using "1.IH"(3) 3 ss(2) gs(2) by blast
    moreover have "card (insert (a, x) (set ss \<inter> set gs)) = Suc (card (set ss \<inter> set gs))"
      using \<open>(a, x) \<notin> set ss\<close> by (intro card_insert_disjoint) auto
    moreover have "count_both ((a, x) # ss) ((b, y) # gs) = (if x = y then 1 else 0) + count_both ss gs" using 3 by simp
    ultimately show ?thesis by (cases "x = y") simp_all
  qed
qed simp_all

lemma count_both_le: "count_both ss gs \<le> length ss \<and> count_both ss gs \<le> length gs"
  by (induction ss gs rule: count_both.induct) auto

section \<open>Longest common subsequences\<close>

fun lcs_length :: "'a list \<Rightarrow> 'a list \<Rightarrow> nat" where
  "lcs_length (f # fs) (g # gs) =
     (if f = g then 1 + lcs_length fs gs else max (lcs_length fs (g # gs)) (lcs_length (f # fs) gs))"
| "lcs_length _ _ = 0"

lemma lcs_length_Nil [simp]: "lcs_length fs [] = 0"
  by (cases fs) simp_all

lemma lcs_length_bound: "subseq xs fs \<Longrightarrow> subseq xs gs \<Longrightarrow> length xs \<le> lcs_length fs gs"
proof (induction fs gs arbitrary: xs rule: lcs_length.induct)
  case (1 f fs g gs)
  show ?case
  proof (cases xs)
    case (Cons y ys)
    have ys: "subseq ys fs" "subseq ys gs"
      using "1.prems" Cons by (auto dest: subseq_Cons' split: if_splits)
    show ?thesis
    proof (cases "f = g")
      case True
      then show ?thesis using "1.IH"(1) [OF _ ys] Cons by simp
    next
      case False
      then have "subseq xs fs \<or> subseq xs gs" using "1.prems" Cons by (auto split: if_splits)
      then show ?thesis using "1.IH"(2) [OF False, of xs] "1.IH"(3) [OF False, of xs] "1.prems" False by auto
    qed
  qed simp
qed simp_all

lemma lcs_length_attained: "\<exists>xs. subseq xs fs \<and> subseq xs gs \<and> length xs = lcs_length fs gs"
proof (induction fs gs rule: lcs_length.induct)
  case (1 f fs g gs)
  show ?case
  proof (cases "f = g")
    case True
    then show ?thesis using "1.IH"(1) by (metis length_Cons lcs_length.simps(1) plus_1_eq_Suc subseq_Cons2)
  next
    case False
    then obtain xs ys where xs: "subseq xs fs" "subseq xs (g # gs)" "length xs = lcs_length fs (g # gs)"
      and ys: "subseq ys (f # fs)" "subseq ys gs" "length ys = lcs_length (f # fs) gs"
      using "1.IH"(2,3) by blast
    show ?thesis
    proof (cases "lcs_length fs (g # gs) \<le> lcs_length (f # fs) gs")
      case True
      then show ?thesis using ys False by (intro exI [of _ ys]) auto
    next
      case no: False
      then show ?thesis using xs False by (intro exI [of _ xs]) auto
    qed
  qed
qed auto

lemma lcs_length_sym: "lcs_length fs gs = lcs_length gs fs"
  using lcs_length_attained lcs_length_bound by (metis le_antisym)

lemma lcs_length_Cons_le: "lcs_length fs (g # gs) \<le> 1 + lcs_length fs gs"
proof -
  obtain xs where xs: "subseq xs fs" "subseq xs (g # gs)" "length xs = lcs_length fs (g # gs)"
    using lcs_length_attained by blast
  have "length (tl xs) \<le> lcs_length fs gs"
    using xs(1,2) by (intro lcs_length_bound; cases xs) (auto dest: subseq_Cons' split: if_splits)
  then show ?thesis using xs(3) by simp
qed

text \<open>What the rows and the table hold, and that a walk keeps to a corner of the table.\<close>

lemma length_lcs_row [simp]: "length (lcs_row f gs below) = length gs"
  by (induction f gs below rule: lcs_row.induct) (simp_all add: Let_def)

lemma tl_lcs_row: "tl (lcs_row f (g # gs) below) = lcs_row f gs (tl below)"
  by (simp add: Let_def)

lemma first_row_Nil [simp]: "first_cell (first_row (lcs_table fs [])) = 0"
  by (cases fs) (simp_all add: Let_def)

lemma tl_first_row: "tl (first_row (lcs_table fs (g # gs))) = first_row (lcs_table fs gs)"
  by (induction fs) (simp_all add: Let_def)

lemma map_tl_table: "map tl (lcs_table fs (g # gs)) = lcs_table fs gs"
  by (induction fs) (simp_all add: Let_def tl_first_row)

lemma tl_table: "tl (lcs_table (f # fs) gs) = lcs_table fs gs"
  by (simp add: Let_def)

lemma lcs_table_correct: "first_cell (first_row (lcs_table fs gs)) = lcs_length fs gs"
proof (induction fs arbitrary: gs)
  case (Cons f fs)
  show ?case
  proof (induction gs)
    case (Cons g gs)
    let ?c = "max (lcs_length fs (g # gs)) (lcs_length (f # fs) gs)"
    have "lcs_length fs (g # gs) \<le> 1 + lcs_length fs gs" "lcs_length (f # fs) gs \<le> 1 + lcs_length fs gs"
      using lcs_length_Cons_le [of fs g gs] lcs_length_Cons_le [of gs f fs] by (simp_all add: lcs_length_sym)
    moreover have "first_cell (first_row (lcs_table (f # fs) (g # gs))) =
        (if f = g then max ?c (1 + lcs_length fs gs) else ?c)"
      using Cons.IH \<open>\<And>gs. first_cell (first_row (lcs_table fs gs)) = lcs_length fs gs\<close>
      by (cases "f = g") (simp_all add: Let_def tl_first_row)
    ultimately show ?case by simp
  qed simp
qed simp

declare lcs_table.simps(2) [simp del]

lemma lcs_matched_Nil [simp]: "lcs_matched [] gs = []" "lcs_matched ss [] = []"
  by (cases ss; simp add: lcs_matched_def)+

lemma lcs_matched_equal:
  "form_of s = form_of g \<Longrightarrow> lcs_matched (s # ss) (g # gs) = (ew_word s, ew_word g) # lcs_matched ss gs"
  by (simp add: lcs_matched_def tl_table map_tl_table)

lemma lcs_matched_down:
  assumes "form_of s \<noteq> form_of g"
    "lcs_length (map form_of (s # ss)) (map form_of (g # gs)) = lcs_length (map form_of ss) (map form_of (g # gs))"
  shows "lcs_matched (s # ss) (g # gs) = lcs_matched ss (g # gs)"
  using assms lcs_table_correct [of "map form_of (s # ss)" "map form_of (g # gs)"]
    lcs_table_correct [of "map form_of ss" "map form_of (g # gs)"]
  unfolding lcs_matched_def lcs_walk.simps list.map by (simp only: tl_table refl if_True if_False)

lemma lcs_matched_right:
  assumes "form_of s \<noteq> form_of g"
    "lcs_length (map form_of (s # ss)) (map form_of (g # gs)) \<noteq> lcs_length (map form_of ss) (map form_of (g # gs))"
  shows "lcs_matched (s # ss) (g # gs) = lcs_matched (s # ss) gs"
  using assms lcs_table_correct [of "map form_of (s # ss)" "map form_of (g # gs)"]
    lcs_table_correct [of "map form_of ss" "map form_of (g # gs)"]
  unfolding lcs_matched_def lcs_walk.simps list.map by (simp only: tl_table map_tl_table if_True if_False)

lemma lcs_matched_correct:
  "length (lcs_matched ss gs) = lcs_length (map form_of ss) (map form_of gs) \<and>
   subseq (map fst (lcs_matched ss gs)) (map ew_word ss) \<and> subseq (map snd (lcs_matched ss gs)) (map ew_word gs) \<and>
   map (tk_form \<circ> fst) (lcs_matched ss gs) = map (tk_form \<circ> snd) (lcs_matched ss gs)"
proof (induction "length ss + length gs" arbitrary: ss gs rule: less_induct)
  case less
  show ?case
  proof (cases "ss = [] \<or> gs = []")
    case False
    then obtain s ss' g gs' where ss: "ss = s # ss'" and gs: "gs = g # gs'" by (meson neq_Nil_conv)
    consider "form_of s = form_of g"
      | "form_of s \<noteq> form_of g" "lcs_length (map form_of ss) (map form_of gs) = lcs_length (map form_of ss') (map form_of gs)"
      | "form_of s \<noteq> form_of g" "lcs_length (map form_of ss) (map form_of gs) \<noteq> lcs_length (map form_of ss') (map form_of gs)"
      by blast
    then show ?thesis
    proof cases
      case 1
      then show ?thesis using less [of ss' gs'] by (simp add: ss gs lcs_matched_equal)
    next
      case 2
      then have "lcs_matched ss gs = lcs_matched ss' gs" unfolding ss gs by (rule lcs_matched_down)
      then show ?thesis using less [of ss' gs] 2 by (auto simp: ss intro: list_emb_Cons)
    next
      case 3
      then have "lcs_matched ss gs = lcs_matched ss gs'" unfolding ss gs by (rule lcs_matched_right)
      moreover have "lcs_length (map form_of ss) (map form_of gs) = lcs_length (map form_of ss) (map form_of gs')"
        using 3 by (auto simp: ss gs max_def split: if_splits)
      ultimately show ?thesis using less [of ss gs'] by (auto simp: gs intro: list_emb_Cons)
    qed
  qed auto
qed

text \<open>
  C18: within a multiword range the words are matched by equal forms, in the order of both sides,
  and no common subsequence of the two sequences of forms is longer than the sequence of matches.
\<close>

theorem lcs_matched_longest:
  "map (tk_form \<circ> fst) (lcs_matched ss gs) = map (tk_form \<circ> snd) (lcs_matched ss gs) \<and>
   subseq (map fst (lcs_matched ss gs)) (map ew_word ss) \<and> subseq (map snd (lcs_matched ss gs)) (map ew_word gs) \<and>
   length (lcs_matched ss gs) = Max {length fs |fs. subseq fs (map form_of ss) \<and> subseq fs (map form_of gs)}"
proof -
  let ?S = "{length fs |fs. subseq fs (map form_of ss) \<and> subseq fs (map form_of gs)}"
  obtain fs where "subseq fs (map form_of ss)" "subseq fs (map form_of gs)"
      "length fs = lcs_length (map form_of ss) (map form_of gs)"
    using lcs_length_attained by blast
  then have member: "lcs_length (map form_of ss) (map form_of gs) \<in> ?S" by force
  have "Max ?S = lcs_length (map form_of ss) (map form_of gs)"
  proof (rule Max_eqI)
    show "finite ?S"
      by (rule finite_subset [of _ "{..lcs_length (map form_of ss) (map form_of gs)}"]) (auto intro: lcs_length_bound)
  qed (use lcs_length_bound member in auto)
  then show ?thesis using lcs_matched_correct [of ss gs] by simp
qed

section \<open>Well-formed data\<close>

text \<open>
  Words have the numbers from one on as ids, heads among a number of words, and lie in non-empty
  tokens that follow each other; only words of one multiword token share a token.
\<close>

definition apart :: "eval_word \<Rightarrow> eval_word \<Rightarrow> bool" where
  "apart a b \<longleftrightarrow> ew_end a \<le> ew_start b \<or>
     ew_multiword a \<and> ew_multiword b \<and> ew_start a = ew_start b \<and> ew_end a = ew_end b"

definition words_ok :: "eval_word list \<Rightarrow> bool" where
  "words_ok ws \<longleftrightarrow> (\<forall>w \<in> set ws. ew_start w < ew_end w) \<and> sorted_wrt apart ws"

definition eval_ok :: "nat \<Rightarrow> eval_data \<Rightarrow> bool" where
  "eval_ok n d \<longleftrightarrow> map (w_id \<circ> ew_word) (ed_words d) = map int [1..<Suc (length (ed_words d))] \<and>
     (\<forall>w \<in> set (ed_words d). w_head (ew_word w) \<le> int n \<and> ew_end w \<le> length (ed_chars d)) \<and> words_ok (ed_words d)"

lemma eval_ok_no_data [simp]: "eval_ok n no_eval_data"
  by (simp add: eval_ok_def words_ok_def no_eval_data_def)

lemma add_eval_word_ok:
  assumes "eval_ok n d" "start < stop" "stop \<le> length (ed_chars d)"
    "\<forall>w \<in> set (ed_words d). ew_end w \<le> start \<or> ew_multiword w \<and> multiword \<and> ew_start w = start \<and> ew_end w = stop"
    "w_head w = 0 \<or> int (length (ed_words d)) + 1 + (w_head w - w_id w) \<le> int n"
  shows "eval_ok n (add_eval_word u start stop multiword w d)"
  using assms by (auto simp: eval_ok_def add_eval_word_def mk_eval_word_def words_ok_def sorted_wrt_append apart_def)

lemma add_multiword_word_ok:
  assumes "eval_ok n d" "start < stop" "stop \<le> length (ed_chars d)"
    "\<forall>w \<in> set (ed_words d). ew_end w \<le> start \<or> ew_multiword w \<and> ew_start w = start \<and> ew_end w = stop"
    "w_head w = 0 \<or> int (length (ed_words d)) + 1 + (w_head w - w_id w) \<le> int n"
  shows "eval_ok n (add_multiword_word u start stop w d)"
  using add_eval_word_ok [of n d start stop True w u] assms
  by (simp add: add_multiword_word_def Let_def eval_ok_def case_prod_beta)

lemma add_multiword_word_fields [simp]:
  "ed_chars (add_multiword_word u start stop w d) = ed_chars d"
  "ed_words (add_multiword_word u start stop w d) =
     ed_words d @ [mk_eval_word u start stop (int (length (ed_words d)) + 1) True w]"
  by (simp_all add: add_multiword_word_def add_eval_word_def Let_def case_prod_beta)

lemma mk_eval_word_fields [simp]:
  "ew_start (mk_eval_word u start stop i multiword w) = start" "ew_end (mk_eval_word u start stop i multiword w) = stop"
  "ew_multiword (mk_eval_word u start stop i multiword w) = multiword"
  by (simp_all add: mk_eval_word_def)

lemma add_multiword_words_ok:
  assumes "start < stop" "stop \<le> length (ed_chars d)" "eval_ok n d"
    "\<forall>w \<in> set (ed_words d). ew_end w \<le> start \<or> ew_multiword w \<and> ew_start w = start \<and> ew_end w = stop"
    "\<forall>k. i \<le> k \<and> k < j \<longrightarrow> w_head (ws ! k) = 0 \<or> int (length (ed_words d)) + 1 + (int k - int i) + (w_head (ws ! k) - w_id (ws ! k)) \<le> int n"
  shows "eval_ok n (fold (\<lambda>k. add_multiword_word u start stop (ws ! k)) [i..<j] d) \<and>
     length (ed_words (fold (\<lambda>k. add_multiword_word u start stop (ws ! k)) [i..<j] d)) = length (ed_words d) + (j - i) \<and>
     ed_chars (fold (\<lambda>k. add_multiword_word u start stop (ws ! k)) [i..<j] d) = ed_chars d"
  using assms
proof (induction "j - i" arbitrary: i d)
  case (Suc m)
  let ?d = "add_multiword_word u start stop (ws ! i) d"
  have ij: "i < j" "m = j - Suc i" using Suc.hyps(2) by auto
  have "eval_ok n ?d" using Suc.prems ij by (intro add_multiword_word_ok) auto
  then have "eval_ok n (fold (\<lambda>k. add_multiword_word u start stop (ws ! k)) [Suc i..<j] ?d) \<and>
     length (ed_words (fold (\<lambda>k. add_multiword_word u start stop (ws ! k)) [Suc i..<j] ?d)) = length (ed_words ?d) + (j - Suc i) \<and>
     ed_chars (fold (\<lambda>k. add_multiword_word u start stop (ws ! k)) [Suc i..<j] ?d) = ed_chars ?d"
    using Suc.prems ij by (intro Suc.hyps(1)) (auto simp: algebra_simps)
  then show ?case using ij by (simp add: upt_conv_Cons)
qed auto

text \<open>A token that is not only spaces takes at least one character.\<close>

definition visible :: "string \<Rightarrow> bool" where
  "visible form \<longleftrightarrow> (\<exists>chr \<in> set (utf8_decode_all form). chr \<noteq> 32)"

lemma visible_length: "visible form \<Longrightarrow> 0 < length (filter (\<lambda>chr. chr \<noteq> 32) (utf8_decode_all form))"
  by (auto simp: visible_def filter_empty_conv)

lemma add_tokens_ok:
  assumes "eval_ok n d" "1 \<le> i" "i \<le> length ws" "int (length ws) \<le> int_max"
    "\<forall>k < length ws. w_id (ws ! k) = int k \<and> w_head (ws ! k) < int (length ws) \<and> (0 < k \<longrightarrow> visible (tk_form (ws ! k)))"
    "\<forall>m \<in> set ms. visible (tk_form m)"
    "mwts_from (int i - 1) ms" "mwts_end (int i - 1) ms < int (length ws)"
    "length (ed_words d) + length ws = n + i"
  shows "\<exists>d'. add_tokens u ws i ms d = Some d' \<and> eval_ok n d' \<and> length (ed_words d') = n"
  using assms
proof (induction u ws i ms d rule: add_tokens.induct)
  case (1 u ws i ms d)
  let ?multiword = "ms \<noteq> [] \<and> mwt_id_first (hd ms) = int i"
  let ?form = "if ?multiword then tk_form (hd ms) else tk_form (ws ! i)"
  let ?start = "length (ed_chars d)"
  let ?chars = "ed_chars d @ filter (\<lambda>chr. chr \<noteq> 32) (utf8_decode_all ?form)"
  let ?d = "d\<lparr>ed_chars := ?chars, ed_tokens := ed_tokens d @ [(?start, length ?chars)]\<rparr>"
  show ?case
  proof (cases "i < length ws")
    case False
    then show ?thesis using "1.prems" by (simp add: add_tokens.simps)
  next
    case True
    have visible: "visible ?form" using "1.prems"(2,5,6) True by auto
    have less: "?start < length ?chars" using visible_length [OF visible] by simp
    have ok: "eval_ok n ?d" and ends: "\<forall>w \<in> set (ed_words d). ew_end w \<le> ?start"
      using "1.prems"(1) unfolding eval_ok_def by fastforce+
    show ?thesis
    proof (cases ?multiword)
      case multi: True
      then obtain m ms' where ms: "ms = m # ms'" by (cases ms) auto
      let ?last = "mwt_id_last (hd ms)"
      let ?d' = "?d\<lparr>ed_multiwords := ed_multiwords ?d @ [(?start, ?form)]\<rparr>"
      let ?f = "fold (\<lambda>k. add_multiword_word u ?start (length ?chars) (ws ! k)) [i..<nat (?last + 1)] ?d'"
      have last: "int i \<le> ?last" "mwts_from ?last (tl ms)" "mwts_end ?last (tl ms) < int (length ws)"
        using "1.prems"(7,8) multi by (auto simp: ms mwts_end_def split: if_splits)
      have below: "?last < int (length ws)"
        using mwts_end_ge [OF last(2)] last(3) by linarith
      have f: "eval_ok n ?f \<and> length (ed_words ?f) = length (ed_words ?d') + (nat (?last + 1) - i) \<and> ed_chars ?f = ed_chars ?d'"
      proof (rule add_multiword_words_ok [OF less])
        show "\<forall>k. i \<le> k \<and> k < nat (?last + 1) \<longrightarrow> w_head (ws ! k) = 0 \<or>
            int (length (ed_words ?d')) + 1 + (int k - int i) + (w_head (ws ! k) - w_id (ws ! k)) \<le> int n"
        proof (intro allI impI disjI2)
          fix k assume "i \<le> k \<and> k < nat (?last + 1)"
          then have "k < length ws" using below by auto
          then have "w_id (ws ! k) = int k" "w_head (ws ! k) < int (length ws)" using "1.prems"(5) by blast+
          then show "int (length (ed_words ?d')) + 1 + (int k - int i) + (w_head (ws ! k) - w_id (ws ! k)) \<le> int n"
            using "1.prems"(9) by simp
        qed
      qed (use ok ends in \<open>auto simp: eval_ok_def\<close>)
      have next_i: "(u64 ?last + 1) mod 2 ^ 64 = nat (?last + 1)"
        using below last(1) "1.prems"(4) by (simp add: u64_small int_max_def nat_add_distrib)
      have "add_tokens u ws i ms d = add_tokens u ws (nat (?last + 1)) (tl ms) ?f"
        using True multi below next_i by (subst add_tokens.simps) (simp add: Let_def)
      moreover have "\<exists>d'. add_tokens u ws (nat (?last + 1)) (tl ms) ?f = Some d' \<and> eval_ok n d' \<and> length (ed_words d') = n"
      proof (rule "1.IH"(1) [OF True refl refl refl refl refl refl multi below, unfolded next_i])
        show "eval_ok n ?f" using f by simp
      next
        show "length (ed_words ?f) + length ws = n + nat (?last + 1)"
          using f last(1) "1.prems"(9) by simp
      qed (use last below "1.prems"(4,5,6) in \<open>auto simp: ms\<close>)
      ultimately show ?thesis by simp
    next
      case False
      let ?f = "add_eval_word u ?start (length ?chars) False (ws ! i) ?d"
      have "eval_ok n ?f"
        using "1.prems"(5,9) True ends ok less by (intro add_eval_word_ok) auto
      moreover have "mwts_from (int i) ms \<and> mwts_end (int i) ms < int (length ws)"
        using "1.prems"(7,8) True False by (cases ms) (auto simp: mwts_end_def)
      moreover have "length (ed_words ?f) + length ws = n + (i + 1)"
        using "1.prems"(9) by (simp add: add_eval_word_def)
      ultimately have "\<exists>d'. add_tokens u ws (i + 1) ms ?f = Some d' \<and> eval_ok n d' \<and> length (ed_words d') = n"
        using "1.prems"(4,5,6) True
        by (intro "1.IH"(2) [OF True refl refl refl refl refl refl False]) auto
      moreover have "add_tokens u ws i ms d = add_tokens u ws (i + 1) ms ?f"
        using True False by (subst add_tokens.simps) (auto simp: Let_def)
      ultimately show ?thesis by simp
    qed
  qed
qed

definition sentence_ok :: "sentence \<Rightarrow> bool" where
  "sentence_ok s \<longleftrightarrow> wf_sentence s \<and> int (length (s_words s)) \<le> int_max \<and>
     (\<forall>w \<in> set (tl (s_words s)). visible (tk_form w)) \<and> (\<forall>m \<in> set (s_multiword_tokens s). visible (tk_form m))"

fun add_sentences :: "unicode_tables \<Rightarrow> sentence list \<Rightarrow> eval_data \<Rightarrow> eval_data option" where
  "add_sentences u [] d = Some d"
| "add_sentences u (s # ss) d = Option.bind (add_sentence u s d) (add_sentences u ss)"

lemma eval_ok_mono: "eval_ok n d \<Longrightarrow> n \<le> n' \<Longrightarrow> eval_ok n' d"
  by (force simp: eval_ok_def)

lemma wf_words_fields:
  assumes "wf_words ws" "k < length ws"
  shows "w_id (ws ! k) = int k" "w_head (ws ! k) < int (length ws)"
proof -
  have "map w_id ws ! k = map int [0..<length ws] ! k" using assms by (simp add: wf_words_def)
  then show "w_id (ws ! k) = int k" using assms by simp
  have "int k \<in> ids (map word_link ws)" using assms(2) by (simp add: ids_def)
  moreover have "\<forall>i \<in> ids (map word_link ws). lhead (map word_link ws) i < int (length ws)"
    using assms(1) by (simp add: wf_words_def words.wf_def wf_links_def)
  ultimately have "lhead (map word_link ws) (int k) < int (length ws)" by blast
  then show "w_head (ws ! k) < int (length ws)" using assms(2) by (simp add: word_link_def)
qed

lemma add_sentence_ok:
  assumes "eval_ok (length (ed_words d)) d" "sentence_ok s"
  shows "\<exists>d'. add_sentence u s d = Some d' \<and> eval_ok (length (ed_words d')) d'"
proof -
  let ?ws = "s_words s"
  let ?n = "length (ed_words d) + length ?ws - 1"
  have wf: "wf_words ?ws" "?ws \<noteq> []" using assms(2) by (simp_all add: sentence_ok_def wf_sentence_def wf_words_def)
  have "\<exists>d'. add_tokens u ?ws 1 (s_multiword_tokens s) d = Some d' \<and> eval_ok ?n d' \<and> length (ed_words d') = ?n"
  proof (rule add_tokens_ok)
    show "eval_ok ?n d" using assms(1) by (rule eval_ok_mono) (use wf(2) in \<open>cases ?ws; simp\<close>)
    show "\<forall>k < length ?ws. w_id (?ws ! k) = int k \<and> w_head (?ws ! k) < int (length ?ws) \<and>
        (0 < k \<longrightarrow> visible (tk_form (?ws ! k)))"
    proof (intro allI impI conjI)
      fix k assume k: "k < length ?ws"
      then show "w_id (?ws ! k) = int k" "w_head (?ws ! k) < int (length ?ws)" using wf_words_fields [OF wf(1)] by auto
      assume "0 < k"
      then have "?ws ! k = tl ?ws ! (k - 1)" "k - 1 < length (tl ?ws)" using k by (auto simp: nth_tl)
      then have "?ws ! k \<in> set (tl ?ws)" by simp
      then show "visible (tk_form (?ws ! k))" using assms(2) unfolding sentence_ok_def by blast
    qed
  qed (use assms(2) wf(2) in \<open>auto simp: sentence_ok_def wf_sentence_def Suc_le_eq\<close>)
  then show ?thesis by (auto simp: add_sentence_def eval_ok_def)
qed

lemma add_sentences_ok:
  "eval_ok (length (ed_words d)) d \<Longrightarrow> \<forall>s \<in> set ss. sentence_ok s \<Longrightarrow>
   \<exists>d'. add_sentences u ss d = Some d' \<and> eval_ok (length (ed_words d')) d'"
proof (induction ss arbitrary: d)
  case (Cons s ss)
  then show ?case using add_sentence_ok [OF Cons.prems(1), of s u] by force
qed simp

section \<open>The alignment returns\<close>

lemma in_range_extend:
  "in_range r [w] \<Longrightarrow> in_range (extend_range r v) [w]"
  by (auto simp: extend_range_def split: if_splits)

lemma range_words_progress:
  "in_range r ss \<or> in_range r gs \<Longrightarrow> range_words r ss gs = (m, n) \<Longrightarrow> 0 < m + n"
  by (subst (asm) range_words.simps) (auto split: prod.splits if_splits)

lemma range_words_multi:
  assumes "\<not> no_multiword s g" "ew_multiword s \<longrightarrow> ew_start s < ew_end s" "ew_multiword g \<longrightarrow> ew_start g < ew_end g"
  shows "in_range (if ew_multiword s then ew_end s else ew_end g) (s # ss) \<or>
     in_range (if ew_multiword s then ew_end s else ew_end g) (g # gs)"
  using assms by (auto simp: no_multiword_def)

lemma align_words_returns:
  "\<forall>w \<in> set ss \<union> set gs. ew_multiword w \<longrightarrow> ew_start w < ew_end w \<Longrightarrow>
   \<exists>matched. align_words ss gs = Some matched \<and> subseq (map fst matched) (map ew_word ss) \<and>
     subseq (map snd matched) (map ew_word gs)"
proof (induction "length ss + length gs" arbitrary: ss gs rule: less_induct)
  case less
  show ?case
  proof (cases "ss = [] \<or> gs = []")
    case True
    then show ?thesis by (subst align_words.simps) auto
  next
    case False
    then obtain s ss' g gs' where ss: "ss = s # ss'" and gs: "gs = g # gs'" by (meson neq_Nil_conv)
    note step = align_words.simps [of ss gs]
    show ?thesis
    proof (cases "no_multiword s g")
      case True
      consider "ew_start s = ew_start g \<and> ew_end s = ew_end g"
        | "\<not> (ew_start s = ew_start g \<and> ew_end s = ew_end g)" "ew_start s \<le> ew_start g"
        | "\<not> (ew_start s = ew_start g \<and> ew_end s = ew_end g)" "\<not> ew_start s \<le> ew_start g" by blast
      then show ?thesis
      proof cases
        case 1
        then obtain rest where "align_words ss' gs' = Some rest" "subseq (map fst rest) (map ew_word ss')"
            "subseq (map snd rest) (map ew_word gs')"
          using less.hyps [of ss' gs'] less.prems by (auto simp: ss gs)
        then show ?thesis using step True 1 by (auto simp: ss gs)
      next
        case 2
        then show ?thesis using step True less.hyps [of ss' gs] less.prems by (auto simp: ss gs intro: list_emb_Cons)
      next
        case 3
        then show ?thesis using step True less.hyps [of ss gs'] less.prems by (auto simp: ss gs intro: list_emb_Cons)
      qed
    next
      case False
      let ?r = "if ew_multiword s then ew_end s else ew_end g"
      obtain m n where mn: "range_words ?r ss gs = (m, n)" by fastforce
      have "in_range ?r ss \<or> in_range ?r gs"
        using range_words_multi [OF False] less.prems by (simp add: ss gs)
      then have "0 < m + n" using range_words_progress mn by blast
      then have "length (drop m ss) + length (drop n gs) < length ss + length gs" by (auto simp: ss gs)
      moreover have "\<forall>w \<in> set (drop m ss) \<union> set (drop n gs). ew_multiword w \<longrightarrow> ew_start w < ew_end w"
        using less.prems by (auto dest: in_set_dropD)
      ultimately obtain rest where rest: "align_words (drop m ss) (drop n gs) = Some rest"
          "subseq (map fst rest) (map ew_word (drop m ss))" "subseq (map snd rest) (map ew_word (drop n gs))"
        using less.hyps by blast
      let ?matched = "lcs_matched (take m ss) (take n gs)"
      have "align_words ss gs = Some (?matched @ rest)"
        using step mn rest(1) False by (simp add: ss gs)
      moreover have "subseq (map fst ?matched @ map fst rest) (map ew_word (take m ss) @ map ew_word (drop m ss))"
        "subseq (map snd ?matched @ map snd rest) (map ew_word (take n gs) @ map ew_word (drop n gs))"
        using lcs_matched_correct rest by (auto intro: list_emb_append_mono)
      ultimately show ?thesis by (metis append_take_drop_id map_append)
    qed
  qed
qed

text \<open>Data aligned with itself: a multiword range takes the same words on both sides.\<close>

lemma in_range_mono: "in_range r ws \<Longrightarrow> r \<le> r' \<Longrightarrow> in_range r' ws"
  by (cases ws) (auto split: if_splits)

lemma range_words_self:
  "words_ok (p @ ss) \<Longrightarrow> \<forall>w \<in> set p. in_range r [w] \<Longrightarrow> range_words r ss (p @ ss) = (m, n) \<Longrightarrow> n = length p + m"
proof (induction "length ss + length (p @ ss)" arbitrary: r ss p m n rule: less_induct)
  case less
  note step = range_words.simps [of r ss "p @ ss"]
  show ?case
  proof (cases "in_range r ss \<or> in_range r (p @ ss)")
    case False
    then have "p = []" using less.prems(2) by (cases p) auto
    then show ?thesis using step False less.prems(3) by simp
  next
    case True
    show ?thesis
    proof (cases "ss \<noteq> [] \<and> (p @ ss = [] \<or> ew_start (hd ss) \<le> ew_start (hd (p @ ss)))")
      case system: True
      then obtain s ss' where ss: "ss = s # ss'" by (cases ss) auto
      let ?r = "extend_range r s"
      obtain m' n' where rec: "range_words ?r ss' ((p @ [s]) @ ss') = (m', n')" by fastforce
      have s_ok: "ew_start s < ew_end s" using less.prems(1) by (simp add: words_ok_def ss)
      have "in_range ?r [s]"
      proof (cases "ew_multiword s \<or> in_range r ss")
        case True
        then show ?thesis using s_ok by (auto simp: extend_range_def ss)
      next
        case no: False
        then obtain b p' where p: "p = b # p'" using \<open>in_range r ss \<or> in_range r (p @ ss)\<close> by (cases p) auto
        have "ew_start s \<le> ew_start b" using system by (simp add: ss p)
        moreover have "apart b s" "ew_start b < ew_end b" using less.prems(1) by (simp_all add: words_ok_def ss p)
        ultimately show ?thesis using no by (auto simp: apart_def)
      qed
      moreover have "r \<le> ?r" by (simp add: extend_range_def)
      then have "\<forall>w \<in> set p. in_range ?r [w]" using less.prems(2) in_range_mono by blast
      ultimately have "n' = length (p @ [s]) + m'"
        using less.hyps [of ss' "p @ [s]" ?r m' n'] less.prems(1) rec by (simp add: ss)
      then show ?thesis using step True system rec less.prems(3) by (simp add: ss)
    next
      case gold: False
      have "p \<noteq> []"
      proof
        assume "p = []"
        then have "ss = []" using gold by simp
        then show False using True \<open>p = []\<close> by simp
      qed
      then obtain b p' where p: "p = b # p'" by (cases p) auto
      obtain m' n' where rec: "range_words (extend_range r b) ss (p' @ ss) = (m', n')" by fastforce
      have "r \<le> extend_range r b" by (simp add: extend_range_def)
      then have "\<forall>w \<in> set p'. in_range (extend_range r b) [w]" using less.prems(2) in_range_mono unfolding p list.set by blast
      then have "n' = length p' + m'"
        using less.hyps [of ss p' "extend_range r b" m' n'] less.prems(1) rec by (simp add: p words_ok_def)
      moreover have "range_words r ss (p @ ss) = (m', n' + 1)" using step True gold rec by (auto simp: p)
      ultimately show ?thesis using less.prems(3) by (simp add: p)
    qed
  qed
qed

lemma lcs_matched_self: "lcs_matched ws ws = map (\<lambda>w. (ew_word w, ew_word w)) ws"
  by (induction ws) (simp_all add: lcs_matched_equal)

lemma words_ok_drop: "words_ok ws \<Longrightarrow> words_ok (drop n ws)"
  by (auto simp: words_ok_def sorted_wrt_drop dest: in_set_dropD)

lemma align_words_self: "words_ok ws \<Longrightarrow> align_words ws ws = Some (map (\<lambda>w. (ew_word w, ew_word w)) ws)"
proof (induction "length ws" arbitrary: ws rule: less_induct)
  case less
  show ?case
  proof (cases ws)
    case Nil
    then show ?thesis by (subst align_words.simps) simp
  next
    case (Cons w ws')
    note step = align_words.simps [of ws ws]
    show ?thesis
    proof (cases "ew_multiword w")
      case False
      then have "no_multiword w w" by (simp add: no_multiword_def)
      then show ?thesis using step less.hyps [of ws'] less.prems words_ok_drop [OF less.prems, of 1] by (simp add: Cons)
    next
      case True
      then have multi: "\<not> no_multiword w w" by (simp add: no_multiword_def)
      obtain m n where mn: "range_words (ew_end w) ws ws = (m, n)" by fastforce
      have "n = m" using range_words_self [of "[]" ws "ew_end w" m n] less.prems mn by simp
      moreover have "in_range (ew_end w) ws" using True less.prems by (simp add: Cons words_ok_def)
      then have "0 < m + n" using range_words_progress mn by blast
      ultimately have "length (drop m ws) < length ws" "n = m" by (simp_all add: Cons)
      then have "align_words (drop m ws) (drop m ws) = Some (map (\<lambda>w. (ew_word w, ew_word w)) (drop m ws))"
        using less.hyps words_ok_drop [OF less.prems] by blast
      then have "align_words ws ws = Some (map (\<lambda>w. (ew_word w, ew_word w)) (take m ws) @ map (\<lambda>w. (ew_word w, ew_word w)) (drop m ws))"
        using step mn multi True \<open>n = m\<close> by (simp add: Cons lcs_matched_self)
      then show ?thesis by (metis append_take_drop_id map_append)
    qed
  qed
qed

text \<open>The reindexed heads.\<close>

lemma length_gold_aligned [simp]: "length (gold_aligned n matched) = n"
proof -
  have "length (fold (\<lambda>(s, g) aligned. aligned[nat (w_id s - 1) := w_id g]) matched (xs :: int list)) = length xs" for xs
    by (induction matched arbitrary: xs) auto
  then show ?thesis by (simp add: gold_aligned_def)
qed

lemma gold_aligned_self:
  assumes "map w_id ws = map int [1..<Suc n]" "0 < h" "h \<le> int n"
  shows "gold_aligned n (map (\<lambda>w. (w, w)) ws) ! nat (h - 1) = h"
proof -
  let ?set = "\<lambda>(s, g) aligned. aligned[nat (w_id s - 1) := w_id g]"
  have fold: "nat (h - 1) < length xs \<Longrightarrow> \<forall>v \<in> set vs. 0 < w_id v \<Longrightarrow> h \<in> w_id ` set vs \<or> xs ! nat (h - 1) = h \<Longrightarrow>
      fold ?set (map (\<lambda>w. (w, w)) vs) xs ! nat (h - 1) = h" for vs and xs :: "int list"
  proof (induction vs arbitrary: xs)
    case (Cons v vs)
    let ?xs = "xs[nat (w_id v - 1) := w_id v]"
    have "w_id v \<noteq> h \<Longrightarrow> nat (w_id v - 1) \<noteq> nat (h - 1)" using Cons.prems(2) assms(2) by auto
    then have "h \<in> w_id ` set vs \<or> ?xs ! nat (h - 1) = h"
      using Cons.prems(1,3) by (cases "w_id v = h") auto
    then show ?case using Cons.IH [of ?xs] Cons.prems(1,2) by simp
  qed simp
  have ids: "w_id ` set ws = int ` {1..<Suc n}" using assms(1) by (metis set_map set_upt)
  then have "h \<in> w_id ` set ws" using assms(2,3) by (auto intro!: image_eqI [of _ _ "nat h"])
  moreover have "\<forall>v \<in> set ws. 0 < w_id v" using ids by (metis atLeastLessThan_iff imageE imageI of_nat_0_less_iff zero_less_one less_le_trans)
  ultimately show ?thesis unfolding gold_aligned_def using assms(2,3) by (intro fold) auto
qed

lemma reindex_heads_self:
  assumes "map w_id ws = map int [1..<Suc n]" "\<forall>w \<in> set ws. w_head w \<le> int n"
  shows "reindex_heads (gold_aligned n (map (\<lambda>w. (w, w)) ws)) (map (\<lambda>w. (w, w)) ws) = Some (map (\<lambda>w. (w, w)) ws)"
proof -
  have "list_all (\<lambda>(s, g). w_head s \<le> int n) (map (\<lambda>w. (w, w)) ws)" using assms(2) by (auto simp: list_all_iff)
  moreover have "w \<in> set ws \<Longrightarrow> 0 < w_head w \<Longrightarrow>
      w\<lparr>w_head := gold_aligned n (map (\<lambda>w. (w, w)) ws) ! nat (w_head w - 1)\<rparr> = w" for w
    using gold_aligned_self [OF assms(1), of "w_head w"] assms(2) by simp
  ultimately show ?thesis by (simp add: reindex_heads_def)
qed

lemma mk_f1_bounds:
  assumes "both \<le> system" "both \<le> gold"
  shows "0 \<le> f1_precision (mk_f1 both system gold) \<and> f1_precision (mk_f1 both system gold) \<le> 1 \<and>
    0 \<le> f1_recall (mk_f1 both system gold) \<and> f1_recall (mk_f1 both system gold) \<le> 1 \<and>
    0 \<le> f1_f1 (mk_f1 both system gold) \<and> f1_f1 (mk_f1 both system gold) \<le> 1"
proof -
  have le: "rat_of_nat both \<le> of_nat system" "rat_of_nat both \<le> of_nat gold" using assms by simp_all
  then have two: "2 * rat_of_nat both \<le> of_nat (system + gold)" by simp
  have "0 \<le> rat_of_nat a / of_nat b" for a b by simp
  moreover have "b \<noteq> 0 \<Longrightarrow> x \<le> rat_of_nat b \<Longrightarrow> x / rat_of_nat b \<le> 1" for x b by simp
  ultimately show ?thesis using le two by (simp add: mk_f1_def del: of_nat_add)
qed

definition scores_ok :: "alignment \<Rightarrow> bool" where
  "scores_ok al \<longleftrightarrow> (\<forall>equals. let f = evaluate_words equals al in
     0 \<le> f1_precision f \<and> f1_precision f \<le> 1 \<and> 0 \<le> f1_recall f \<and> f1_recall f \<le> 1 \<and> 0 \<le> f1_f1 f \<and> f1_f1 f \<le> 1)"

lemma best_alignment_ok:
  assumes "eval_ok (length (ed_words system)) system" "eval_ok (length (ed_words gold)) gold"
  shows "\<exists>al. best_alignment system gold = Some al \<and> scores_ok al"
proof -
  have "\<forall>w \<in> set (ed_words system) \<union> set (ed_words gold). ew_multiword w \<longrightarrow> ew_start w < ew_end w"
    using assms by (auto simp: eval_ok_def words_ok_def)
  then obtain matched where m: "align_words (ed_words system) (ed_words gold) = Some matched"
      "subseq (map fst matched) (map ew_word (ed_words system))" "subseq (map snd matched) (map ew_word (ed_words gold))"
    using align_words_returns by blast
  let ?n = "length (ed_words system)"
  have "set (map fst matched) \<subseteq> set (map ew_word (ed_words system))" using list_emb_set [OF m(2)] by blast
  then have heads: "list_all (\<lambda>(s, g). w_head s \<le> int ?n) matched"
    using assms(1) by (force simp: list_all_iff eval_ok_def)
  then obtain matched' where r: "reindex_heads (gold_aligned ?n matched) matched = Some matched'" "length matched' = length matched"
    by (simp add: reindex_heads_def)
  have "length matched \<le> ?n" "length matched \<le> length (ed_words gold)"
    using m(2,3) list_emb_length by fastforce+
  then have "length (filter P matched') \<le> ?n" "length (filter P matched') \<le> length (ed_words gold)" for P
    using r(2) length_filter_le [of P matched'] by linarith+
  then show ?thesis using m(1) r(1) mk_f1_bounds by (simp add: best_alignment_def scores_ok_def evaluate_words_def Let_def)
qed

text \<open>
  C20: on sentences whose tokens are not only spaces the data is collected, the alignment of any
  system with any gold data returns, and every precision, recall and F1 is between 0 and 1.
\<close>

theorem best_alignment_returns:
  assumes "\<forall>s \<in> set ss. sentence_ok s" "\<forall>s \<in> set gs. sentence_ok s"
  shows "\<exists>system gold al. add_sentences u ss no_eval_data = Some system \<and> add_sentences u gs no_eval_data = Some gold \<and>
     best_alignment system gold = Some al \<and> scores_ok al"
  using add_sentences_ok [OF eval_ok_no_data assms(1)] add_sentences_ok [OF eval_ok_no_data assms(2)] best_alignment_ok
  by meson

text \<open>Data with itself: all words are aligned with themselves, and heads stay as they are.\<close>

lemma alignment_with_itself:
  assumes "\<forall>s \<in> set ss. sentence_ok s"
  shows "\<exists>d. add_sentences u ss no_eval_data = Some d \<and>
    best_alignment d d = Some \<lparr>al_matched = map (\<lambda>w. (ew_word w, ew_word w)) (ed_words d),
      al_total_system = length (ed_words d), al_total_gold = length (ed_words d)\<rparr>"
proof -
  obtain d where d: "add_sentences u ss no_eval_data = Some d" "eval_ok (length (ed_words d)) d"
    using add_sentences_ok [OF eval_ok_no_data assms] by blast
  let ?ws = "map ew_word (ed_words d)" and ?n = "length (ed_words d)"
  have "align_words (ed_words d) (ed_words d) = Some (map (\<lambda>w. (w, w)) ?ws)"
    using align_words_self d(2) by (simp add: eval_ok_def comp_def)
  moreover have "reindex_heads (gold_aligned ?n (map (\<lambda>w. (w, w)) ?ws)) (map (\<lambda>w. (w, w)) ?ws) = Some (map (\<lambda>w. (w, w)) ?ws)"
    using d(2) by (intro reindex_heads_self) (auto simp: eval_ok_def)
  ultimately show ?thesis using d(1) by (simp add: best_alignment_def comp_def)
qed

definition sample_multiword :: sentence where
  "sample_multiword = clear_sentence\<lparr>s_words := add_word ''b'' (add_word ''a'' (s_words clear_sentence)),
     s_multiword_tokens := [mk_multiword_token 1 2 ''ab'' []]\<rparr>"

lemma sample_multiword_ok: "sentence_ok sample_multiword"
proof -
  have "visible ''a''" "visible ''b''" "visible ''ab''" by (simp_all add: visible_def utf8_decode_all.simps Let_def)
  moreover have "wf_words (s_words sample_multiword)"
    unfolding sample_multiword_def by (simp add: wf_words_add wf_words_clear)
  ultimately show ?thesis
    by (simp add: sentence_ok_def wf_sentence_def sample_multiword_def add_word_def clear_sentence_def mk_word_def
        mk_multiword_token_def root_word_def without_children_def mwts_end_def int_max_def)
qed

lemma best_alignment_returns_witness:
  "\<forall>u. \<exists>system gold al. add_sentences u [sample_multiword] no_eval_data = Some system \<and>
     add_sentences u [] no_eval_data = Some gold \<and> best_alignment system gold = Some al \<and> scores_ok al"
  using best_alignment_returns [of "[sample_multiword]" "[]"] sample_multiword_ok by (auto simp del: add_sentences.simps)

section \<open>The alignment loops for ever\<close>

text \<open>
  A multiword token \<open>w\<close> of the gold data without a character, and a system word that starts there or
  later. No word of the system data belongs to a multiword token, words of their own have
  characters, and the gold words follow each other.
\<close>

definition blank_ahead :: "eval_word \<Rightarrow> eval_word list \<Rightarrow> eval_word list \<Rightarrow> bool" where
  "blank_ahead w ss gs \<longleftrightarrow> (\<forall>s \<in> set ss. \<not> ew_multiword s \<and> ew_start s < ew_end s) \<and>
     sorted_wrt apart gs \<and> (\<forall>g \<in> set gs. ew_start g \<le> ew_end g \<and> (ew_multiword g \<or> ew_start g < ew_end g)) \<and>
     w \<in> set gs \<and> ew_multiword w \<and> ew_start w = ew_end w \<and> (\<exists>s \<in> set ss. ew_start w \<le> ew_start s)"

lemma blank_aheadD:
  assumes "blank_ahead w (s # ss) (g # gs)"
  shows "\<not> ew_multiword s" "ew_start s < ew_end s" "ew_start g \<le> ew_start w" "ew_end g \<le> ew_start w"
    "\<not> ew_multiword g \<Longrightarrow> ew_start g < ew_start w \<and> w \<in> set gs"
  using assms by (auto simp: blank_ahead_def apart_def)

lemma range_words_blank:
  "blank_ahead w ss gs \<Longrightarrow> r \<le> ew_start w \<Longrightarrow> range_words r ss gs = (m, n) \<Longrightarrow> blank_ahead w (drop m ss) (drop n gs)"
proof (induction r ss gs arbitrary: m n rule: range_words.induct)
  case (1 r ss gs)
  let ?in = "in_range r ss \<or> in_range r gs" and ?first = "ss \<noteq> [] \<and> (gs = [] \<or> ew_start (hd ss) \<le> ew_start (hd gs))"
  obtain s ss' g gs' where ss: "ss = s # ss'" and gs: "gs = g # gs'"
    using "1.prems"(1) by (cases ss; cases gs) (auto simp: blank_ahead_def)
  note d = blank_aheadD [OF "1.prems"(1) [unfolded ss gs]]
  consider "\<not> ?in" | "?in" "?first" | "?in" "\<not> ?first" by blast
  then show ?case
  proof cases
    case 1
    then have "range_words r ss gs = (0, 0)" by (subst range_words.simps) auto
    then show ?thesis using "1.prems"(1,3) by simp
  next
    case 2
    then have s: "ew_start s < ew_start w"
      using d "1.prems"(2) by (auto simp: ss gs split: if_splits)
    have nx: "blank_ahead w ss' gs" using "1.prems"(1) s unfolding blank_ahead_def ss by auto
    obtain k l where kl: "range_words (extend_range r (hd ss)) (tl ss) gs = (k, l)" by fastforce
    then have "(m, n) = (k + 1, l)" using 2 "1.prems"(3) by (subst (asm) range_words.simps) (auto simp: ss gs)
    moreover have "extend_range r (hd ss) = r" using d(1) by (simp add: extend_range_def ss)
    ultimately show ?thesis using "1.IH"(1) [OF 2 _ _ kl] nx "1.prems"(2) by (simp add: ss)
  next
    case 3
    then have g: "w \<noteq> g" using d "1.prems"(1,2) by (auto simp: ss gs blank_ahead_def)
    then have nx: "blank_ahead w ss gs'" using "1.prems"(1) unfolding blank_ahead_def gs by auto
    obtain k l where kl: "range_words (extend_range r (hd gs)) ss (tl gs) = (k, l)" by fastforce
    then have "(m, n) = (k, l + 1)" using 3 "1.prems"(3) by (subst (asm) range_words.simps) (auto simp: ss gs)
    moreover have "extend_range r (hd gs) \<le> ew_start w" using d(4) "1.prems"(2) by (simp add: extend_range_def gs)
    ultimately show ?thesis using "1.IH"(2) [OF 3 _ _ kl] nx by (simp add: gs)
  qed
qed

text \<open>No step of the alignment takes the two words, so there is always a further step.\<close>

lemma align_words_blank: "blank_ahead w ss gs \<Longrightarrow> align_words ss gs = None"
proof -
  have "\<not> blank_ahead w ss gs" if loop: "align_words ss gs = Some res" for ss gs res
  proof (rule align_words.raw_induct [OF _ loop, where P = "\<lambda>ss gs res. \<not> blank_ahead w ss gs"], goal_cases)
    case (1 f ss gs res)
    show ?case
    proof
      assume b: "blank_ahead w ss gs"
      then obtain s ss' g gs' where ss: "ss = s # ss'" and gs: "gs = g # gs'"
        by (cases ss; cases gs) (auto simp: blank_ahead_def)
      note d = blank_aheadD [OF b [unfolded ss gs]]
      have rec: "f xs ys \<noteq> Some rs" if "blank_ahead w xs ys" for xs ys rs using 1(1) that by blast
      show False
      proof (cases "no_multiword s g")
        case True
        then have g: "\<not> ew_multiword g \<or> ew_start s < ew_start g" by (auto simp: no_multiword_def)
        have less: "ew_start s < ew_start w" if "ew_start s \<le> ew_start g" using d(3,5) g that by force
        have skip: "blank_ahead w ss' gs" if "ew_start s \<le> ew_start g"
          using b less [OF that] unfolding blank_ahead_def ss by auto
        have pair: "blank_ahead w ss' gs'" if "ew_start s = ew_start g"
          using skip that d(5) g unfolding blank_ahead_def gs by auto
        have drop: "blank_ahead w ss gs'" if "\<not> ew_start s \<le> ew_start g"
          using b that d(5) g unfolding blank_ahead_def gs by auto
        show False using 1(2) True rec skip pair drop by (auto simp: ss gs bind_eq_Some_conv split: if_splits)
      next
        case False
        obtain m n where mn: "range_words (if ew_multiword s then ew_end s else ew_end g) ss gs = (m, n)" by fastforce
        have "blank_ahead w (drop m ss) (drop n gs)" using range_words_blank [OF b _ mn] d(1,4) by simp
        then show False using 1(2) False mn rec by (auto simp: ss gs bind_eq_Some_conv)
      qed
    qed
  qed
  then show "blank_ahead w ss gs \<Longrightarrow> align_words ss gs = None" by (cases "align_words ss gs") auto
qed

text \<open>
  C34: A gold multiword token whose form has no characters but spaces makes the alignment loop for
  ever. This is so for all system data without multiword tokens one of whose words starts at that
  token or behind it; all other gold data may be as it is, as long as its words follow each other and
  those outside multiword tokens have characters.
\<close>

theorem best_alignment_hangs:
  assumes "\<forall>s \<in> set (ed_words system). \<not> ew_multiword s \<and> ew_start s < ew_end s"
    and "sorted_wrt apart (ed_words gold)"
    and "\<forall>g \<in> set (ed_words gold). ew_start g \<le> ew_end g \<and> (ew_multiword g \<or> ew_start g < ew_end g)"
    and "w \<in> set (ed_words gold)" "ew_multiword w" "ew_start w = ew_end w"
    and "s \<in> set (ed_words system)" "ew_start w \<le> ew_start s"
  shows "best_alignment system gold = None"
proof -
  have "blank_ahead w (ed_words system) (ed_words gold)" using assms by (auto simp: blank_ahead_def)
  then show ?thesis by (simp add: best_alignment_def align_words_blank)
qed

text \<open>The word \<open>x\<close>, and the same with a multiword token before it whose form is a space: the same characters.\<close>

lemma best_alignment_hangs_witness:
  "\<forall>u. \<exists>system gold. add_sentence u (clear_sentence\<lparr>s_words := add_word ''x'' (s_words clear_sentence)\<rparr>) no_eval_data = Some system \<and>
     add_sentence u (clear_sentence\<lparr>s_words := add_word ''x'' (add_word ''a'' (s_words clear_sentence)),
       s_multiword_tokens := [mk_multiword_token 1 1 '' '' []]\<rparr>) no_eval_data = Some gold \<and>
     ed_chars system = ed_chars gold \<and> best_alignment system gold = None"
proof
  fix u
  have chars: "utf8_decode_all ''x'' = [120]" "utf8_decode_all '' '' = [32]"
    by (simp_all add: utf8_decode_all.simps Let_def)
  have one: "[Suc 0..<2] = [Suc 0]" by (simp add: upt_rec)
  let ?x = "clear_sentence\<lparr>s_words := add_word ''x'' (s_words clear_sentence)\<rparr>"
  let ?ax = "clear_sentence\<lparr>s_words := add_word ''x'' (add_word ''a'' (s_words clear_sentence)),
       s_multiword_tokens := [mk_multiword_token 1 1 '' '' []]\<rparr>"
  note eval = one add_sentence_def add_tokens.simps clear_sentence_def add_word_def mk_word_def mk_multiword_token_def
    no_eval_data_def add_eval_word_def add_multiword_word_def u64_def chars Let_def
  have "\<exists>v. map_option ed_chars (add_sentence u ?x no_eval_data) = Some [120] \<and>
      map_option ed_words (add_sentence u ?x no_eval_data) = Some [mk_eval_word u 0 1 1 False v]"
    by (auto simp: eval)
  then obtain system v where x: "add_sentence u ?x no_eval_data = Some system" "ed_chars system = [120]"
      "ed_words system = [mk_eval_word u 0 1 1 False v]" by auto
  have "\<exists>v1 v2. map_option ed_chars (add_sentence u ?ax no_eval_data) = Some [120] \<and>
      map_option ed_words (add_sentence u ?ax no_eval_data) = Some [mk_eval_word u 0 0 1 True v1, mk_eval_word u 0 1 2 False v2]"
    by (auto simp: eval)
  then obtain gold v1 v2 where ax: "add_sentence u ?ax no_eval_data = Some gold" "ed_chars gold = [120]"
      "ed_words gold = [mk_eval_word u 0 0 1 True v1, mk_eval_word u 0 1 2 False v2]" by auto
  have "best_alignment system gold = None"
    by (rule best_alignment_hangs [where w = "mk_eval_word u 0 0 1 True v1" and s = "mk_eval_word u 0 1 1 False v"])
      (simp_all add: x(3) ax(3) apart_def)
  then show "\<exists>system gold. add_sentence u ?x no_eval_data = Some system \<and> add_sentence u ?ax no_eval_data = Some gold \<and>
      ed_chars system = ed_chars gold \<and> best_alignment system gold = None"
    using x(1,2) ax(1,2) by auto
qed

text \<open>
  The score of two lists of spans with increasing starts (sentences, tokens, multiword tokens)
  counts the spans that are in both.
\<close>

theorem evaluate_spans_counts:
  assumes "sorted_wrt (<) (map fst system)" "sorted_wrt (<) (map fst gold)"
  shows "evaluate_spans system gold = mk_f1 (card (set system \<inter> set gold)) (length system) (length gold)"
  using count_both_correct [OF assms] by (simp add: evaluate_spans_def)

lemma evaluate_spans_counts_witness:
  "evaluate_spans [(0, 2), (3, 5 :: nat)] [(0, 1), (1, 2), (3, 5)] = mk_f1 1 2 3"
proof -
  have "set [(0, 2), (3, 5)] \<inter> set [(0, 1), (1, 2), (3, 5)] = {(3 :: nat, 5 :: nat)}" by auto
  then show ?thesis using evaluate_spans_counts [of "[(0, 2), (3, 5 :: nat)]" "[(0, 1), (1, 2), (3, 5)]"] by (simp add: eval_nat_numeral)
qed

end
