(* ===== verification/Evaluation.thy ===== *)
theory Evaluation
  imports Alignment Pipeline
begin

text \<open>
  The evaluation of a model on gold CoNLL-U data: \<open>evaluator::evaluate\<close> of
  \<open>src/model/evaluator.cpp\<close>. The gold sentences are read once; depending on what is evaluated their
  text is detokenized and processed from the start, or their words are tagged, or their tagged words
  are parsed. The report is a list of the lines written, with the scores they show.

  The proofs show that data evaluated against itself gets full scores, and that with gold tokenization the run reports scores and never the internal error
  of words that do not match, for any tagger and parser that keep the words of a sentence.
\<close>

section \<open>Model\<close>

record evaluator =
  e_tokenizer :: string
  e_tagger :: string
  e_parser :: string

datatype setting = From_Plain_Text | From_Gold_Tokenization | From_Gold_Tags

datatype report_line =
    Different_Characters
  | Space_After_No nat
  | Tokens_Score f1_info
  | Multiwords_Score f1_info
  | Words_Score f1_info
  | Sentences_Score f1_info
  | Tagging_Scores setting f1_info f1_info f1_info f1_info f1_info
  | Parsing_Scores setting f1_info f1_info

text \<open>The text of a gold sentence, and how many of its tokens no space follows.\<close>

definition gold_text :: "sentence \<Rightarrow> string" where
  "gold_text s = concat (map (\<lambda>(tok, _). tk_form tok @ (if get_space_after tok then '' '' else [])) (sentence_tokens s))"

definition no_space_tokens :: "sentence \<Rightarrow> nat" where
  "no_space_tokens s = length (filter (\<lambda>(tok, _). \<not> get_space_after tok) (sentence_tokens s))"

definition add_gold_text :: "sentence \<Rightarrow> string list \<times> nat \<Rightarrow> string list \<times> nat" where
  "add_gold_text gold = (\<lambda>(paragraphs, nos).
     (let paragraphs = (if marks_paragraph gold then butlast paragraphs @ [last paragraphs @ [lf, lf], []] else paragraphs)
      in (butlast paragraphs @ [last paragraphs @ gold_text gold], nos + no_space_tokens gold)))"

definition gold_words :: "sentence \<Rightarrow> sentence" where
  "gold_words gold = clear_sentence\<lparr>s_words := fold (\<lambda>w. add_word (tk_form w)) (tl (s_words gold)) (s_words clear_sentence)\<rparr>"

definition add_tagged_word :: "word_data \<Rightarrow> word_data list \<Rightarrow> word_data list" where
  "add_tagged_word w ws =
     (let ws = add_word (tk_form w) ws
      in butlast ws @ [(last ws)\<lparr>w_upostag := w_upostag w, w_xpostag := w_xpostag w, w_feats := w_feats w, w_lemma := w_lemma w\<rparr>])"

definition gold_tagged_words :: "sentence \<Rightarrow> sentence" where
  "gold_tagged_words gold = clear_sentence\<lparr>s_words := fold add_tagged_word (tl (s_words gold)) (s_words clear_sentence)\<rparr>"

text \<open>The data collected while the gold sentences are read.\<close>

record collected =
  c_gold :: eval_data
  c_text :: "string list \<times> nat"
  c_goldtok :: eval_data
  c_goldtags :: eval_data

definition tag_and_parse :: "('t, 'm) udpipe_model_scheme \<Rightarrow> evaluator \<Rightarrow> sentence \<Rightarrow> sentence result" where
  "tag_and_parse m ev s =
     (if e_tagger ev \<noteq> annotator_none then
        (case m_tag m s (e_tagger ev) of Inl e \<Rightarrow> Inl e
         | Inr s \<Rightarrow> if e_parser ev \<noteq> annotator_none then m_parse m s (e_parser ev) else Inr s)
      else Inr s)"

text \<open>\<open>None\<close> stands for a read out of bounds of a sentence that is not well-formed.\<close>

definition collect_gold ::
  "unicode_tables \<Rightarrow> ('t, 'm) udpipe_model_scheme \<Rightarrow> evaluator \<Rightarrow> sentence \<Rightarrow> collected \<Rightarrow> collected result option" where
  "collect_gold u m ev gold c =
     Option.bind (add_sentence u gold (c_gold c)) (\<lambda>gold_data.
     (let c = c\<lparr>c_gold := gold_data\<rparr>;
          c = (if e_tokenizer ev \<noteq> annotator_none then c\<lparr>c_text := add_gold_text gold (c_text c)\<rparr> else c)
      in if e_tokenizer ev = annotator_none \<and> e_tagger ev \<noteq> annotator_none then
           (case tag_and_parse m ev (gold_words gold) of Inl e \<Rightarrow> Some (Inl e)
            | Inr system \<Rightarrow> map_option (\<lambda>d. Inr (c\<lparr>c_goldtok := d\<rparr>)) (add_sentence u system (c_goldtok c)))
         else if e_tokenizer ev = annotator_none \<and> e_tagger ev = annotator_none \<and> e_parser ev \<noteq> annotator_none then
           (case m_parse m (gold_tagged_words gold) (e_parser ev) of Inl e \<Rightarrow> Some (Inl e)
            | Inr system \<Rightarrow> map_option (\<lambda>d. Inr (c\<lparr>c_goldtags := d\<rparr>)) (add_sentence u system (c_goldtags c)))
         else Some (Inr c)))"

partial_function (option) collect_sentences ::
  "('r \<Rightarrow> (sentence option result \<times> 'r) option) \<Rightarrow> (sentence \<Rightarrow> 'c \<Rightarrow> 'c result option) \<Rightarrow> 'r \<Rightarrow> 'c \<Rightarrow> ('r \<times> 'c) result option" where
  "collect_sentences next add r c = Option.bind (next r) (\<lambda>(outcome, r').
     (case outcome of Inl e \<Rightarrow> Some (Inl e)
      | Inr found \<Rightarrow>
     (case found of None \<Rightarrow> Some (Inr (r', c))
      | Some s \<Rightarrow> Option.bind (add s c) (\<lambda>res.
     (case res of Inl e \<Rightarrow> Some (Inl e)
      | Inr c' \<Rightarrow> collect_sentences next add r' c')))))"

partial_function (option) read_gold ::
  "(sentence \<Rightarrow> 'c \<Rightarrow> 'c result option) \<Rightarrow> string \<Rightarrow> 'c \<Rightarrow> 'c result option" where
  "read_gold add stream c =
     (case getpara stream of None \<Rightarrow> Some (Inr c)
      | Some (block, stream') \<Rightarrow> Option.bind (collect_sentences (conllu_next_sentence 2) add block c) (\<lambda>res.
     (case res of Inl e \<Rightarrow> Some (Inl e)
      | Inr (_, c') \<Rightarrow> read_gold add stream' c')))"

declare collect_sentences.simps [code] read_gold.simps [code]

text \<open>The paragraphs of the detokenized text, processed from the start.\<close>

fun read_paragraphs ::
  "unicode_tables \<Rightarrow> ('t, 'm) udpipe_model_scheme \<Rightarrow> evaluator \<Rightarrow> string list \<Rightarrow> 't \<Rightarrow> eval_data \<Rightarrow> eval_data result option" where
  "read_paragraphs u m ev [] t d = Some (Inr d)"
| "read_paragraphs u m ev (p # ps) t d =
     Option.bind (collect_sentences (to_next_sentence m)
         (\<lambda>s d. case tag_and_parse m ev s of Inl e \<Rightarrow> Some (Inl e) | Inr s \<Rightarrow> map_option Inr (add_sentence u s d))
         (to_set_text m p t) d) (\<lambda>res.
       (case res of Inl e \<Rightarrow> Some (Inl e) | Inr (t', d') \<Rightarrow> read_paragraphs u m ev ps t' d'))"

definition read_plain_text ::
  "unicode_tables \<Rightarrow> ('t, 'm) udpipe_model_scheme \<Rightarrow> evaluator \<Rightarrow> string list \<Rightarrow> eval_data result option" where
  "read_plain_text u m ev paragraphs =
     (if e_tokenizer ev = annotator_none then Some (Inr no_eval_data)
      else case m_new_tokenizer m (e_tokenizer ev) of None \<Rightarrow> Some (Inl ''Cannot allocate new tokenizer!'')
      | Some t \<Rightarrow> read_paragraphs u m ev paragraphs t no_eval_data)"

text \<open>The scores of an alignment.\<close>

definition tagging_scores :: "setting \<Rightarrow> alignment \<Rightarrow> report_line" where
  "tagging_scores setting al = Tagging_Scores setting
     (evaluate_words (\<lambda>w u. w_upostag w = w_upostag u) al)
     (evaluate_words (\<lambda>w u. w_xpostag w = w_xpostag u) al)
     (evaluate_words (\<lambda>w u. w_feats w = w_feats u) al)
     (evaluate_words (\<lambda>w u. w_upostag w = w_upostag u \<and> w_xpostag w = w_xpostag u \<and> w_feats w = w_feats u) al)
     (evaluate_words (\<lambda>w u. w_lemma w = w_lemma u) al)"

definition parsing_scores :: "setting \<Rightarrow> alignment \<Rightarrow> report_line" where
  "parsing_scores setting al = Parsing_Scores setting
     (evaluate_words (\<lambda>w u. w_head w = w_head u) al)
     (evaluate_words (\<lambda>w u. w_head w = w_head u \<and> w_deprel w = w_deprel u) al)"

definition plain_text_report :: "evaluator \<Rightarrow> eval_data \<Rightarrow> eval_data \<Rightarrow> nat \<Rightarrow> report_line list option" where
  "plain_text_report ev system gold nos =
     (if ed_chars system \<noteq> ed_chars gold then Some [Different_Characters]
      else map_option (\<lambda>al.
        let multiwords = evaluate_spans (ed_multiwords system) (ed_multiwords gold) in
        [Space_After_No nos] @
        (if f1_total_gold multiwords \<noteq> 0 \<or> f1_total_system multiwords \<noteq> 0 then
           [Tokens_Score (evaluate_spans (ed_tokens system) (ed_tokens gold)), Multiwords_Score multiwords]
         else []) @
        [Words_Score (evaluate_words (\<lambda>_ _. True) al),
         Sentences_Score (evaluate_spans (ed_sentences system) (ed_sentences gold))] @
        (if e_tagger ev \<noteq> annotator_none then [tagging_scores From_Plain_Text al] else []) @
        (if e_tagger ev \<noteq> annotator_none \<and> e_parser ev \<noteq> annotator_none then [parsing_scores From_Plain_Text al] else []))
       (best_alignment system gold))"

definition evaluation_report ::
  "evaluator \<Rightarrow> collected \<Rightarrow> eval_data \<Rightarrow> report_line list result option" where
  "evaluation_report ev c plain =
     (if e_tokenizer ev \<noteq> annotator_none then map_option Inr (plain_text_report ev plain (c_gold c) (snd (c_text c)))
      else if e_tagger ev \<noteq> annotator_none then
        Some (case perfect_alignment (c_goldtok c) (c_gold c) of
            None \<Rightarrow> Inl ''Internal UDPipe error (the words of the gold data do not match)!''
          | Some al \<Rightarrow> Inr (tagging_scores From_Gold_Tokenization al #
              (if e_parser ev \<noteq> annotator_none then [parsing_scores From_Gold_Tokenization al] else [])))
      else if e_parser ev \<noteq> annotator_none then
        Some (case perfect_alignment (c_goldtags c) (c_gold c) of
            None \<Rightarrow> Inl ''Internal UDPipe error (the words of the goldtok data do not match)!''
          | Some al \<Rightarrow> Inr [parsing_scores From_Gold_Tags al])
      else Some (Inr []))"

definition evaluate ::
  "unicode_tables \<Rightarrow> ('t, 'm) udpipe_model_scheme \<Rightarrow> evaluator \<Rightarrow> string \<Rightarrow> report_line list result option" where
  "evaluate u m ev stream =
     Option.bind (read_gold (collect_gold u m ev) stream
         \<lparr>c_gold = no_eval_data, c_text = ([[]], 0), c_goldtok = no_eval_data, c_goldtags = no_eval_data\<rparr>) (\<lambda>res.
     (case res of Inl e \<Rightarrow> Some (Inl e)
      | Inr c \<Rightarrow> Option.bind (read_plain_text u m ev (fst (c_text c))) (\<lambda>res.
     (case res of Inl e \<Rightarrow> Some (Inl e) | Inr plain \<Rightarrow> evaluation_report ev c plain))))"

section \<open>The words of the collected data\<close>

abbreviation data_forms :: "eval_data \<Rightarrow> string list" where
  "data_forms d \<equiv> map form_of (ed_words d)"

definition lower_form :: "unicode_tables \<Rightarrow> word_data \<Rightarrow> string" where
  "lower_form u w = utf8_map (unicode_lowercase u) (tk_form w)"

lemma form_of_mk_eval_word [simp]: "form_of (mk_eval_word u start stop i multiword w) = lower_form u w"
  by (simp add: mk_eval_word_def lower_form_def)

lemma data_forms_multiword:
  "data_forms (fold (\<lambda>k. add_multiword_word u start stop (ws ! k)) ks d) = data_forms d @ map (\<lambda>k. lower_form u (ws ! k)) ks"
  by (induction ks arbitrary: d) simp_all

lemma drop_upt: "i \<le> j \<Longrightarrow> j \<le> length ws \<Longrightarrow> drop i ws = map ((!) ws) [i..<j] @ drop j ws"
  by (rule nth_equalityI) (auto simp: nth_append add.commute)

lemma add_tokens_forms:
  "add_tokens u ws i ms d = Some d' \<Longrightarrow> int (length ws) \<le> int_max \<Longrightarrow> mwts_from (int i - 1) ms \<Longrightarrow>
   data_forms d' = data_forms d @ map (lower_form u) (drop i ws)"
proof (induction u ws i ms d rule: add_tokens.induct)
  case (1 u ws i ms d)
  let ?multiword = "ms \<noteq> [] \<and> mwt_id_first (hd ms) = int i"
  let ?form = "if ?multiword then tk_form (hd ms) else tk_form (ws ! i)"
  let ?start = "length (ed_chars d)"
  let ?chars = "ed_chars d @ filter (\<lambda>chr. chr \<noteq> 32) (utf8_decode_all ?form)"
  let ?d = "d\<lparr>ed_chars := ?chars, ed_tokens := ed_tokens d @ [(?start, length ?chars)]\<rparr>"
  show ?case
  proof (cases "i < length ws")
    case False
    then show ?thesis using "1.prems"(1) by (simp add: add_tokens.simps)
  next
    case True
    show ?thesis
    proof (cases ?multiword)
      case multi: True
      let ?last = "mwt_id_last (hd ms)"
      let ?d' = "?d\<lparr>ed_multiwords := ed_multiwords ?d @ [(?start, ?form)]\<rparr>"
      let ?f = "fold (\<lambda>k. add_multiword_word u ?start (length ?chars) (ws ! k)) [i..<nat (?last + 1)] ?d'"
      have below: "?last < int (length ws)"
        using "1.prems"(1) True multi by (subst (asm) add_tokens.simps) (simp add: Let_def split: if_splits)
      have last: "int i \<le> ?last" "mwts_from ?last (tl ms)" using "1.prems"(3) multi by (cases ms; auto)+
      have next_i: "(u64 ?last + 1) mod 2 ^ 64 = nat (?last + 1)"
        using below last(1) "1.prems"(2) by (simp add: u64_small int_max_def nat_add_distrib)
      have "add_tokens u ws (nat (?last + 1)) (tl ms) ?f = Some d'"
        using "1.prems"(1) True multi below next_i by (subst (asm) add_tokens.simps) (simp add: Let_def)
      moreover have "mwts_from (int (nat (?last + 1)) - 1) (tl ms)" using last by simp
      ultimately have "data_forms d' = data_forms ?f @ map (lower_form u) (drop (nat (?last + 1)) ws)"
        using "1.IH"(1) [OF True refl refl refl refl refl refl multi below, unfolded next_i] "1.prems"(2) by blast
      moreover have "drop i ws = map ((!) ws) [i..<nat (?last + 1)] @ drop (nat (?last + 1)) ws"
        using last(1) below by (intro drop_upt) auto
      ultimately show ?thesis by (simp add: data_forms_multiword comp_def)
    next
      case False
      let ?f = "add_eval_word u ?start (length ?chars) False (ws ! i) ?d"
      have "mwts_from (int (i + 1) - 1) ms" using "1.prems"(3) False by (cases ms) auto
      moreover have "add_tokens u ws (i + 1) ms ?f = Some d'"
        using "1.prems"(1) True False by (subst (asm) add_tokens.simps) (auto simp: Let_def)
      ultimately have "data_forms d' = data_forms ?f @ map (lower_form u) (drop (i + 1) ws)"
        using "1.IH"(2) [OF True refl refl refl refl refl refl False] "1.prems"(2) by blast
      then show ?thesis using True by (simp add: add_eval_word_def Cons_nth_drop_Suc [symmetric])
    qed
  qed
qed

lemma add_tokens_plain: "\<exists>d'. add_tokens u ws i [] d = Some d'"
proof (induction "length ws - i" arbitrary: i d)
  case 0
  then show ?case by (simp add: add_tokens.simps)
next
  case (Suc n)
  then have "i < length ws" by simp
  then show ?case using Suc.hyps(1) [of "i + 1"] Suc.hyps(2) by (subst add_tokens.simps) (simp add: Let_def)
qed

lemma add_sentence_forms:
  assumes "add_sentence u s d = Some d'" "int (length (s_words s)) \<le> int_max" "mwts_from 0 (s_multiword_tokens s)"
  shows "data_forms d' = data_forms d @ map (lower_form u) (tl (s_words s))"
proof -
  obtain d'' where "add_tokens u (s_words s) 1 (s_multiword_tokens s) d = Some d''" "ed_words d' = ed_words d''"
    using assms(1) by (auto simp: add_sentence_def)
  then show ?thesis using add_tokens_forms [of u "s_words s" 1 "s_multiword_tokens s" d d''] assms(2,3) by (simp add: drop_Suc)
qed

lemma gold_words_forms: "map tk_form (s_words (gold_words gold)) = root_form # map tk_form (tl (s_words gold))"
proof -
  have "map tk_form (fold (\<lambda>w. add_word (tk_form w)) ws vs) = map tk_form vs @ map tk_form ws" for ws vs :: "word_data list"
    by (induction ws arbitrary: vs) (simp_all add: add_word_def mk_word_def)
  then show ?thesis by (simp add: gold_words_def clear_sentence_def root_word_def mk_word_def)
qed

section \<open>Evaluation on gold tokenization\<close>

text \<open>A tagger or parser that succeeds and keeps the words.\<close>

definition keeps_words :: "(sentence \<Rightarrow> sentence result) \<Rightarrow> bool" where
  "keeps_words f \<longleftrightarrow> (\<forall>s. \<exists>s'. f s = Inr s' \<and> map tk_form (s_words s') = map tk_form (s_words s) \<and>
     s_multiword_tokens s' = s_multiword_tokens s)"

lemma tag_and_parse_keeps:
  assumes "keeps_words (\<lambda>s. m_tag m s (e_tagger ev))" "keeps_words (\<lambda>s. m_parse m s (e_parser ev))"
  shows "keeps_words (tag_and_parse m ev)"
  unfolding keeps_words_def
proof
  fix s
  obtain t where t: "m_tag m s (e_tagger ev) = Inr t" "map tk_form (s_words t) = map tk_form (s_words s)"
      "s_multiword_tokens t = s_multiword_tokens s"
    using assms(1) unfolding keeps_words_def by blast
  obtain p where "m_parse m t (e_parser ev) = Inr p" "map tk_form (s_words p) = map tk_form (s_words t)"
      "s_multiword_tokens p = s_multiword_tokens t"
    using assms(2) unfolding keeps_words_def by blast
  with t show "\<exists>s'. tag_and_parse m ev s = Inr s' \<and> map tk_form (s_words s') = map tk_form (s_words s) \<and>
      s_multiword_tokens s' = s_multiword_tokens s"
    by (auto simp: tag_and_parse_def)
qed

text \<open>The invariant of the collection: gold and system data have the same words.\<close>

definition collected_ok :: "sentence list \<Rightarrow> collected \<Rightarrow> bool" where
  "collected_ok ss c \<longleftrightarrow> eval_ok (length (ed_words (c_gold c))) (c_gold c) \<and> data_forms (c_goldtok c) = data_forms (c_gold c) \<and>
     length (ed_words (c_gold c)) = sum_list (map (\<lambda>s. length (s_words s) - 1) ss)"

lemma collect_gold_ok:
  assumes ev: "e_tokenizer ev = annotator_none" "e_tagger ev \<noteq> annotator_none" "keeps_words (tag_and_parse m ev)"
    and c: "collected_ok ss c" and s: "sentence_ok s"
  shows "\<exists>c'. collect_gold u m ev s c = Some (Inr c') \<and> collected_ok (ss @ [s]) c'"
proof -
  obtain g where g: "add_sentence u s (c_gold c) = Some g" "eval_ok (length (ed_words g)) g"
    using add_sentence_ok [OF _ s] c by (auto simp: collected_ok_def)
  obtain t where t: "tag_and_parse m ev (gold_words s) = Inr t"
      "map tk_form (s_words t) = map tk_form (s_words (gold_words s))" "s_multiword_tokens t = []"
    using ev(3) [unfolded keeps_words_def, rule_format, of "gold_words s"] by (auto simp: gold_words_def clear_sentence_def)
  obtain d where d: "add_tokens u (s_words t) 1 [] (c_goldtok c) = Some d" using add_tokens_plain by blast
  then obtain d' where d': "add_sentence u t (c_goldtok c) = Some d'" by (simp add: add_sentence_def t(3))
  have len: "length (s_words t) = length (s_words s)"
  proof -
    have "length (s_words t) = Suc (length (tl (s_words s)))"
      using arg_cong [OF t(2), of length] gold_words_forms [of s] by (metis length_Cons length_map)
    moreover have "s_words s \<noteq> []" using s by (simp add: sentence_ok_def wf_sentence_def wf_words_def)
    ultimately show ?thesis by simp
  qed
  have small: "int (length (s_words s)) \<le> int_max" "mwts_from 0 (s_multiword_tokens s)"
    using s by (simp_all add: sentence_ok_def wf_sentence_def)
  have "data_forms g = data_forms (c_gold c) @ map (lower_form u) (tl (s_words s))"
    using add_sentence_forms [OF g(1) small] .
  moreover have "data_forms d' = data_forms (c_goldtok c) @ map (lower_form u) (tl (s_words t))"
    using add_sentence_forms [OF d'] small len by (simp add: t(3))
  moreover have "map (lower_form u) (tl (s_words t)) = map (lower_form u) (tl (s_words s))"
  proof -
    have "map tk_form (tl (s_words t)) = map tk_form (tl (s_words s))"
      using t(2) gold_words_forms [of s] by (simp add: map_tl)
    moreover have "lower_form u = utf8_map (unicode_lowercase u) \<circ> tk_form" by (rule ext) (simp add: lower_form_def)
    ultimately show ?thesis by (metis map_map)
  qed
  ultimately have same: "data_forms d' = data_forms g"
    and forms: "data_forms g = data_forms (c_gold c) @ map (lower_form u) (tl (s_words s))"
    using c unfolding collected_ok_def by metis+
  from forms have "length (data_forms g) = length (data_forms (c_gold c) @ map (lower_form u) (tl (s_words s)))" by (rule arg_cong)
  then have "length (ed_words g) = length (ed_words (c_gold c)) + (length (s_words s) - 1)" by simp
  then show ?thesis
    using g d' t(1) ev(1,2) c same by (simp add: collect_gold_def collected_ok_def Let_def)
qed

lemma read_gold_ok:
  assumes "e_tokenizer ev = annotator_none" "e_tagger ev \<noteq> annotator_none" "keeps_words (tag_and_parse m ev)"
  shows "collected_ok rs c \<Longrightarrow> \<forall>s \<in> set ss. conllu_ok s \<and> sentence_ok s \<Longrightarrow>
    \<exists>c'. read_gold (collect_gold u m ev) (document 2 ss) c = Some (Inr c') \<and> collected_ok (rs @ ss) c'"
proof (induction ss arbitrary: rs c)
  case Nil
  then show ?case by (subst read_gold.simps) (simp add: getpara_def getpara_loop.simps getline_def)
next
  case (Cons s ss)
  obtain c' where c': "collect_gold u m ev s c = Some (Inr c')" "collected_ok (rs @ [s]) c'"
    using collect_gold_ok [OF assms Cons.prems(1), of s u] Cons.prems(2) by auto
  have "getpara (document 2 (s # ss)) = Some (write_conllu 2 s, document 2 ss)"
    using getpara_sentence [of s "document 2 ss"] Cons.prems by simp
  moreover have "collect_sentences (conllu_next_sentence 2) (collect_gold u m ev) (write_conllu 2 s) c = Some (Inr ([], c'))"
  proof -
    have "conllu_next_sentence 2 (write_conllu 2 s) = Some (Inr (Some s), [])"
      using conllu_reads_written [of s "[]"] Cons.prems(2) by simp
    moreover have "collect_sentences (conllu_next_sentence 2) (collect_gold u m ev) [] c' = Some (Inr ([], c'))"
      by (subst collect_sentences.simps) (simp add: conllu_next_end)
    ultimately show ?thesis using c'(1) by (subst collect_sentences.simps) simp
  qed
  moreover obtain c'' where "read_gold (collect_gold u m ev) (document 2 ss) c' = Some (Inr c'')" "collected_ok ((rs @ [s]) @ ss) c''"
    using Cons.IH [OF c'(2)] Cons.prems(2) by auto
  ultimately show ?case by (subst read_gold.simps) simp
qed

section \<open>Evaluation of data against itself\<close>

lemma add_sentences_words:
  assumes "add_sentences u ss d = Some d'" "\<forall>s \<in> set ss. sentence_ok s"
  shows "length (ed_words d') = length (ed_words d) + sum_list (map (\<lambda>s. length (s_words s) - 1) ss) \<and>
    length (ed_sentences d') = length (ed_sentences d) + length ss"
  using assms
proof (induction ss arbitrary: d)
  case (Cons s ss)
  then obtain d1 where d1: "add_sentence u s d = Some d1" "add_sentences u ss d1 = Some d'" by (auto simp: bind_eq_Some_conv)
  have "data_forms d1 = data_forms d @ map (lower_form u) (tl (s_words s))"
    using add_sentence_forms [OF d1(1)] Cons.prems(2) by (simp add: sentence_ok_def wf_sentence_def)
  from arg_cong [OF this, of length] have "length (ed_words d1) = length (ed_words d) + (length (s_words s) - 1)" by simp
  moreover have "length (ed_sentences d1) = length (ed_sentences d) + 1" using d1(1) by (auto simp: add_sentence_def)
  ultimately show ?case using Cons.IH [OF d1(2)] Cons.prems(2) by simp
qed simp

text \<open>All of a number of items found, none missed.\<close>

definition full_score :: "nat \<Rightarrow> f1_info" where
  "full_score n = \<lparr>f1_total_system = n, f1_total_gold = n, f1_precision = of_bool (0 < n), f1_recall = of_bool (0 < n),
     f1_f1 = of_bool (0 < n)\<rparr>"

lemma full_score_totals [simp]: "f1_total_system (full_score n) = n" "f1_total_gold (full_score n) = n"
  by (simp_all add: full_score_def)

lemma mk_f1_full: "mk_f1 n n n = full_score n"
  by (simp add: mk_f1_def full_score_def)

lemma spans_self: "evaluate_spans xs xs = full_score (length xs)"
proof -
  have "count_both xs xs = length xs" by (induction xs) auto
  then show ?thesis by (simp add: evaluate_spans_def mk_f1_full)
qed

lemma words_self:
  assumes "\<And>w. equals w w"
  shows "evaluate_words equals \<lparr>al_matched = map (\<lambda>w. (f w, f w)) ws, al_total_system = length ws, al_total_gold = length ws\<rparr> =
    full_score (length ws)"
proof -
  have "filter (\<lambda>(s, g). equals s g) (map (\<lambda>w. (f w, f w)) ws) = map (\<lambda>w. (f w, f w)) ws"
    using assms by (induction ws) simp_all
  then show ?thesis by (simp add: evaluate_words_def mk_f1_full)
qed

text \<open>
  C19: Data evaluated against itself is perfect. For sentences whose tokens are not only spaces the
  report from plain text is written, and each of its scores has no error: those of the
  words, tags, lemmas, heads and relations count all words, that of the sentences all sentences, and
  those of the tokens and multiword tokens, which stand there if there are multiword tokens, all of them.
\<close>

theorem evaluation_with_itself:
  assumes "\<forall>s \<in> set ss. sentence_ok s" "n = sum_list (map (\<lambda>s. length (s_words s) - 1) ss)"
  shows "\<exists>d. add_sentences u ss no_eval_data = Some d \<and> plain_text_report ev d d nos = Some ([Space_After_No nos] @
    (if ed_multiwords d = [] then []
     else [Tokens_Score (full_score (length (ed_tokens d))), Multiwords_Score (full_score (length (ed_multiwords d)))]) @
    [Words_Score (full_score n), Sentences_Score (full_score (length ss))] @
    (if e_tagger ev = ''none'' then []
     else [Tagging_Scores From_Plain_Text (full_score n) (full_score n) (full_score n) (full_score n) (full_score n)]) @
    (if e_tagger ev = ''none'' \<or> e_parser ev = ''none'' then []
     else [Parsing_Scores From_Plain_Text (full_score n) (full_score n)]))"
proof -
  obtain d where d: "add_sentences u ss no_eval_data = Some d"
      "best_alignment d d = Some \<lparr>al_matched = map (\<lambda>w. (ew_word w, ew_word w)) (ed_words d),
        al_total_system = length (ed_words d), al_total_gold = length (ed_words d)\<rparr>"
    using alignment_with_itself [OF assms(1), of u] by blast
  have n: "length (ed_words d) = n" "length (ed_sentences d) = length ss"
    using add_sentences_words [OF d(1) assms(1)] by (simp_all add: assms(2) no_eval_data_def)
  have score: "evaluate_words equals \<lparr>al_matched = map (\<lambda>w. (ew_word w, ew_word w)) (ed_words d),
      al_total_system = n, al_total_gold = n\<rparr> = full_score n" if "\<And>w. equals w w" for equals
    using words_self [where equals = equals and f = ew_word and ws = "ed_words d"] that n(1) by simp
  have "plain_text_report ev d d nos = Some ([Space_After_No nos] @
    (if ed_multiwords d = [] then []
     else [Tokens_Score (full_score (length (ed_tokens d))), Multiwords_Score (full_score (length (ed_multiwords d)))]) @
    [Words_Score (full_score n), Sentences_Score (full_score (length ss))] @
    (if e_tagger ev = ''none'' then []
     else [Tagging_Scores From_Plain_Text (full_score n) (full_score n) (full_score n) (full_score n) (full_score n)]) @
    (if e_tagger ev = ''none'' \<or> e_parser ev = ''none'' then []
     else [Parsing_Scores From_Plain_Text (full_score n) (full_score n)]))"
    by (simp add: plain_text_report_def d(2) spans_self score n tagging_scores_def parsing_scores_def annotator_none_def Let_def)
  then show ?thesis using d(1) by blast
qed

lemma evaluation_with_itself_witness:
  "\<forall>u. \<exists>d. add_sentences u [sample_multiword] no_eval_data = Some d \<and>
    plain_text_report \<lparr>e_tokenizer = [], e_tagger = [], e_parser = ''none''\<rparr> d d 0 = Some ([Space_After_No 0] @
    (if ed_multiwords d = [] then []
     else [Tokens_Score (full_score (length (ed_tokens d))), Multiwords_Score (full_score (length (ed_multiwords d)))]) @
    [Words_Score (full_score 2), Sentences_Score (full_score 1),
     Tagging_Scores From_Plain_Text (full_score 2) (full_score 2) (full_score 2) (full_score 2) (full_score 2)])"
  using evaluation_with_itself [of "[sample_multiword]" 2 _ "\<lparr>e_tokenizer = [], e_tagger = [], e_parser = ''none''\<rparr>" 0] sample_multiword_ok
  by (simp add: sample_multiword_def clear_sentence_def add_word_def del: add_sentences.simps)

section \<open>Evaluation of taggers and parsers\<close>

text \<open>
  C25: on gold tokenization the evaluation of a tagger and a parser that keep the words of a
  sentence always reports scores: all words of the gold data are aligned, the scores are between 0
  and 1, and the internal error of words that do not match is impossible.
\<close>

theorem evaluate_gold_tokenization:
  assumes "e_tokenizer ev = annotator_none" "e_tagger ev \<noteq> annotator_none"
    and "keeps_words (\<lambda>s. m_tag m s (e_tagger ev))" "keeps_words (\<lambda>s. m_parse m s (e_parser ev))"
    and "\<forall>s \<in> set ss. conllu_ok s \<and> sentence_ok s"
  shows "\<exists>al. evaluate u m ev (document 2 ss) = Some (Inr (tagging_scores From_Gold_Tokenization al #
      (if e_parser ev \<noteq> annotator_none then [parsing_scores From_Gold_Tokenization al] else []))) \<and>
    length (al_matched al) = sum_list (map (\<lambda>s. length (s_words s) - 1) ss) \<and> scores_ok al"
proof -
  let ?c0 = "\<lparr>c_gold = no_eval_data, c_text = ([[]], 0), c_goldtok = no_eval_data, c_goldtags = no_eval_data\<rparr>"
  have "collected_ok [] ?c0" by (simp add: collected_ok_def) (simp add: no_eval_data_def)
  from read_gold_ok [OF assms(1,2) tag_and_parse_keeps [OF assms(3,4)] this assms(5)]
  obtain c where c: "read_gold (collect_gold u m ev) (document 2 ss) ?c0 = Some (Inr c)" "collected_ok ss c" by auto
  let ?al = "\<lparr>al_matched = zip (map ew_word (ed_words (c_goldtok c))) (map ew_word (ed_words (c_gold c))),
     al_total_system = length (ed_words (c_goldtok c)), al_total_gold = length (ed_words (c_gold c))\<rparr>"
  have forms: "data_forms (c_goldtok c) = data_forms (c_gold c)" and len: "length (ed_words (c_goldtok c)) = length (ed_words (c_gold c))"
    using c(2) by (auto simp: collected_ok_def dest: map_eq_imp_length_eq)
  then have al: "perfect_alignment (c_goldtok c) (c_gold c) = Some ?al" by (simp add: perfect_alignment_def Let_def comp_def)
  have "length (filter P (al_matched ?al)) \<le> length (ed_words (c_gold c))" for P
    using length_filter_le [of P "al_matched ?al"] len by simp
  then have "scores_ok ?al" using len mk_f1_bounds by (simp add: scores_ok_def evaluate_words_def Let_def)
  moreover have "length (al_matched ?al) = sum_list (map (\<lambda>s. length (s_words s) - 1) ss)"
    using len c(2) by (simp add: collected_ok_def)
  moreover have "evaluate u m ev (document 2 ss) = Some (Inr (tagging_scores From_Gold_Tokenization ?al #
      (if e_parser ev \<noteq> annotator_none then [parsing_scores From_Gold_Tokenization ?al] else [])))"
    using assms(1,2) c(1) al by (simp add: evaluate_def read_plain_text_def evaluation_report_def)
  ultimately show ?thesis by blast
qed

definition sample_evaluator :: evaluator where
  "sample_evaluator = \<lparr>e_tokenizer = ''none'', e_tagger = [], e_parser = ''none''\<rparr>"

lemma sample_sentence_ok: "sentence_ok sample_sentence"
proof -
  have "visible ''I m''" "visible ''_''" "visible ''Im''" by (simp_all add: visible_def utf8_decode_all.simps Let_def)
  moreover have "wf_sentence sample_sentence" using sample_ok by (simp add: conllu_ok_def)
  ultimately show ?thesis
    by (simp add: sentence_ok_def) (simp add: sample_sentence_def mk_word_def mk_multiword_token_def int_max_def)
qed

lemma evaluate_gold_tokenization_witness:
  "\<forall>u. \<exists>al. evaluate u (no_model\<lparr>m_tag := \<lambda>s _. Inr s\<rparr>) sample_evaluator (document 2 [sample_sentence]) =
     Some (Inr [tagging_scores From_Gold_Tokenization al]) \<and> length (al_matched al) = 2"
proof
  fix u
  have len: "sum_list (map (\<lambda>s. length (s_words s) - 1) [sample_sentence]) = 2" by (simp add: sample_sentence_def)
  have parser: "e_parser sample_evaluator = annotator_none" by (simp add: sample_evaluator_def annotator_none_def)
  have "\<exists>al. evaluate u (no_model\<lparr>m_tag := \<lambda>s _. Inr s\<rparr>) sample_evaluator (document 2 [sample_sentence]) =
      Some (Inr (tagging_scores From_Gold_Tokenization al #
        (if e_parser sample_evaluator \<noteq> annotator_none then [parsing_scores From_Gold_Tokenization al] else []))) \<and>
      length (al_matched al) = sum_list (map (\<lambda>s. length (s_words s) - 1) [sample_sentence]) \<and> scores_ok al"
    using sample_ok sample_sentence_ok
    by (intro evaluate_gold_tokenization) (simp_all add: sample_evaluator_def annotator_none_def keeps_words_def no_model_def)
  then show "\<exists>al. evaluate u (no_model\<lparr>m_tag := \<lambda>s _. Inr s\<rparr>) sample_evaluator (document 2 [sample_sentence]) =
     Some (Inr [tagging_scores From_Gold_Tokenization al]) \<and> length (al_matched al) = 2"
    using len parser by auto
qed

end
