(* ===== verification/Model_File.thy ===== *)
theory Model_File
  imports Word_Analysis
begin

text \<open>
  Model files: \<open>load\<close> of \<open>src/model/model_morphodita_parsito.cpp\<close> and \<open>src/model/model.cpp\<close>, and the
  layout that \<open>src/trainer/trainer.cpp\<close> and \<open>src/trainer/trainer_morphodita_parsito.cpp\<close> write around
  the parts they train. The binary formats of the parts are parameters: a loader for each.

  The proofs show that what the trainer writes is loaded again, and that a model file whose first
  byte is negative is not answered with a null pointer.
\<close>

section \<open>Model files\<close>

text \<open>
  Loading reads one part after the other from a stream; a loader of a part gives what it has read
  and the rest of the stream, or fails. Bytes are signed, as \<open>char\<close> is on x86.
\<close>

type_synonym 'a loader = "string \<Rightarrow> ('a \<times> string) option"

record ('f, 's, 'g, 'p) part_loaders =
  ld_tokenizer :: "'f loader"
  ld_splitter :: "'s loader"
  ld_tagger :: "'g loader"
  ld_parser :: "'p loader"

record 'g stored_tagger =
  st_raw :: bool
  st_upostag :: bool
  st_lemma :: int
  st_xpostag :: bool
  st_feats :: bool
  st_tagger :: 'g

record ('f, 's, 'g, 'p) stored_model =
  sm_version :: nat
  sm_tokenizer :: "('f \<times> 's) option"
  sm_taggers :: "'g stored_tagger list"
  sm_parser :: "'p option"

definition get_byte :: "nat loader" where
  "get_byte s = (case s of [] \<Rightarrow> None | c # r \<Rightarrow> Some (byte_of c, r))"

text \<open>A part behind a byte that tells whether it is there.\<close>

definition load_part :: "'a loader \<Rightarrow> 'a option loader" where
  "load_part load s = Option.bind (get_byte s) (\<lambda>(there, s).
     if there \<noteq> 0 then map_option (map_prod Some id) (load s) else Some (None, s))"

definition conllu_tagger_ids :: "nat set" where
  "conllu_tagger_ids = {8, 9, 10}"

definition signed_byte :: "nat \<Rightarrow> int" where
  "signed_byte b = (if b < 128 then int b else int b - 256)"

definition load_tagger :: "'g loader \<Rightarrow> bool \<Rightarrow> 'g stored_tagger loader" where
  "load_tagger load upostag s =
     Option.bind (get_byte s) (\<lambda>(lemma, s). Option.bind (get_byte s) (\<lambda>(xpostag, s). Option.bind (get_byte s) (\<lambda>(feats, s).
       let raw = (case s of [] \<Rightarrow> True | c # _ \<Rightarrow> byte_of c \<notin> conllu_tagger_ids)
       in map_option (map_prod (\<lambda>tagger. \<lparr>st_raw = raw, st_upostag = upostag, st_lemma = signed_byte lemma, st_xpostag = xpostag \<noteq> 0,
            st_feats = feats \<noteq> 0, st_tagger = tagger\<rparr>) id) (load s))))"

fun load_taggers :: "'g loader \<Rightarrow> bool \<Rightarrow> nat \<Rightarrow> 'g stored_tagger list loader" where
  "load_taggers load first 0 s = Some ([], s)"
| "load_taggers load first (Suc n) s =
     Option.bind (load_tagger load first s) (\<lambda>(tagger, s).
       map_option (map_prod (Cons tagger) id) (load_taggers load False n s))"

definition load_sentinel :: "unit loader" where
  "load_sentinel s = Option.bind (get_byte s) (\<lambda>(b, s). if b \<noteq> 0x7F then None else
     Option.bind (get_byte s) (\<lambda>(b, s). if b \<noteq> 0x7F then None else Some ((), s)))"

definition load_tokenizer :: "('f, 's, 'g, 'p) part_loaders \<Rightarrow> ('f \<times> 's) loader" where
  "load_tokenizer ld s =
     Option.bind (ld_tokenizer ld s) (\<lambda>(f, s). map_option (map_prod (Pair f) id) (ld_splitter ld s))"

definition load_stored :: "('f, 's, 'g, 'p) part_loaders \<Rightarrow> string \<Rightarrow> ('f, 's, 'g, 'p) stored_model option" where
  "load_stored ld s =
     Option.bind (get_byte s) (\<lambda>(version, s).
     if \<not> (1 \<le> version \<and> version \<le> version_latest) then None else
     Option.bind (if version \<ge> 2 then load_sentinel s else Some ((), s)) (\<lambda>(_, s).
     Option.bind (load_part (load_tokenizer ld) s) (\<lambda>(tokenizer, s).
     Option.bind (get_byte s) (\<lambda>(taggers, s).
     Option.bind (load_taggers (ld_tagger ld) True (nat (signed_byte taggers)) s) (\<lambda>(taggers, s).
     map_option (\<lambda>(p, _). \<lparr>sm_version = version, sm_tokenizer = tokenizer, sm_taggers = taggers, sm_parser = p\<rparr>)
       (load_part (ld_parser ld) s))))))"

text \<open>
  \<open>model::load\<close>: the name of the model is in front. A negative length makes the constructor of the
  string throw, which the outer \<open>None\<close> stands for; \<open>Some None\<close> is a null pointer.
\<close>

definition model_name :: string where
  "model_name = ''morphodita_parsito''"

definition load_model :: "('f, 's, 'g, 'p) part_loaders \<Rightarrow> string \<Rightarrow> ('f, 's, 'g, 'p) stored_model option option" where
  "load_model ld s =
     (case get_byte s of None \<Rightarrow> Some None
      | Some (len, s) \<Rightarrow>
        if signed_byte len < 0 then None
        else if length s < len then Some None
        else if take len s = model_name then Some (load_stored ld (drop len s)) else Some None)"

text \<open>
  The trainer writes the same layout around the bytes of the parts it has trained: tokenizer and
  splitter, the taggers with what they provide, and the parser. How a tagger encodes lemmas is an
  \<open>int\<close>, of which the file has the lowest byte.
\<close>

definition put_byte :: "nat \<Rightarrow> string" where
  "put_byte b = [char_of b]"

definition put_part :: "string option \<Rightarrow> string" where
  "put_part part = (case part of None \<Rightarrow> put_byte 0 | Some bytes \<Rightarrow> put_byte 1 @ bytes)"

definition put_char :: "int \<Rightarrow> string" where
  "put_char i = put_byte (nat (i mod 256))"

definition put_tagger :: "int \<times> bool \<times> bool \<times> string \<Rightarrow> string" where
  "put_tagger = (\<lambda>(lemma, xpostag, feats, bytes). put_char lemma @ put_byte (of_bool xpostag) @ put_byte (of_bool feats) @ bytes)"

definition put_model :: "(string \<times> string) option \<Rightarrow> (int \<times> bool \<times> bool \<times> string) list \<Rightarrow> string option \<Rightarrow> string" where
  "put_model tokenizer taggers p =
     put_byte (length model_name) @ model_name @
     put_byte version_latest @ put_byte 0x7F @ put_byte 0x7F @
     put_part (map_option (\<lambda>(t, s). t @ s) tokenizer) @
     put_byte (length taggers) @ concat (map put_tagger taggers) @ put_part p"

subsection \<open>A trained model is loaded\<close>

lemma get_put_byte [simp]: "b < 256 \<Longrightarrow> get_byte (put_byte b @ s) = Some (b, s)"
  by (simp add: get_byte_def put_byte_def)

lemma get_put_char [simp]: "get_byte (put_char i @ s) = Some (nat (i mod 256), s)"
  by (simp add: put_char_def nat_less_iff)

lemma signed_byte_char: "signed_byte (nat (i mod 256)) = (i + 128) mod 256 - 128"
proof -
  have "(i + 128) mod 256 = (i mod 256 + 128) mod 256" by (simp add: mod_add_left_eq)
  moreover have "(m + 128) mod 256 = (if m < 128 then m + 128 else m - 128)" if "0 \<le> m" "m < 256" for m :: int
    using that mod_add_self2 [of "m - 128" 256] by (auto simp: mod_pos_pos_trivial add.commute)
  ultimately show ?thesis by (simp add: signed_byte_def nat_less_iff)
qed

text \<open>A loader reads these bytes, whatever follows.\<close>

definition reads :: "'a loader \<Rightarrow> string \<Rightarrow> 'a \<Rightarrow> bool" where
  "reads load bytes a \<longleftrightarrow> (\<forall>s. load (bytes @ s) = Some (a, s))"

lemma load_put_part:
  assumes "rel_option (reads load) bytes a"
  shows "load_part load (put_part bytes @ s) = Some (a, s)"
  using assms by (cases rule: option.rel_cases) (simp_all add: put_part_def load_part_def reads_def)

definition tagger_bytes_ok :: "string \<Rightarrow> bool" where
  "tagger_bytes_ok bytes \<longleftrightarrow> (\<exists>c r. bytes = c # r \<and> byte_of c \<in> conllu_tagger_ids)"

text \<open>
  What is stored of a tagger: the encoding of its lemmas in the range of a \<open>char\<close>, from which the
  encodings 0, 1 and 2 come back as they are and 256 as 0.
\<close>

definition stored_of :: "bool \<Rightarrow> int \<times> bool \<times> bool \<times> string \<Rightarrow> 'g \<Rightarrow> 'g stored_tagger" where
  "stored_of upostag = (\<lambda>(lemma, xpostag, feats, bytes) g.
     \<lparr>st_raw = False, st_upostag = upostag, st_lemma = (lemma + 128) mod 256 - 128, st_xpostag = xpostag, st_feats = feats, st_tagger = g\<rparr>)"

definition tagger_reads :: "'g loader \<Rightarrow> int \<times> bool \<times> bool \<times> string \<Rightarrow> 'g \<Rightarrow> bool" where
  "tagger_reads load = (\<lambda>(lemma, xpostag, feats, bytes) g. tagger_bytes_ok bytes \<and> reads load bytes g)"

lemma load_put_tagger: "tagger_reads load t g \<Longrightarrow> load_tagger load upostag (put_tagger t @ s) = Some (stored_of upostag t g, s)"
  by (auto simp: load_tagger_def put_tagger_def tagger_reads_def tagger_bytes_ok_def reads_def stored_of_def Let_def signed_byte_char split: prod.splits)

lemma load_put_taggers:
  "list_all2 (tagger_reads load) ts gs \<Longrightarrow> load_taggers load first (length ts) (concat (map put_tagger ts) @ s) =
     Some (map2 (\<lambda>(upostag, t) g. stored_of upostag t g) (zip (first # replicate (length ts) False) ts) gs, s)"
proof (induction ts gs arbitrary: first rule: list_all2_induct)
  case (Cons t ts g gs)
  have "zip (False # replicate (length ts) False) ts = zip (replicate (length ts) False) ts"
    by (intro nth_equalityI) (auto simp: nth_Cons split: nat.split)
  then show ?case using Cons.hyps(1) Cons.IH [of False] by (simp add: load_put_tagger)
qed simp

text \<open>
  C11: What the trainer writes is a model file that loads: with loaders that read the bytes of the
  trained parts, and at most four taggers, the model comes back with the latest version, all its
  parts in their order, which columns each tagger provides, the universal tag from the first tagger
  only, and the way a tagger encodes lemmas as far as it fits into a signed byte.
\<close>

theorem trained_model_loads:
  assumes "rel_option (\<lambda>(t, s) (f, sp). reads (ld_tokenizer ld) t f \<and> reads (ld_splitter ld) s sp) tokenizer tok"
    "list_all2 (tagger_reads (ld_tagger ld)) taggers gs" "length taggers \<le> 4" "rel_option (reads (ld_parser ld)) p q"
  shows "load_model ld (put_model tokenizer taggers p) = Some (Some \<lparr>sm_version = version_latest, sm_tokenizer = tok,
    sm_taggers = map2 (\<lambda>(upostag, t) g. stored_of upostag t g) (zip (True # replicate (length taggers) False) taggers) gs,
    sm_parser = q\<rparr>)"
proof -
  have tok: "rel_option (reads (load_tokenizer ld)) (map_option (\<lambda>(t, s). t @ s) tokenizer) tok"
    using assms(1) by (cases rule: option.rel_cases) (auto simp: reads_def load_tokenizer_def)
  have count: "nat (signed_byte (length taggers)) = length taggers" "length taggers < 256" using assms(3) by (simp_all add: signed_byte_def)
  define rest where "rest = put_byte (length taggers) @ concat (map put_tagger taggers) @ put_part p"
  have last: "load_part (ld_parser ld) (put_part p) = Some (q, [])" using load_put_part [OF assms(4), of "[]"] by simp
  have "load_stored ld (put_byte version_latest @ put_byte 0x7F @ put_byte 0x7F @ put_part (map_option (\<lambda>(t, s). t @ s) tokenizer) @ rest) =
    Some \<lparr>sm_version = version_latest, sm_tokenizer = tok,
      sm_taggers = map2 (\<lambda>(upostag, t) g. stored_of upostag t g) (zip (True # replicate (length taggers) False) taggers) gs, sm_parser = q\<rparr>"
    using count load_put_taggers [OF assms(2), of True "put_part p"] last
    by (simp add: load_stored_def load_sentinel_def version_latest_def load_put_part [OF tok] rest_def)
  then show ?thesis
    by (simp add: load_model_def put_model_def rest_def signed_byte_def model_name_def)
qed

definition plain_loaders :: "(unit, unit, char, char) part_loaders" where
  "plain_loaders = \<lparr>ld_tokenizer = \<lambda>s. Some ((), s), ld_splitter = \<lambda>s. Some ((), s),
     ld_tagger = \<lambda>s. (case s of [] \<Rightarrow> None | c # s \<Rightarrow> Some (c, s)), ld_parser = \<lambda>s. (case s of [] \<Rightarrow> None | c # s \<Rightarrow> Some (c, s))\<rparr>"

lemma trained_model_loads_witness:
  "load_model plain_loaders (put_model None [(2, True, False, [char_of (8 :: nat)]), (0, False, False, [char_of (10 :: nat)])] (Some ''p'')) =
    Some (Some \<lparr>sm_version = 3, sm_tokenizer = None,
      sm_taggers = [\<lparr>st_raw = False, st_upostag = True, st_lemma = 2, st_xpostag = True, st_feats = False, st_tagger = char_of (8 :: nat)\<rparr>,
        \<lparr>st_raw = False, st_upostag = False, st_lemma = 0, st_xpostag = False, st_feats = False, st_tagger = char_of (10 :: nat)\<rparr>],
      sm_parser = Some (CHR ''p'')\<rparr>)"
proof -
  have taggers: "list_all2 (tagger_reads (ld_tagger plain_loaders)) [(2, True, False, [char_of (8 :: nat)]), (0, False, False, [char_of (10 :: nat)])]
      [char_of (8 :: nat), char_of (10 :: nat)]"
    by (simp add: tagger_reads_def tagger_bytes_ok_def conllu_tagger_ids_def reads_def plain_loaders_def del: char_of_eq_iff)
  have p: "rel_option (reads (ld_parser plain_loaders)) (Some ''p'') (Some (CHR ''p''))"
    by (simp add: reads_def plain_loaders_def)
  have t: "rel_option (\<lambda>(t, s) (f, sp). reads (ld_tokenizer plain_loaders) t f \<and> reads (ld_splitter plain_loaders) s sp) None None"
    by simp
  show ?thesis
    using trained_model_loads [OF t taggers _ p]
    by (simp add: version_latest_def stored_of_def)
qed

text \<open>
  A file whose first byte is 128 or more makes loading throw an exception that nothing catches:
  it does not return the null pointer that the documentation promises. Every other file is
  answered with a model or with the null pointer.
\<close>

theorem load_model_throws: "load_model ld s = None \<longleftrightarrow> s \<noteq> [] \<and> 128 \<le> byte_of (hd s)"
proof -
  have "byte_of c < 256" for c by simp
  then show ?thesis by (cases s) (auto simp: load_model_def get_byte_def signed_byte_def)
qed

end
