(* ===== verification/Model_Tokenizer.thy ===== *)
theory Model_Tokenizer
  imports Udpipe_Model Presegmented
begin

text \<open>
  The tokenizer of a model: \<open>new_tokenizer\<close> of \<open>src/model/model_morphodita_parsito.cpp\<close>. The options
  choose what is built around the tokenizer of MorphoDiTa: the wrapper that makes sentences, the
  reader of presegmented lines, and the segmentation by parsing. The three layers are the models of
  the theories \<open>Tokenizer\<close>, \<open>Presegmented\<close> and \<open>Joint_Tokenizer\<close>; here they are put together.
\<close>

section \<open>Model\<close>

text \<open>The tokenizer at the bottom: a new one, its \<open>set_text\<close> and its \<open>next_sentence\<close>.\<close>

record 't base_tokenizer =
  bt_new :: 't
  bt_put :: "string \<Rightarrow> 't \<Rightarrow> 't"
  bt_next :: "'t \<Rightarrow> (((nat \<times> nat) list \<times> (nat \<times> nat) list) option \<times> 't) option"

datatype 't line_tokenizer =
    Wrapped tokenizer_options "'t tokenizer_wrapper"
  | Segmented tokenizer_options "'t tokenizer_wrapper presegmented"

datatype ('t, 'c) model_tokenizer =
    Plain_Tokenizer "'t line_tokenizer"
  | Joint_Parsing "'c joint_options" "'t line_tokenizer joint_tokenizer"

fun lt_read_block :: "'t line_tokenizer \<Rightarrow> string \<Rightarrow> (string \<times> string) option" where
  "lt_read_block (Wrapped opts w) stream = getpara stream"
| "lt_read_block (Segmented opts r) stream = map_option (\<lambda>(line, stream). (line @ [lf], stream)) (getline stream)"

fun lt_reset :: "'t base_tokenizer \<Rightarrow> string \<Rightarrow> 't line_tokenizer \<Rightarrow> 't line_tokenizer" where
  "lt_reset b i (Wrapped opts w) = Wrapped opts (tw_reset_document (bt_put b) (tz_tables opts) i w)"
| "lt_reset b i (Segmented opts r) = Segmented opts (ps_reset_document (tw_reset_document (bt_put b) (tz_tables opts) []) i r)"

fun lt_put :: "'t base_tokenizer \<Rightarrow> string \<Rightarrow> 't line_tokenizer \<Rightarrow> 't line_tokenizer" where
  "lt_put b t (Wrapped opts w) = Wrapped opts (tw_set_text (bt_put b) (tz_tables opts) t w)"
| "lt_put b t (Segmented opts r) = Segmented opts (ps_set_text t r)"

fun lt_next :: "'t base_tokenizer \<Rightarrow> 't line_tokenizer \<Rightarrow> (sentence option result \<times> 't line_tokenizer) option" where
  "lt_next b (Wrapped opts w) = map_option (map_prod id (Wrapped opts)) (tw_next_sentence (bt_next b) opts w)"
| "lt_next b (Segmented opts r) = map_option (map_prod id (Segmented opts))
     (presegmented_next (tw_set_text (bt_put b) (tz_tables opts)) (tw_next_sentence (bt_next b) opts) r)"

definition lt_ops :: "'t base_tokenizer \<Rightarrow> 't line_tokenizer tokenizer_ops" where
  "lt_ops b = \<lparr>to_read_block = lt_read_block, to_reset_document = lt_reset b, to_set_text = lt_put b, to_next_sentence = lt_next b\<rparr>"

text \<open>
  What joint parsing pays for a sentence: the cost of the best configuration with the default
  options, times the number of words.
\<close>

definition times_cost :: "nat \<Rightarrow> 'c \<Rightarrow> 'c :: monoid_add" where
  "times_cost n c = ((+) c ^^ n) 0"

definition sentence_cost ::
  "('o :: linorder, 'c :: linordered_ab_group_add) morphodita_parsito \<Rightarrow> sentence \<Rightarrow> 'c result" where
  "sentence_cost m s =
     (case mp_parser m of None \<Rightarrow> Inl no_parser_error
      | Some p \<Rightarrow> Inr (times_cost (length (s_words s) - 1) (snd (the
          (beam_search (mp_tables m) p (mp_network m) (mp_next_cost m) (mp_zero m) 5 (parser_tree (mp_version m) s))))))"

fun mt_read_block :: "('t, 'c) model_tokenizer \<Rightarrow> string \<Rightarrow> (string \<times> string) option" where
  "mt_read_block (Plain_Tokenizer t) stream = lt_read_block t stream"
| "mt_read_block (Joint_Parsing jo jt) stream = joint_read_block stream"

fun mt_reset :: "'t base_tokenizer \<Rightarrow> string \<Rightarrow> ('t, 'c) model_tokenizer \<Rightarrow> ('t, 'c) model_tokenizer" where
  "mt_reset b i (Plain_Tokenizer t) = Plain_Tokenizer (lt_reset b i t)"
| "mt_reset b i (Joint_Parsing jo jt) = Joint_Parsing jo (joint_reset_document i jt)"

fun mt_put :: "'t base_tokenizer \<Rightarrow> string \<Rightarrow> ('t, 'c) model_tokenizer \<Rightarrow> ('t, 'c) model_tokenizer" where
  "mt_put b t (Plain_Tokenizer lt) = Plain_Tokenizer (lt_put b t lt)"
| "mt_put b t (Joint_Parsing jo jt) = Joint_Parsing jo (joint_set_text t jt)"

fun mt_next ::
  "'t base_tokenizer \<Rightarrow> (sentence \<Rightarrow> 'c result) \<Rightarrow> ('t, 'c :: linordered_ab_group_add) model_tokenizer \<Rightarrow>
   (sentence option result \<times> ('t, 'c) model_tokenizer) option" where
  "mt_next b cost (Plain_Tokenizer t) = map_option (map_prod id Plain_Tokenizer) (lt_next b t)"
| "mt_next b cost (Joint_Parsing jo jt) = map_option (map_prod id (Joint_Parsing jo)) (joint_next_sentence (lt_ops b) cost jo jt)"

text \<open>
  The options; \<open>half\<close> is the constant -0.5 and \<open>number\<close> reads a floating-point value. The null
  pointer is \<open>Some None\<close>, options that are not read to their end are \<open>None\<close>.
\<close>

definition new_joint_options :: "(string \<Rightarrow> 'c option) \<Rightarrow> 'c \<Rightarrow> values_map \<Rightarrow> 'c joint_options option" where
  "new_joint_options number half opts =
     (case (case opts ''joint_max_sentence_len'' of None \<Rightarrow> Inr 20 | Some v \<Rightarrow> parse_int v ''joint max sentence len'') of
        Inl _ \<Rightarrow> None
      | Inr max_len \<Rightarrow>
     (case (case opts ''joint_change_boundary_logprob'' of None \<Rightarrow> Some half | Some v \<Rightarrow> number v) of
        None \<Rightarrow> None
      | Some change \<Rightarrow>
     (case (case opts ''joint_sentence_logprob'' of None \<Rightarrow> Some half | Some v \<Rightarrow> number v) of
        None \<Rightarrow> None
      | Some sent \<Rightarrow> Some \<lparr>jo_max_sentence_len = max_len, jo_change_boundary = change, jo_sentence = sent\<rparr>)))"

definition new_line_tokenizer ::
  "'t base_tokenizer \<Rightarrow> unicode_tables \<Rightarrow> multiword_splitter option \<Rightarrow> values_map \<Rightarrow> 't line_tokenizer" where
  "new_line_tokenizer b u splitter opts =
     (let tz = \<lparr>tz_tables = u, tz_splitter = splitter, tz_normalized_spaces = opts ''normalized_spaces'' \<noteq> None,
            tz_token_ranges = opts ''ranges'' \<noteq> None\<rparr>;
          w = new_tokenizer_wrapper (bt_new b)
      in if opts ''presegmented'' \<noteq> None
         then Segmented tz \<lparr>ps_text = [], ps_new_document = True, ps_document_id = [], ps_newlines = 2, ps_sentence_id = 1, ps_tokenizer = w\<rparr>
         else Wrapped tz w)"

definition new_joint_tokenizer :: "'t \<Rightarrow> 't joint_tokenizer" where
  "new_joint_tokenizer t = \<lparr>jt_tokenizer = t, jt_text = [], jt_new_document = True, jt_document_id = [], jt_sentences = []\<rparr>"

definition new_tokenizer ::
  "files \<Rightarrow> (string \<Rightarrow> 'c option) \<Rightarrow> 'c \<Rightarrow> ('t base_tokenizer \<times> multiword_splitter) option \<Rightarrow> unicode_tables \<Rightarrow> string \<Rightarrow>
   ('t, 'c) model_tokenizer option option" where
  "new_tokenizer files number half factory u options =
     (case factory of None \<Rightarrow> Some None
      | Some (b, splitter) \<Rightarrow>
        map_option (\<lambda>parsed.
          (case parsed of Inl _ \<Rightarrow> None
           | Inr opts \<Rightarrow>
             (let lt = new_line_tokenizer b u (Some splitter) opts in
              if opts ''joint_with_parsing'' \<noteq> None
              then map_option (\<lambda>jo. Joint_Parsing jo (new_joint_tokenizer lt)) (new_joint_options number half opts)
              else Some (Plain_Tokenizer lt)))) (nv_parse files options))"

section \<open>Tokenizing with a model keeps the text\<close>

lemma drain_embed:
  assumes next': "\<And>r. next' (f r) = map_option (map_prod id f) (next r)"
  shows "drain next r = Some x \<Longrightarrow> drain next' (f r) = Some x"
proof -
  assume d: "drain next r = Some x"
  show ?thesis
  proof (rule drain.raw_induct [OF _ d, where P = "\<lambda>nx r x. nx = next \<longrightarrow> drain next' (f r) = Some x", THEN mp], goal_cases)
    case (1 dr nx r y)
    show ?case
    proof
      assume nx: "nx = next"
      obtain outcome r' where n: "next r = Some (outcome, r')" using 1(2) nx by (cases "next r") auto
      then have n': "next' (f r) = Some (outcome, f r')" by (simp add: next')
      show "drain next' (f r) = Some y"
      proof (cases outcome)
        case (Inr found)
        show ?thesis
        proof (cases found)
          case (Some s)
          then obtain ss e where d: "dr next r' = Some (ss, e)" "y = (s # ss, e)"
            using 1(2) n nx Inr by (auto simp: Option.bind_eq_Some_conv)
          then have "drain next' (f r') = Some (ss, e)" using 1(1) by blast
          then show ?thesis using d(2) n' Inr Some by (subst drain.simps) simp
        qed (use 1(2) n nx n' Inr in \<open>subst drain.simps, simp\<close>)
      qed (use 1(2) n nx n' in \<open>subst drain.simps, simp\<close>)
    qed
  qed simp
qed

definition gru_base :: "gru_model \<Rightarrow> gru_tokenizer base_tokenizer" where
  "gru_base g = \<lparr>bt_new = fresh_gru, bt_put = gru_set_text, bt_next = gru_next_sentence g\<rparr>"

text \<open>
  C3: Tokenizing loses nothing. A model whose tokenizer is a network tokenizer without spaces in
  tokens and whose splitter was loaded gives, for options that ask neither for normalized spaces
  nor for presegmented input nor for joint parsing, a tokenizer whose loop over the sentences of a
  text ends without an error, and the plain texts of the sentences one after another are the
  text; there is no sentence only when the text has nothing but spaces. The network must have a window
  of at least 10 characters, as the trainer sees to, recognised URLs must have no spaces, and
  sentences less than \<open>2 ^ 63\<close> words.
\<close>

theorem model_tokenizer_keeps_text:
  assumes "strict_model g" "load_splitter decompress bytes = Some (sp, left)" "nv_parse files options = Some (Inr opts)"
    "opts ''normalized_spaces'' = None" "opts ''presegmented'' = None" "opts ''joint_with_parsing'' = None"
  shows "\<exists>tok ss. new_tokenizer files number half (Some (gru_base g, sp)) (gm_tables g) options = Some (Some tok) \<and>
    drain (mt_next (gru_base g) cost) (mt_put (gru_base g) t tok) = Some (ss, None) \<and>
    ((\<forall>s \<in> set ss. length (s_words s) < 2 ^ 63) \<longrightarrow>
      (if ss = [] then snd (leading_spaces (gm_tables g) t) = [] else concat (map (write_plaintext False start) ss) = t))"
proof -
  let ?opts = "gru_options g (Some sp) (opts ''ranges'' \<noteq> None)"
  let ?w = "tw_set_text gru_set_text (gm_tables g) t (new_tokenizer_wrapper fresh_gru)"
  have "Some sp = None \<or> (\<exists>decompress bytes spl left. Some sp = Some spl \<and> load_splitter decompress bytes = Some (spl, left))"
    using assms(2) by blast
  from tokenizer_keeps_text [OF assms(1) this, where t = t and ranges = "opts ''ranges'' \<noteq> None" and start = start]
  obtain ss where ss: "drain (tw_next_sentence (gru_next_sentence g) ?opts) ?w = Some (ss, None)"
    "(\<forall>s \<in> set ss. length (s_words s) < 2 ^ 63) \<longrightarrow>
      (if ss = [] then snd (leading_spaces (gm_tables g) t) = [] else concat (map (write_plaintext False start) ss) = t)"
    by (elim exE conjE) (metis (no_types, lifting))
  let ?f = "\<lambda>w. Plain_Tokenizer (Wrapped ?opts w)"
  have "mt_next (gru_base g) cost (?f w) = map_option (map_prod id ?f) (tw_next_sentence (gru_next_sentence g) ?opts w)" for w
    by (simp add: gru_base_def option.map_comp comp_def prod.map_comp id_def)
  then have "drain (mt_next (gru_base g) cost) (?f ?w) = Some (ss, None)"
    using drain_embed [of "mt_next (gru_base g) cost" ?f] ss(1) by blast
  moreover have "new_tokenizer files number half (Some (gru_base g, sp)) (gm_tables g) options =
      Some (Some (?f (new_tokenizer_wrapper fresh_gru)))"
    using assms(3-6) by (simp add: new_tokenizer_def new_line_tokenizer_def Let_def gru_base_def gru_options_def)
  moreover have "mt_put (gru_base g) t (?f (new_tokenizer_wrapper fresh_gru)) = ?f ?w" by (simp add: gru_base_def gru_options_def)
  ultimately show ?thesis using ss(2) by auto
qed

lemma model_tokenizer_keeps_text_witness:
  "\<forall>files number half cost. \<exists>tok ss. new_tokenizer files number (half :: int) (Some (gru_base (dot_model space_tables), sample_splitter)) space_tables [] =
      Some (Some tok) \<and>
    drain (mt_next (gru_base (dot_model space_tables)) cost) (mt_put (gru_base (dot_model space_tables)) ''adu  b.'' tok) = Some (ss, None)"
proof (intro allI)
  fix files number and half :: int and cost
  have "gm_tables (dot_model space_tables) = space_tables" by (simp add: dot_model_def)
  note tables = this
  show "\<exists>tok ss. new_tokenizer files number half (Some (gru_base (dot_model space_tables), sample_splitter)) space_tables [] =
      Some (Some tok) \<and>
    drain (mt_next (gru_base (dot_model space_tables)) cost) (mt_put (gru_base (dot_model space_tables)) ''adu  b.'' tok) = Some (ss, None)"
    using model_tokenizer_keeps_text [OF dot_model_strict load_sample no_options, of files number half cost "''adu  b.''" True] unfolding tables
    by blast
qed

end
