(* ===== verification/Spec2Isabelle.thy ===== *)
theory Spec2Isabelle
  imports Utf16 Formats Oracles Perceptron_Tagger Morpho_Guesser Evaluation Model_File Model_Tokenizer
begin

text \<open>
  UDPipe tokenizes text, tags and parses the sentences it finds and writes them in one of several
  formats; \<open>src/\<close> below is the directory \<open>src/src\<close> of the repository. Its parts and how they meet:

  \<^item> A sentence (\<open>src/sentence\<close>) is a vector of words behind a technical root, with multiword
    tokens, empty nodes and comments. Readers turn text into sentences, writers turn them back.
  \<^item> A model (\<open>src/model\<close>) holds a tokenizer, taggers and a parser. The pipeline reads sentences from
    an input, has the model tag and parse them and writes them; the evaluator compares them with gold.
  \<^item> The tokenizer (\<open>src/tokenizer\<close>, \<open>src/morphodita/tokenizer\<close>) cuts text into sentences and tokens,
    and a splitter cuts multiword tokens into words.
  \<^item> The parser (\<open>src/parsito\<close>) moves words between a stack and a buffer until all of them have a
    head, choosing each move by a neural network.
  \<^item> The trainer (\<open>src/trainer\<close>) prepares data for the learning parts and writes the model file.

  The theories, bottom up, each with the files it models. A record has a class's state, a definition
  has the name of the function it stands for, and a method becomes a function from state to state.

  \<^item> \<open>Prelude\<close>: characters, results with errors, shared lemmas. \<open>Text_Utils\<close>: \<open>src/utils\<close> (\<open>split\<close>,
    \<open>parse_int\<close>, \<open>getpara\<close>, \<open>xml_encoded\<close>). \<open>Utf8\<close>, \<open>Utf16\<close>: \<open>src/unilib\<close>. \<open>Binary\<close>: the binary
    encoder, its two decoders and \<open>vli.h\<close>. \<open>Named_Values\<close>: option strings, \<open>named_values.h\<close>.
  \<^item> \<open>Token\<close>, \<open>Sentence\<close>: \<open>src/sentence/token\<close>, \<open>sentence\<close>. \<open>Links\<close>: heads and children, a contract
    (locale \<open>linked_nodes\<close>) that the words of a sentence and the nodes of a parser tree both
    interpret.
  \<^item> \<open>Conllu\<close>, \<open>Line_Formats\<close>, \<open>Presegmented\<close>, \<open>Formats\<close>: \<open>input_format.cpp\<close> and \<open>output_format.cpp\<close>.
    The contracts for readers are the locales \<open>sentence_reader\<close> and \<open>line_tokenizer\<close>.
  \<^item> \<open>Dependency_Tree\<close>, \<open>Transitions\<close>, \<open>Extractors\<close>, \<open>Embedding\<close>, \<open>Parser\<close>, \<open>Oracles\<close>, \<open>Beam_Search\<close>:
    \<open>src/parsito\<close> without the network.
  \<^item> \<open>Multiword_Splitter\<close>, \<open>Gru_Tokenizer\<close>, \<open>Tokenizer\<close>: \<open>src/tokenizer\<close> and the GRU tokenizer. The
    locale \<open>piece_tokenizer\<close> is what the wrapper needs of the tokenizer below it.
  \<^item> \<open>Word_Analysis\<close>, \<open>Udpipe_Model\<close>, \<open>Model_Tokenizer\<close>, \<open>Joint_Tokenizer\<close>, \<open>Model_File\<close>: the model
    (\<open>src/model/model_morphodita_parsito.cpp\<close>, \<open>model.cpp\<close>) and what the trainer encodes for it.
  \<^item> \<open>Viterbi\<close>, \<open>Feature_Sequences\<close>, \<open>Conllu_Features\<close>, \<open>Perceptron_Tagger\<close>: the tagger of
    \<open>src/morphodita/tagger\<close>. What the decoder needs of the scores is the locale \<open>tag_scores\<close>.
  \<^item> \<open>Hash_Map\<close>, \<open>Morpho_Guesser\<close>: the persistent hash maps of \<open>src/morphodita/morpho\<close> and, over
    them, the statistical guesser with its table of tags.
  \<^item> \<open>Pipeline\<close>, \<open>Alignment\<close>, \<open>Evaluation\<close>: \<open>pipeline.cpp\<close> and \<open>evaluator.cpp\<close>.

  What the lemmas show, by group. Data: what is written is read back (CoNLL-U, horizontal and
  vertical text, MISC fields, binary strings, integers, embeddings, model files),
  the EPE output is JSON that stands for the sentence, and an invariant holds of every sentence that a
  reader returns or an operation changes. Parser: every run of
  transitions ends, none gets stuck, and what it ends in is a dependency tree; the two searches
  return such a tree for any network, and the static oracle rebuilds a projective tree. Tokenizer: nothing of the text is lost. Model: tagging
  decodes what training encoded, parsing a document ends without an error and gives dependency
  trees over its words. Tagger: the decoder finds a sequence of tags of the highest score and stays
  within the memory it allocates, its cache of features is invisible, and the affixes it looks at
  are those of the form. Morphology: a hash map that was built, written and loaded again finds each
  of its keys, and the guesser read from a file guesses what its rules say. Evaluator: alignments are longest common subsequences and end, data
  evaluated against itself gets full scores. Errors: where the code loops for ever, throws, or drops data, a
  theorem or a lemma says on which inputs, and a finding names the line.

  How the code's behaviour appears. A fallible function gives \<open>Inl\<close> of the message the code reports
  or \<open>Inr\<close> of its value. An outer \<open>None\<close> is a run that does not return or leaves what C++ defines
  (a failed assertion, an index out of range); no theorem assumes such a run away: each either
  shows that the result is \<open>Some\<close> or says when it is not. Loops are recursive functions with a
  termination proof; those that may run for ever are partial functions into options, and the
  model uses no fuel (the JSON reader that specifies the EPE output has a bound on its depth). Integers have the width of the code where it can be reached: \<open>parse_int\<close> checks the
  range of \<open>int\<close>, counters of newlines and sentences wrap at 32 bits, the nodes of the tagger are counted
  in 32 bits and indexed by \<open>int\<close>, bytes of a model file are signed where the code has a \<open>char\<close>, positions
  in strings are \<open>size_t\<close>, so some theorems ask for texts shorter than \<open>2 ^ 63\<close>. Exceptions, where
  only strings of \<open>2 ^ 32\<close> bytes make a difference, are the loops of \<open>token.cpp\<close> over escaped spaces, whose
  counter is \<open>unsigned\<close> there and unbounded here. Floating-point numbers are
  modelled in three ways: as their bits where they are stored (embeddings), as exact fractions in
  the scores of the evaluator, and as elements of a linear order or an ordered group in the costs of
  the parser, where only comparisons and sums matter. Memory reuse (caches of work spaces, \<open>string_piece\<close>
  into a buffer) is modelled as the values it holds.

  Parameters, each an argument of the definitions that use it: the neural networks, which give one
  outcome for each transition or character; the morphology of MorphoDiTa, which lists the
  analyses of a form; the maps of the tagger from elementary features and from keys to numbers; the generated recognizer of
  URLs and the generated tables of Unicode categories and cases; the decompressor; files that an
  option string names.

  Not modelled, and why: the networks and their training (\<open>src/parsito/network\<close>, the GRU cells,
  \<open>parser_nn_trainer.cpp\<close>) compute with floats, about which the kernel has no library here. The
  dictionaries of the morphology of MorphoDiTa (\<open>src/morphodita/morpho\<close>) and the morphologies of
  single languages, the features its other languages use and the training of its taggers are not
  modelled. Generated code (Ragel tokenizers, Unicode tables), third-party code (the REST server's
  libraries, LZMA in \<open>src/utils/compressor*.cpp\<close>), the bindings and the releases are no core logic of
  the program. Reading and writing streams, memory and threads are outside the model.
\<close>

end
